(* ===== verification/CPrelude.thy ===== *)
theory CPrelude
  imports Main "HOL-Library.Word"
begin

text \<open>
  The vocabulary shared by every component: the error codes the C functions return, the
  outcome of a call (returned a value, returned an error code, or stopped in a failed
  assertion or a NULL dereference), the allocator as a sequence of malloc results, the
  wrap-around of an \<^verbatim>\<open>int8_t\<close> store, iteration callbacks, and the contracts a client's
  comparison function is expected to keep, with lists sorted by such a function.
\<close>

section \<open>Error codes and outcomes\<close>

text \<open>
  The codes the library hands out (\<^verbatim>\<open>EGENERIC\<close> is the \<open>-1\<close> some functions start
  from), and any code a client callback returns.
\<close>

datatype errno = ENOMEM | EEXIST | ENOENT | EIO | ENOSPC | EILSEQ | E2BIG | EGENERIC
  | ECALLBACK int

text \<open>
  \<open>Done r s\<close>: the call returned 0 with result \<open>r\<close>. \<open>Fail e s\<close>: it returned the code \<open>e\<close>.
  \<open>s\<close> is the state it left behind, also on an error. \<open>Abort\<close>: a failed \<^verbatim>\<open>assert\<close>, a NULL
  or wild pointer dereference, or a call through a NULL function pointer.
\<close>

datatype ('r, 's) outcome = Done 'r 's | Fail errno 's | Abort

type_synonym ('s, 'r) prog = "'s \<Rightarrow> ('r, 's) outcome"

fun outcome_state :: "('r, 's) outcome \<Rightarrow> 's option" where
  "outcome_state (Done r s) = Some s"
| "outcome_state (Fail e s) = Some s"
| "outcome_state Abort = None"

text \<open>Go on with \<open>f\<close> after a call that succeeded; an error or a stop is passed on.\<close>

definition andthen :: "('r, 's) outcome \<Rightarrow> ('r \<Rightarrow> ('s, 'q) prog) \<Rightarrow> ('q, 's) outcome" where
  "andthen res f = (case res of Done r s \<Rightarrow> f r s | Fail e s \<Rightarrow> Fail e s | Abort \<Rightarrow> Abort)"

lemma andthen_simps [simp]:
  "andthen (Done r s) f = f r s" "andthen (Fail e s) f = Fail e s" "andthen Abort f = Abort"
  by (simp_all add: andthen_def)

lemma andthen_Done: "andthen res f = Done q t \<longleftrightarrow> (\<exists>r s. res = Done r s \<and> f r s = Done q t)"
  by (cases res) auto

section \<open>The allocator\<close>

text \<open>
  The results of the malloc calls to come: \<open>False\<close> for a NULL return. Past the end of the
  list every call succeeds, so \<open>[]\<close> is a machine that never runs out of memory.
\<close>

type_synonym allocator = "bool list"

fun malloc :: "allocator \<Rightarrow> bool \<times> allocator" where
  "malloc [] = (True, [])"
| "malloc (b # m) = (b, m)"

definition never_fails :: "allocator \<Rightarrow> bool" where
  "never_fails m \<longleftrightarrow> False \<notin> set m"

lemma never_fails_Nil [simp]: "never_fails []"
  by (simp add: never_fails_def)

lemma malloc_never_fails: "never_fails m \<Longrightarrow> malloc m = (ok, m') \<Longrightarrow> ok \<and> never_fails m'"
  by (cases m) (auto simp: never_fails_def)

lemma malloc_ok: "never_fails m \<Longrightarrow> \<exists>m'. malloc m = (True, m') \<and> never_fails m'"
  by (cases m) (auto simp: never_fails_def)

text \<open>An object of the library with the allocator and the client's world around it.\<close>

type_synonym ('d, 'w) cstate = "'d \<times> allocator \<times> 'w"

section \<open>Storing into an int8\_t\<close>

definition int8 :: "int \<Rightarrow> int" where
  "int8 x = (x + 128) mod 256 - 128"

lemma int8_id [simp]: "-128 \<le> x \<Longrightarrow> x < 128 \<Longrightarrow> int8 x = x"
  by (simp add: int8_def)

lemma int8_range: "-128 \<le> int8 x \<and> int8 x < 128"
  by (simp add: int8_def)

section \<open>Iteration callbacks\<close>

text \<open>
  An iteration callback gets an element and the context, and returns whether to stop, or an
  error code; the context it leaves is part of the outcome.
\<close>

type_synonym ('a, 'c) callback = "'a \<Rightarrow> 'c \<Rightarrow> (bool, 'c) outcome"

text \<open>Iteration over a plain list: the specification of every iterator of the library.\<close>

fun iterate_list :: "('a, 'c) callback \<Rightarrow> 'a list \<Rightarrow> ('c, bool) prog" where
  "iterate_list cb [] c = Done False c"
| "iterate_list cb (x # xs) c =
     (case cb x c of
        Done stop c' \<Rightarrow> if stop then Done True c' else iterate_list cb xs c'
      | Fail e c' \<Rightarrow> Fail e c'
      | Abort \<Rightarrow> Abort)"

lemma iterate_list_append:
  "iterate_list cb (xs @ ys) c =
     (case iterate_list cb xs c of
        Done stop c' \<Rightarrow> if stop then Done True c' else iterate_list cb ys c'
      | Fail e c' \<Rightarrow> Fail e c'
      | Abort \<Rightarrow> Abort)"
  by (induction xs arbitrary: c) (auto split: outcome.split)

text \<open>An iteration whose callback never stops and never fails is a fold.\<close>

lemma iterate_list_fold:
  assumes "\<And>x c. x \<in> set xs \<Longrightarrow> cb x c = Done False (f x c)"
  shows "iterate_list cb xs c = Done False (fold f xs c)"
  using assms by (induction xs arbitrary: c) auto

section \<open>Comparison functions\<close>

text \<open>What the linked list and the hash table need of a comparison: equal keys are an equivalence.\<close>

definition equiv_cmp :: "('a \<Rightarrow> 'a \<Rightarrow> int) \<Rightarrow> bool" where
  "equiv_cmp c \<longleftrightarrow> (\<forall>x. c x x = 0) \<and> (\<forall>x y. c x y = 0 \<longrightarrow> c y x = 0)
     \<and> (\<forall>x y z. c x y = 0 \<longrightarrow> c y z = 0 \<longrightarrow> c x z = 0)"

text \<open>What the trees need: the sign of the result is a total preorder.\<close>

definition total_cmp :: "('a \<Rightarrow> 'a \<Rightarrow> int) \<Rightarrow> bool" where
  "total_cmp c \<longleftrightarrow> (\<forall>x y. c x y < 0 \<longleftrightarrow> 0 < c y x)
     \<and> (\<forall>x y z. c x y \<le> 0 \<longrightarrow> c y z \<le> 0 \<longrightarrow> c x z \<le> 0)"

named_theorems cmp_rules \<open>consequences of the comparison contracts\<close>

lemma total_cmp_gt [cmp_rules]: "total_cmp c \<Longrightarrow> 0 < c x y \<longleftrightarrow> c y x < 0"
  by (simp add: total_cmp_def)

lemma total_cmp_refl [cmp_rules]: "total_cmp c \<Longrightarrow> c x x = 0"
  using total_cmp_gt [of c x x] by linarith

lemma total_cmp_sym: "total_cmp c \<Longrightarrow> c x y = 0 \<longleftrightarrow> c y x = 0"
  using total_cmp_gt [of c x y] total_cmp_gt [of c y x] by linarith

lemma total_cmp_trans: "total_cmp c \<Longrightarrow> c x y \<le> 0 \<Longrightarrow> c y z \<le> 0 \<Longrightarrow> c x z \<le> 0"
  unfolding total_cmp_def by blast

lemma total_cmp_less_trans:
  assumes "total_cmp c" "c x y < 0" "c y z \<le> 0"
  shows "c x z < 0"
proof (rule ccontr)
  assume "\<not> c x z < 0"
  then have "c z x \<le> 0" using total_cmp_gt [OF assms(1), of z x] by linarith
  with assms(3) have "c y x \<le> 0" by (rule total_cmp_trans [OF assms(1)])
  then show False using total_cmp_gt [OF assms(1), of y x] assms(2) by linarith
qed

lemma total_cmp_less_trans2:
  assumes "total_cmp c" "c x y \<le> 0" "c y z < 0"
  shows "c x z < 0"
proof (rule ccontr)
  assume "\<not> c x z < 0"
  then have "c z x \<le> 0" using total_cmp_gt [OF assms(1), of z x] by linarith
  then have "c z y \<le> 0" using assms(2) by (rule total_cmp_trans [OF assms(1)])
  then show False using total_cmp_gt [OF assms(1), of z y] assms(3) by linarith
qed

lemma total_cmp_int: "total_cmp (\<lambda>x y :: int. x - y)"
  by (auto simp: total_cmp_def)

lemma total_cmp_equiv: "total_cmp c \<Longrightarrow> equiv_cmp c"
  unfolding equiv_cmp_def
proof (intro conjI allI impI)
  fix x y z assume c: "total_cmp c"
  show "c x x = 0" using c by (rule total_cmp_refl)
  show "c y x = 0" if "c x y = 0" using total_cmp_sym [OF c] that by simp
  show "c x z = 0" if xy: "c x y = 0" and yz: "c y z = 0"
  proof -
    have "c x z \<le> 0" using total_cmp_trans [OF c, of x y z] xy yz by simp
    moreover have "c y x = 0" "c z y = 0" using total_cmp_sym [OF c] xy yz by simp_all
    then have "c z x \<le> 0" using total_cmp_trans [OF c, of z y x] by simp
    then have "\<not> c x z < 0" using total_cmp_gt [OF c, of z x] by simp
    ultimately show ?thesis by simp
  qed
qed

lemma equiv_cmp_refl [cmp_rules]: "equiv_cmp c \<Longrightarrow> c x x = 0"
  by (simp add: equiv_cmp_def)

lemma equiv_cmp_sym: "equiv_cmp c \<Longrightarrow> c x y = 0 \<longleftrightarrow> c y x = 0"
  unfolding equiv_cmp_def by blast

lemma equiv_cmp_trans: "equiv_cmp c \<Longrightarrow> c x y = 0 \<Longrightarrow> c y z = 0 \<Longrightarrow> c x z = 0"
  unfolding equiv_cmp_def by blast

lemma equiv_cmp_cong: "equiv_cmp c \<Longrightarrow> c x y = 0 \<Longrightarrow> c x z = 0 \<longleftrightarrow> c y z = 0"
  by (meson equiv_cmp_sym equiv_cmp_trans)

section \<open>Lists of pairwise different keys, and sorted lists\<close>

abbreviation distinct_by :: "('a \<Rightarrow> 'a \<Rightarrow> int) \<Rightarrow> 'a list \<Rightarrow> bool" where
  "distinct_by c \<equiv> sorted_wrt (\<lambda>x y. c x y \<noteq> 0)"

abbreviation csorted :: "('a \<Rightarrow> 'a \<Rightarrow> int) \<Rightarrow> 'a list \<Rightarrow> bool" where
  "csorted c \<equiv> sorted_wrt (\<lambda>x y. c x y < 0)"

lemma csorted_distinct_by: "csorted c xs \<Longrightarrow> distinct_by c xs"
  by (erule sorted_wrt_mono_rel [rotated]) simp

fun ins_by :: "('a \<Rightarrow> 'a \<Rightarrow> int) \<Rightarrow> 'a \<Rightarrow> 'a list \<Rightarrow> 'a list" where
  "ins_by c x [] = [x]"
| "ins_by c x (y # ys) = (if c x y < 0 then x # y # ys else y # ins_by c x ys)"

fun del_by :: "('a \<Rightarrow> 'a \<Rightarrow> int) \<Rightarrow> 'a \<Rightarrow> 'a list \<Rightarrow> 'a list" where
  "del_by c x [] = []"
| "del_by c x (y # ys) = (if c x y = 0 then ys else y # del_by c x ys)"

lemma set_ins_by [simp]: "set (ins_by c x xs) = insert x (set xs)"
  by (induction xs) auto

lemma length_ins_by [simp]: "length (ins_by c x xs) = Suc (length xs)"
  by (induction xs) auto

lemma ins_by_neq_Nil [simp]: "ins_by c x xs \<noteq> []"
  by (cases xs) auto

lemma csorted_ins_by:
  assumes "total_cmp c" "csorted c xs" "\<forall>y\<in>set xs. c x y \<noteq> 0"
  shows "csorted c (ins_by c x xs)"
  using assms(2,3)
proof (induction xs)
  case (Cons y ys)
  show ?case
  proof (cases "c x y < 0")
    case True
    with Cons.prems show ?thesis
      using total_cmp_less_trans [OF assms(1), of x y] by force
  next
    case False
    with Cons.prems have "0 < c x y" by simp
    then have "c y x < 0" using total_cmp_gt [OF assms(1)] by simp
    with False Cons show ?thesis by simp
  qed
qed simp

lemma ins_by_left:
  assumes "total_cmp c" "c x a < 0"
  shows "ins_by c x (xs @ a # ys) = ins_by c x xs @ a # ys"
  using assms by (induction xs) auto

lemma ins_by_right:
  assumes "total_cmp c" "csorted c (xs @ a # ys)" "0 < c x a"
  shows "ins_by c x (xs @ a # ys) = xs @ a # ins_by c x ys"
  using assms(2)
proof (induction xs)
  case Nil
  with assms(3) show ?case by simp
next
  case (Cons b bs)
  then have "c b a < 0" by simp
  moreover have "c a x < 0" using total_cmp_gt [OF assms(1), of x a] assms(3) by simp
  ultimately have "c b x < 0" using total_cmp_less_trans [OF assms(1), of b a x] by simp
  then have "\<not> c x b < 0" using total_cmp_gt [OF assms(1), of x b] by simp
  with Cons show ?case by simp
qed

lemma del_by_id: "\<forall>y\<in>set xs. c x y \<noteq> 0 \<Longrightarrow> del_by c x xs = xs"
  by (induction xs) auto

lemma del_by_append:
  "del_by c x (xs @ ys) =
     (if \<exists>y\<in>set xs. c x y = 0 then del_by c x xs @ ys else xs @ del_by c x ys)"
  by (induction xs) auto

lemma set_del_by_subset: "set (del_by c x xs) \<subseteq> set xs"
  by (induction xs) auto

lemma length_del_by: "y \<in> set xs \<Longrightarrow> c x y = 0 \<Longrightarrow> length (del_by c x xs) = length xs - 1"
proof (induction xs)
  case (Cons a xs)
  then show ?case by (cases xs) auto
qed simp

lemma distinct_by_del_by: "distinct_by c xs \<Longrightarrow> distinct_by c (del_by c x xs)"
proof (induction xs)
  case (Cons a xs)
  then show ?case using set_del_by_subset [of c x xs] by auto
qed simp

lemma csorted_del_by: "csorted c xs \<Longrightarrow> csorted c (del_by c x xs)"
proof (induction xs)
  case (Cons y ys)
  then show ?case using set_del_by_subset [of c x ys] by auto
qed simp

lemma set_del_by:
  assumes "equiv_cmp c" "distinct_by c xs"
  shows "set (del_by c x xs) = set xs - {y. c x y = 0}"
  using assms(2)
proof (induction xs)
  case (Cons y ys)
  show ?case
  proof (cases "c x y = 0")
    case True
    have "c x z \<noteq> 0" if "z \<in> set ys" for z
    proof
      assume "c x z = 0"
      with True have "c y z = 0" using equiv_cmp_cong [OF assms(1) True] by simp
      with Cons.prems that show False by simp
    qed
    with True show ?thesis by auto
  next
    case False
    with Cons show ?thesis by auto
  qed
qed simp

lemma distinct_by_inj:
  assumes "equiv_cmp c" "distinct_by c xs" "y \<in> set xs" "z \<in> set xs" "c y z = 0"
  shows "y = z"
  using assms(2-5)
proof (induction xs)
  case (Cons a as)
  then have "c a y \<noteq> 0" if "y \<in> set as" using that by simp
  moreover from Cons have "c a z \<noteq> 0" if "z \<in> set as" using that by simp
  moreover have "c z y = 0" using Cons.prems equiv_cmp_sym [OF assms(1)] by blast
  ultimately show ?case using Cons by auto
qed simp

lemma distinct_by_distinct: "equiv_cmp c \<Longrightarrow> distinct_by c xs \<Longrightarrow> distinct xs"
  by (induction xs) (auto simp: equiv_cmp_refl)

lemma csorted_all_less:
  assumes "total_cmp c" "csorted c (xs @ a # ys)" "0 \<le> c x a" "y \<in> set xs"
  shows "0 < c x y"
proof -
  from assms(2,4) have "c y a < 0" by (simp add: sorted_wrt_append)
  moreover have "c a x \<le> 0" using total_cmp_gt [OF assms(1), of a x] assms(3) by linarith
  ultimately have "c y x < 0" by (rule total_cmp_less_trans [OF assms(1)])
  then show ?thesis using total_cmp_gt [OF assms(1), of x y] by simp
qed

lemma csorted_all_greater:
  assumes "total_cmp c" "csorted c (xs @ a # ys)" "c x a \<le> 0" "y \<in> set ys"
  shows "c x y < 0"
proof -
  from assms(2,4) have "c a y < 0" by (simp add: sorted_wrt_append)
  with assms(3) show ?thesis by (rule total_cmp_less_trans2 [OF assms(1)])
qed

lemma find_by_append:
  "List.find P (xs @ ys) = (case List.find P xs of None \<Rightarrow> List.find P ys | Some y \<Rightarrow> Some y)"
  by (induction xs) auto

end
