(* ===== verification/DictSpec.thy ===== *)
theory DictSpec
  imports CPrelude
begin

text \<open>
  The contract the search structures of the library share: the linked list, the hash table and
  the AVL tree are all sets of elements, no two of which compare equal, with the operations
  insert, find and remove. The specification is a machine over a plain list; the locales
  state the laws a structure has to satisfy, and the refinement theorem says that any
  sequence of calls on the structure gets the replies of the specification machine.
\<close>

section \<open>The specification machine\<close>

datatype 'a dict_op = Insert 'a | Remove 'a | Find 'a

datatype 'a dict_reply = Replied | Found 'a | Refused errno

fun spec_exec :: "('a \<Rightarrow> 'a \<Rightarrow> bool) \<Rightarrow> 'a dict_op \<Rightarrow> 'a list \<Rightarrow> 'a dict_reply \<times> 'a list" where
  "spec_exec same (Insert x) xs =
     (if \<exists>y\<in>set xs. same x y then (Refused EEXIST, xs) else (Replied, x # xs))"
| "spec_exec same (Remove x) xs =
     (if \<exists>y\<in>set xs. same x y then (Replied, filter (\<lambda>y. \<not> same x y) xs)
      else (Refused ENOENT, xs))"
| "spec_exec same (Find x) xs =
     (case List.find (same x) xs of
        None \<Rightarrow> (Refused ENOENT, xs)
      | Some y \<Rightarrow> (Found y, xs))"

fun spec_run :: "('a \<Rightarrow> 'a \<Rightarrow> bool) \<Rightarrow> 'a dict_op list \<Rightarrow> 'a list \<Rightarrow> 'a dict_reply list \<times> 'a list" where
  "spec_run same [] xs = ([], xs)"
| "spec_run same (op # ops) xs =
     (let (r, ys) = spec_exec same op xs; (rs, zs) = spec_run same ops ys in (r # rs, zs))"

lemma spec_run_distinct:
  assumes "\<And>x. same x x"
  shows "distinct xs \<Longrightarrow> distinct (snd (spec_run same ops xs))"
proof (induction ops arbitrary: xs)
  case (Cons op ops)
  have "distinct (snd (spec_exec same op xs))"
    using Cons.prems assms by (cases op) (auto split: option.splits)
  with Cons.IH show ?case by (simp add: split_beta)
qed simp

section \<open>Running calls on a structure\<close>

fun reply_of :: "('r \<Rightarrow> 'a dict_reply) \<Rightarrow> ('r, 's) outcome \<Rightarrow> ('a dict_reply \<times> 's) option" where
  "reply_of f (Done r s) = Some (f r, s)"
| "reply_of f (Fail e s) = Some (Refused e, s)"
| "reply_of f Abort = None"

fun dict_exec :: "('a \<Rightarrow> ('s, unit) prog) \<Rightarrow> ('a \<Rightarrow> ('s, unit) prog) \<Rightarrow> ('a \<Rightarrow> ('s, 'a) prog)
    \<Rightarrow> 'a dict_op \<Rightarrow> 's \<Rightarrow> ('a dict_reply \<times> 's) option" where
  "dict_exec ins rem fnd (Insert x) s = reply_of (\<lambda>_. Replied) (ins x s)"
| "dict_exec ins rem fnd (Remove x) s = reply_of (\<lambda>_. Replied) (rem x s)"
| "dict_exec ins rem fnd (Find x) s = reply_of Found (fnd x s)"

fun dict_run :: "('a \<Rightarrow> ('s, unit) prog) \<Rightarrow> ('a \<Rightarrow> ('s, unit) prog) \<Rightarrow> ('a \<Rightarrow> ('s, 'a) prog)
    \<Rightarrow> 'a dict_op list \<Rightarrow> 's \<Rightarrow> ('a dict_reply list \<times> 's) option" where
  "dict_run ins rem fnd [] s = Some ([], s)"
| "dict_run ins rem fnd (op # ops) s =
     (case dict_exec ins rem fnd op s of
        None \<Rightarrow> None
      | Some (r, s') \<Rightarrow>
          (case dict_run ins rem fnd ops s' of
             None \<Rightarrow> None
           | Some (rs, s'') \<Rightarrow> Some (r # rs, s'')))"

section \<open>The interface\<close>

text \<open>The allocator of a structure's state never returns NULL.\<close>

definition reliable_mem :: "('d, 'w) cstate \<Rightarrow> bool" where
  "reliable_mem st \<longleftrightarrow> never_fails (fst (snd st))"

lemma reliable_mem_simp [simp]: "reliable_mem (d, m, w) \<longleftrightarrow> never_fails m"
  by (simp add: reliable_mem_def)

text \<open>What every call keeps: the invariant, the comparison, and an allocator that never fails.\<close>

definition keeps :: "('s \<Rightarrow> bool) \<Rightarrow> ('s \<Rightarrow> 'a \<Rightarrow> 'a \<Rightarrow> bool) \<Rightarrow> ('s \<Rightarrow> bool) \<Rightarrow> 's \<Rightarrow> 's \<Rightarrow> bool" where
  "keeps good same reliable s s' \<longleftrightarrow> good s' \<and> same s' = same s \<and> (reliable s \<longrightarrow> reliable s')"

lemma keepsI [intro?]:
  "good s' \<Longrightarrow> same s' = same s \<Longrightarrow> (reliable s \<Longrightarrow> reliable s') \<Longrightarrow> keeps good same reliable s s'"
  by (simp add: keeps_def)

lemma keepsD [dest]:
  assumes "keeps good same reliable s s'"
  shows "good s'" and "same s' = same s" and "reliable s \<Longrightarrow> reliable s'"
  using assms by (simp_all add: keeps_def)

text \<open>A structure that can be searched and added to: all the visited sets need.\<close>

locale lookup_insert =
  fixes contents :: "'s \<Rightarrow> 'a set"
    and good :: "'s \<Rightarrow> bool"
    and same :: "'s \<Rightarrow> 'a \<Rightarrow> 'a \<Rightarrow> bool"
    and reliable :: "'s \<Rightarrow> bool"
    and ins :: "'a \<Rightarrow> ('s, unit) prog"
    and fnd :: "'a \<Rightarrow> ('s, 'a) prog"
  assumes unique: "good s \<Longrightarrow> y \<in> contents s \<Longrightarrow> z \<in> contents s \<Longrightarrow> same s x y \<Longrightarrow> same s x z \<Longrightarrow> y = z"
    and refl: "good s \<Longrightarrow> same s x x"
    and find_hit: "good s \<Longrightarrow> y \<in> contents s \<Longrightarrow> same s x y \<Longrightarrow> fnd x s = Done y s"
    and find_miss: "good s \<Longrightarrow> (\<forall>y\<in>contents s. \<not> same s x y) \<Longrightarrow> fnd x s = Fail ENOENT s"
    and insert_new: "good s \<Longrightarrow> reliable s \<Longrightarrow> (\<forall>y\<in>contents s. \<not> same s x y) \<Longrightarrow>
      \<exists>s'. ins x s = Done () s' \<and> keeps good same reliable s s' \<and> contents s' = insert x (contents s)"
    and insert_dup: "good s \<Longrightarrow> reliable s \<Longrightarrow> y \<in> contents s \<Longrightarrow> same s x y \<Longrightarrow>
      \<exists>s'. ins x s = Fail EEXIST s' \<and> keeps good same reliable s s' \<and> contents s' = contents s"
    and insert_cases: "good s \<Longrightarrow>
      \<exists>s'. keeps good same reliable s s' \<and>
        (ins x s = Done () s' \<and> contents s' = insert x (contents s) \<and> (\<forall>y\<in>contents s. \<not> same s x y)
         \<or> (\<exists>e. ins x s = Fail e s' \<and> contents s' = contents s))"
begin

text \<open>What is inserted is found, and inserting it again is refused.\<close>

lemma insert_then_find:
  assumes "good s" "ins x s = Done () s'"
  shows "fnd x s' = Done x s'"
proof -
  from insert_cases [OF assms(1), of x] assms(2)
  have "keeps good same reliable s s'" "contents s' = insert x (contents s)" by auto
  then show ?thesis using find_hit [of s' x x] refl [of s' x] by auto
qed

lemma insert_twice:
  assumes "good s" "reliable s" "ins x s = Done () s'"
  shows "\<exists>s''. ins x s' = Fail EEXIST s'' \<and> contents s'' = contents s'"
proof -
  from insert_cases [OF assms(1), of x] assms(3)
  have k: "keeps good same reliable s s'" and c: "contents s' = insert x (contents s)" by auto
  from k have "good s'" "reliable s'" using assms(2) by auto
  then show ?thesis using insert_dup [of s' x x] refl [of s' x] c by auto
qed

lemma insert_never_aborts: "good s \<Longrightarrow> ins x s \<noteq> Abort"
  using insert_cases [of s x] by auto

lemma failed_insert_keeps:
  assumes "good s" "ins x s = Fail e s'"
  shows "contents s' = contents s" and "good s'"
  using insert_cases [OF assms(1), of x] assms(2) by auto

end

locale dict = lookup_insert +
  fixes rem :: "'b \<Rightarrow> ('a, unit) prog"
  assumes remove_hit: "good s \<Longrightarrow> y \<in> contents s \<Longrightarrow> same s x y \<Longrightarrow>
      \<exists>s'. rem x s = Done () s' \<and> keeps good same reliable s s' \<and> contents s' = contents s - {y}"
    and remove_miss: "good s \<Longrightarrow> (\<forall>y\<in>contents s. \<not> same s x y) \<Longrightarrow> rem x s = Fail ENOENT s"
begin

lemma remove_then_find:
  assumes "good s" "rem x s = Done () s'"
  shows "fnd x s' = Fail ENOENT s'"
proof (cases "\<exists>y\<in>contents s. same s x y")
  case True
  then obtain y where y: "y \<in> contents s" "same s x y" by blast
  with remove_hit [OF assms(1) y] assms(2)
  have k: "keeps good same reliable s s'" and c: "contents s' = contents s - {y}" by auto
  have "\<forall>z\<in>contents s'. \<not> same s' x z"
    using k c y unique [OF assms(1)] by (auto simp: keeps_def)
  with k show ?thesis using find_miss [of s' x] by auto
next
  case False
  with remove_miss [OF assms(1)] assms(2) show ?thesis by auto
qed

lemma exec_refines:
  assumes s: "good s" "reliable s" and xs: "set xs = contents s"
  shows "\<exists>r s' ys. dict_exec ins rem fnd op s = Some (r, s') \<and> spec_exec (same s) op xs = (r, ys)
    \<and> set ys = contents s' \<and> keeps good same reliable s s'"
proof (cases op)
  case (Insert x)
  show ?thesis
  proof (cases "\<exists>y\<in>set xs. same s x y")
    case True
    then obtain y where y: "y \<in> contents s" "same s x y" using xs by blast
    from insert_dup [OF s this] True xs Insert show ?thesis by auto
  next
    case False
    with insert_new [OF s, of x] xs Insert show ?thesis by auto
  qed
next
  case (Remove x)
  show ?thesis
  proof (cases "\<exists>y\<in>set xs. same s x y")
    case True
    then obtain y where y: "y \<in> contents s" "same s x y" using xs by blast
    have "set (filter (\<lambda>z. \<not> same s x z) xs) = contents s - {y}"
      using xs y unique [OF s(1)] by auto
    with remove_hit [OF s(1) y] True Remove show ?thesis by auto
  next
    case False
    then have "rem x s = Fail ENOENT s" using remove_miss [OF s(1)] xs by simp
    with False Remove xs s show ?thesis by (auto simp: keeps_def)
  qed
next
  case (Find x)
  show ?thesis
  proof (cases "List.find (same s x) xs")
    case None
    then have "fnd x s = Fail ENOENT s" using find_miss [OF s(1)] xs by (simp add: find_None_iff)
    with None Find xs s show ?thesis by (auto simp: keeps_def)
  next
    case (Some y)
    then have "y \<in> contents s" "same s x y" using xs by (auto simp: find_Some_iff)
    then have "fnd x s = Done y s" using find_hit [OF s(1)] by simp
    with Some Find xs s show ?thesis by (auto simp: keeps_def)
  qed
qed

text \<open>Every sequence of calls gets the replies of the specification machine.\<close>

theorem run_refines:
  assumes "good s" "reliable s" "set xs = contents s"
  shows "\<exists>s'. dict_run ins rem fnd ops s = Some (fst (spec_run (same s) ops xs), s')
    \<and> set (snd (spec_run (same s) ops xs)) = contents s' \<and> keeps good same reliable s s'"
  using assms
proof (induction ops arbitrary: s xs)
  case Nil
  then show ?case by (simp add: keeps_def)
next
  case (Cons op ops)
  from exec_refines [OF Cons.prems, of op] obtain r s' ys where
    1: "dict_exec ins rem fnd op s = Some (r, s')" "spec_exec (same s) op xs = (r, ys)"
       "set ys = contents s'" and k: "keeps good same reliable s s'" by blast
  from k Cons.prems have "good s'" "reliable s'" by auto
  from Cons.IH [OF this 1(3)] k obtain s'' where
    "dict_run ins rem fnd ops s' = Some (fst (spec_run (same s) ops ys), s'')"
    "set (snd (spec_run (same s) ops ys)) = contents s''" "keeps good same reliable s' s''"
    by (auto simp: keeps_def)
  with 1 k show ?case by (auto simp: keeps_def split_beta)
qed

end

section \<open>A dictionary of limited means\<close>

text \<open>
  A structure whose calls need means of the state they are made in (blocks of a file, places of a
  cache): the B-tree. \<open>able op s\<close> says that \<open>s\<close> has the means for the call \<open>op\<close>, and \<open>means\<close> that
  every call of a sequence is made in a state that has the means for it. Every call but a lookup that
  fails leaves a tidy structure tidy.
\<close>

fun means :: "('a dict_op \<Rightarrow> 's \<Rightarrow> bool) \<Rightarrow> ('a dict_op \<Rightarrow> 's \<Rightarrow> ('a dict_reply \<times> 's) option) \<Rightarrow> 'a dict_op list \<Rightarrow> 's \<Rightarrow> bool" where
  "means able exec [] s \<longleftrightarrow> True"
| "means able exec (op # ops) s \<longleftrightarrow> able op s
     \<and> (case exec op s of None \<Rightarrow> True | Some (r, s') \<Rightarrow> means able exec ops s')"

text \<open>Every lookup finds something.\<close>

fun finds_hit :: "('a \<Rightarrow> 'a \<Rightarrow> bool) \<Rightarrow> 'a dict_op list \<Rightarrow> 'a list \<Rightarrow> bool" where
  "finds_hit same [] xs \<longleftrightarrow> True"
| "finds_hit same (op # ops) xs \<longleftrightarrow> (case op of Find x \<Rightarrow> \<exists>y\<in>set xs. same x y | _ \<Rightarrow> True)
     \<and> finds_hit same ops (snd (spec_exec same op xs))"

locale guarded_dict =
  fixes rep :: "'s \<Rightarrow> 'a set \<Rightarrow> bool"
    and tidy :: "'s \<Rightarrow> bool"
    and able :: "'a dict_op \<Rightarrow> 's \<Rightarrow> bool"
    and same :: "'a \<Rightarrow> 'a \<Rightarrow> bool"
    and ins :: "'a \<Rightarrow> ('s, unit) prog"
    and rem :: "'a \<Rightarrow> ('s, unit) prog"
    and fnd :: "'a \<Rightarrow> ('s, 'a) prog"
  assumes unique: "rep s X \<Longrightarrow> y \<in> X \<Longrightarrow> z \<in> X \<Longrightarrow> same x y \<Longrightarrow> same x z \<Longrightarrow> y = z"
    and refl: "rep s X \<Longrightarrow> same x x"
    and insert_new: "rep s X \<Longrightarrow> able (Insert x) s \<Longrightarrow> (\<forall>y\<in>X. \<not> same x y) \<Longrightarrow>
      \<exists>s'. ins x s = Done () s' \<and> rep s' (insert x X) \<and> (tidy s \<longrightarrow> tidy s')"
    and insert_dup: "rep s X \<Longrightarrow> able (Insert x) s \<Longrightarrow> y \<in> X \<Longrightarrow> same x y \<Longrightarrow>
      \<exists>s'. ins x s = Fail EEXIST s' \<and> rep s' X \<and> (tidy s \<longrightarrow> tidy s')"
    and remove_hit: "rep s X \<Longrightarrow> able (Remove x) s \<Longrightarrow> y \<in> X \<Longrightarrow> same x y \<Longrightarrow>
      \<exists>s'. rem x s = Done () s' \<and> rep s' (X - {y}) \<and> (tidy s \<longrightarrow> tidy s')"
    and remove_miss: "rep s X \<Longrightarrow> able (Remove x) s \<Longrightarrow> (\<forall>y\<in>X. \<not> same x y) \<Longrightarrow>
      \<exists>s'. rem x s = Fail ENOENT s' \<and> rep s' X \<and> (tidy s \<longrightarrow> tidy s')"
    and find_hit: "rep s X \<Longrightarrow> able (Find x) s \<Longrightarrow> y \<in> X \<Longrightarrow> same x y \<Longrightarrow>
      \<exists>s'. fnd x s = Done y s' \<and> rep s' X \<and> (tidy s \<longrightarrow> tidy s')"
    and find_miss: "rep s X \<Longrightarrow> able (Find x) s \<Longrightarrow> (\<forall>y\<in>X. \<not> same x y) \<Longrightarrow> \<exists>s'. fnd x s = Fail ENOENT s' \<and> rep s' X"
begin

lemma insert_then_find:
  assumes "rep s X" "able (Insert x) s" "ins x s = Done () s'" "able (Find x) s'"
  shows "\<exists>s''. fnd x s' = Done x s'' \<and> rep s'' (insert x X)"
proof (cases "\<exists>y\<in>X. same x y")
  case True
  with insert_dup [OF assms(1,2)] assms(3) show ?thesis by auto
next
  case False
  with insert_new [OF assms(1,2)] assms(3) have r: "rep s' (insert x X)" by auto
  from find_hit [OF r assms(4) insertI1 refl [OF r]] show ?thesis by blast
qed

lemma exec_refines:
  assumes s: "rep s (set xs)" and able: "able op s"
  shows "\<exists>s'. dict_exec ins rem fnd op s = Some (fst (spec_exec same op xs), s') \<and> rep s' (set (snd (spec_exec same op xs)))
    \<and> (tidy s \<and> finds_hit same [op] xs \<longrightarrow> tidy s')"
proof (cases op)
  case (Insert x)
  note a = able [unfolded Insert]
  show ?thesis
  proof (cases "\<exists>y\<in>set xs. same x y")
    case True
    then obtain y where y: "y \<in> set xs" "same x y" by blast
    obtain s' where "ins x s = Fail EEXIST s'" "rep s' (set xs)" "tidy s \<longrightarrow> tidy s'" using insert_dup [OF s a y] by blast
    with True Insert show ?thesis by auto
  next
    case False
    then have "\<forall>y\<in>set xs. \<not> same x y" by blast
    then obtain s' where "ins x s = Done () s'" "rep s' (insert x (set xs))" "tidy s \<longrightarrow> tidy s'" using insert_new [OF s a] by blast
    with False Insert show ?thesis by auto
  qed
next
  case (Remove x)
  note a = able [unfolded Remove]
  show ?thesis
  proof (cases "\<exists>y\<in>set xs. same x y")
    case True
    then obtain y where y: "y \<in> set xs" "same x y" by blast
    have "set (filter (\<lambda>z. \<not> same x z) xs) = set xs - {y}" using y unique [OF s] by auto
    moreover obtain s' where "rem x s = Done () s'" "rep s' (set xs - {y})" "tidy s \<longrightarrow> tidy s'" using remove_hit [OF s a y] by blast
    ultimately show ?thesis using True Remove by auto
  next
    case False
    then have "\<forall>y\<in>set xs. \<not> same x y" by blast
    then obtain s' where "rem x s = Fail ENOENT s'" "rep s' (set xs)" "tidy s \<longrightarrow> tidy s'" using remove_miss [OF s a] by blast
    with False Remove show ?thesis by auto
  qed
next
  case (Find x)
  note a = able [unfolded Find]
  show ?thesis
  proof (cases "List.find (same x) xs")
    case None
    then have m: "\<forall>y\<in>set xs. \<not> same x y" by (simp add: find_None_iff)
    from find_miss [OF s a m] m None Find show ?thesis by auto
  next
    case (Some y)
    then have "y \<in> set xs" "same x y" by (auto simp: find_Some_iff)
    from find_hit [OF s a this] Some Find show ?thesis by auto
  qed
qed

theorem run_refines:
  assumes "rep s (set xs)" "means able (dict_exec ins rem fnd) ops s"
  shows "\<exists>s'. dict_run ins rem fnd ops s = Some (fst (spec_run same ops xs), s') \<and> rep s' (set (snd (spec_run same ops xs)))
    \<and> (tidy s \<and> finds_hit same ops xs \<longrightarrow> tidy s')"
  using assms
proof (induction ops arbitrary: s xs)
  case (Cons op ops)
  from exec_refines [of s xs op] Cons.prems obtain s' where
    1: "dict_exec ins rem fnd op s = Some (fst (spec_exec same op xs), s')" "rep s' (set (snd (spec_exec same op xs)))"
      "tidy s \<and> finds_hit same [op] xs \<longrightarrow> tidy s'" by auto
  from Cons.IH [OF 1(2)] Cons.prems(2) 1(1,3) show ?case by (auto simp: split_beta)
qed simp

end

end
