(* ===== verification/LinkedList.thy ===== *)
theory LinkedList
  imports DictSpec
begin

text \<open>
  \<^verbatim>\<open>linked_lists/linked_list.c\<close>: a singly linked list of client data with a node count and a
  comparison function, that refuses data comparing equal to what it holds. The chain of
  \<^verbatim>\<open>ln_next\<close> pointers from \<^verbatim>\<open>ll_root\<close> is the list of the nodes' data, in order. The last part
  shows that the list is a dictionary (\<open>DictSpec\<close>), and that a copy holds the same data in
  the same order.
\<close>

section \<open>State\<close>

text \<open>
  A NULL function pointer is \<open>None\<close>. The destroy callback acts on the client's world, of
  type \<open>'w\<close>.
\<close>

record ('a, 'w) linked_list_ops =
  llo_compare_fn :: "('a \<Rightarrow> 'a \<Rightarrow> int) option"
  llo_destroy_data_fn :: "('a \<Rightarrow> 'w \<Rightarrow> 'w) option"

record ('a, 'w) linked_list =
  ll_root :: "'a list"
  ll_ops :: "('a, 'w) linked_list_ops"
  ll_nnodes :: nat

type_synonym ('a, 'w) ll_state = "(('a, 'w) linked_list, 'w) cstate"

section \<open>Operations\<close>

definition ll_create :: "('a, 'w) linked_list_ops option \<Rightarrow> allocator
    \<Rightarrow> ('a, 'w) linked_list option \<times> allocator" where
  "ll_create lops m =
     (let (ok, m1) = malloc m in
      if \<not> ok then (None, m1)
      else let (ok2, m2) = malloc m1 in
        if \<not> ok2 then (None, m2)
        else (Some \<lparr>ll_root = [],
                    ll_ops = (case lops of
                                Some ops \<Rightarrow> ops
                              | None \<Rightarrow> \<lparr>llo_compare_fn = None, llo_destroy_data_fn = None\<rparr>),
                    ll_nnodes = 0\<rparr>, m2))"

definition ll_length :: "('a, 'w) linked_list \<Rightarrow> nat" where
  "ll_length ll = ll_nnodes ll"

definition ll_empty :: "('a, 'w) linked_list \<Rightarrow> bool" where
  "ll_empty ll \<longleftrightarrow> ll_nnodes ll = 0"

text \<open>
  The search loop of insert, find and remove: from the root on, until the comparison of a
  node is 0. It gives the nodes passed and the nodes from the matching one on; \<open>None\<close> when
  the comparison is a NULL pointer.
\<close>

fun ll_walk :: "('a \<Rightarrow> int option) \<Rightarrow> 'a list \<Rightarrow> 'a list \<Rightarrow> ('a list \<times> 'a list) option" where
  "ll_walk f passed [] = Some (passed, [])"
| "ll_walk f passed (n # ns) =
     (case f n of
        None \<Rightarrow> None
      | Some c \<Rightarrow> if c = 0 then Some (passed, n # ns) else ll_walk f (passed @ [n]) ns)"

definition ll_compare :: "('a, 'w) linked_list \<Rightarrow> 'a \<Rightarrow> 'a \<Rightarrow> int option" where
  "ll_compare ll x y = map_option (\<lambda>c. c x y) (llo_compare_fn (ll_ops ll))"

definition ll_insert :: "'a \<Rightarrow> (('a, 'w) ll_state, unit) prog" where
  "ll_insert data st =
     (let (ll, m, w) = st; (ok, m1) = malloc m in
      if \<not> ok then Fail ENOMEM (ll, m1, w)
      else case ll_walk (\<lambda>n. ll_compare ll n data) [] (ll_root ll) of
        None \<Rightarrow> Abort
      | Some (prev, n # ns) \<Rightarrow> Fail EEXIST (ll, m1, w)
      | Some (prev, []) \<Rightarrow>
          if prev = [] \<and> \<not> ll_empty ll then Abort
          else Done () (ll\<lparr>ll_root := prev @ [data], ll_nnodes := ll_nnodes ll + 1\<rparr>, m1, w))"

definition ll_insert_head :: "'a \<Rightarrow> (('a, 'w) ll_state, unit) prog" where
  "ll_insert_head data st =
     (let (ll, m, w) = st; (ok, m1) = malloc m in
      if \<not> ok then Fail ENOMEM (ll, m1, w)
      else case ll_walk (\<lambda>n. ll_compare ll n data) [] (ll_root ll) of
        None \<Rightarrow> Abort
      | Some (prev, n # ns) \<Rightarrow> Fail EEXIST (ll, m1, w)
      | Some (prev, []) \<Rightarrow>
          Done () (ll\<lparr>ll_root := data # ll_root ll, ll_nnodes := ll_nnodes ll + 1\<rparr>, m1, w))"

definition ll_find :: "'a \<Rightarrow> (('a, 'w) ll_state, 'a) prog" where
  "ll_find to_find st =
     (let (ll, m, w) = st in
      case ll_walk (\<lambda>n. ll_compare ll to_find n) [] (ll_root ll) of
        None \<Rightarrow> Abort
      | Some (prev, []) \<Rightarrow> Fail ENOENT st
      | Some (prev, n # ns) \<Rightarrow> Done n st)"

definition ll_destroy_node :: "('a, 'w) linked_list \<Rightarrow> 'a \<Rightarrow> 'w \<Rightarrow> 'w" where
  "ll_destroy_node ll n w =
     (case llo_destroy_data_fn (ll_ops ll) of None \<Rightarrow> w | Some d \<Rightarrow> d n w)"

definition ll_remove :: "'a \<Rightarrow> (('a, 'w) ll_state, unit) prog" where
  "ll_remove to_remove st =
     (let (ll, m, w) = st in
      case ll_walk (\<lambda>n. ll_compare ll to_remove n) [] (ll_root ll) of
        None \<Rightarrow> Abort
      | Some (prev, []) \<Rightarrow> Fail ENOENT st
      | Some (prev, n # ns) \<Rightarrow>
          Done () (ll\<lparr>ll_root := prev @ ns, ll_nnodes := ll_nnodes ll - 1\<rparr>, m,
                   ll_destroy_node ll n w))"

definition ll_destroy :: "('a, 'w) linked_list \<Rightarrow> 'w \<Rightarrow> 'w" where
  "ll_destroy ll w = fold (ll_destroy_node ll) (ll_root ll) w"

definition ll_first :: "(('a, 'w) ll_state, 'a) prog" where
  "ll_first st =
     (let (ll, m, w) = st in
      if ll_empty ll then Fail ENOENT st
      else case ll_root ll of [] \<Rightarrow> Abort | n # ns \<Rightarrow> Done n st)"

text \<open>The loop of \<^verbatim>\<open>ll_last\<close>: \<open>prev\<close> trails one node behind.\<close>

fun ll_last_loop :: "'a option \<Rightarrow> 'a list \<Rightarrow> 'a option" where
  "ll_last_loop prev [] = prev"
| "ll_last_loop prev (n # ns) = ll_last_loop (Some n) ns"

definition ll_last :: "(('a, 'w) ll_state, 'a) prog" where
  "ll_last st =
     (let (ll, m, w) = st in
      if ll_empty ll then Fail ENOENT st
      else case ll_last_loop None (ll_root ll) of None \<Rightarrow> Abort | Some n \<Rightarrow> Done n st)"

text \<open>\<open>rnd\<close> is what \<^verbatim>\<open>rand()\<close> returns; the loop follows \<^verbatim>\<open>ln_next\<close> \<open>nnum\<close> times.\<close>

fun ll_skip :: "nat \<Rightarrow> 'a list \<Rightarrow> 'a option" where
  "ll_skip nnum [] = None"
| "ll_skip 0 (n # ns) = Some n"
| "ll_skip (Suc nnum) (n # ns) = ll_skip nnum ns"

definition ll_get_random :: "nat \<Rightarrow> (('a, 'w) ll_state, 'a) prog" where
  "ll_get_random rnd st =
     (let (ll, m, w) = st in
      if ll_empty ll then Fail ENOENT st
      else case ll_skip (rnd mod ll_length ll) (ll_root ll) of None \<Rightarrow> Abort | Some n \<Rightarrow> Done n st)"

definition ll_iterate :: "('a, 'w) linked_list \<Rightarrow> ('a, 'c) callback \<Rightarrow> ('c, unit) prog" where
  "ll_iterate ll callback c =
     (case iterate_list callback (ll_root ll) c of
        Done stop c' \<Rightarrow> Done () c'
      | Fail e c' \<Rightarrow> Fail e c'
      | Abort \<Rightarrow> Abort)"

definition ll_create_copy_cb :: "('a, ('a, 'w) ll_state) callback" where
  "ll_create_copy_cb data st =
     (case ll_insert data st of
        Done r st' \<Rightarrow> Done False st'
      | Fail e st' \<Rightarrow> Fail e st'
      | Abort \<Rightarrow> Abort)"

text \<open>Returns the new list, or NULL after destroying what was copied so far.\<close>

definition ll_create_copy :: "('a, 'w) linked_list
    \<Rightarrow> (allocator \<times> 'w, ('a, 'w) linked_list option) prog" where
  "ll_create_copy ll st =
     (let (m, w) = st; (ok, m1) = malloc m in
      if \<not> ok then Done None (m1, w)
      else let (ok2, m2) = malloc m1 in
        if \<not> ok2 then Done None (m2, w)
        else case ll_iterate ll ll_create_copy_cb
                    (\<lparr>ll_root = [], ll_ops = ll_ops ll, ll_nnodes = 0\<rparr>, m2, w) of
          Done r (new_ll, m', w') \<Rightarrow> Done (Some new_ll) (m', w')
        | Fail e (new_ll, m', w') \<Rightarrow> Done None (m', ll_destroy new_ll w')
        | Abort \<Rightarrow> Abort)"

text \<open>Whether the assertion of \<^verbatim>\<open>ll_check\<close> holds.\<close>

definition ll_check :: "('a, 'w) linked_list \<Rightarrow> bool" where
  "ll_check ll \<longleftrightarrow> ll_nnodes ll = length (ll_root ll)"

section \<open>The invariant\<close>

definition ll_cmp :: "('a, 'w) linked_list \<Rightarrow> 'a \<Rightarrow> 'a \<Rightarrow> int" where
  "ll_cmp ll = the (llo_compare_fn (ll_ops ll))"

definition ll_inv :: "('a, 'w) linked_list \<Rightarrow> bool" where
  "ll_inv ll \<longleftrightarrow> llo_compare_fn (ll_ops ll) \<noteq> None \<and> equiv_cmp (ll_cmp ll)
     \<and> distinct_by (ll_cmp ll) (ll_root ll) \<and> ll_check ll"

named_theorems ll_defs \<open>definitions of the list operations\<close>

lemmas [ll_defs] = ll_insert_def ll_insert_head_def ll_find_def ll_remove_def ll_first_def
  ll_last_def ll_get_random_def ll_empty_def ll_length_def ll_check_def

lemma ll_compare_inv: "ll_inv ll \<Longrightarrow> ll_compare ll x y = Some (ll_cmp ll x y)"
  by (auto simp: ll_inv_def ll_compare_def ll_cmp_def)

lemma ll_walk_total:
  "ll_walk (\<lambda>n. Some (f n)) passed ns =
     Some (passed @ takeWhile (\<lambda>n. f n \<noteq> 0) ns, dropWhile (\<lambda>n. f n \<noteq> 0) ns)"
  by (induction ns arbitrary: passed) auto

lemma ll_walk_inv:
  assumes "ll_inv ll"
  shows "ll_walk (\<lambda>n. ll_compare ll n x) [] ns =
      Some (takeWhile (\<lambda>n. ll_cmp ll n x \<noteq> 0) ns, dropWhile (\<lambda>n. ll_cmp ll n x \<noteq> 0) ns)"
    and "ll_walk (\<lambda>n. ll_compare ll x n) [] ns =
      Some (takeWhile (\<lambda>n. ll_cmp ll x n \<noteq> 0) ns, dropWhile (\<lambda>n. ll_cmp ll x n \<noteq> 0) ns)"
  using ll_walk_total [of _ "[]"] by (simp_all add: ll_compare_inv [OF assms])

lemma ll_inv_equiv: "ll_inv ll \<Longrightarrow> equiv_cmp (ll_cmp ll)"
  by (simp add: ll_inv_def)

lemma ll_inv_sym: "ll_inv ll \<Longrightarrow> ll_cmp ll x y = 0 \<longleftrightarrow> ll_cmp ll y x = 0"
  by (rule equiv_cmp_sym [OF ll_inv_equiv])

lemma del_by_takeWhile_dropWhile:
  "dropWhile (\<lambda>n. c x n \<noteq> 0) ns = y # ys \<Longrightarrow>
     takeWhile (\<lambda>n. c x n \<noteq> 0) ns @ ys = del_by c x ns"
  by (induction ns) auto

lemma dropWhile_find_None:
  "List.find (\<lambda>n. f n = (0::int)) ns = None \<Longrightarrow> dropWhile (\<lambda>n. f n \<noteq> 0) ns = []"
  by (simp add: find_None_iff)

lemma dropWhile_find_Some:
  "List.find (\<lambda>n. f n = (0::int)) ns = Some y \<Longrightarrow> \<exists>zs. dropWhile (\<lambda>n. f n \<noteq> 0) ns = y # zs"
  by (induction ns) (auto split: if_splits)

section \<open>What each operation does\<close>

lemma ll_create_empty:
  assumes "ll_create (Some ops) m = (Some ll, m')" "llo_compare_fn ops = Some c" "equiv_cmp c"
  shows "ll_inv ll \<and> ll_root ll = [] \<and> ll_ops ll = ops"
  using assms by (auto simp: ll_create_def ll_inv_def ll_cmp_def ll_check_def split: prod.splits if_splits)

lemma ll_create_result:
  assumes "never_fails m"
  shows "\<exists>m'. never_fails m' \<and> ll_create (Some ops) m =
      (Some \<lparr>ll_root = [], ll_ops = ops, ll_nnodes = 0\<rparr>, m')"
proof -
  obtain ok m1 where 1: "malloc m = (ok, m1)" by fastforce
  obtain ok2 m2 where 2: "malloc m1 = (ok2, m2)" by fastforce
  from 1 2 assms have "ok" "never_fails m1" "ok2" "never_fails m2" using malloc_never_fails by blast+
  with 1 2 show ?thesis by (simp add: ll_create_def)
qed

lemma ll_insert_new:
  assumes "ll_inv ll" "malloc m = (True, m')" "\<forall>y\<in>set (ll_root ll). ll_cmp ll x y \<noteq> 0"
  shows "ll_insert x (ll, m, w) =
      Done () (ll\<lparr>ll_root := ll_root ll @ [x], ll_nnodes := Suc (ll_nnodes ll)\<rparr>, m', w)"
proof -
  have "dropWhile (\<lambda>n. ll_cmp ll n x \<noteq> 0) (ll_root ll) = []"
    using assms(3) by (simp add: ll_inv_sym [OF assms(1), of x])
  note nil = this
  then have all: "takeWhile (\<lambda>n. ll_cmp ll n x \<noteq> 0) (ll_root ll) = ll_root ll"
    by (simp add: takeWhile_eq_all_conv)
  have "ll_root ll \<noteq> [] \<or> ll_empty ll"
    using assms(1) by (auto simp: ll_inv_def ll_check_def ll_empty_def)
  then show ?thesis using assms(2) by (auto simp: ll_insert_def ll_walk_inv [OF assms(1)] nil all)
qed

lemma ll_insert_dup:
  assumes "ll_inv ll" "malloc m = (True, m')" "y \<in> set (ll_root ll)" "ll_cmp ll x y = 0"
  shows "ll_insert x (ll, m, w) = Fail EEXIST (ll, m', w)"
proof -
  have "dropWhile (\<lambda>n. ll_cmp ll n x \<noteq> 0) (ll_root ll) \<noteq> []"
    using assms(3,4) by (auto simp: ll_inv_sym [OF assms(1), of x])
  then obtain n ns where "dropWhile (\<lambda>n. ll_cmp ll n x \<noteq> 0) (ll_root ll) = n # ns"
    by (auto simp only: neq_Nil_conv)
  then show ?thesis using assms(2) by (simp add: ll_insert_def ll_walk_inv [OF assms(1)])
qed

lemma ll_insert_head_new:
  assumes "ll_inv ll" "malloc m = (True, m')" "\<forall>y\<in>set (ll_root ll). ll_cmp ll x y \<noteq> 0"
  shows "ll_insert_head x (ll, m, w) =
      Done () (ll\<lparr>ll_root := x # ll_root ll, ll_nnodes := Suc (ll_nnodes ll)\<rparr>, m', w)"
proof -
  have "dropWhile (\<lambda>n. ll_cmp ll n x \<noteq> 0) (ll_root ll) = []"
    using assms(3) by (simp add: ll_inv_sym [OF assms(1), of x])
  note nil = this
  show ?thesis using assms(2) by (simp add: ll_insert_head_def ll_walk_inv [OF assms(1)] nil)
qed

lemma ll_insert_head_dup:
  assumes "ll_inv ll" "malloc m = (True, m')" "y \<in> set (ll_root ll)" "ll_cmp ll x y = 0"
  shows "ll_insert_head x (ll, m, w) = Fail EEXIST (ll, m', w)"
proof -
  have "dropWhile (\<lambda>n. ll_cmp ll n x \<noteq> 0) (ll_root ll) \<noteq> []"
    using assms(3,4) by (auto simp: ll_inv_sym [OF assms(1), of x])
  then obtain n ns where "dropWhile (\<lambda>n. ll_cmp ll n x \<noteq> 0) (ll_root ll) = n # ns"
    by (auto simp only: neq_Nil_conv)
  then show ?thesis using assms(2) by (simp add: ll_insert_head_def ll_walk_inv [OF assms(1)])
qed

lemma ll_find_eq:
  assumes "ll_inv ll"
  shows "ll_find x (ll, m, w) =
     (case List.find (\<lambda>n. ll_cmp ll x n = 0) (ll_root ll) of
        None \<Rightarrow> Fail ENOENT (ll, m, w)
      | Some y \<Rightarrow> Done y (ll, m, w))"
proof (cases "List.find (\<lambda>n. ll_cmp ll x n = 0) (ll_root ll)")
  case None
  note nil = dropWhile_find_None [OF this]
  show ?thesis by (simp add: ll_find_def ll_walk_inv [OF assms] None nil)
next
  case (Some y)
  from dropWhile_find_Some [OF this] show ?thesis
    by (auto simp: ll_find_def ll_walk_inv [OF assms] Some)
qed

lemma ll_remove_eq:
  assumes "ll_inv ll"
  shows "ll_remove x (ll, m, w) =
     (case List.find (\<lambda>n. ll_cmp ll x n = 0) (ll_root ll) of
        None \<Rightarrow> Fail ENOENT (ll, m, w)
      | Some y \<Rightarrow> Done () (ll\<lparr>ll_root := del_by (ll_cmp ll) x (ll_root ll),
                             ll_nnodes := ll_nnodes ll - 1\<rparr>, m, ll_destroy_node ll y w))"
proof (cases "List.find (\<lambda>n. ll_cmp ll x n = 0) (ll_root ll)")
  case None
  note nil = dropWhile_find_None [OF this]
  show ?thesis by (simp add: ll_remove_def ll_walk_inv [OF assms] None nil)
next
  case (Some y)
  from dropWhile_find_Some [OF this] obtain zs where
    zs: "dropWhile (\<lambda>n. ll_cmp ll x n \<noteq> 0) (ll_root ll) = y # zs" by blast
  show ?thesis
    by (simp add: ll_remove_def ll_walk_inv [OF assms] Some zs
        del_by_takeWhile_dropWhile [where c = "ll_cmp ll" and x = x, OF zs])
qed

lemma ll_insert_oom: "malloc m = (False, m') \<Longrightarrow> ll_insert x (ll, m, w) = Fail ENOMEM (ll, m', w)"
  by (simp add: ll_insert_def)

lemma ll_insert_head_oom:
  "malloc m = (False, m') \<Longrightarrow> ll_insert_head x (ll, m, w) = Fail ENOMEM (ll, m', w)"
  by (simp add: ll_insert_head_def)

text \<open>Every operation leaves the comparison function, and keeps the invariant.\<close>

lemma ll_cmp_update [simp]: "ll_cmp (ll\<lparr>ll_root := r, ll_nnodes := n\<rparr>) = ll_cmp ll"
  by (simp add: ll_cmp_def)

lemma ll_inv_snoc:
  assumes "ll_inv ll" "\<forall>y\<in>set (ll_root ll). ll_cmp ll x y \<noteq> 0"
  shows "ll_inv (ll\<lparr>ll_root := ll_root ll @ [x], ll_nnodes := Suc (ll_nnodes ll)\<rparr>)"
proof -
  have "\<forall>y\<in>set (ll_root ll). ll_cmp ll y x \<noteq> 0"
    using assms by (simp add: ll_inv_sym [OF assms(1), of x])
  then show ?thesis using assms(1) by (auto simp: ll_inv_def ll_check_def sorted_wrt_append)
qed

lemma ll_inv_cons:
  assumes "ll_inv ll" "\<forall>y\<in>set (ll_root ll). ll_cmp ll x y \<noteq> 0"
  shows "ll_inv (ll\<lparr>ll_root := x # ll_root ll, ll_nnodes := Suc (ll_nnodes ll)\<rparr>)"
  using assms by (auto simp: ll_inv_def ll_check_def)

lemma ll_inv_del:
  assumes "ll_inv ll" "y \<in> set (ll_root ll)" "ll_cmp ll x y = 0"
  shows "ll_inv (ll\<lparr>ll_root := del_by (ll_cmp ll) x (ll_root ll), ll_nnodes := ll_nnodes ll - 1\<rparr>)"
  using assms length_del_by [of y "ll_root ll" "ll_cmp ll" x]
  by (auto simp: ll_inv_def ll_check_def intro: distinct_by_del_by)


section \<open>The list is a dictionary\<close>

definition ll_contents :: "('a, 'w) ll_state \<Rightarrow> 'a set" where
  "ll_contents st = set (ll_root (fst st))"

definition ll_good :: "('a, 'w) ll_state \<Rightarrow> bool" where
  "ll_good st \<longleftrightarrow> ll_inv (fst st)"

definition ll_same :: "('a, 'w) ll_state \<Rightarrow> 'a \<Rightarrow> 'a \<Rightarrow> bool" where
  "ll_same st x y \<longleftrightarrow> ll_cmp (fst st) x y = 0"

lemmas ll_abs_defs = ll_contents_def ll_good_def ll_same_def

lemma ll_keeps:
  "ll_inv ll' \<Longrightarrow> ll_cmp ll' = ll_cmp ll \<Longrightarrow> (never_fails m \<Longrightarrow> never_fails m') \<Longrightarrow>
   keeps ll_good ll_same reliable_mem (ll, m, w) (ll', m', w')"
  by (auto simp: keeps_def ll_abs_defs fun_eq_iff)

lemma ll_unique:
  assumes "ll_inv ll" "y \<in> set (ll_root ll)" "z \<in> set (ll_root ll)"
    "ll_cmp ll x y = 0" "ll_cmp ll x z = 0"
  shows "y = z"
proof -
  note e = ll_inv_equiv [OF assms(1)]
  from assms(4,5) have "ll_cmp ll y z = 0" using equiv_cmp_cong [OF e] by blast
  moreover have "distinct_by (ll_cmp ll) (ll_root ll)" using assms(1) by (simp add: ll_inv_def)
  ultimately show ?thesis using distinct_by_inj [OF e] assms(2,3) by blast
qed

lemma ll_find_hit:
  assumes "ll_inv ll" "y \<in> set (ll_root ll)" "ll_cmp ll x y = 0"
  shows "List.find (\<lambda>n. ll_cmp ll x n = 0) (ll_root ll) = Some y"
proof (cases "List.find (\<lambda>n. ll_cmp ll x n = 0) (ll_root ll)")
  case None
  with assms show ?thesis by (auto simp: find_None_iff)
next
  case (Some z)
  then have "z \<in> set (ll_root ll)" "ll_cmp ll x z = 0" by (auto simp: find_Some_iff)
  with ll_unique [OF assms(1)] assms(2,3) Some show ?thesis by blast
qed

interpretation ll: dict ll_contents ll_good ll_same reliable_mem ll_insert ll_find ll_remove
proof (unfold_locales, goal_cases)
  case (1 s y z x) then show ?case by (auto simp: ll_abs_defs dest: ll_unique)
next
  case (2 s x) then show ?case by (simp add: ll_abs_defs equiv_cmp_refl ll_inv_equiv)
next
  case (3 s y x) then show ?case
    by (cases s) (simp add: ll_abs_defs ll_find_eq ll_find_hit)
next
  case (4 s x)
  obtain ll m w where s: "s = (ll, m, w)" by (cases s)
  then have "List.find (\<lambda>n. ll_cmp ll x n = 0) (ll_root ll) = None"
    using 4 by (simp add: ll_abs_defs find_None_iff)
  with 4 s show ?case by (simp add: ll_good_def ll_find_eq)
next
  case (5 s x)
  obtain ll m w where s: "s = (ll, m, w)" by (cases s)
  obtain m' where m: "malloc m = (True, m')" "never_fails m'"
    using 5 s malloc_ok [of m] by auto
  have "ll_insert x s = Done () (ll\<lparr>ll_root := ll_root ll @ [x], ll_nnodes := Suc (ll_nnodes ll)\<rparr>, m', w)"
    using 5 s m ll_insert_new by (auto simp: ll_abs_defs)
  with 5 s m show ?case
    by (intro exI conjI) (auto simp: ll_abs_defs intro!: ll_keeps ll_inv_snoc)
next
  case (6 s y x)
  obtain ll m w where s: "s = (ll, m, w)" by (cases s)
  obtain m' where m: "malloc m = (True, m')" "never_fails m'"
    using 6 s malloc_ok [of m] by auto
  have "ll_insert x s = Fail EEXIST (ll, m', w)"
    using 6 s m ll_insert_dup by (auto simp: ll_abs_defs)
  with 6 s m show ?case by (auto simp: ll_abs_defs intro!: exI ll_keeps)
next
  case (7 s x)
  obtain ll m w where s: "s = (ll, m, w)" by (cases s)
  obtain ok m' where m: "malloc m = (ok, m')" by fastforce
  have k: "never_fails m \<Longrightarrow> never_fails m'" using malloc_never_fails m by blast
  have inv: "ll_inv ll" using 7 s by (simp add: ll_good_def)
  show ?case
  proof (cases "ok \<and> (\<forall>y\<in>set (ll_root ll). ll_cmp ll x y \<noteq> 0)")
    case True
    with inv m s have "ll_insert x s =
        Done () (ll\<lparr>ll_root := ll_root ll @ [x], ll_nnodes := Suc (ll_nnodes ll)\<rparr>, m', w)"
      by (simp add: ll_insert_new)
    with True inv s k show ?thesis
      by (intro exI conjI disjI1) (auto simp: ll_abs_defs intro!: ll_keeps ll_inv_snoc)
  next
    case False
    have "\<exists>e. ll_insert x s = Fail e (ll, m', w)"
    proof (cases ok)
      case True
      with False obtain y where "y \<in> set (ll_root ll)" "ll_cmp ll x y = 0" by blast
      with ll_insert_dup [OF inv _ this] m True s show ?thesis by auto
    next
      case False
      with ll_insert_oom [of m m' x ll w] m s show ?thesis by simp
    qed
    with inv s k show ?thesis
      by (intro exI [of _ "(ll, m', w)"] conjI disjI2) (auto simp: ll_abs_defs intro!: ll_keeps)
  qed
next
  case (8 s y x)
  obtain ll m w where s: "s = (ll, m, w)" by (cases s)
  have inv: "ll_inv ll" "y \<in> set (ll_root ll)" "ll_cmp ll x y = 0"
    using 8 s by (simp_all add: ll_abs_defs)
  let ?ll' = "ll\<lparr>ll_root := del_by (ll_cmp ll) x (ll_root ll), ll_nnodes := ll_nnodes ll - 1\<rparr>"
  have "ll_remove x s = Done () (?ll', m, ll_destroy_node ll y w)"
    using inv s by (simp add: ll_remove_eq ll_find_hit)
  moreover have "set (del_by (ll_cmp ll) x (ll_root ll)) = set (ll_root ll) - {y}"
    using inv ll_unique [OF inv(1)] set_del_by [of "ll_cmp ll" "ll_root ll" x]
    by (auto simp: ll_inv_def)
  moreover have "keeps ll_good ll_same reliable_mem s (?ll', m, ll_destroy_node ll y w)"
    unfolding s using inv by (intro ll_keeps ll_inv_del) simp_all
  ultimately show ?case using inv s by (simp add: ll_contents_def)
next
  case (9 s x)
  obtain ll m w where s: "s = (ll, m, w)" by (cases s)
  then have "List.find (\<lambda>n. ll_cmp ll x n = 0) (ll_root ll) = None"
    using 9 by (simp add: ll_abs_defs find_None_iff)
  with 9 s show ?case by (simp add: ll_good_def ll_remove_eq)
qed

section \<open>Iteration and copying\<close>

text \<open>Of the next \<open>n\<close> calls of \<^verbatim>\<open>malloc\<close>, how many succeed before one fails.\<close>

fun granted :: "nat \<Rightarrow> allocator \<Rightarrow> nat" where
  "granted 0 m = 0"
| "granted (Suc n) m = (let (ok, m1) = malloc m in if ok then Suc (granted n m1) else 0)"

lemma granted_le: "granted n m \<le> n"
  by (induction n m rule: granted.induct) (auto simp: Let_def split: prod.splits)

lemma granted_never_fails: "never_fails m \<Longrightarrow> granted n m = n"
  by (induction n m rule: granted.induct) (use malloc_ok in fastforce)+

lemma malloc_drop: "snd (malloc m) = drop 1 m"
  by (cases m) auto

lemma never_fails_drop: "never_fails m \<Longrightarrow> never_fails (drop n m)"
  by (auto simp: never_fails_def dest: in_set_dropD)

lemma ll_create_copy_cb_loop:
  assumes "ll_inv (new\<lparr>ll_root := ps @ qs, ll_nnodes := length (ps @ qs)\<rparr>)"
  shows "iterate_list ll_create_copy_cb qs (new\<lparr>ll_root := ps, ll_nnodes := length ps\<rparr>, m, w) =
    (let g = granted (length qs) m in
     if g = length qs then Done False (new\<lparr>ll_root := ps @ qs, ll_nnodes := length (ps @ qs)\<rparr>, drop g m, w)
     else Fail ENOMEM (new\<lparr>ll_root := ps @ take g qs, ll_nnodes := length ps + g\<rparr>, drop (Suc g) m, w))"
  using assms
proof (induction qs arbitrary: ps m)
  case Nil
  then show ?case by simp
next
  case (Cons q qs)
  let ?new = "new\<lparr>ll_root := ps, ll_nnodes := length ps\<rparr>"
  obtain ok m1 where m: "malloc m = (ok, m1)" by fastforce
  then have m1: "m1 = drop 1 m" using malloc_drop [of m] by simp
  have inv: "ll_inv ?new" and new: "\<forall>y\<in>set (ll_root ?new). ll_cmp ?new q y \<noteq> 0"
    using Cons.prems equiv_cmp_sym [of "ll_cmp new"]
    by (auto simp: ll_inv_def ll_check_def sorted_wrt_append)
  show ?case
  proof (cases ok)
    case True
    then have "ll_create_copy_cb q (?new, m, w) =
        Done False (new\<lparr>ll_root := ps @ [q], ll_nnodes := length (ps @ [q])\<rparr>, m1, w)"
      using ll_insert_new [OF inv _ new] m by (simp add: ll_create_copy_cb_def)
    with Cons.IH [of "ps @ [q]" m1] Cons.prems m True show ?thesis by (simp add: Let_def m1)
  next
    case False
    then have "ll_create_copy_cb q (?new, m, w) = Fail ENOMEM (?new, m1, w)"
      using m by (simp add: ll_create_copy_cb_def ll_insert_oom [of m m1])
    with m False show ?thesis by (simp add: m1)
  qed
qed

lemma ll_inv_nnodes: "ll_inv ll \<Longrightarrow> ll\<lparr>ll_nnodes := length (ll_root ll)\<rparr> = ll"
  by (simp add: ll_inv_def ll_check_def)

lemma ll_destroy_ops: "ll_ops ll = ll_ops ll' \<Longrightarrow> ll_destroy_node ll = ll_destroy_node ll'"
  by (simp add: ll_destroy_node_def fun_eq_iff)

text \<open>
  Two calls of \<^verbatim>\<open>malloc\<close> for the list itself, one for each node. When one of them fails, what was
  copied so far goes through the destroy callback.
\<close>

lemma ll_create_copy_eq:
  assumes inv: "ll_inv ll"
  shows "ll_create_copy ll (m, w) =
    (let n = length (ll_root ll) + 2; g = granted n m in
     if g = n then Done (Some ll) (drop n m, w)
     else Done None (drop (Suc g) m, fold (ll_destroy_node ll) (take (g - 2) (ll_root ll)) w))"
proof -
  obtain ok m1 ok2 m2 where m: "malloc m = (ok, m1)" "malloc m1 = (ok2, m2)" by fastforce
  have dr: "m1 = drop 1 m" "m2 = drop 2 m" using malloc_drop [of m] malloc_drop [of m1] m by (simp_all add: numeral_2_eq_2)
  let ?new = "\<lparr>ll_root = [], ll_ops = ll_ops ll, ll_nnodes = 0\<rparr>" and ?g = "granted (length (ll_root ll)) m2"
  have new: "\<lparr>ll_root = ps, ll_ops = ll_ops ll, ll_nnodes = n\<rparr> = ll\<lparr>ll_root := ps, ll_nnodes := n\<rparr>" for ps n
    by simp
  have loop: "iterate_list ll_create_copy_cb (ll_root ll) (?new, m2, w) =
      (if ?g = length (ll_root ll) then Done False (ll, drop ?g m2, w)
       else Fail ENOMEM (ll\<lparr>ll_root := take ?g (ll_root ll), ll_nnodes := ?g\<rparr>, drop (Suc ?g) m2, w))"
    using ll_create_copy_cb_loop [where new = ?new and ps = "[]" and qs = "ll_root ll" and m = m2 and w = w] inv
    by (simp add: new ll_inv_nnodes [OF inv] Let_def)
  have d: "ll_destroy (ll\<lparr>ll_root := ps, ll_nnodes := n\<rparr>) w = fold (ll_destroy_node ll) ps w" for ps n
    using ll_destroy_ops [of "ll\<lparr>ll_root := ps, ll_nnodes := n\<rparr>" ll] by (simp add: ll_destroy_def)
  show ?thesis
  proof (cases "ok \<and> ok2")
    case True
    then have "granted (length (ll_root ll) + 2) m = Suc (Suc ?g)" using m by (simp add: numeral_2_eq_2)
    with True m loop d show ?thesis by (simp add: ll_create_copy_def ll_iterate_def Let_def dr)
  next
    case False
    with m show ?thesis by (auto simp: ll_create_copy_def dr numeral_2_eq_2)
  qed
qed

lemma ll_create_copy_result:
  "ll_inv ll \<Longrightarrow> never_fails m \<Longrightarrow> \<exists>m'. ll_create_copy ll (m, w) = Done (Some ll) (m', w) \<and> never_fails m'"
  using ll_create_copy_eq [of ll m w] granted_never_fails [of m] never_fails_drop [of m] by (auto simp: Let_def)

lemma ll_last_loop_eq: "ll_last_loop prev ns = (if ns = [] then prev else Some (last ns))"
  by (induction ns arbitrary: prev) auto

lemma ll_last_eq:
  assumes "ll_inv ll"
  shows "ll_last (ll, m, w) =
     (if ll_root ll = [] then Fail ENOENT (ll, m, w) else Done (last (ll_root ll)) (ll, m, w))"
  using assms by (auto simp: ll_last_def ll_empty_def ll_last_loop_eq ll_inv_def ll_check_def)

lemma ll_first_eq:
  assumes "ll_inv ll"
  shows "ll_first (ll, m, w) =
     (if ll_root ll = [] then Fail ENOENT (ll, m, w) else Done (hd (ll_root ll)) (ll, m, w))"
  using assms by (auto simp: ll_first_def ll_empty_def ll_inv_def ll_check_def split: list.splits)

lemma ll_skip_nth: "k < length ns \<Longrightarrow> ll_skip k ns = Some (ns ! k)"
  by (induction k ns rule: ll_skip.induct) auto

lemma ll_get_random_eq:
  assumes "ll_inv ll"
  shows "ll_get_random rnd (ll, m, w) =
     (if ll_root ll = [] then Fail ENOENT (ll, m, w)
      else Done (ll_root ll ! (rnd mod length (ll_root ll))) (ll, m, w))"
  using assms by (auto simp: ll_get_random_def ll_empty_def ll_length_def ll_inv_def ll_check_def
      ll_skip_nth)

section \<open>Properties\<close>

text \<open>
  C19: Any sequence of \<^verbatim>\<open>ll_insert\<close>, \<^verbatim>\<open>ll_remove\<close> and \<^verbatim>\<open>ll_find\<close> calls on a well-formed list, with
  an allocator that does not fail, returns what the dictionary specification returns, never
  stops in an assertion, and ends in a well-formed list holding the specified elements.
\<close>

theorem ll_refines_dictionary:
  assumes "ll_inv ll" "never_fails m"
  shows "\<exists>ll' m' w'. dict_run ll_insert ll_remove ll_find ops (ll, m, w) =
        Some (fst (spec_run (\<lambda>x y. ll_cmp ll x y = 0) ops (ll_root ll)), (ll', m', w'))
      \<and> ll_inv ll' \<and> set (ll_root ll') = set (snd (spec_run (\<lambda>x y. ll_cmp ll x y = 0) ops (ll_root ll)))"
proof -
  have same: "ll_same (ll, m, w) = (\<lambda>x y. ll_cmp ll x y = 0)" by (simp add: ll_same_def fun_eq_iff)
  from ll.run_refines [of "(ll, m, w)" "ll_root ll" ops] assms obtain s' where
    "dict_run ll_insert ll_remove ll_find ops (ll, m, w) =
        Some (fst (spec_run (\<lambda>x y. ll_cmp ll x y = 0) ops (ll_root ll)), s')"
    "set (snd (spec_run (\<lambda>x y. ll_cmp ll x y = 0) ops (ll_root ll))) = ll_contents s'" "ll_good s'"
    unfolding same by (auto simp: ll_contents_def ll_good_def keeps_def)
  then show ?thesis by (cases s') (auto simp: ll_contents_def ll_good_def)
qed

definition int_ll :: "int list \<Rightarrow> (int, int list) linked_list" where
  "int_ll xs = \<lparr>ll_root = xs,
     ll_ops = \<lparr>llo_compare_fn = Some (\<lambda>x y. x - y), llo_destroy_data_fn = Some (#)\<rparr>,
     ll_nnodes = length xs\<rparr>"

lemma int_ll_inv: "distinct xs \<Longrightarrow> ll_inv (int_ll xs)"
  using total_cmp_equiv [OF total_cmp_int]
  by (induction xs) (auto simp: int_ll_def ll_inv_def ll_cmp_def ll_check_def)

theorem ll_refines_dictionary_witness:
  "\<exists>ll' m' w'. dict_run ll_insert ll_remove ll_find [Insert 7, Find 7, Insert 5, Remove 3, Find 3]
      (int_ll [3, 5], [], []) =
    Some ([Replied, Found 7, Refused EEXIST, Replied, Refused ENOENT], (ll', m', w')) \<and> ll_inv ll'"
  using ll_refines_dictionary [OF int_ll_inv [of "[3, 5]"] never_fails_Nil,
      of "[Insert 7, Find 7, Insert 5, Remove 3, Find 3]" "[]"]
  by (auto simp: int_ll_def ll_cmp_def)

text \<open>
  \<^verbatim>\<open>ll_insert\<close> appends and \<^verbatim>\<open>ll_insert_head\<close> prepends: after a successful call \<^verbatim>\<open>ll_last\<close>,
  respectively \<^verbatim>\<open>ll_first\<close>, returns the new element, and the order of the old elements is kept.
\<close>

theorem ll_insert_order:
  assumes "ll_inv ll"
    and "ll_insert x (ll, m, w) = Done () (ll1, m1, w1)"
    and "ll_insert_head y (ll, m, w) = Done () (ll2, m2, w2)"
  shows "ll_root ll1 = ll_root ll @ [x] \<and> ll_last (ll1, m1, w1) = Done x (ll1, m1, w1)
    \<and> ll_root ll2 = y # ll_root ll \<and> ll_first (ll2, m2, w2) = Done y (ll2, m2, w2)"
proof -
  obtain ok m' where m: "malloc m = (ok, m')" by fastforce
  with assms(2) have ok: "malloc m = (True, m')"
    using ll_insert_oom [of m m' x ll w] by (cases ok) auto
  have x: "\<forall>z\<in>set (ll_root ll). ll_cmp ll x z \<noteq> 0"
    using ll_insert_dup [OF assms(1) ok] assms(2) by fastforce
  have y: "\<forall>z\<in>set (ll_root ll). ll_cmp ll y z \<noteq> 0"
    using ll_insert_head_dup [OF assms(1) ok] assms(3) by fastforce
  have "ll1 = ll\<lparr>ll_root := ll_root ll @ [x], ll_nnodes := Suc (ll_nnodes ll)\<rparr>"
    using ll_insert_new [OF assms(1) ok x, of w] assms(2) by simp
  moreover have "ll2 = ll\<lparr>ll_root := y # ll_root ll, ll_nnodes := Suc (ll_nnodes ll)\<rparr>"
    using ll_insert_head_new [OF assms(1) ok y, of w] assms(3) by simp
  ultimately show ?thesis
    using ll_inv_snoc [OF assms(1) x] ll_inv_cons [OF assms(1) y] by (simp add: ll_last_eq ll_first_eq)
qed

lemmas int_ll_eval = int_ll_def ll_create_copy_def ll_iterate_def ll_create_copy_cb_def
  ll_insert_def ll_insert_head_def ll_compare_def ll_empty_def

theorem ll_insert_order_witness:
  "ll_insert 7 (int_ll [3, 5], [], []) = Done () (int_ll [3, 5, 7], [], [])
   \<and> ll_last (int_ll [3, 5, 7], [], []) = Done 7 (int_ll [3, 5, 7], [], [])
   \<and> ll_first (int_ll [9, 3, 5], [], []) = Done 9 (int_ll [9, 3, 5], [], [])"
proof -
  have 1: "ll_insert 7 (int_ll [3, 5], [], []) = Done () (int_ll [3, 5, 7], [], [])"
    by (simp add: int_ll_eval)
  have 2: "ll_insert_head 9 (int_ll [3, 5], [], []) = Done () (int_ll [9, 3, 5], [], [])"
    by (simp add: int_ll_eval)
  from ll_insert_order [OF int_ll_inv [of "[3, 5]"] 1 2] 1 show ?thesis by simp
qed

text \<open>
  C38: \<^verbatim>\<open>ll_create_copy\<close> makes two calls of \<^verbatim>\<open>malloc\<close> and one for each node of the list. When all of them
  succeed it returns a list equal to the original (same data, same order, same operations). When one
  fails it returns \<^verbatim>\<open>NULL\<close> and makes no further call, and the clean-up has run the destroy callback on
  exactly the data copied so far, each once and in order: data that the original list still holds.
\<close>

theorem ll_copy_faithful:
  assumes "ll_inv ll" "n = length (ll_root ll) + 2"
  shows "ll_create_copy ll (m, w) =
    (if granted n m = n then Done (Some ll) (drop n m, w)
     else Done None (drop (Suc (granted n m)) m, fold (ll_destroy_node ll) (take (granted n m - 2) (ll_root ll)) w))"
  using ll_create_copy_eq [OF assms(1), of m w] assms(2) by (simp add: Let_def)

theorem ll_copy_faithful_witness:
  "ll_create_copy (int_ll [3, 5]) ([], []) = Done (Some (int_ll [3, 5])) ([], [])
   \<and> ll_create_copy (int_ll [3, 5]) ([True, True, True, False, True], []) = Done None ([True], [3])"
proof -
  have n: "4 = length (ll_root (int_ll [3, 5])) + 2" by (simp add: int_ll_def)
  have g: "granted 4 [] = 4" "granted 4 [True, True, True, False, True] = 3" by (simp_all add: eval_nat_numeral)
  show ?thesis
    using ll_copy_faithful [OF int_ll_inv n, of "[]" "[]"]
      ll_copy_faithful [OF int_ll_inv n, of "[True, True, True, False, True]" "[]"]
    unfolding g by (simp add: int_ll_def ll_destroy_node_def eval_nat_numeral)
qed

end
