(* ===== verification/AvlTree.thy ===== *)
theory AvlTree
  imports DictSpec "HOL-Library.Monad_Syntax"
begin

text \<open>
  \<^verbatim>\<open>avl_trees/avl_tree.c\<close>: an AVL tree of client data with explicit balance fields. A subtree is
  a value of type \<open>atn\<close>. The C code passes a node and its parent, changes the node in place,
  and where the root of the subtree changes (a rotation, a removal) stores the new child
  pointer in the parent, choosing the side by comparing the node's data with the parent's.
  The model does the same: an operation on a subtree gets the parent's data, and returns what
  the old node has become together with the stores into the parent it made, in order; the
  caller performs them (\<open>relink\<close>), choosing the side by the same comparison. That the
  comparison picks the right side, that no assertion fails, and that the result is a sorted
  AVL tree is proved in \<open>AvlCorrect\<close>.
\<close>

section \<open>State\<close>

text \<open>\<^verbatim>\<open>atn_balance\<close> is an \<^verbatim>\<open>int8_t\<close>: stores into it wrap around (\<open>int8\<close>).\<close>

datatype 'a atn = Null
  | Atn (atn_balance: int) (atn_data: 'a) (atn_lchild: "'a atn") (atn_rchild: "'a atn")

record ('a, 'w) avl_tree_ops =
  ato_compare_fn :: "'a \<Rightarrow> 'a \<Rightarrow> int"
  ato_destroy_data_fn :: "('a \<Rightarrow> 'w \<Rightarrow> 'w) option"

record ('a, 'w) avl_tree =
  at_root :: "'a atn"
  at_ops :: "('a, 'w) avl_tree_ops"
  at_nnodes :: nat

type_synonym ('a, 'w) at_state = "(('a, 'w) avl_tree, 'w) cstate"

text \<open>Stores into the parent's child pointers: the data compared with the parent's, the new child.\<close>

type_synonym 'a links = "('a \<times> 'a atn) list"

definition at_create :: "('a, 'w) avl_tree_ops \<Rightarrow> allocator
    \<Rightarrow> ('a, 'w) avl_tree option \<times> allocator" where
  "at_create ato m =
     (let (ok, m1) = malloc m in
      if \<not> ok then (None, m1)
      else let (ok2, m2) = malloc m1 in
        if \<not> ok2 then (None, m2)
        else (Some \<lparr>at_root = Null, at_ops = ato, at_nnodes = 0\<rparr>, m2))"

definition atn_destroy :: "('a, 'w) avl_tree \<Rightarrow> 'a \<Rightarrow> 'w \<Rightarrow> 'w" where
  "atn_destroy at d w =
     (case ato_destroy_data_fn (at_ops at) of None \<Rightarrow> w | Some f \<Rightarrow> f d w)"

fun at_destroy_node :: "('a, 'w) avl_tree \<Rightarrow> 'a atn \<Rightarrow> 'w \<Rightarrow> 'w" where
  "at_destroy_node at Null w = w"
| "at_destroy_node at (Atn b d l r) w =
     atn_destroy at d (at_destroy_node at r (at_destroy_node at l w))"

definition at_destroy :: "('a, 'w) avl_tree \<Rightarrow> 'w \<Rightarrow> 'w" where
  "at_destroy at w = at_destroy_node at (at_root at) w"

section \<open>Checking\<close>

text \<open>The height and the node count of a subtree, or \<open>None\<close> where an assertion fails.\<close>

fun at_check_node :: "('a \<Rightarrow> 'a \<Rightarrow> int) \<Rightarrow> 'a atn \<Rightarrow> (nat \<times> nat) option" where
  "at_check_node cmp Null = Some (0, 0)"
| "at_check_node cmp (Atn b d l r) =
     (if r \<noteq> Null \<and> \<not> cmp (atn_data r) d > 0 then None
      else do {
        (rheight, rn) \<leftarrow> at_check_node cmp r;
        if l \<noteq> Null \<and> \<not> cmp (atn_data l) d < 0 then None
        else do {
          (lheight, ln) \<leftarrow> at_check_node cmp l;
          let balance = int rheight - int lheight in
          if b = balance \<and> \<bar>balance\<bar> \<le> 1
          then Some ((if lheight > rheight then lheight else rheight) + 1, rn + ln + 1)
          else None
        }
      })"

definition at_check :: "('a, 'w) avl_tree \<Rightarrow> bool" where
  "at_check at \<longleftrightarrow>
     (case at_check_node (ato_compare_fn (at_ops at)) (at_root at) of
        None \<Rightarrow> False
      | Some (h, nnodes) \<Rightarrow> nnodes = at_nnodes at)"

section \<open>Balance predicates\<close>

definition atn_is_right_heavy :: "'a atn \<Rightarrow> bool" where
  "atn_is_right_heavy atn \<longleftrightarrow> atn_balance atn > 0"

definition atn_is_left_heavy :: "'a atn \<Rightarrow> bool" where
  "atn_is_left_heavy atn \<longleftrightarrow> atn_balance atn < 0"

definition atn_is_perfectly_balanced :: "'a atn \<Rightarrow> bool" where
  "atn_is_perfectly_balanced atn \<longleftrightarrow> atn_balance atn = 0"

definition atn_unbalanced :: "'a atn \<Rightarrow> bool" where
  "atn_unbalanced atn \<longleftrightarrow> \<bar>atn_balance atn\<bar> > 1"

definition atn_has_no_children :: "'a atn \<Rightarrow> bool" where
  "atn_has_no_children atn \<longleftrightarrow> atn_lchild atn = Null \<and> atn_rchild atn = Null"

text \<open>
  Pointer equality of the plucked node with a child: two nodes of a tree never hold data that
  compare equal, so the node is identified by its data.
\<close>

definition atn_is_child_of :: "'a \<Rightarrow> 'a atn \<Rightarrow> bool" where
  "atn_is_child_of d parent \<longleftrightarrow>
     (atn_lchild parent \<noteq> Null \<and> atn_data (atn_lchild parent) = d)
     \<or> (atn_rchild parent \<noteq> Null \<and> atn_data (atn_rchild parent) = d)"

section \<open>Rotations\<close>

definition relink :: "('a \<Rightarrow> 'a \<Rightarrow> int) \<Rightarrow> 'a \<Rightarrow> 'a links \<Rightarrow> 'a atn \<times> 'a atn \<Rightarrow> 'a atn \<times> 'a atn" where
  "relink cmp pdata lks lr =
     fold (\<lambda>(d, new) (l, r). if cmp d pdata > 0 then (l, new) else (new, r)) lks lr"

text \<open>Without a parent the store goes to \<^verbatim>\<open>at_root\<close>.\<close>

definition relink_root :: "'a links \<Rightarrow> 'a atn \<Rightarrow> 'a atn" where
  "relink_root lks atn = (if lks = [] then atn else snd (last lks))"

text \<open>\<open>None\<close> is a failed assertion or the dereference of a missing child.\<close>

fun at_rotate_right :: "('a \<Rightarrow> 'a \<Rightarrow> int) \<Rightarrow> 'a option \<Rightarrow> 'a atn \<Rightarrow> ('a atn \<times> 'a links) option" where
  "at_rotate_right cmp parent (Atn b d (Atn cb cd cl grandchild) r) =
     (if \<not> b < 0 then None
      else if (case parent of None \<Rightarrow> False | Some p \<Rightarrow> cmp d p = 0) then None
      else
        let new_atn_balance = int8 (b + 1);
            (new_atn_balance, new_child_balance) =
              (if cb < 0 then
                 (int8 (int8 (new_atn_balance + 1) + (if \<bar>cb\<bar> > 1 then 1 else 0)),
                  if \<not> \<bar>b\<bar> > 1 then 1 else 0)
               else (new_atn_balance, int8 (cb + 1)));
            atn' = Atn new_atn_balance d grandchild r
        in if cb < 0 \<and> \<bar>cb\<bar> > 1 \<and> \<not> \<bar>b\<bar> > 1 then None
           else Some (atn', [(d, Atn new_child_balance cd cl atn')]))"
| "at_rotate_right cmp parent _ = None"

fun at_rotate_left :: "('a \<Rightarrow> 'a \<Rightarrow> int) \<Rightarrow> 'a option \<Rightarrow> 'a atn \<Rightarrow> ('a atn \<times> 'a links) option" where
  "at_rotate_left cmp parent (Atn b d l (Atn cb cd grandchild cr)) =
     (if \<not> b > 0 then None
      else if (case parent of None \<Rightarrow> False | Some p \<Rightarrow> cmp d p = 0) then None
      else
        let new_atn_balance = int8 (b - 1);
            (new_atn_balance, new_child_balance) =
              (if cb > 0 then
                 (int8 (int8 (new_atn_balance - 1) - (if \<bar>cb\<bar> > 1 then 1 else 0)),
                  if \<not> \<bar>b\<bar> > 1 then -1 else 0)
               else (new_atn_balance, int8 (cb - 1)));
            atn' = Atn new_atn_balance d l grandchild
        in if cb > 0 \<and> \<bar>cb\<bar> > 1 \<and> \<not> \<bar>b\<bar> > 1 then None
           else Some (atn', [(d, Atn new_child_balance cd atn' cr)]))"
| "at_rotate_left cmp parent _ = None"

fun at_balance :: "('a \<Rightarrow> 'a \<Rightarrow> int) \<Rightarrow> 'a option \<Rightarrow> 'a atn \<Rightarrow> ('a atn \<times> 'a links) option" where
  "at_balance cmp parent Null = None"
| "at_balance cmp parent (Atn b d l r) =
     (if \<not> atn_unbalanced (Atn b d l r) then None
      else if atn_is_right_heavy (Atn b d l r) then
        if r = Null then None
        else do {
          atn \<leftarrow> (if atn_is_left_heavy r then
                   do {
                     (r', lks) \<leftarrow> at_rotate_right cmp (Some d) r;
                     let (l1, r1) = relink cmp d lks (l, r') in
                     Some (Atn b d l1 r1)
                   }
                 else Some (Atn b d l r));
          (atn', lks) \<leftarrow> at_rotate_left cmp parent atn;
          if atn_unbalanced atn' then None else Some (atn', lks)
        }
      else if \<not> atn_is_left_heavy (Atn b d l r) \<or> l = Null then None
        else do {
          atn \<leftarrow> (if atn_is_right_heavy l then
                   do {
                     (l', lks) \<leftarrow> at_rotate_left cmp (Some d) l;
                     let (l1, r1) = relink cmp d lks (l', r) in
                     Some (Atn b d l1 r1)
                   }
                 else Some (Atn b d l r));
          (atn', lks) \<leftarrow> at_rotate_right cmp parent atn;
          if atn_unbalanced atn' then None else Some (atn', lks)
        })"

section \<open>Insertion\<close>

text \<open>
  The end of \<^verbatim>\<open>_at_insert\<close>: adjust the balance, rebalance. The result is the height change
  reported to the caller and the stores into the parent.
\<close>

definition at_insert_fixup :: "('a \<Rightarrow> 'a \<Rightarrow> int) \<Rightarrow> 'a option \<Rightarrow> bool \<Rightarrow> bool \<Rightarrow> 'a atn
    \<Rightarrow> (bool \<times> 'a links, 'a atn) outcome" where
  "at_insert_fixup cmp parent lheight_change rheight_change atn =
     (let b = atn_balance atn;
          (height_change, b') =
            (if rheight_change then (\<not> atn_is_left_heavy atn, int8 (b + 1))
             else if lheight_change then (\<not> atn_is_right_heavy atn, int8 (b - 1))
             else (False, b));
          atn1 = Atn b' (atn_data atn) (atn_lchild atn) (atn_rchild atn)
      in if atn_unbalanced atn1 then
           if \<not> (rheight_change \<or> lheight_change) then Abort
           else case at_balance cmp parent atn1 of
             None \<Rightarrow> Abort
           | Some (atn', lks) \<Rightarrow> Done (False, lks) atn'
         else Done (height_change, []) atn1)"

fun at_insert_node :: "('a \<Rightarrow> 'a \<Rightarrow> int) \<Rightarrow> 'a option \<Rightarrow> 'a \<Rightarrow> 'a atn
    \<Rightarrow> (bool \<times> 'a links, 'a atn) outcome" where
  "at_insert_node cmp parent x Null = Abort"
| "at_insert_node cmp parent x (Atn b d l r) =
     (let comparison = cmp x d in
      if comparison = 0 then Fail EEXIST (Atn b d l r)
      else if comparison > 0 then
        if r = Null then at_insert_fixup cmp parent False True (Atn b d l (Atn 0 x Null Null))
        else case at_insert_node cmp (Some d) x r of
          Abort \<Rightarrow> Abort
        | Fail e r' \<Rightarrow> Fail e (Atn b d l r')
        | Done (rheight_change, lks) r' \<Rightarrow>
            let (l1, r1) = relink cmp d lks (l, r') in
            at_insert_fixup cmp parent False rheight_change (Atn b d l1 r1)
      else
        if l = Null then at_insert_fixup cmp parent True False (Atn b d (Atn 0 x Null Null) r)
        else case at_insert_node cmp (Some d) x l of
          Abort \<Rightarrow> Abort
        | Fail e l' \<Rightarrow> Fail e (Atn b d l' r)
        | Done (lheight_change, lks) l' \<Rightarrow>
            let (l1, r1) = relink cmp d lks (l', r) in
            at_insert_fixup cmp parent lheight_change False (Atn b d l1 r1))"

definition at_insert :: "'a \<Rightarrow> (('a, 'w) at_state, unit) prog" where
  "at_insert x st =
     (let (at, m, w) = st; (ok, m1) = malloc m in
      if \<not> ok then Fail EGENERIC (at, m1, w)
      else if at_root at = Null then
        Done () (at\<lparr>at_root := Atn 0 x Null Null, at_nnodes := at_nnodes at + 1\<rparr>, m1, w)
      else case at_insert_node (ato_compare_fn (at_ops at)) None x (at_root at) of
        Abort \<Rightarrow> Abort
      | Fail e t \<Rightarrow> Fail e (at\<lparr>at_root := t\<rparr>, m1, w)
      | Done (height_change, lks) t \<Rightarrow>
          Done () (at\<lparr>at_root := relink_root lks t, at_nnodes := at_nnodes at + 1\<rparr>, m1, w))"

section \<open>Search\<close>

fun at_find_node :: "('a \<Rightarrow> 'a \<Rightarrow> int) \<Rightarrow> 'a \<Rightarrow> 'a atn \<Rightarrow> 'a option" where
  "at_find_node cmp x Null = None"
| "at_find_node cmp x (Atn b d l r) =
     (let comparison = cmp x d in
      if comparison = 0 then Some d
      else if comparison > 0 then at_find_node cmp x r
      else at_find_node cmp x l)"

definition at_find :: "'a \<Rightarrow> (('a, 'w) at_state, 'a) prog" where
  "at_find x st =
     (let (at, m, w) = st in
      case at_find_node (ato_compare_fn (at_ops at)) x (at_root at) of
        None \<Rightarrow> Fail ENOENT st
      | Some d \<Rightarrow> Done d st)"

definition at_empty :: "('a, 'w) avl_tree \<Rightarrow> bool" where
  "at_empty at \<longleftrightarrow> at_nnodes at = 0"

section \<open>Removal\<close>

text \<open>
  The maximum of a subtree is unlinked; the result is its data, whether the subtree lost
  height, and the stores into the parent.
\<close>

fun at_get_max_for_removal :: "('a \<Rightarrow> 'a \<Rightarrow> int) \<Rightarrow> 'a \<Rightarrow> 'a atn
    \<Rightarrow> ('a \<times> bool \<times> 'a links, 'a atn) outcome" where
  "at_get_max_for_removal cmp pdata Null = Abort"
| "at_get_max_for_removal cmp pdata (Atn b d l r) =
     (if r = Null then Done (d, True, [(d, l)]) (Atn b d l r)
      else case at_get_max_for_removal cmp d r of
        Abort \<Rightarrow> Abort
      | Fail e r' \<Rightarrow> Fail e (Atn b d l r')
      | Done (mx, rheight_change, lks) r' \<Rightarrow>
          let (l1, r1) = relink cmp d lks (l, r');
              (height_change, b') =
                (if rheight_change then (b > 0, int8 (b - 1)) else (False, b));
              atn = Atn b' d l1 r1
          in if atn_unbalanced atn then
               if \<not> rheight_change \<or> height_change \<or> \<not> atn_is_left_heavy atn \<or> l1 = Null then Abort
               else case at_balance cmp (Some pdata) atn of
                 None \<Rightarrow> Abort
               | Some (atn', lks') \<Rightarrow> Done (mx, \<not> atn_is_perfectly_balanced l1, lks') atn'
             else Done (mx, height_change, []) atn)"

text \<open>The recursive call on the left child is \<^verbatim>\<open>at_get_max_for_removal\<close>, as in the source.\<close>

fun at_get_min_for_removal :: "('a \<Rightarrow> 'a \<Rightarrow> int) \<Rightarrow> 'a \<Rightarrow> 'a atn
    \<Rightarrow> ('a \<times> bool \<times> 'a links, 'a atn) outcome" where
  "at_get_min_for_removal cmp pdata Null = Abort"
| "at_get_min_for_removal cmp pdata (Atn b d l r) =
     (if l = Null then Done (d, True, [(d, r)]) (Atn b d l r)
      else case at_get_max_for_removal cmp d l of
        Abort \<Rightarrow> Abort
      | Fail e l' \<Rightarrow> Fail e (Atn b d l' r)
      | Done (mn, lheight_change, lks) l' \<Rightarrow>
          let (l1, r1) = relink cmp d lks (l', r);
              (height_change, b') =
                (if lheight_change then (b < 0, int8 (b + 1)) else (False, b));
              atn = Atn b' d l1 r1
          in if atn_unbalanced atn then
               if \<not> lheight_change \<or> height_change \<or> \<not> atn_is_right_heavy atn \<or> r1 = Null then Abort
               else case at_balance cmp (Some pdata) atn of
                 None \<Rightarrow> Abort
               | Some (atn', lks') \<Rightarrow> Done (mn, \<not> atn_is_perfectly_balanced r1, lks') atn'
             else Done (mn, height_change, []) atn)"

text \<open>The replacement's data and the height changes of the left and the right subtree.\<close>

definition at_get_replacement_for_removal :: "('a \<Rightarrow> 'a \<Rightarrow> int) \<Rightarrow> 'a atn
    \<Rightarrow> ('a \<times> bool \<times> bool, 'a atn) outcome" where
  "at_get_replacement_for_removal cmp atn =
     (let b = atn_balance atn; d = atn_data atn; l = atn_lchild atn; r = atn_rchild atn in
      if atn_has_no_children atn then Abort
      else if l \<noteq> Null then
        (case at_get_max_for_removal cmp d l of
           Abort \<Rightarrow> Abort
         | Fail e l' \<Rightarrow> Fail e (Atn b d l' r)
         | Done (repl, lheight_change, lks) l' \<Rightarrow>
             let (l1, r1) = relink cmp d lks (l', r) in
             Done (repl, lheight_change, False) (Atn b d l1 r1))
      else
        (case at_get_min_for_removal cmp d r of
           Abort \<Rightarrow> Abort
         | Fail e r' \<Rightarrow> Fail e (Atn b d l r')
         | Done (repl, rheight_change, lks) r' \<Rightarrow>
             let (l1, r1) = relink cmp d lks (l, r') in
             Done (repl, False, rheight_change) (Atn b d l1 r1)))"

text \<open>
  The end of \<^verbatim>\<open>_at_remove\<close>. \<^verbatim>\<open>height_change\<close> is a NULL pointer exactly when there is no parent
  (the call from \<^verbatim>\<open>at_remove\<close>).
\<close>

definition at_remove_fixup :: "('a \<Rightarrow> 'a \<Rightarrow> int) \<Rightarrow> 'a option \<Rightarrow> bool \<Rightarrow> bool \<Rightarrow> 'a atn
    \<Rightarrow> (bool \<times> 'a links, 'a atn) outcome" where
  "at_remove_fixup cmp parent lheight_change rheight_change atn =
     (let b = atn_balance atn; l = atn_lchild atn; r = atn_rchild atn;
          (height_change, b') =
            (if rheight_change then (atn_is_right_heavy atn, int8 (b - 1))
             else if lheight_change then (atn_is_left_heavy atn, int8 (b + 1))
             else (False, b));
          atn1 = Atn b' (atn_data atn) l r
      in if atn_unbalanced atn1 then
           if \<not> (rheight_change \<or> lheight_change) \<or> (parent \<noteq> None \<and> height_change)
              \<or> (atn_is_right_heavy atn1 \<and> r = Null) \<or> (atn_is_left_heavy atn1 \<and> l = Null) then Abort
           else
             let same_height = (atn_is_right_heavy atn1 \<and> atn_is_perfectly_balanced r)
                               \<or> (atn_is_left_heavy atn1 \<and> atn_is_perfectly_balanced l) in
             case at_balance cmp parent atn1 of
               None \<Rightarrow> Abort
             | Some (atn', lks) \<Rightarrow> Done (\<not> same_height, lks) atn'
         else Done (height_change, []) atn1)"

text \<open>
  The result holds the height change, the data destroyed, and the stores into the parent. A
  node that was freed is left as \<open>Null\<close>: the first store of the list replaces the pointer to it.
\<close>

fun at_remove_node :: "('a \<Rightarrow> 'a \<Rightarrow> int) \<Rightarrow> 'a option \<Rightarrow> 'a \<Rightarrow> 'a atn
    \<Rightarrow> (bool \<times> 'a \<times> 'a links, 'a atn) outcome" where
  "at_remove_node cmp parent x Null = Fail ENOENT Null"
| "at_remove_node cmp parent x (Atn b d l r) =
     (let comparison = cmp x d in
      if comparison = 0 then
        if atn_has_no_children (Atn b d l r) then Done (True, d, [(d, Null)]) Null
        else case at_get_replacement_for_removal cmp (Atn b d l r) of
          Abort \<Rightarrow> Abort
        | Fail e t \<Rightarrow> Fail e t
        | Done (repl, lheight_change, rheight_change) t \<Rightarrow>
            if atn_is_child_of repl t then Abort
            else case at_remove_fixup cmp parent lheight_change rheight_change
                        (Atn (atn_balance t) repl (atn_lchild t) (atn_rchild t)) of
              Abort \<Rightarrow> Abort
            | Fail e t' \<Rightarrow> Fail e t'
            | Done (height_change, lks) t' \<Rightarrow> Done (height_change, d, (d, t') # lks) Null
      else if comparison > 0 then
        case at_remove_node cmp (Some d) x r of
          Abort \<Rightarrow> Abort
        | Fail e r' \<Rightarrow> Fail e (Atn b d l r')
        | Done (rheight_change, gone, lks) r' \<Rightarrow>
            let (l1, r1) = relink cmp d lks (l, r') in
            (case at_remove_fixup cmp parent False rheight_change (Atn b d l1 r1) of
               Abort \<Rightarrow> Abort
             | Fail e t \<Rightarrow> Fail e t
             | Done (height_change, lks') t \<Rightarrow> Done (height_change, gone, lks') t)
      else
        case at_remove_node cmp (Some d) x l of
          Abort \<Rightarrow> Abort
        | Fail e l' \<Rightarrow> Fail e (Atn b d l' r)
        | Done (lheight_change, gone, lks) l' \<Rightarrow>
            let (l1, r1) = relink cmp d lks (l', r) in
            (case at_remove_fixup cmp parent lheight_change False (Atn b d l1 r1) of
               Abort \<Rightarrow> Abort
             | Fail e t \<Rightarrow> Fail e t
             | Done (height_change, lks') t \<Rightarrow> Done (height_change, gone, lks') t))"

definition at_remove :: "'a \<Rightarrow> (('a, 'w) at_state, unit) prog" where
  "at_remove x st =
     (let (at, m, w) = st in
      case at_remove_node (ato_compare_fn (at_ops at)) None x (at_root at) of
        Abort \<Rightarrow> Abort
      | Fail e t \<Rightarrow> Fail e (at\<lparr>at_root := t\<rparr>, m, w)
      | Done (height_change, gone, lks) t \<Rightarrow>
          Done () (at\<lparr>at_root := relink_root lks t, at_nnodes := at_nnodes at - 1\<rparr>, m,
                   atn_destroy at gone w))"

section \<open>Iteration\<close>

text \<open>In-order traversal; a callback that asks to stop, or fails, ends it.\<close>

fun at_iterate_node :: "('a, 'c) callback \<Rightarrow> 'a atn \<Rightarrow> ('c, bool) prog" where
  "at_iterate_node cb Null c = Done False c"
| "at_iterate_node cb (Atn b d l r) c =
     (case (if l \<noteq> Null then at_iterate_node cb l c else Done False c) of
        Abort \<Rightarrow> Abort
      | Fail e c1 \<Rightarrow> Fail e c1
      | Done stop c1 \<Rightarrow>
          if stop then Done True c1
          else case cb d c1 of
            Abort \<Rightarrow> Abort
          | Fail e c2 \<Rightarrow> Fail e c2
          | Done stop c2 \<Rightarrow>
              if stop then Done True c2
              else if r \<noteq> Null then at_iterate_node cb r c2
              else Done False c2)"

definition at_iterate :: "('a, 'w) avl_tree \<Rightarrow> ('a, 'c) callback \<Rightarrow> ('c, unit) prog" where
  "at_iterate at cb c =
     (case at_iterate_node cb (at_root at) c of
        Abort \<Rightarrow> Abort
      | Fail e c' \<Rightarrow> Fail e c'
      | Done stop c' \<Rightarrow> Done () c')"

end
