(* ===== verification/AvlCorrect.thy ===== *)
theory AvlCorrect
  imports AvlTree
begin

text \<open>
  Correctness of the AVL tree: insertion and removal keep the tree sorted, balanced and with
  exact balance fields, none of the assertions of the code fails, the stores into the parent
  hit the side the operation came from, and the tree is a dictionary.
\<close>

section \<open>Heights, order, balance\<close>

fun atn_height :: "'a atn \<Rightarrow> nat" where
  "atn_height Null = 0"
| "atn_height (Atn b d l r) = Suc (max (atn_height l) (atn_height r))"

fun atn_inorder :: "'a atn \<Rightarrow> 'a list" where
  "atn_inorder Null = []"
| "atn_inorder (Atn b d l r) = atn_inorder l @ d # atn_inorder r"

fun avl_ok :: "'a atn \<Rightarrow> bool" where
  "avl_ok Null \<longleftrightarrow> True"
| "avl_ok (Atn b d l r) \<longleftrightarrow> b = int (atn_height r) - int (atn_height l) \<and> \<bar>b\<bar> \<le> 1
     \<and> avl_ok l \<and> avl_ok r"

definition parent_ok :: "('a \<Rightarrow> 'a \<Rightarrow> int) \<Rightarrow> 'a option \<Rightarrow> 'a \<Rightarrow> bool" where
  "parent_ok cmp parent d \<longleftrightarrow> (case parent of None \<Rightarrow> True | Some p \<Rightarrow> cmp d p \<noteq> 0)"

lemma parent_ok_simps [simp]:
  "parent_ok cmp None d" "parent_ok cmp (Some p) d \<longleftrightarrow> cmp d p \<noteq> 0"
  by (simp_all add: parent_ok_def)

lemma parent_ok_case:
  "parent_ok cmp parent d \<Longrightarrow> (case parent of None \<Rightarrow> False | Some p \<Rightarrow> cmp d p = 0) = False"
  by (auto simp: parent_ok_def split: option.splits)

lemma parent_ok_right:
  assumes "total_cmp cmp" "csorted cmp (ls @ d # rs)"
  shows "\<forall>y\<in>set rs. parent_ok cmp (Some d) y"
proof
  fix y assume "y \<in> set rs"
  with assms(2) have "cmp d y < 0" by (simp add: sorted_wrt_append)
  then show "parent_ok cmp (Some d) y" using total_cmp_gt [OF assms(1), of y d] by simp
qed

lemma parent_ok_left:
  assumes "total_cmp cmp" "csorted cmp (ls @ d # rs)"
  shows "\<forall>y\<in>set ls. parent_ok cmp (Some d) y"
  using assms(2) by (fastforce simp: sorted_wrt_append)

named_theorems atn_defs \<open>the balance predicates\<close>

lemmas [atn_defs] = atn_is_right_heavy_def atn_is_left_heavy_def atn_is_perfectly_balanced_def
  atn_unbalanced_def atn_has_no_children_def

lemma atn_height_0 [simp]: "atn_height t = 0 \<longleftrightarrow> t = Null"
  by (cases t) auto

lemma atn_inorder_Nil [simp]: "atn_inorder t = [] \<longleftrightarrow> t = Null"
  by (cases t) auto

section \<open>The stores into the parent\<close>

lemma relink_Nil [simp]: "relink cmp p [] lr = lr"
  by (simp add: relink_def)

lemma relink_Cons: "relink cmp p ((d, new) # lks) (l, r) =
    relink cmp p lks (if cmp d p > 0 then (l, new) else (new, r))"
  by (simp add: relink_def)

lemma relink_right:
  assumes "\<forall>(d, n)\<in>set lks. cmp d p > 0"
  shows "relink cmp p lks (l, r) = (l, relink_root lks r)"
  using assms by (induction lks arbitrary: r) (auto simp: relink_Cons relink_root_def)

lemma relink_left:
  assumes "\<forall>(d, n)\<in>set lks. \<not> cmp d p > 0"
  shows "relink cmp p lks (l, r) = (relink_root lks l, r)"
  using assms by (induction lks arbitrary: l) (auto simp: relink_Cons relink_root_def)

text \<open>The keys of a list of stores all come from a list of data.\<close>

definition links_in :: "'a links \<Rightarrow> 'a list \<Rightarrow> bool" where
  "links_in lks ds \<longleftrightarrow> fst ` set lks \<subseteq> set ds"

lemma links_in_simps [simp]:
  "links_in [] ds" "links_in ((d, n) # lks) ds \<longleftrightarrow> d \<in> set ds \<and> links_in lks ds"
  by (auto simp: links_in_def)

lemma links_in_mono: "links_in lks ds \<Longrightarrow> set ds \<subseteq> set es \<Longrightarrow> links_in lks es"
  by (auto simp: links_in_def)

lemma links_in_single: "links_in lks [d] \<Longrightarrow> d \<in> set ds \<Longrightarrow> links_in lks ds"
  by (auto simp: links_in_def)

lemma relink_root_simps [simp]:
  "relink_root [] t = t" "relink_root ((d, n) # lks) t = relink_root lks n"
  by (auto simp: relink_root_def)

lemma relink_right_in:
  assumes "total_cmp cmp" "csorted cmp (ls @ p # rs)" "links_in lks rs"
  shows "relink cmp p lks (l, r) = (l, relink_root lks r)"
proof (rule relink_right)
  show "\<forall>(d, n)\<in>set lks. cmp d p > 0"
    using assms by (auto simp: links_in_def sorted_wrt_append total_cmp_gt)
qed

lemma relink_left_in:
  assumes "total_cmp cmp" "csorted cmp (ls @ p # rs)" "links_in lks ls"
  shows "relink cmp p lks (l, r) = (relink_root lks l, r)"
proof (rule relink_left)
  show "\<forall>(d, n)\<in>set lks. \<not> cmp d p > 0"
    using assms by (fastforce simp: links_in_def sorted_wrt_append)
qed

section \<open>Rebalancing\<close>

declare at_balance.simps [simp del] at_rotate_right.simps [simp del] at_rotate_left.simps [simp del]

lemma avl_height_cases:
  assumes "avl_ok (Atn b d l r)"
  shows "(b = -1 \<and> atn_height l = Suc (atn_height r)) \<or> (b = 0 \<and> atn_height l = atn_height r)
    \<or> (b = 1 \<and> atn_height r = Suc (atn_height l))"
  using assms by auto

lemma at_balance_right:
  assumes c: "total_cmp cmp" and s: "csorted cmp (atn_inorder l @ d # atn_inorder r)"
    and ok: "avl_ok l" "avl_ok r" and h: "atn_height r = atn_height l + 2"
    and p: "parent_ok cmp parent d"
  shows "\<exists>t' new. at_balance cmp parent (Atn 2 d l r) = Some (t', [(d, new)])
    \<and> avl_ok new \<and> atn_inorder new = atn_inorder l @ d # atn_inorder r
    \<and> atn_height new = atn_height r + (if atn_balance r = 0 then 1 else 0)
    \<and> (atn_balance r = 0 \<longrightarrow> atn_balance new \<noteq> 0)"
proof -
  obtain cb cd cl cr where r: "r = Atn cb cd cl cr" using h by (cases r) auto
  note pc = parent_ok_case [OF p]
  show ?thesis
  proof (cases "cb < 0")
    case False
    with ok r h show ?thesis
      by (auto simp: at_balance.simps at_rotate_left.simps atn_defs Let_def pc)
  next
    case True
    then obtain gb gd gl gr where cl: "cl = Atn gb gd gl gr" using ok r by (cases cl) auto
    have "cmp cd d > 0" using s r c by (auto simp: sorted_wrt_append total_cmp_gt)
    then have "cmp cd d \<noteq> 0" by simp
    note this [simp] \<open>cmp cd d > 0\<close> [simp]
    from True ok r h cl show ?thesis
      by (auto simp: at_balance.simps at_rotate_left.simps at_rotate_right.simps atn_defs Let_def
          pc relink_Cons)
  qed
qed

lemma at_balance_left:
  assumes c: "total_cmp cmp" and s: "csorted cmp (atn_inorder l @ d # atn_inorder r)"
    and ok: "avl_ok l" "avl_ok r" and h: "atn_height l = atn_height r + 2"
    and p: "parent_ok cmp parent d"
  shows "\<exists>t' new. at_balance cmp parent (Atn (-2) d l r) = Some (t', [(d, new)])
    \<and> avl_ok new \<and> atn_inorder new = atn_inorder l @ d # atn_inorder r
    \<and> atn_height new = atn_height l + (if atn_balance l = 0 then 1 else 0)
    \<and> (atn_balance l = 0 \<longrightarrow> atn_balance new \<noteq> 0)"
proof -
  obtain cb cd cl cr where l: "l = Atn cb cd cl cr" using h by (cases l) auto
  note pc = parent_ok_case [OF p]
  show ?thesis
  proof (cases "cb > 0")
    case False
    with ok l h show ?thesis
      by (auto simp: at_balance.simps at_rotate_right.simps atn_defs Let_def pc)
  next
    case True
    then obtain gb gd gl gr where cr: "cr = Atn gb gd gl gr" using ok l by (cases cr) auto
    have "cmp cd d < 0" using s l by (auto simp: sorted_wrt_append)
    then have "cmp cd d \<noteq> 0" "\<not> cmp cd d > 0" by simp_all
    note this [simp]
    from True ok l h cr show ?thesis
      by (auto simp: at_balance.simps at_rotate_left.simps at_rotate_right.simps atn_defs Let_def
          pc relink_Cons)
  qed
qed

section \<open>Insertion\<close>

text \<open>\<open>l\<close> and \<open>r\<close> are the subtrees after the insertion; \<open>b\<close> is the balance from before it.\<close>

lemma at_insert_fixup_correct:
  assumes c: "total_cmp cmp" and s: "csorted cmp (atn_inorder l @ d # atn_inorder r)"
    and ok: "avl_ok l" "avl_ok r" and b: "\<bar>b\<bar> \<le> 1" and p: "parent_ok cmp parent d"
    and b': "b = int (atn_height r) - of_bool rhc - (int (atn_height l) - of_bool lhc)"
    and one: "\<not> (lhc \<and> rhc)"
    and grow: "lhc \<and> b = -1 \<Longrightarrow> atn_balance l \<noteq> 0" "rhc \<and> b = 1 \<Longrightarrow> atn_balance r \<noteq> 0"
  shows "\<exists>hc lks t'. at_insert_fixup cmp parent lhc rhc (Atn b d l r) = Done (hc, lks) t'
    \<and> links_in lks [d] \<and> avl_ok (relink_root lks t')
    \<and> atn_inorder (relink_root lks t') = atn_inorder l @ d # atn_inorder r
    \<and> int (atn_height (relink_root lks t')) =
        1 + max (int (atn_height l) - of_bool lhc) (int (atn_height r) - of_bool rhc) + of_bool hc
    \<and> (hc \<longrightarrow> atn_balance (relink_root lks t') \<noteq> 0)"
proof -
  have b8: "int8 (b + 1) = b + 1" "int8 (b - 1) = b - 1" using b by simp_all
  consider (none) "\<not> lhc" "\<not> rhc" | (right) "rhc" "\<not> lhc" | (left) "lhc" "\<not> rhc"
    using one by blast
  then show ?thesis
  proof cases
    case none
    with ok b b' show ?thesis
      by (intro exI [of _ False] exI [of _ "[]"]) (simp add: at_insert_fixup_def atn_defs of_nat_max)
  next
    case right
    from b consider "b = -1" | "b = 0" | "b = 1" by linarith
    then show ?thesis
    proof cases
      case 3
      with right b' have h: "atn_height r = atn_height l + 2" by simp
      from at_balance_right [OF c s ok h p] obtain t' new where
        "at_balance cmp parent (Atn 2 d l r) = Some (t', [(d, new)])" "avl_ok new"
        "atn_inorder new = atn_inorder l @ d # atn_inorder r" "atn_height new = atn_height r"
        using grow(2) 3 right by auto
      with 3 right h show ?thesis by (simp add: at_insert_fixup_def atn_defs b8 ex_bool_eq)
    qed (use right ok b' in \<open>simp_all add: at_insert_fixup_def atn_defs of_nat_max ex_bool_eq\<close>)
  next
    case left
    from b consider "b = 1" | "b = 0" | "b = -1" by linarith
    then show ?thesis
    proof cases
      case 3
      with left b' have h: "atn_height l = atn_height r + 2" by simp
      from at_balance_left [OF c s ok h p] obtain t' new where
        "at_balance cmp parent (Atn (-2) d l r) = Some (t', [(d, new)])" "avl_ok new"
        "atn_inorder new = atn_inorder l @ d # atn_inorder r" "atn_height new = atn_height l"
        using grow(1) 3 left by auto
      with 3 left h show ?thesis by (simp add: at_insert_fixup_def atn_defs b8 ex_bool_eq)
    qed (use left ok b' in \<open>simp_all add: at_insert_fixup_def atn_defs of_nat_max ex_bool_eq\<close>)
  qed
qed

definition insert_post :: "('a \<Rightarrow> 'a \<Rightarrow> int) \<Rightarrow> 'a \<Rightarrow> 'a atn \<Rightarrow> (bool \<times> 'a links, 'a atn) outcome \<Rightarrow> bool" where
  "insert_post cmp x t res \<longleftrightarrow>
     (\<exists>hc lks t'. res = Done (hc, lks) t' \<and> links_in lks (atn_inorder t)
        \<and> avl_ok (relink_root lks t')
        \<and> atn_inorder (relink_root lks t') = ins_by cmp x (atn_inorder t)
        \<and> atn_height (relink_root lks t') = atn_height t + of_bool hc
        \<and> (hc \<longrightarrow> atn_balance (relink_root lks t') \<noteq> 0))"

lemma insert_right_step:
  assumes c: "total_cmp cmp" and s: "csorted cmp (atn_inorder l @ d # atn_inorder r)"
    and ok: "avl_ok l" "avl_ok r'"
    and bal: "b = int (atn_height r) - int (atn_height l)" "\<bar>b\<bar> \<le> 1"
    and p: "parent_ok cmp parent d" and gt: "cmp x d > 0"
    and new: "\<forall>y\<in>set (atn_inorder l @ d # atn_inorder r). cmp x y \<noteq> 0"
    and r': "atn_inorder r' = ins_by cmp x (atn_inorder r)" "atn_height r' = atn_height r + of_bool hc"
      "hc \<and> b = 1 \<Longrightarrow> atn_balance r' \<noteq> 0"
  shows "insert_post cmp x (Atn b d l r) (at_insert_fixup cmp parent False hc (Atn b d l r'))"
proof -
  have ins: "ins_by cmp x (atn_inorder l @ d # atn_inorder r) = atn_inorder l @ d # atn_inorder r'"
    unfolding r' by (rule ins_by_right [OF c s gt])
  have s': "csorted cmp (atn_inorder l @ d # atn_inorder r')"
    using csorted_ins_by [OF c s new] ins by simp
  have b': "b = int (atn_height r') - of_bool hc - (int (atn_height l) - of_bool False)"
    using bal(1) r'(2) by simp
  from at_insert_fixup_correct [OF c s' ok bal(2) p b'] r'(3) obtain hc' lks t' where 2:
    "at_insert_fixup cmp parent False hc (Atn b d l r') = Done (hc', lks) t'" "links_in lks [d]"
    "avl_ok (relink_root lks t')"
    "atn_inorder (relink_root lks t') = atn_inorder l @ d # atn_inorder r'"
    "int (atn_height (relink_root lks t')) =
      1 + max (int (atn_height l) - of_bool False) (int (atn_height r') - of_bool hc) + of_bool hc'"
    "hc' \<longrightarrow> atn_balance (relink_root lks t') \<noteq> 0" by auto
  have "atn_height (relink_root lks t') = atn_height (Atn b d l r) + of_bool hc'"
    using 2(5) r'(2) by (cases hc') (auto simp: max_def)
  moreover have "links_in lks (atn_inorder (Atn b d l r))" using 2(2) by (rule links_in_mono) simp
  ultimately show ?thesis using 2 ins unfolding insert_post_def by simp
qed

lemma insert_left_step:
  assumes c: "total_cmp cmp" and s: "csorted cmp (atn_inorder l @ d # atn_inorder r)"
    and ok: "avl_ok l'" "avl_ok r"
    and bal: "b = int (atn_height r) - int (atn_height l)" "\<bar>b\<bar> \<le> 1"
    and p: "parent_ok cmp parent d" and lt: "cmp x d < 0"
    and new: "\<forall>y\<in>set (atn_inorder l @ d # atn_inorder r). cmp x y \<noteq> 0"
    and l': "atn_inorder l' = ins_by cmp x (atn_inorder l)" "atn_height l' = atn_height l + of_bool hc"
      "hc \<and> b = -1 \<Longrightarrow> atn_balance l' \<noteq> 0"
  shows "insert_post cmp x (Atn b d l r) (at_insert_fixup cmp parent hc False (Atn b d l' r))"
proof -
  have ins: "ins_by cmp x (atn_inorder l @ d # atn_inorder r) = atn_inorder l' @ d # atn_inorder r"
    unfolding l' by (rule ins_by_left [OF c lt])
  have s': "csorted cmp (atn_inorder l' @ d # atn_inorder r)"
    using csorted_ins_by [OF c s new] ins by simp
  have b': "b = int (atn_height r) - of_bool False - (int (atn_height l') - of_bool hc)"
    using bal(1) l'(2) by simp
  from at_insert_fixup_correct [OF c s' ok bal(2) p b'] l'(3) obtain hc' lks t' where 2:
    "at_insert_fixup cmp parent hc False (Atn b d l' r) = Done (hc', lks) t'" "links_in lks [d]"
    "avl_ok (relink_root lks t')"
    "atn_inorder (relink_root lks t') = atn_inorder l' @ d # atn_inorder r"
    "int (atn_height (relink_root lks t')) =
      1 + max (int (atn_height l') - of_bool hc) (int (atn_height r) - of_bool False) + of_bool hc'"
    "hc' \<longrightarrow> atn_balance (relink_root lks t') \<noteq> 0" by auto
  have "atn_height (relink_root lks t') = atn_height (Atn b d l r) + of_bool hc'"
    using 2(5) l'(2) by (cases hc') (auto simp: max_def)
  moreover have "links_in lks (atn_inorder (Atn b d l r))" using 2(2) by (rule links_in_mono) simp
  ultimately show ?thesis using 2 ins unfolding insert_post_def by simp
qed

lemma at_insert_node_correct:
  assumes c: "total_cmp cmp"
  shows "t \<noteq> Null \<Longrightarrow> avl_ok t \<Longrightarrow> csorted cmp (atn_inorder t) \<Longrightarrow>
    \<forall>y\<in>set (atn_inorder t). parent_ok cmp parent y \<Longrightarrow>
    \<forall>y\<in>set (atn_inorder t). cmp x y \<noteq> 0 \<Longrightarrow>
    insert_post cmp x t (at_insert_node cmp parent x t)"
proof (induction t arbitrary: parent)
  case (Atn b d l r)
  from Atn.prems have s: "csorted cmp (atn_inorder l @ d # atn_inorder r)"
    and ok: "avl_ok l" "avl_ok r" and bal: "b = int (atn_height r) - int (atn_height l)" "\<bar>b\<bar> \<le> 1"
    and p: "parent_ok cmp parent d" and d: "cmp x d \<noteq> 0"
    and new: "\<forall>y\<in>set (atn_inorder l @ d # atn_inorder r). cmp x y \<noteq> 0" by auto
  show ?case
  proof (cases "cmp x d > 0")
    case True
    note step = insert_right_step [OF c s ok(1) _ bal p True new]
    show ?thesis
    proof (cases "r = Null")
      case r: True
      with bal have "b \<noteq> 1" by simp
      with step [of "Atn 0 x Null Null" True] True r show ?thesis by simp
    next
      case False
      have "\<forall>y\<in>set (atn_inorder r). parent_ok cmp (Some d) y"
        using parent_ok_right [OF c s] .
      with Atn.IH(2) [of "Some d"] False ok s Atn.prems(5)
      have "insert_post cmp x r (at_insert_node cmp (Some d) x r)" by (simp add: sorted_wrt_append)
      then obtain hc lks r' where 1: "at_insert_node cmp (Some d) x r = Done (hc, lks) r'"
        "links_in lks (atn_inorder r)" "avl_ok (relink_root lks r')"
        "atn_inorder (relink_root lks r') = ins_by cmp x (atn_inorder r)"
        "atn_height (relink_root lks r') = atn_height r + of_bool hc"
        "hc \<longrightarrow> atn_balance (relink_root lks r') \<noteq> 0" unfolding insert_post_def by blast
      from step [OF 1(3-5)] 1 True False show ?thesis
        by (simp add: relink_right_in [OF c s 1(2)])
    qed
  next
    case False
    with d have lt: "cmp x d < 0" by simp
    note step = insert_left_step [OF c s _ ok(2) bal p lt new]
    show ?thesis
    proof (cases "l = Null")
      case l: True
      with bal have "b \<noteq> -1" by simp
      with step [of "Atn 0 x Null Null" True] lt l show ?thesis by simp
    next
      case False
      have "\<forall>y\<in>set (atn_inorder l). parent_ok cmp (Some d) y"
        using parent_ok_left [OF c s] .
      with Atn.IH(1) [of "Some d"] False ok s Atn.prems(5)
      have "insert_post cmp x l (at_insert_node cmp (Some d) x l)" by (simp add: sorted_wrt_append)
      then obtain hc lks l' where 1: "at_insert_node cmp (Some d) x l = Done (hc, lks) l'"
        "links_in lks (atn_inorder l)" "avl_ok (relink_root lks l')"
        "atn_inorder (relink_root lks l') = ins_by cmp x (atn_inorder l)"
        "atn_height (relink_root lks l') = atn_height l + of_bool hc"
        "hc \<longrightarrow> atn_balance (relink_root lks l') \<noteq> 0" unfolding insert_post_def by blast
      from step [OF 1(3-5)] 1 lt False show ?thesis
        by (simp add: relink_left_in [OF c s 1(2)])
    qed
  qed
qed simp

lemma at_insert_node_dup:
  assumes c: "total_cmp cmp"
  shows "csorted cmp (atn_inorder t) \<Longrightarrow> y \<in> set (atn_inorder t) \<Longrightarrow> cmp x y = 0 \<Longrightarrow>
    at_insert_node cmp parent x t = Fail EEXIST t"
proof (induction t arbitrary: parent)
  case (Atn b d l r)
  then have s: "csorted cmp (atn_inorder l @ d # atn_inorder r)" by simp
  show ?case
  proof (cases "cmp x d" "0::int" rule: linorder_cases)
    case less
    then have "y \<notin> set (d # atn_inorder r)"
      using csorted_all_greater [OF c s, of x y] Atn.prems(3) by fastforce
    with Atn.prems have y: "y \<in> set (atn_inorder l)" by simp
    then have "l \<noteq> Null" by auto
    with less Atn.IH(1) [of "Some d"] y Atn.prems s show ?thesis by (simp add: sorted_wrt_append)
  next
    case greater
    then have "y \<notin> set (atn_inorder l @ [d])"
      using csorted_all_less [OF c s, of x y] Atn.prems(3) by fastforce
    with Atn.prems have y: "y \<in> set (atn_inorder r)" by simp
    then have "r \<noteq> Null" by auto
    with greater Atn.IH(2) [of "Some d"] y Atn.prems s show ?thesis by (simp add: sorted_wrt_append)
  qed simp
qed simp

section \<open>Removal\<close>

text \<open>
  \<open>l\<close> and \<open>r\<close> are the subtrees after the removal; \<open>b\<close> is the balance from before it. The height
  change is exact.
\<close>

lemma at_remove_fixup_correct:
  assumes c: "total_cmp cmp" and s: "csorted cmp (atn_inorder l @ d # atn_inorder r)"
    and ok: "avl_ok l" "avl_ok r" and b: "\<bar>b\<bar> \<le> 1" and p: "parent_ok cmp parent d"
    and b': "b = int (atn_height r) + of_bool rhc - (int (atn_height l) + of_bool lhc)"
    and one: "\<not> (lhc \<and> rhc)"
  shows "\<exists>hc lks t'. at_remove_fixup cmp parent lhc rhc (Atn b d l r) = Done (hc, lks) t'
    \<and> links_in lks [d] \<and> avl_ok (relink_root lks t')
    \<and> atn_inorder (relink_root lks t') = atn_inorder l @ d # atn_inorder r
    \<and> int (atn_height (relink_root lks t')) + of_bool hc =
        1 + max (int (atn_height l) + of_bool lhc) (int (atn_height r) + of_bool rhc)"
proof -
  have b8: "int8 (b + 1) = b + 1" "int8 (b - 1) = b - 1" using b by simp_all
  consider (none) "\<not> lhc" "\<not> rhc" | (right) "rhc" "\<not> lhc" | (left) "lhc" "\<not> rhc"
    using one by blast
  then show ?thesis
  proof cases
    case none
    with ok b b' show ?thesis
      by (intro exI [of _ False] exI [of _ "[]"]) (simp add: at_remove_fixup_def atn_defs of_nat_max)
  next
    case right
    from b consider "b = 1" | "b = 0" | "b = -1" by linarith
    then show ?thesis
    proof cases
      case 3
      with right b' have h: "atn_height l = atn_height r + 2" by simp
      then have "l \<noteq> Null" by auto
      from at_balance_left [OF c s ok h p] obtain t' new where
        "at_balance cmp parent (Atn (-2) d l r) = Some (t', [(d, new)])" "avl_ok new"
        "atn_inorder new = atn_inorder l @ d # atn_inorder r"
        "atn_height new = atn_height l + (if atn_balance l = 0 then 1 else 0)" by auto
      with 3 right h \<open>l \<noteq> Null\<close> show ?thesis by (simp add: at_remove_fixup_def atn_defs b8 ex_bool_eq)
    qed (use right ok b' in \<open>simp_all add: at_remove_fixup_def atn_defs of_nat_max ex_bool_eq\<close>)
  next
    case left
    from b consider "b = -1" | "b = 0" | "b = 1" by linarith
    then show ?thesis
    proof cases
      case 3
      with left b' have h: "atn_height r = atn_height l + 2" by simp
      then have "r \<noteq> Null" by auto
      from at_balance_right [OF c s ok h p] obtain t' new where
        "at_balance cmp parent (Atn 2 d l r) = Some (t', [(d, new)])" "avl_ok new"
        "atn_inorder new = atn_inorder l @ d # atn_inorder r"
        "atn_height new = atn_height r + (if atn_balance r = 0 then 1 else 0)" by auto
      with 3 left h \<open>r \<noteq> Null\<close> show ?thesis by (simp add: at_remove_fixup_def atn_defs b8 ex_bool_eq)
    qed (use left ok b' in \<open>simp_all add: at_remove_fixup_def atn_defs of_nat_max ex_bool_eq\<close>)
  qed
qed

text \<open>The tail of \<^verbatim>\<open>at_get_max_for_removal\<close> does what the tail of \<^verbatim>\<open>_at_remove\<close> does.\<close>

lemma at_get_max_step:
  assumes "r \<noteq> Null" "at_get_max_for_removal cmp d r = Done (mx, rhc, lks) r'"
    and "relink cmp d lks (l, r') = (l1, r1)" "\<bar>b\<bar> \<le> 1"
    and "at_remove_fixup cmp (Some p) False rhc (Atn b d l1 r1) = Done (hc, lks') t'"
  shows "at_get_max_for_removal cmp p (Atn b d l r) = Done (mx, hc, lks') t'"
proof -
  from assms(4) consider "b = -1" | "b = 0" | "b = 1" by linarith
  then show ?thesis
  proof cases
    case 1
    with assms(5) show ?thesis
      by (cases rhc; cases "at_balance cmp (Some p) (Atn (-2) d l1 r1)"; cases "l1 = Null")
        (auto simp: assms(1-3) at_remove_fixup_def atn_defs Let_def)
  qed (use assms(5) in \<open>cases rhc; simp add: assms(1-3) at_remove_fixup_def atn_defs\<close>)+
qed

lemma at_get_max_for_removal_correct:
  assumes c: "total_cmp cmp"
  shows "t \<noteq> Null \<Longrightarrow> avl_ok t \<Longrightarrow> csorted cmp (atn_inorder t) \<Longrightarrow>
    \<forall>y\<in>set (atn_inorder t). cmp y p \<noteq> 0 \<Longrightarrow>
    \<exists>mx hc lks t'. at_get_max_for_removal cmp p t = Done (mx, hc, lks) t'
      \<and> links_in lks (atn_inorder t) \<and> avl_ok (relink_root lks t')
      \<and> atn_inorder t = atn_inorder (relink_root lks t') @ [mx]
      \<and> atn_height t = atn_height (relink_root lks t') + of_bool hc"
proof (induction t arbitrary: p)
  case (Atn b d l r)
  from Atn.prems have s: "csorted cmp (atn_inorder l @ d # atn_inorder r)"
    and ok: "avl_ok l" "avl_ok r" and bal: "b = int (atn_height r) - int (atn_height l)" "\<bar>b\<bar> \<le> 1"
    and p: "parent_ok cmp (Some p) d" by auto
  show ?case
  proof (cases "r = Null")
    case True
    with bal ok show ?thesis by (simp add: max_def ex_bool_eq)
  next
    case False
    have "\<forall>y\<in>set (atn_inorder r). cmp y d \<noteq> 0" using parent_ok_right [OF c s] by simp
    with Atn.IH(2) [of d] False ok s obtain mx rhc lks r' where
      1: "at_get_max_for_removal cmp d r = Done (mx, rhc, lks) r'"
      "links_in lks (atn_inorder r)" "avl_ok (relink_root lks r')"
      "atn_inorder r = atn_inorder (relink_root lks r') @ [mx]"
      "atn_height r = atn_height (relink_root lks r') + of_bool rhc"
      by (auto simp: sorted_wrt_append)
    let ?r = "relink_root lks r'"
    have s': "csorted cmp (atn_inorder l @ d # atn_inorder ?r)"
      using s 1(4) by (auto simp: sorted_wrt_append)
    have b': "b = int (atn_height ?r) + of_bool rhc - (int (atn_height l) + of_bool False)"
      using bal(1) 1(5) by simp
    from at_remove_fixup_correct [OF c s' ok(1) 1(3) bal(2) p b'] obtain hc lks' t' where 2:
      "at_remove_fixup cmp (Some p) False rhc (Atn b d l ?r) = Done (hc, lks') t'"
      "links_in lks' [d]" "avl_ok (relink_root lks' t')"
      "atn_inorder (relink_root lks' t') = atn_inorder l @ d # atn_inorder ?r"
      "int (atn_height (relink_root lks' t')) + of_bool hc =
        1 + max (int (atn_height l) + of_bool False) (int (atn_height ?r) + of_bool rhc)" by auto
    note 3 = at_get_max_step [OF False 1(1) relink_right_in [OF c s 1(2)] bal(2) 2(1)]
    have "atn_height (Atn b d l r) = atn_height (relink_root lks' t') + of_bool hc"
      using 2(5) 1(5) by (cases hc) (auto simp: max_def)
    moreover have "links_in lks' (atn_inorder (Atn b d l r))" using 2(2) by (rule links_in_mono) simp
    ultimately show ?thesis using 2 3 1(4) by simp
  qed
qed simp

text \<open>A node without a left child that is balanced has a leaf, or nothing, on the right.\<close>

lemma avl_right_leaf:
  assumes "avl_ok (Atn b d Null r)" "r \<noteq> Null"
  obtains rd where "r = Atn 0 rd Null Null" "b = 1"
proof -
  obtain rb rd rl rr where r: "r = Atn rb rd rl rr" using assms(2) by (cases r) auto
  with assms(1) have "atn_height rl = 0 \<and> atn_height rr = 0" by auto
  with r assms(1) that show ?thesis by auto
qed

lemma at_get_replacement_correct:
  assumes c: "total_cmp cmp" and s: "csorted cmp (atn_inorder l @ d # atn_inorder r)"
    and ok: "avl_ok (Atn b d l r)" and some: "l \<noteq> Null \<or> r \<noteq> Null"
  shows "\<exists>repl lhc rhc l' r'. at_get_replacement_for_removal cmp (Atn b d l r) =
        Done (repl, lhc, rhc) (Atn b d l' r')
    \<and> avl_ok l' \<and> avl_ok r' \<and> \<not> (lhc \<and> rhc) \<and> repl \<in> set (atn_inorder l @ atn_inorder r)
    \<and> atn_inorder l' @ repl # atn_inorder r' = atn_inorder l @ atn_inorder r
    \<and> atn_height l = atn_height l' + of_bool lhc \<and> atn_height r = atn_height r' + of_bool rhc"
proof (cases "l = Null")
  case False
  have "\<forall>y\<in>set (atn_inorder l). cmp y d \<noteq> 0" using parent_ok_left [OF c s] by simp
  with at_get_max_for_removal_correct [OF c False, of d] ok s obtain mx hc lks l' where
    1: "at_get_max_for_removal cmp d l = Done (mx, hc, lks) l'"
    "links_in lks (atn_inorder l)" "avl_ok (relink_root lks l')"
    "atn_inorder l = atn_inorder (relink_root lks l') @ [mx]"
    "atn_height l = atn_height (relink_root lks l') + of_bool hc"
    by (auto simp: sorted_wrt_append)
  then show ?thesis using False ok
    by (simp add: at_get_replacement_for_removal_def atn_has_no_children_def
        relink_left_in [OF c s 1(2)] ex_bool_eq)
next
  case True
  with ok some have "avl_ok (Atn b d Null r)" "r \<noteq> Null" by auto
  then obtain rd where r: "r = Atn 0 rd Null Null" "b = 1" by (rule avl_right_leaf)
  have "cmp rd d > 0" using s r c by (auto simp: sorted_wrt_append total_cmp_gt)
  with True r show ?thesis
    by (simp add: at_get_replacement_for_removal_def atn_has_no_children_def relink_Cons ex_bool_eq)
qed

definition remove_post :: "('a \<Rightarrow> 'a \<Rightarrow> int) \<Rightarrow> 'a \<Rightarrow> 'a atn
    \<Rightarrow> (bool \<times> 'a \<times> 'a links, 'a atn) outcome \<Rightarrow> bool" where
  "remove_post cmp y t res \<longleftrightarrow>
     (\<exists>hc lks t'. res = Done (hc, y, lks) t' \<and> links_in lks (atn_inorder t)
        \<and> avl_ok (relink_root lks t')
        \<and> atn_inorder (relink_root lks t') = del_by cmp y (atn_inorder t)
        \<and> atn_height t = atn_height (relink_root lks t') + of_bool hc)"

lemma remove_fixup_step:
  assumes c: "total_cmp cmp" and s: "csorted cmp (atn_inorder l' @ d # atn_inorder r')"
    and ok: "avl_ok l'" "avl_ok r'" and p: "parent_ok cmp parent d"
    and bal: "b = int (atn_height r) - int (atn_height l)" "\<bar>b\<bar> \<le> 1"
    and h: "atn_height l = atn_height l' + of_bool lhc" "atn_height r = atn_height r' + of_bool rhc"
    and one: "\<not> (lhc \<and> rhc)"
  shows "\<exists>hc lks t'. at_remove_fixup cmp parent lhc rhc (Atn b d l' r') = Done (hc, lks) t'
    \<and> links_in lks [d] \<and> avl_ok (relink_root lks t')
    \<and> atn_inorder (relink_root lks t') = atn_inorder l' @ d # atn_inorder r'
    \<and> Suc (max (atn_height l) (atn_height r)) = atn_height (relink_root lks t') + of_bool hc"
proof -
  have b': "b = int (atn_height r') + of_bool rhc - (int (atn_height l') + of_bool lhc)"
    using bal(1) h by simp
  from at_remove_fixup_correct [OF c s ok bal(2) p b' one] obtain hc lks t' where
    1: "at_remove_fixup cmp parent lhc rhc (Atn b d l' r') = Done (hc, lks) t'" "links_in lks [d]"
    "avl_ok (relink_root lks t')"
    "atn_inorder (relink_root lks t') = atn_inorder l' @ d # atn_inorder r'"
    "int (atn_height (relink_root lks t')) + of_bool hc =
      1 + max (int (atn_height l') + of_bool lhc) (int (atn_height r') + of_bool rhc)" by blast
  have "int (atn_height (relink_root lks t')) + of_bool hc =
      1 + max (int (atn_height l)) (int (atn_height r))"
    using 1(5) unfolding h by simp
  then have "int (Suc (max (atn_height l) (atn_height r))) =
      int (atn_height (relink_root lks t') + of_bool hc)" by (simp add: of_nat_max)
  then have "Suc (max (atn_height l) (atn_height r)) = atn_height (relink_root lks t') + of_bool hc"
    by (simp only: of_nat_eq_iff)
  with 1 show ?thesis by blast
qed

lemma at_remove_node_root:
  assumes c: "total_cmp cmp" and s: "csorted cmp (atn_inorder l @ d # atn_inorder r)"
    and ok: "avl_ok (Atn b d l r)" and x: "cmp x d = 0"
    and p: "\<forall>y\<in>set (atn_inorder (Atn b d l r)). parent_ok cmp parent y"
  shows "remove_post cmp d (Atn b d l r) (at_remove_node cmp parent x (Atn b d l r))"
proof (cases "l = Null \<and> r = Null")
  case True
  with x show ?thesis
    by (simp add: remove_post_def atn_has_no_children_def total_cmp_refl [OF c] ex_bool_eq)
next
  case False
  then have "l \<noteq> Null \<or> r \<noteq> Null" by blast
  from at_get_replacement_correct [OF c s ok this] obtain repl lhc rhc l' r' where
    1: "at_get_replacement_for_removal cmp (Atn b d l r) = Done (repl, lhc, rhc) (Atn b d l' r')"
    "avl_ok l'" "avl_ok r'" "\<not> (lhc \<and> rhc)" "repl \<in> set (atn_inorder l @ atn_inorder r)"
    "atn_inorder l' @ repl # atn_inorder r' = atn_inorder l @ atn_inorder r"
    "atn_height l = atn_height l' + of_bool lhc" "atn_height r = atn_height r' + of_bool rhc"
    by blast
  have s': "csorted cmp (atn_inorder l' @ repl # atn_inorder r')"
    using s 1(6) by (simp add: sorted_wrt_append)
  have "repl \<notin> set (atn_inorder l')" "repl \<notin> set (atn_inorder r')"
    using s' total_cmp_refl [OF c, of repl] by (auto simp: sorted_wrt_append)
  then have nochild: "\<not> atn_is_child_of repl (Atn b d l' r')"
    by (cases l'; cases r') (auto simp: atn_is_child_of_def)
  have "parent_ok cmp parent repl" using p 1(5) by auto
  from remove_fixup_step [OF c s' 1(2,3) this _ _ 1(7,8,4), of b] ok obtain hc lks t' where
    2: "at_remove_fixup cmp parent lhc rhc (Atn b repl l' r') = Done (hc, lks) t'" "links_in lks [repl]"
    "avl_ok (relink_root lks t')"
    "atn_inorder (relink_root lks t') = atn_inorder l' @ repl # atn_inorder r'"
    "Suc (max (atn_height l) (atn_height r)) = atn_height (relink_root lks t') + of_bool hc"
    by auto
  have "del_by cmp d (atn_inorder l @ d # atn_inorder r) = atn_inorder l @ atn_inorder r"
    using csorted_all_less [OF c s, of d] total_cmp_refl [OF c, of d] by (force simp: del_by_append)
  moreover have "links_in lks (atn_inorder (Atn b d l r))" using 2(2) by (rule links_in_mono) (use 1(5) in auto)
  ultimately show ?thesis using 1 2 nochild x False
    by (auto simp: remove_post_def atn_has_no_children_def)
qed

lemma at_remove_node_correct:
  assumes c: "total_cmp cmp"
  shows "avl_ok t \<Longrightarrow> csorted cmp (atn_inorder t) \<Longrightarrow>
    \<forall>z\<in>set (atn_inorder t). parent_ok cmp parent z \<Longrightarrow>
    y \<in> set (atn_inorder t) \<Longrightarrow> cmp x y = 0 \<Longrightarrow>
    remove_post cmp y t (at_remove_node cmp parent x t)"
proof (induction t arbitrary: parent)
  case (Atn b d l r)
  from Atn.prems have s: "csorted cmp (atn_inorder l @ d # atn_inorder r)"
    and ok: "avl_ok l" "avl_ok r" and bal: "b = int (atn_height r) - int (atn_height l)" "\<bar>b\<bar> \<le> 1"
    and p: "parent_ok cmp parent d" by auto
  have eq: "cmp x z = 0 \<longleftrightarrow> cmp y z = 0" for z
    using equiv_cmp_cong [OF total_cmp_equiv [OF c] Atn.prems(5)] .
  show ?case
  proof (cases "cmp x d" "0::int" rule: linorder_cases)
    case equal
    then have "y = d" using distinct_by_inj [OF total_cmp_equiv [OF c] csorted_distinct_by [OF Atn.prems(2)]]
        eq Atn.prems(4) by simp
    with at_remove_node_root [OF c s Atn.prems(1) equal Atn.prems(3)] show ?thesis by simp
  next
    case greater
    have less: "cmp y z \<noteq> 0" if "z \<in> set (atn_inorder l @ [d])" for z
      using csorted_all_less [OF c s, of x z] greater that eq [of z] by auto
    with Atn.prems(4) total_cmp_refl [OF c, of y] have y: "y \<in> set (atn_inorder r)" by auto
    have "remove_post cmp y r (at_remove_node cmp (Some d) x r)"
      using Atn.IH(2) [OF ok(2) _ parent_ok_right [OF c s] y Atn.prems(5)] s
      by (simp add: sorted_wrt_append)
    then obtain rhc lks r' where 1: "at_remove_node cmp (Some d) x r = Done (rhc, y, lks) r'"
      "links_in lks (atn_inorder r)" "avl_ok (relink_root lks r')"
      "atn_inorder (relink_root lks r') = del_by cmp y (atn_inorder r)"
      "atn_height r = atn_height (relink_root lks r') + of_bool rhc"
      unfolding remove_post_def by blast
    have del: "del_by cmp y (atn_inorder l @ d # atn_inorder r)
        = atn_inorder l @ d # atn_inorder (relink_root lks r')"
      using less 1(4) by (auto simp: del_by_append)
    then have "csorted cmp (atn_inorder l @ d # atn_inorder (relink_root lks r'))"
      using csorted_del_by [OF s, of y] by simp
    from remove_fixup_step [OF c this ok(1) 1(3) p bal(1,2) _ 1(5), of False] obtain hc lks' t' where
      "at_remove_fixup cmp parent False rhc (Atn b d l (relink_root lks r')) = Done (hc, lks') t'"
      "links_in lks' [d]" "avl_ok (relink_root lks' t')"
      "atn_inorder (relink_root lks' t') = atn_inorder l @ d # atn_inorder (relink_root lks r')"
      "Suc (max (atn_height l) (atn_height r)) = atn_height (relink_root lks' t') + of_bool hc"
      by auto
    with 1(1) del greater show ?thesis
      by (simp add: remove_post_def relink_right_in [OF c s 1(2)] links_in_single)
  next
    case less
    have great: "cmp y z \<noteq> 0" if "z \<in> set (d # atn_inorder r)" for z
      using csorted_all_greater [OF c s, of x z] less that eq [of z] by auto
    with Atn.prems(4) total_cmp_refl [OF c, of y] have y: "y \<in> set (atn_inorder l)" by auto
    have "remove_post cmp y l (at_remove_node cmp (Some d) x l)"
      using Atn.IH(1) [OF ok(1) _ parent_ok_left [OF c s] y Atn.prems(5)] s
      by (simp add: sorted_wrt_append)
    then obtain lhc lks l' where 1: "at_remove_node cmp (Some d) x l = Done (lhc, y, lks) l'"
      "links_in lks (atn_inorder l)" "avl_ok (relink_root lks l')"
      "atn_inorder (relink_root lks l') = del_by cmp y (atn_inorder l)"
      "atn_height l = atn_height (relink_root lks l') + of_bool lhc"
      unfolding remove_post_def by blast
    have del: "del_by cmp y (atn_inorder l @ d # atn_inorder r)
        = atn_inorder (relink_root lks l') @ d # atn_inorder r"
      using y total_cmp_refl [OF c, of y] 1(4) by (auto simp: del_by_append)
    then have "csorted cmp (atn_inorder (relink_root lks l') @ d # atn_inorder r)"
      using csorted_del_by [OF s, of y] by simp
    from remove_fixup_step [OF c this 1(3) ok(2) p bal(1,2) 1(5), of False] obtain hc lks' t' where
      "at_remove_fixup cmp parent lhc False (Atn b d (relink_root lks l') r) = Done (hc, lks') t'"
      "links_in lks' [d]" "avl_ok (relink_root lks' t')"
      "atn_inorder (relink_root lks' t') = atn_inorder (relink_root lks l') @ d # atn_inorder r"
      "Suc (max (atn_height l) (atn_height r)) = atn_height (relink_root lks' t') + of_bool hc"
      by auto
    with 1(1) del less show ?thesis
      by (simp add: remove_post_def relink_left_in [OF c s 1(2)] links_in_single)
  qed
qed simp

lemma at_remove_node_miss:
  "\<forall>y\<in>set (atn_inorder t). cmp x y \<noteq> 0 \<Longrightarrow> at_remove_node cmp parent x t = Fail ENOENT t"
  by (induction t arbitrary: parent) auto

end
