(* ===== verification/AvlDict.thy ===== *)
theory AvlDict
  imports AvlCorrect
begin

text \<open>
  The AVL tree as a component: its invariant, the functional behaviour of its entry points,
  the dictionary contract, and the properties of insertion, removal, iteration and checking.
\<close>

section \<open>The invariant and the entry points\<close>

abbreviation at_cmp :: "('a, 'w) avl_tree \<Rightarrow> 'a \<Rightarrow> 'a \<Rightarrow> int" where
  "at_cmp at \<equiv> ato_compare_fn (at_ops at)"

definition at_list :: "('a, 'w) avl_tree \<Rightarrow> 'a list" where
  "at_list at = atn_inorder (at_root at)"

definition at_inv :: "('a, 'w) avl_tree \<Rightarrow> bool" where
  "at_inv at \<longleftrightarrow> total_cmp (at_cmp at) \<and> avl_ok (at_root at) \<and> csorted (at_cmp at) (at_list at)
     \<and> at_nnodes at = length (at_list at)"

lemma at_invD:
  assumes "at_inv at"
  shows "total_cmp (at_cmp at)" "avl_ok (at_root at)" "csorted (at_cmp at) (atn_inorder (at_root at))"
    "equiv_cmp (at_cmp at)" "distinct_by (at_cmp at) (at_list at)" "at_nnodes at = length (at_list at)"
  using assms total_cmp_equiv csorted_distinct_by by (auto simp: at_inv_def at_list_def)

lemma at_list_update [simp]: "at_list (at\<lparr>at_root := t, at_nnodes := n\<rparr>) = atn_inorder t"
  by (simp add: at_list_def)

text \<open>A search follows the path of the sorted list's only matching element.\<close>

lemma at_find_node_hit:
  assumes c: "total_cmp cmp"
  shows "csorted cmp (atn_inorder t) \<Longrightarrow> y \<in> set (atn_inorder t) \<Longrightarrow> cmp x y = 0 \<Longrightarrow>
    at_find_node cmp x t = Some y"
proof (induction t)
  case (Atn b d l r)
  then have s: "csorted cmp (atn_inorder l @ d # atn_inorder r)" by simp
  show ?case
  proof (cases "cmp x d" "0::int" rule: linorder_cases)
    case less
    then have "y \<notin> set (d # atn_inorder r)"
      using csorted_all_greater [OF c s, of x y] Atn.prems(3) by fastforce
    with less Atn s show ?thesis by (simp add: sorted_wrt_append)
  next
    case equal
    have "cmp d y = 0"
      using equiv_cmp_cong [OF total_cmp_equiv [OF c] equal, of y] Atn.prems(3) by simp
    then have "d = y" using Atn.prems(2)
        distinct_by_inj [OF total_cmp_equiv [OF c] csorted_distinct_by [OF Atn.prems(1)], of d y]
      by simp
    with equal show ?thesis by simp
  next
    case greater
    then have "y \<notin> set (atn_inorder l @ [d])"
      using csorted_all_less [OF c s, of x y] Atn.prems(3) by fastforce
    with greater Atn s show ?thesis by (simp add: sorted_wrt_append)
  qed
qed simp

lemma at_find_node_miss:
  "\<forall>y\<in>set (atn_inorder t). cmp x y \<noteq> 0 \<Longrightarrow> at_find_node cmp x t = None"
  by (induction t) auto

lemma at_find_hit:
  "at_inv at \<Longrightarrow> y \<in> set (at_list at) \<Longrightarrow> at_cmp at x y = 0 \<Longrightarrow> at_find x (at, m, w) = Done y (at, m, w)"
  using at_find_node_hit [of "at_cmp at" "at_root at" y x]
  by (simp add: at_find_def at_inv_def at_list_def)

lemma at_find_miss:
  "\<forall>y\<in>set (at_list at). at_cmp at x y \<noteq> 0 \<Longrightarrow> at_find x (at, m, w) = Fail ENOENT (at, m, w)"
  by (simp add: at_find_def at_find_node_miss at_list_def)

lemma at_insert_new:
  assumes inv: "at_inv at" and m: "malloc m = (True, m')"
    and new: "\<forall>y\<in>set (at_list at). at_cmp at x y \<noteq> 0"
  obtains t where "at_insert x (at, m, w) =
      Done () (at\<lparr>at_root := t, at_nnodes := Suc (at_nnodes at)\<rparr>, m', w)"
    "avl_ok t" "atn_inorder t = ins_by (at_cmp at) x (at_list at)"
    "atn_height t \<le> Suc (atn_height (at_root at))"
proof (cases "at_root at = Null")
  case True
  with m that [of "Atn 0 x Null Null"] show ?thesis by (simp add: at_insert_def at_list_def)
next
  case False
  have "insert_post (at_cmp at) x (at_root at) (at_insert_node (at_cmp at) None x (at_root at))"
    using at_insert_node_correct [OF at_invD(1) [OF inv] False at_invD(2,3) [OF inv, THEN iffD1 [OF refl]], of None x]
      new by (simp add: at_list_def)
  with False m that show ?thesis unfolding insert_post_def
    by (fastforce simp: at_insert_def at_list_def)
qed

lemma at_insert_dup:
  assumes inv: "at_inv at" and m: "malloc m = (True, m')"
    and y: "y \<in> set (at_list at)" "at_cmp at x y = 0"
  shows "at_insert x (at, m, w) = Fail EEXIST (at, m', w)"
proof -
  have "at_root at \<noteq> Null" using y by (auto simp: at_list_def)
  moreover have "at_insert_node (at_cmp at) None x (at_root at) = Fail EEXIST (at_root at)"
    by (rule at_insert_node_dup [of _ _ y]) (use at_invD [OF inv] y in \<open>auto simp: at_list_def\<close>)
  ultimately show ?thesis using m by (simp add: at_insert_def)
qed

lemma at_insert_oom: "malloc m = (False, m') \<Longrightarrow> at_insert x (at, m, w) = Fail EGENERIC (at, m', w)"
  by (simp add: at_insert_def)

lemma at_remove_hit:
  assumes inv: "at_inv at" and y: "y \<in> set (at_list at)" "at_cmp at x y = 0"
  obtains t where "at_remove x (at, m, w) =
      Done () (at\<lparr>at_root := t, at_nnodes := at_nnodes at - 1\<rparr>, m, atn_destroy at y w)"
    "avl_ok t" "atn_inorder t = del_by (at_cmp at) y (at_list at)"
    "atn_height t \<le> atn_height (at_root at)"
proof -
  have "remove_post (at_cmp at) y (at_root at) (at_remove_node (at_cmp at) None x (at_root at))"
    by (rule at_remove_node_correct) (use at_invD [OF inv] y in \<open>auto simp: at_list_def\<close>)
  with that show ?thesis unfolding remove_post_def
    by (fastforce simp: at_remove_def at_list_def)
qed

lemma at_remove_miss:
  "\<forall>y\<in>set (at_list at). at_cmp at x y \<noteq> 0 \<Longrightarrow> at_remove x (at, m, w) = Fail ENOENT (at, m, w)"
  by (simp add: at_remove_def at_remove_node_miss at_list_def)

lemma at_inv_insert:
  assumes "at_inv at" "avl_ok t" "atn_inorder t = ins_by (at_cmp at) x (at_list at)"
    and "\<forall>y\<in>set (at_list at). at_cmp at x y \<noteq> 0"
  shows "at_inv (at\<lparr>at_root := t, at_nnodes := Suc (at_nnodes at)\<rparr>)"
  using assms csorted_ins_by [of "at_cmp at" "at_list at" x] by (simp add: at_inv_def)

lemma at_inv_remove:
  assumes "at_inv at" "avl_ok t" "atn_inorder t = del_by (at_cmp at) y (at_list at)"
    and "y \<in> set (at_list at)"
  shows "at_inv (at\<lparr>at_root := t, at_nnodes := at_nnodes at - 1\<rparr>)"
  using assms csorted_del_by [of "at_cmp at" "at_list at" y]
    length_del_by [of y "at_list at" "at_cmp at" y] total_cmp_refl [of "at_cmp at" y]
  by (simp add: at_inv_def)

section \<open>The dictionary contract\<close>

definition at_contents :: "('a, 'w) at_state \<Rightarrow> 'a set" where
  "at_contents st = set (at_list (fst st))"

definition at_good :: "('a, 'w) at_state \<Rightarrow> bool" where
  "at_good st \<longleftrightarrow> at_inv (fst st)"

definition at_same :: "('a, 'w) at_state \<Rightarrow> 'a \<Rightarrow> 'a \<Rightarrow> bool" where
  "at_same st x y \<longleftrightarrow> at_cmp (fst st) x y = 0"

lemmas at_abs_defs = at_contents_def at_good_def at_same_def

lemma at_keeps:
  assumes "at_inv at'" "at_ops at' = at_ops at" "never_fails m \<Longrightarrow> never_fails m'"
  shows "keeps at_good at_same reliable_mem (at, m, w) (at', m', w')"
  using assms by (auto simp: keeps_def at_abs_defs fun_eq_iff)

lemma at_remove_contents:
  assumes "at_inv at" "y \<in> set (at_list at)"
  shows "set (del_by (at_cmp at) y (at_list at)) = set (at_list at) - {y}"
  using set_del_by [OF at_invD(4,5) [OF assms(1)], of y] total_cmp_refl [OF at_invD(1) [OF assms(1)], of y]
    distinct_by_inj [OF at_invD(4,5) [OF assms(1)] assms(2)] by auto

text \<open>The same facts in the form that the components built on the trees use.\<close>

lemma at_insert_cases:
  assumes inv: "at_inv t"
  shows "\<exists>m'. (never_fails m \<longrightarrow> never_fails m')
    \<and> ((\<exists>t'. at_insert x (t, m, w) = Done () (t', m', w) \<and> (\<forall>y\<in>set (at_list t). at_cmp t x y \<noteq> 0)
          \<and> at_inv t' \<and> at_ops t' = at_ops t \<and> set (at_list t') = insert x (set (at_list t)))
    \<or> (\<exists>e. at_insert x (t, m, w) = Fail e (t, m', w)
          \<and> (never_fails m \<longrightarrow> e = EEXIST \<and> (\<exists>y\<in>set (at_list t). at_cmp t x y = 0))))"
proof -
  obtain ok m' where m: "malloc m = (ok, m')" by fastforce
  then have nf: "never_fails m \<longrightarrow> never_fails m'" using malloc_never_fails by blast
  consider "\<not> ok" | y where "ok" "y \<in> set (at_list t)" "at_cmp t x y = 0"
    | "ok" "\<forall>y\<in>set (at_list t). at_cmp t x y \<noteq> 0" by blast
  then show ?thesis
  proof cases
    case 1
    with m have "\<not> never_fails m" using malloc_never_fails by blast
    with 1 m at_insert_oom [of m m' x t w] show ?thesis by simp
  next
    case 2
    with m nf at_insert_dup [OF inv, of m m' y x w] show ?thesis by auto
  next
    case 3
    have m1: "malloc m = (True, m')" using m 3(1) by simp
    obtain r where r: "at_insert x (t, m, w) =
        Done () (t\<lparr>at_root := r, at_nnodes := Suc (at_nnodes t)\<rparr>, m', w)"
      "avl_ok r" "atn_inorder r = ins_by (at_cmp t) x (at_list t)"
      by (rule at_insert_new [OF inv m1 3(2), of w])
    with at_inv_insert [OF inv r(2,3) 3(2)] 3(2) nf show ?thesis by simp
  qed
qed

lemma at_remove_cases:
  assumes inv: "at_inv t" and y: "y \<in> set (at_list t)" "at_cmp t x y = 0"
  shows "\<exists>t'. at_remove x (t, m, w) = Done () (t', m, atn_destroy t y w) \<and> at_inv t'
    \<and> at_ops t' = at_ops t \<and> set (at_list t') = set (at_list t) - {y}"
proof -
  obtain r where r: "at_remove x (t, m, w) =
      Done () (t\<lparr>at_root := r, at_nnodes := at_nnodes t - 1\<rparr>, m, atn_destroy t y w)"
    "avl_ok r" "atn_inorder r = del_by (at_cmp t) y (at_list t)"
    by (rule at_remove_hit [OF inv y, of m w])
  with at_inv_remove [OF inv r(2,3) y(1)] at_remove_contents [OF inv y(1)] show ?thesis by simp
qed

lemma at_create_result:
  assumes "never_fails m"
  shows "\<exists>m'. at_create ops m = (Some \<lparr>at_root = Null, at_ops = ops, at_nnodes = 0\<rparr>, m') \<and> never_fails m'"
proof -
  obtain m1 where 1: "malloc m = (True, m1)" "never_fails m1" using malloc_ok [OF assms] by blast
  obtain m2 where 2: "malloc m1 = (True, m2)" "never_fails m2" using malloc_ok [OF 1(2)] by blast
  from 1 2 show ?thesis by (simp add: at_create_def)
qed

interpretation at: dict at_contents at_good at_same reliable_mem at_insert at_find at_remove
proof (unfold_locales, goal_cases)
  case (1 s y z x)
  then have inv: "at_inv (fst s)" and "at_cmp (fst s) y z = 0"
    using equiv_cmp_cong [OF at_invD(4), of "fst s" x y z] by (auto simp: at_abs_defs)
  with 1 distinct_by_inj [OF at_invD(4,5) [OF inv], of y z] show ?case by (simp add: at_abs_defs)
next
  case (2 s x)
  then show ?case using total_cmp_refl [OF at_invD(1), of "fst s" x] by (simp add: at_abs_defs)
next
  case (3 s y x)
  then show ?case by (cases s) (simp add: at_abs_defs at_find_hit)
next
  case (4 s x)
  then show ?case by (cases s) (simp add: at_abs_defs at_find_miss)
next
  case (5 s x)
  obtain at m w where s: "s = (at, m, w)" by (cases s)
  with 5 obtain m' where m: "malloc m = (True, m')" "never_fails m'" using malloc_ok by auto
  have inv: "at_inv at" "\<forall>y\<in>set (at_list at). at_cmp at x y \<noteq> 0" using 5 s by (auto simp: at_abs_defs)
  obtain t where t: "at_insert x (at, m, w) =
      Done () (at\<lparr>at_root := t, at_nnodes := Suc (at_nnodes at)\<rparr>, m', w)"
    "avl_ok t" "atn_inorder t = ins_by (at_cmp at) x (at_list at)"
    by (rule at_insert_new [OF inv(1) m(1) inv(2), of w])
  with s m at_inv_insert [OF inv(1) t(2,3) inv(2)] show ?case
    by (auto simp: at_contents_def intro!: at_keeps)
next
  case (6 s y x)
  obtain at m w where s: "s = (at, m, w)" by (cases s)
  with 6 obtain m' where m: "malloc m = (True, m')" "never_fails m'" using malloc_ok by auto
  have inv: "at_inv at" "y \<in> set (at_list at)" "at_cmp at x y = 0" using 6 s by (auto simp: at_abs_defs)
  from at_insert_dup [OF inv(1) m(1) inv(2,3), of w] s m inv show ?case
    by (auto simp: at_contents_def intro!: at_keeps)
next
  case (7 s x)
  obtain at m w where s: "s = (at, m, w)" by (cases s)
  obtain ok m' where m: "malloc m = (ok, m')" by fastforce
  then have k: "never_fails m \<Longrightarrow> never_fails m'" using malloc_never_fails by blast
  have inv: "at_inv at" using 7 s by (simp add: at_good_def)
  show ?case
  proof (cases "ok \<and> (\<forall>y\<in>set (at_list at). at_cmp at x y \<noteq> 0)")
    case True
    then obtain t where t: "at_insert x (at, m, w) =
        Done () (at\<lparr>at_root := t, at_nnodes := Suc (at_nnodes at)\<rparr>, m', w)"
      "avl_ok t" "atn_inorder t = ins_by (at_cmp at) x (at_list at)"
      using at_insert_new [OF inv, of m m' x w] m by auto
    with s True k at_inv_insert [OF inv t(2,3)] show ?thesis
      by (auto simp: at_abs_defs intro!: at_keeps)
  next
    case False
    then have "\<exists>e. at_insert x (at, m, w) = Fail e (at, m', w)"
      using at_insert_dup [OF inv, of m m' _ x w] at_insert_oom [of m m' x at w] m by (cases ok) auto
    with s inv k show ?thesis
      by (intro exI [of _ "(at, m', w)"] conjI disjI2) (auto simp: at_contents_def intro!: at_keeps)
  qed
next
  case (8 s y x)
  obtain at m w where s: "s = (at, m, w)" by (cases s)
  have inv: "at_inv at" "y \<in> set (at_list at)" "at_cmp at x y = 0" using 8 s by (auto simp: at_abs_defs)
  obtain t where t: "at_remove x (at, m, w) =
      Done () (at\<lparr>at_root := t, at_nnodes := at_nnodes at - 1\<rparr>, m, atn_destroy at y w)"
    "avl_ok t" "atn_inorder t = del_by (at_cmp at) y (at_list at)"
    by (rule at_remove_hit [OF inv, of m w])
  let ?s = "(at\<lparr>at_root := t, at_nnodes := at_nnodes at - 1\<rparr>, m, atn_destroy at y w)"
  have "keeps at_good at_same reliable_mem s ?s"
    unfolding s by (rule at_keeps [OF at_inv_remove [OF inv(1) t(2,3) inv(2)]]) simp_all
  moreover have "at_contents ?s = at_contents s - {y}"
    using t(3) at_remove_contents [OF inv(1,2)] by (simp add: at_contents_def s)
  ultimately show ?case using s t(1) by blast
next
  case (9 s x)
  then show ?case by (cases s) (simp add: at_abs_defs at_remove_miss)
qed

section \<open>Iteration, checking, height\<close>

lemma at_iterate_node_eq: "at_iterate_node cb t c = iterate_list cb (atn_inorder t) c"
proof (induction t arbitrary: c)
  case (Atn b d l r)
  then show ?case
    by (cases "l = Null"; cases "r = Null")
      (auto simp: iterate_list_append Let_def split: outcome.splits)
qed simp

lemma at_iterate_list:
  "at_iterate t cb st =
     (case iterate_list cb (at_list t) st of
        Abort \<Rightarrow> Abort | Fail e c' \<Rightarrow> Fail e c' | Done stop c' \<Rightarrow> Done () c')"
  by (simp add: at_iterate_def at_iterate_node_eq at_list_def)

text \<open>A check passes exactly on balanced trees whose child links agree with the comparison.\<close>

fun child_order :: "('a \<Rightarrow> 'a \<Rightarrow> int) \<Rightarrow> 'a atn \<Rightarrow> bool" where
  "child_order cmp Null \<longleftrightarrow> True"
| "child_order cmp (Atn b d l r) \<longleftrightarrow> (r \<noteq> Null \<longrightarrow> cmp (atn_data r) d > 0)
     \<and> (l \<noteq> Null \<longrightarrow> cmp (atn_data l) d < 0) \<and> child_order cmp l \<and> child_order cmp r"

lemma at_check_node_eq:
  "at_check_node cmp t =
     (if avl_ok t \<and> child_order cmp t then Some (atn_height t, length (atn_inorder t)) else None)"
proof (induction t)
  case (Atn b d l r)
  then show ?case by (auto simp: Let_def max_def)
qed simp

lemma child_order_csorted:
  assumes c: "total_cmp cmp"
  shows "csorted cmp (atn_inorder t) \<Longrightarrow> child_order cmp t"
proof (induction t)
  case (Atn b d l r)
  then have s: "csorted cmp (atn_inorder l @ d # atn_inorder r)" by simp
  have "atn_data t \<in> set (atn_inorder t)" if "t \<noteq> Null" for t :: "'a atn"
    using that by (cases t) auto
  then show ?case using s Atn.IH total_cmp_gt [OF c] by (auto simp: sorted_wrt_append)
qed simp

lemma avl_size: "avl_ok t \<Longrightarrow> 2 ^ (atn_height t div 2) \<le> length (atn_inorder t) + 1"
proof (induction t)
  case (Atn b d l r)
  let ?h = "atn_height (Atn b d l r)"
  have le: "?h \<le> atn_height l + 2" "?h \<le> atn_height r + 2" "1 \<le> ?h" using Atn.prems by auto
  have "(?h - 2) div 2 \<le> atn_height l div 2" "(?h - 2) div 2 \<le> atn_height r div 2"
    using le by (intro div_le_mono; linarith)+
  then have "(2::nat) ^ ((?h - 2) div 2) \<le> 2 ^ (atn_height l div 2)"
    "(2::nat) ^ ((?h - 2) div 2) \<le> 2 ^ (atn_height r div 2)"
    by (simp_all only: power_increasing_iff one_less_numeral_iff semiring_norm)
  moreover have "2 ^ (atn_height l div 2) \<le> length (atn_inorder l) + 1"
    "2 ^ (atn_height r div 2) \<le> length (atn_inorder r) + 1" using Atn by simp_all
  ultimately have "2 * (2::nat) ^ ((?h - 2) div 2)
      \<le> (length (atn_inorder l) + 1) + (length (atn_inorder r) + 1)" by linarith
  then have sum: "2 * (2::nat) ^ ((?h - 2) div 2) \<le> length (atn_inorder (Atn b d l r)) + 1" by simp
  show ?case
  proof (cases "?h = 1")
    case True
    then show ?thesis by simp
  next
    case False
    with le(3) have "2 \<le> ?h" by linarith
    then have "?h div 2 = Suc ((?h - 2) div 2)" by (rule le_div_geq [of 2, simplified])
    with sum show ?thesis by (simp only: power_Suc)
  qed
qed simp

section \<open>Properties\<close>

text \<open>
  C1: Any sequence of \<^verbatim>\<open>at_insert\<close>, \<^verbatim>\<open>at_remove\<close> and \<^verbatim>\<open>at_find\<close> calls on an AVL tree, with an
  allocator that does not fail, returns what the dictionary specification returns; no assertion
  of the rotations, of the rebalancing or of the removal fails, and the tree that is left is a
  sorted AVL tree with exact balance fields and an exact node count.
\<close>

theorem at_refines_dictionary:
  assumes "at_inv at" "never_fails m"
  shows "\<exists>at' m' w'. dict_run at_insert at_remove at_find ops (at, m, w) =
        Some (fst (spec_run (\<lambda>x y. at_cmp at x y = 0) ops (at_list at)), (at', m', w'))
      \<and> at_inv at' \<and> set (at_list at') = set (snd (spec_run (\<lambda>x y. at_cmp at x y = 0) ops (at_list at)))"
proof -
  have same: "at_same (at, m, w) = (\<lambda>x y. at_cmp at x y = 0)" by (simp add: at_same_def fun_eq_iff)
  from at.run_refines [of "(at, m, w)" "at_list at" ops] assms obtain s' where
    "dict_run at_insert at_remove at_find ops (at, m, w) =
        Some (fst (spec_run (\<lambda>x y. at_cmp at x y = 0) ops (at_list at)), s')"
    "set (snd (spec_run (\<lambda>x y. at_cmp at x y = 0) ops (at_list at))) = at_contents s'" "at_good s'"
    unfolding same by (auto simp: at_contents_def at_good_def keeps_def)
  then show ?thesis by (cases s') (auto simp: at_contents_def at_good_def)
qed

definition int_at :: "(int, int list) avl_tree" where
  "int_at = \<lparr>at_root = Atn 1 3 Null (Atn 0 5 Null Null),
     at_ops = \<lparr>ato_compare_fn = (\<lambda>x y. x - y), ato_destroy_data_fn = Some (#)\<rparr>,
     at_nnodes = 2\<rparr>"

lemma int_at_inv: "at_inv int_at"
  by (simp add: int_at_def at_inv_def at_list_def total_cmp_int)

theorem at_refines_dictionary_witness:
  "\<exists>at' m' w'. dict_run at_insert at_remove at_find
      [Insert 7, Insert 5, Find 7, Remove 3, Remove 4, Insert 9, Find 3] (int_at, [], []) =
    Some ([Replied, Refused EEXIST, Found 7, Replied, Refused ENOENT, Replied, Refused ENOENT],
      (at', m', w')) \<and> at_inv at' \<and> set (at_list at') = {5, 7, 9}"
  using at_refines_dictionary [OF int_at_inv never_fails_Nil,
      of "[Insert 7, Insert 5, Find 7, Remove 3, Remove 4, Insert 9, Find 3]" "[]"]
  by (auto simp: int_at_def at_list_def insert_commute)

text \<open>
  C23: \<^verbatim>\<open>at_insert\<close> puts a new element at its place in the in-order sequence, keeps the tree
  balanced and raises its height by at most one; an element that compares equal to one of the
  tree is refused with \<^verbatim>\<open>EEXIST\<close> and the tree, rotations included, is left as it was.
\<close>

theorem at_insert_sorted:
  assumes "at_inv at" "never_fails m"
  shows "case at_insert x (at, m, w) of
      Done _ (at', m', w') \<Rightarrow> at_list at' = ins_by (at_cmp at) x (at_list at) \<and> at_inv at' \<and> w' = w
        \<and> atn_height (at_root at') \<le> Suc (atn_height (at_root at))
        \<and> List.find (\<lambda>y. at_cmp at x y = 0) (at_list at) = None
    | Fail e (at', m', w') \<Rightarrow> e = EEXIST \<and> at' = at \<and> w' = w
        \<and> List.find (\<lambda>y. at_cmp at x y = 0) (at_list at) \<noteq> None
    | Abort \<Rightarrow> False"
proof -
  from assms(2) obtain m' where m: "malloc m = (True, m')" using malloc_ok by blast
  show ?thesis
  proof (cases "List.find (\<lambda>y. at_cmp at x y = 0) (at_list at)")
    case None
    then have new: "\<forall>y\<in>set (at_list at). at_cmp at x y \<noteq> 0" by (simp add: find_None_iff)
    obtain t where t: "at_insert x (at, m, w) =
        Done () (at\<lparr>at_root := t, at_nnodes := Suc (at_nnodes at)\<rparr>, m', w)"
      "avl_ok t" "atn_inorder t = ins_by (at_cmp at) x (at_list at)"
      "atn_height t \<le> Suc (atn_height (at_root at))"
      by (rule at_insert_new [OF assms(1) m new, of w])
    with at_inv_insert [OF assms(1) t(2,3) new] None show ?thesis by simp
  next
    case (Some y)
    then have "y \<in> set (at_list at)" "at_cmp at x y = 0" by (auto simp: find_Some_iff)
    from at_insert_dup [OF assms(1) m this, of w] Some show ?thesis by simp
  qed
qed

theorem at_insert_sorted_witness:
  "at_list (fst (the (outcome_state (at_insert 7 (int_at, [], []))))) = [3, 5, 7]
   \<and> at_insert 5 (int_at, [], []) = Fail EEXIST (int_at, [], [])"
proof -
  have "\<exists>at'. at_insert 7 (int_at, [], []) = Done () (at', [], [])"
    by (simp add: int_at_def at_insert_def at_insert_fixup_def atn_defs at_balance.simps Let_def
        at_rotate_left.simps relink_root_def)
  moreover have "\<exists>at'. at_insert 5 (int_at, [], []) = Fail EEXIST (at', [], [])"
    by (simp add: int_at_def at_insert_def)
  ultimately show ?thesis
    using at_insert_sorted [OF int_at_inv never_fails_Nil, of 7 "[]"]
      at_insert_sorted [OF int_at_inv never_fails_Nil, of 5 "[]"]
    by (auto simp: int_at_def at_list_def)
qed

text \<open>
  C24: \<^verbatim>\<open>at_remove\<close> takes exactly the matching element out of the in-order sequence, runs the
  destroy callback on it and on nothing else, and leaves a balanced tree that is not higher; a
  miss returns \<^verbatim>\<open>ENOENT\<close> and changes nothing. It never stops in an assertion.
\<close>

theorem at_remove_sorted:
  assumes "at_inv at"
  shows "at_remove x (at, m, w) =
      (case List.find (\<lambda>y. at_cmp at x y = 0) (at_list at) of
         None \<Rightarrow> Fail ENOENT (at, m, w)
       | Some y \<Rightarrow>
           (case outcome_state (at_remove x (at, m, w)) of
              None \<Rightarrow> Abort
            | Some (at', _) \<Rightarrow> Done () (at', m, atn_destroy at y w)))
    \<and> (\<forall>at' m' w'. at_remove x (at, m, w) = Done () (at', m', w') \<longrightarrow>
         at_inv at' \<and> atn_height (at_root at') \<le> atn_height (at_root at)
         \<and> (\<exists>y. at_cmp at x y = 0 \<and> at_list at' = del_by (at_cmp at) y (at_list at)))
    \<and> at_remove x (at, m, w) \<noteq> Abort"
proof (cases "List.find (\<lambda>y. at_cmp at x y = 0) (at_list at)")
  case None
  then have "\<forall>y\<in>set (at_list at). at_cmp at x y \<noteq> 0" by (simp add: find_None_iff)
  from at_remove_miss [OF this, of m w] None show ?thesis by simp
next
  case (Some y)
  then have y: "y \<in> set (at_list at)" "at_cmp at x y = 0" by (auto simp: find_Some_iff)
  obtain t where t: "at_remove x (at, m, w) =
      Done () (at\<lparr>at_root := t, at_nnodes := at_nnodes at - 1\<rparr>, m, atn_destroy at y w)"
    "avl_ok t" "atn_inorder t = del_by (at_cmp at) y (at_list at)"
    "atn_height t \<le> atn_height (at_root at)"
    by (rule at_remove_hit [OF assms y, of m w])
  with at_inv_remove [OF assms t(2,3) y(1)] Some y show ?thesis by auto
qed

theorem at_remove_sorted_witness:
  "\<exists>at'. at_remove 3 (int_at, [], []) = Done () (at', [], [3]) \<and> at_inv at'"
proof -
  have "\<exists>at'. at_remove 3 (int_at, [], []) = Done () (at', [], [3])"
    by (simp add: int_at_def at_remove_def at_get_replacement_for_removal_def atn_is_child_of_def
        at_remove_fixup_def atn_defs relink_root_def relink_Cons atn_destroy_def)
  then show ?thesis using at_remove_sorted [OF int_at_inv, of 3 "[]" "[]"] by blast
qed

text \<open>
  C35: Whatever sequence of \<^verbatim>\<open>at_insert\<close>, \<^verbatim>\<open>at_remove\<close> and \<^verbatim>\<open>at_find\<close> calls follows \<^verbatim>\<open>at_create\<close>, with an
  allocator that does not fail, no assertion of the rebalancing fails and the height of the tree stays
  logarithmic: a tree of height \<open>h\<close> holds at least \<open>2 ^ (h div 2) - 1\<close> elements, and the node count is
  that of the elements the specification holds after the same calls.
\<close>

theorem at_run_height:
  assumes "total_cmp (ato_compare_fn ops)" "never_fails m"
  shows "\<exists>at m1 rs at' m' w'. at_create ops m = (Some at, m1)
    \<and> dict_run at_insert at_remove at_find calls (at, m1, w) = Some (rs, (at', m', w'))
    \<and> at_nnodes at' = length (snd (spec_run (\<lambda>x y. ato_compare_fn ops x y = 0) calls []))
    \<and> 2 ^ (atn_height (at_root at') div 2) \<le> at_nnodes at' + 1"
proof -
  let ?at = "\<lparr>at_root = Null, at_ops = ops, at_nnodes = 0\<rparr>" and ?same = "\<lambda>x y. ato_compare_fn ops x y = 0"
  obtain m1 where c: "at_create ops m = (Some ?at, m1)" "never_fails m1" using at_create_result [OF assms(2)] by blast
  have inv: "at_inv ?at" using assms(1) by (simp add: at_inv_def at_list_def)
  have same: "at_same (?at, m1, w) = ?same" by (simp add: at_same_def fun_eq_iff)
  have "at_list ?at = []" by (simp add: at_list_def)
  then obtain s' where r: "dict_run at_insert at_remove at_find calls (?at, m1, w) = Some (fst (spec_run ?same calls []), s')"
    "set (snd (spec_run ?same calls [])) = at_contents s'" "at_good s'"
    using at.run_refines [of "(?at, m1, w)" "[]" calls] inv c(2) unfolding same
    by (auto simp: at_contents_def at_good_def keeps_def)
  obtain at' m' w' where s': "s' = (at', m', w')" by (cases s')
  have inv': "at_inv at'" using r(3) s' by (simp add: at_good_def)
  have d: "distinct (at_list at')" by (rule distinct_by_distinct [OF at_invD(4,5) [OF inv']])
  have "distinct (snd (spec_run ?same calls []))"
    by (rule spec_run_distinct) (use total_cmp_refl [OF assms(1)] in simp_all)
  then have "length (at_list at') = length (snd (spec_run ?same calls []))"
    using distinct_card [OF d] r(2) s' by (metis at_contents_def distinct_card fst_conv)
  then have n: "at_nnodes at' = length (snd (spec_run ?same calls []))" using inv' by (simp add: at_inv_def)
  have "2 ^ (atn_height (at_root at') div 2) \<le> at_nnodes at' + 1"
    using inv' avl_size [of "at_root at'"] by (simp add: at_inv_def at_list_def)
  with c(1) r(1) s' n show ?thesis by blast
qed

theorem at_run_height_witness:
  "\<exists>at m1 rs at' m' w'. at_create \<lparr>ato_compare_fn = (\<lambda>x y :: int. x - y), ato_destroy_data_fn = Some (#)\<rparr> [] = (Some at, m1)
    \<and> dict_run at_insert at_remove at_find [Insert 1, Insert 2, Insert 3, Insert 4, Insert 5, Insert 6, Insert 7, Remove 4] (at, m1, []) = Some (rs, (at', m', w'))
    \<and> at_nnodes at' = 6 \<and> atn_height (at_root at') \<le> 5"
proof -
  let ?calls = "[Insert 1, Insert 2, Insert 3, Insert 4, Insert 5, Insert 6, Insert 7, Remove (4 :: int)]"
  have calls: "length (snd (spec_run (\<lambda>x y. x - y = 0) ?calls [])) = 6" by simp
  have low: "h \<le> 5" if "2 ^ (h div 2) \<le> (6 :: nat) + 1" for h :: nat
  proof (rule ccontr)
    assume "\<not> h \<le> 5"
    then have "(2 :: nat) ^ 3 \<le> 2 ^ (h div 2)" by (intro power_increasing) simp_all
    with that show False by simp
  qed
  from at_run_height [of "\<lparr>ato_compare_fn = (\<lambda>x y :: int. x - y), ato_destroy_data_fn = Some (#)\<rparr>" "[]" ?calls "[]"] total_cmp_int
  obtain at m1 rs at' m' w' where "at_create \<lparr>ato_compare_fn = (\<lambda>x y :: int. x - y), ato_destroy_data_fn = Some (#)\<rparr> [] = (Some at, m1)"
    "dict_run at_insert at_remove at_find ?calls (at, m1, []) = Some (rs, (at', m', w'))"
    "at_nnodes at' = 6" "2 ^ (atn_height (at_root at') div 2) \<le> at_nnodes at' + 1"
    unfolding avl_tree_ops.simps calls by auto
  with low show ?thesis by metis
qed

text \<open>
  \<^verbatim>\<open>at_iterate\<close> calls the callback on the elements in increasing order, stops at the first
  call that asks for it, and returns the code of the first call that fails.
\<close>

theorem at_iterate_in_order:
  "at_iterate at cb c =
     (case iterate_list cb (at_list at) c of
        Abort \<Rightarrow> Abort | Fail e c' \<Rightarrow> Fail e c' | Done stop c' \<Rightarrow> Done () c')"
  by (simp add: at_iterate_def at_iterate_node_eq at_list_def)

text \<open>
  C36: \<^verbatim>\<open>at_check\<close> runs through without a failed assertion exactly when the balance fields are
  exact and within one, every child is on the right side of its parent, and the node count is
  right; every tree that satisfies the invariant passes.
\<close>

theorem at_check_exact:
  "(at_check at \<longleftrightarrow> avl_ok (at_root at) \<and> child_order (at_cmp at) (at_root at)
      \<and> at_nnodes at = length (at_list at))
   \<and> (at_inv at \<longrightarrow> at_check at)"
  using child_order_csorted [OF at_invD(1,3), of at]
  by (auto simp: at_check_def at_check_node_eq at_inv_def at_list_def)

theorem at_check_exact_witness: "at_check int_at"
  using at_check_exact [of int_at] int_at_inv by blast

text \<open>
  \<^verbatim>\<open>at_get_min_for_removal\<close> continues on the left with \<^verbatim>\<open>at_get_max_for_removal\<close>: on a tree
  with two levels below the root on the left it would pluck the maximum of the left subtree
  instead of the minimum (2 instead of 1 below). \<^verbatim>\<open>at_remove\<close> only calls it on the right child of
  a node without a left child, and in a balanced tree that child is a leaf, where both agree.
\<close>

theorem at_get_min_wrong_but_unreachable:
  "(case at_get_min_for_removal (\<lambda>x y :: int. x - y) 0
       (Atn (-1) 3 (Atn 1 1 Null (Atn 0 2 Null Null)) (Atn 0 4 Null Null)) of
      Done (mn, _) _ \<Rightarrow> mn = 2 | _ \<Rightarrow> False)
   \<and> (avl_ok (Atn b d Null r) \<longrightarrow>
        (case at_get_min_for_removal cmp d r of
           Done (mn, hc, lks) _ \<Rightarrow> atn_inorder r = [mn] \<and> hc \<and> lks = [(mn, Null)]
         | Fail _ _ \<Rightarrow> False
         | Abort \<Rightarrow> r = Null))"
proof (rule conjI)
  show "case at_get_min_for_removal (\<lambda>x y :: int. x - y) 0
       (Atn (-1) 3 (Atn 1 1 Null (Atn 0 2 Null Null)) (Atn 0 4 Null Null)) of
      Done (mn, _) _ \<Rightarrow> mn = 2 | _ \<Rightarrow> False"
    by (simp add: relink_Cons atn_defs)
  show "avl_ok (Atn b d Null r) \<longrightarrow>
        (case at_get_min_for_removal cmp d r of
           Done (mn, hc, lks) _ \<Rightarrow> atn_inorder r = [mn] \<and> hc \<and> lks = [(mn, Null)]
         | Fail _ _ \<Rightarrow> False
         | Abort \<Rightarrow> r = Null)"
  proof
    assume ok: "avl_ok (Atn b d Null r)"
    show "case at_get_min_for_removal cmp d r of
           Done (mn, hc, lks) _ \<Rightarrow> atn_inorder r = [mn] \<and> hc \<and> lks = [(mn, Null)]
         | Fail _ _ \<Rightarrow> False
         | Abort \<Rightarrow> r = Null"
    proof (cases "r = Null")
      case False
      then obtain rd where "r = Atn 0 rd Null Null" by (rule avl_right_leaf [OF ok])
      then show ?thesis by simp
    qed simp
  qed
qed

theorem at_get_min_wrong_but_unreachable_witness:
  "case at_get_min_for_removal (\<lambda>x y :: int. x - y) 3 (Atn 0 5 Null Null) of
     Done (mn, hc, lks) _ \<Rightarrow> mn = 5 \<and> hc \<and> lks = [(5, Null)] | _ \<Rightarrow> False"
  using at_get_min_wrong_but_unreachable [of 1 3 "Atn 0 5 Null Null" "\<lambda>x y. x - y"] by simp

end
