(* ===== verification/QueueSpec.thy ===== *)
theory QueueSpec
  imports CPrelude "HOL-Library.Multiset"
begin

text \<open>
  The contracts of the two queues of the library: first in first out, and a priority queue whose
  pop returns a greatest element. Both are interfaces over calls that may fail.
\<close>

section \<open>First in, first out\<close>

datatype 'a queue_op = Enq 'a | Deq

text \<open>The replies of a queue: the element taken out, or the error code.\<close>

fun queue_spec :: "'a queue_op list \<Rightarrow> 'a list \<Rightarrow> ('a option \<times> errno option) list \<times> 'a list" where
  "queue_spec [] xs = ([], xs)"
| "queue_spec (Enq x # ops) xs =
     (let (rs, ys) = queue_spec ops (xs @ [x]) in ((None, None) # rs, ys))"
| "queue_spec (Deq # ops) [] =
     (let (rs, ys) = queue_spec ops [] in ((None, Some ENOENT) # rs, ys))"
| "queue_spec (Deq # ops) (x # xs) =
     (let (rs, ys) = queue_spec ops xs in ((Some x, None) # rs, ys))"

fun queue_run :: "('a \<Rightarrow> ('s, unit) prog) \<Rightarrow> ('s, 'a) prog \<Rightarrow> 'a queue_op list \<Rightarrow> 's
    \<Rightarrow> (('a option \<times> errno option) list \<times> 's) option" where
  "queue_run enq deq [] s = Some ([], s)"
| "queue_run enq deq (Enq x # ops) s =
     (case enq x s of
        Abort \<Rightarrow> None
      | Fail e s' \<Rightarrow> map_option (apfst ((#) (None, Some e))) (queue_run enq deq ops s')
      | Done _ s' \<Rightarrow> map_option (apfst ((#) (None, None))) (queue_run enq deq ops s'))"
| "queue_run enq deq (Deq # ops) s =
     (case deq s of
        Abort \<Rightarrow> None
      | Fail e s' \<Rightarrow> map_option (apfst ((#) (None, Some e))) (queue_run enq deq ops s')
      | Done x s' \<Rightarrow> map_option (apfst ((#) (Some x, None))) (queue_run enq deq ops s'))"

locale fifo_queue =
  fixes items :: "'s \<Rightarrow> 'a list"
    and good :: "'s \<Rightarrow> bool"
    and reliable :: "'s \<Rightarrow> bool"
    and enq :: "'a \<Rightarrow> ('s, unit) prog"
    and deq :: "('s, 'a) prog"
  assumes enq_reliable: "good s \<Longrightarrow> reliable s \<Longrightarrow>
      \<exists>s'. enq x s = Done () s' \<and> good s' \<and> reliable s' \<and> items s' = items s @ [x]"
    and enq_cases: "good s \<Longrightarrow>
      (\<exists>s'. enq x s = Done () s' \<and> good s' \<and> items s' = items s @ [x])
      \<or> (\<exists>s'. enq x s = Fail ENOMEM s' \<and> good s' \<and> items s' = items s)"
    and deq_empty: "good s \<Longrightarrow> items s = [] \<Longrightarrow> deq s = Fail ENOENT s"
    and deq_item: "good s \<Longrightarrow> items s = x # xs \<Longrightarrow>
      \<exists>s'. deq s = Done x s' \<and> good s' \<and> (reliable s \<longrightarrow> reliable s') \<and> items s' = xs"
begin

lemma enq_never_aborts: "good s \<Longrightarrow> enq x s \<noteq> Abort"
  using enq_cases [of s x] by auto

lemma deq_never_aborts: "good s \<Longrightarrow> deq s \<noteq> Abort"
  using deq_empty [of s] deq_item [of s] by (cases "items s") auto

theorem run_refines:
  assumes "good s" "reliable s"
  shows "\<exists>s'. queue_run enq deq ops s = Some (fst (queue_spec ops (items s)), s')
    \<and> good s' \<and> reliable s' \<and> items s' = snd (queue_spec ops (items s))"
  using assms
proof (induction ops arbitrary: s)
  case (Cons op ops)
  show ?case
  proof (cases op)
    case (Enq x)
    from enq_reliable [OF Cons.prems, of x] obtain s' where
      1: "enq x s = Done () s'" "good s'" "reliable s'" "items s' = items s @ [x]" by blast
    from Cons.IH [OF 1(2,3)] 1 Enq show ?thesis by (auto simp: split_beta)
  next
    case Deq
    show ?thesis
    proof (cases "items s")
      case Nil
      from Cons.IH [OF Cons.prems] deq_empty [OF Cons.prems(1) Nil] Nil Deq show ?thesis
        by (auto simp: split_beta)
    next
      case (Cons y ys)
      from deq_item [OF Cons.prems(1) Cons] Cons.prems(2) obtain s' where
        1: "deq s = Done y s'" "good s'" "reliable s'" "items s' = ys" by blast
      from Cons.IH [OF 1(2,3)] 1 Cons Deq show ?thesis by (auto simp: split_beta)
    qed
  qed
qed simp

end

section \<open>Priority queues\<close>

text \<open>
  \<open>items\<close> is the multiset of elements; \<open>prio x y > 0\<close> says that \<open>x\<close> comes out before \<open>y\<close>.
\<close>

text \<open>Popping until the queue is empty.\<close>

fun drain :: "('s, 'a option) prog \<Rightarrow> nat \<Rightarrow> 's \<Rightarrow> 'a list option" where
  "drain pop 0 s = None"
| "drain pop (Suc n) s =
     (case pop s of
        Done (Some x) s' \<Rightarrow> map_option ((#) x) (drain pop n s')
      | Done None s' \<Rightarrow> Some []
      | _ \<Rightarrow> None)"

locale prio_queue =
  fixes items :: "'s \<Rightarrow> 'a multiset"
    and good :: "'s \<Rightarrow> bool"
    and prio :: "'s \<Rightarrow> 'a \<Rightarrow> 'a \<Rightarrow> int"
    and push :: "'a \<Rightarrow> ('s, unit) prog"
    and pop :: "('s, 'a option) prog"
  assumes prio_total: "good s \<Longrightarrow> total_cmp (prio s)"
    and push_cases: "good s \<Longrightarrow>
      (\<exists>s'. push x s = Done () s' \<and> good s' \<and> prio s' = prio s \<and> items s' = add_mset x (items s))
      \<or> (\<exists>s'. push x s = Fail EGENERIC s' \<and> good s' \<and> prio s' = prio s \<and> items s' = items s)"
    and pop_empty: "good s \<Longrightarrow> items s = {#} \<Longrightarrow> pop s = Done None s"
    and pop_top: "good s \<Longrightarrow> items s \<noteq> {#} \<Longrightarrow>
      \<exists>x s'. pop s = Done (Some x) s' \<and> good s' \<and> prio s' = prio s \<and> x \<in># items s
        \<and> items s' = items s - {#x#} \<and> (\<forall>y\<in>#items s. 0 \<le> prio s x y)"
begin

theorem drain_sorted:
  assumes "good s" "size (items s) < n"
  shows "\<exists>xs. drain pop n s = Some xs \<and> mset xs = items s \<and> sorted_wrt (\<lambda>x y. 0 \<le> prio s x y) xs"
  using assms
proof (induction n arbitrary: s)
  case (Suc n)
  show ?case
  proof (cases "items s = {#}")
    case True
    with pop_empty Suc.prems show ?thesis by auto
  next
    case False
    from pop_top [OF Suc.prems(1) False] obtain x s' where 1: "pop s = Done (Some x) s'" "good s'"
      "prio s' = prio s" "x \<in># items s" "items s' = items s - {#x#}" "\<forall>y\<in>#items s. 0 \<le> prio s x y"
      by blast
    have "size (items s') < n" using size_Diff1_less [OF 1(4)] 1(5) Suc.prems(2) by simp
    from Suc.IH [OF 1(2) this] obtain xs where
      2: "drain pop n s' = Some xs" "mset xs = items s'" "sorted_wrt (\<lambda>x y. 0 \<le> prio s x y) xs"
      using 1(3) by auto
    have "set xs \<subseteq> set_mset (items s)" using 2(2) 1(5) by (metis set_mset_mset in_diffD subsetI)
    with 1 2 show ?thesis by auto
  qed
qed simp

end

end
