(* ===== verification/Fifo.thy ===== *)
theory Fifo
  imports QueueSpec
begin

text \<open>
  \<^verbatim>\<open>queues/fifos/fifo.c\<close>: a queue in a circular buffer that doubles when it is full. The
  definitions follow the file; \<open>fi_list\<close> reads the queue off the buffer, and the component is
  shown to implement the contract \<open>fifo_queue\<close> without a failed assertion. Data pointers given
  to \<^verbatim>\<open>fi_enq\<close> are not NULL; a NULL slot of the buffer is \<open>None\<close>. The indices (\<^verbatim>\<open>int\<close>) are natural
  numbers, which is exact while the queue has fewer than \<open>2 ^ 31\<close> elements.
\<close>

section \<open>State and operations\<close>

record ('a, 'w) fifo_ops =
  fo_destroy_data_fn :: "('a option \<Rightarrow> 'w \<Rightarrow> 'w) option"

record ('a, 'w) fifo =
  fi_head :: nat
  fi_tail :: nat
  fi_size :: nat
  fi_nelements :: nat
  fi_queue :: "'a option list"
  fi_ops :: "('a, 'w) fifo_ops"

type_synonym ('a, 'w) fi_state = "(('a, 'w) fifo, 'w) cstate"

definition FIFO_START_SIZE :: nat where
  "FIFO_START_SIZE = 1024"

text \<open>A read of the buffer; \<open>None\<close> is an access out of bounds.\<close>

definition fi_read :: "'a option list \<Rightarrow> nat \<Rightarrow> 'a option option" where
  "fi_read q i = (if i < length q then Some (q ! i) else None)"

definition fi_create :: "('a, 'w) fifo_ops option \<Rightarrow> allocator
    \<Rightarrow> ('a, 'w) fifo option \<times> allocator" where
  "fi_create fops m =
     (let (ok, m1) = malloc m in
      if \<not> ok then (None, m1)
      else let (ok2, m2) = malloc m1 in
        if \<not> ok2 then (None, m2)
        else let ops = (case fops of Some f \<Rightarrow> f | None \<Rightarrow> \<lparr>fo_destroy_data_fn = None\<rparr>);
                 (ok3, m3) = malloc m2 in
          if \<not> ok3 then (None, m3)
          else (Some \<lparr>fi_head = 0, fi_tail = 0, fi_size = FIFO_START_SIZE, fi_nelements = 0,
                      fi_queue = replicate FIFO_START_SIZE None, fi_ops = ops\<rparr>, m3))"

fun fi_destroy_loop :: "('a option \<Rightarrow> 'w \<Rightarrow> 'w) \<Rightarrow> nat \<Rightarrow> 'a option list \<Rightarrow> nat \<Rightarrow> nat \<Rightarrow> 'w
    \<Rightarrow> 'w option" where
  "fi_destroy_loop f sz q cur 0 w = Some w"
| "fi_destroy_loop f sz q cur (Suc n) w =
     (case fi_read q cur of
        None \<Rightarrow> None
      | Some x \<Rightarrow> fi_destroy_loop f sz q ((cur + 1) mod sz) n (f x w))"

definition fi_destroy :: "('a, 'w) fifo \<Rightarrow> 'w \<Rightarrow> 'w option" where
  "fi_destroy fi w =
     (case fo_destroy_data_fn (fi_ops fi) of
        None \<Rightarrow> Some w
      | Some f \<Rightarrow> fi_destroy_loop f (fi_size fi) (fi_queue fi) (fi_head fi) (fi_nelements fi) w)"

definition fi_full :: "('a, 'w) fifo \<Rightarrow> bool" where
  "fi_full fi \<longleftrightarrow> fi_nelements fi = fi_size fi"

definition fi_empty :: "('a, 'w) fifo \<Rightarrow> bool" where
  "fi_empty fi \<longleftrightarrow> fi_nelements fi = 0"

text \<open>The copying loop of \<^verbatim>\<open>fi_grow\<close>: \<open>n\<close> iterations to go, \<open>i\<close> the index in the new buffer.\<close>

fun fi_grow_loop :: "nat \<Rightarrow> 'a option list \<Rightarrow> nat \<Rightarrow> nat \<Rightarrow> nat \<Rightarrow> 'a option list
    \<Rightarrow> 'a option list option" where
  "fi_grow_loop sz q cur i 0 new = Some new"
| "fi_grow_loop sz q cur i (Suc n) new =
     (case fi_read q cur of
        Some (Some x) \<Rightarrow> fi_grow_loop sz q ((cur + 1) mod sz) (i + 1) n (new[i := Some x])
      | _ \<Rightarrow> None)"

definition fi_grow :: "(('a, 'w) fi_state, unit) prog" where
  "fi_grow st =
     (let (fi, m, w) = st in
      if fi_nelements fi \<noteq> fi_size fi then Abort
      else
        let new_size = fi_size fi * 2; (ok, m1) = malloc m in
        if \<not> ok then Fail ENOMEM (fi, m1, w)
        else case fi_grow_loop (fi_size fi) (fi_queue fi) (fi_head fi) 0 (fi_nelements fi)
                    (replicate new_size None) of
          None \<Rightarrow> Abort
        | Some new_queue \<Rightarrow>
            Done () (fi\<lparr>fi_head := 0, fi_tail := fi_size fi - 1, fi_queue := new_queue,
                        fi_size := new_size\<rparr>, m1, w))"

definition fi_enq :: "'a \<Rightarrow> (('a, 'w) fi_state, unit) prog" where
  "fi_enq x st =
     (case (if fi_full (fst st) then fi_grow st else Done () st) of
        Abort \<Rightarrow> Abort
      | Fail e st' \<Rightarrow> Fail e st'
      | Done _ (fi, m, w) \<Rightarrow>
          (case (if \<not> fi_empty fi then
                   if \<exists>y. fi_read (fi_queue fi) (fi_tail fi) = Some (Some y)
                   then Some ((fi_tail fi + 1) mod fi_size fi) else None
                 else if fi_head fi = fi_tail fi then Some (fi_tail fi) else None) of
             None \<Rightarrow> Abort
           | Some tail \<Rightarrow>
               if fi_read (fi_queue fi) tail = Some None then
                 Done () (fi\<lparr>fi_tail := tail, fi_queue := (fi_queue fi)[tail := Some x],
                             fi_nelements := fi_nelements fi + 1\<rparr>, m, w)
               else Abort))"

definition fi_deq :: "(('a, 'w) fi_state, 'a) prog" where
  "fi_deq st =
     (let (fi, m, w) = st in
      if fi_empty fi then Fail ENOENT st
      else case fi_read (fi_queue fi) (fi_head fi) of
        Some (Some x) \<Rightarrow>
          let fi1 = fi\<lparr>fi_queue := (fi_queue fi)[fi_head fi := None],
                       fi_nelements := fi_nelements fi - 1\<rparr> in
          if \<not> fi_empty fi1 then
            let head = (fi_head fi1 + 1) mod fi_size fi1 in
            if \<exists>y. fi_read (fi_queue fi1) head = Some (Some y)
            then Done x (fi1\<lparr>fi_head := head\<rparr>, m, w) else Abort
          else if fi_head fi1 = fi_tail fi1 then Done x (fi1, m, w) else Abort
      | _ \<Rightarrow> Abort)"

text \<open>\<open>True\<close>: all assertions of \<^verbatim>\<open>fi_check\<close> hold.\<close>

definition fi_check :: "('a, 'w) fifo \<Rightarrow> bool" where
  "fi_check fi \<longleftrightarrow>
     fi_head fi < fi_size fi \<and> fi_tail fi < fi_size fi
     \<and> (\<not> fi_empty fi \<or> fi_head fi = fi_tail fi)
     \<and> list_all (\<lambda>i.
          if fi_head fi \<le> fi_tail fi then
            if fi_queue fi ! i \<noteq> None then i \<ge> fi_head fi \<and> i \<le> fi_tail fi
            else fi_empty fi \<or> i < fi_head fi \<or> i > fi_tail fi
          else
            if fi_queue fi ! i \<noteq> None then i \<ge> fi_head fi \<or> i \<le> fi_tail fi
            else fi_empty fi \<or> i < fi_head fi \<and> i > fi_tail fi) [0..<fi_size fi]
     \<and> fi_nelements fi = length (filter (\<lambda>i. fi_queue fi ! i \<noteq> None) [0..<fi_size fi])"

section \<open>The queue in the buffer\<close>

definition fi_get :: "('a, 'w) fifo \<Rightarrow> nat \<Rightarrow> 'a option" where
  "fi_get fi i = fi_queue fi ! ((fi_head fi + i) mod fi_size fi)"

definition fi_list :: "('a, 'w) fifo \<Rightarrow> 'a list" where
  "fi_list fi = map (\<lambda>i. the (fi_get fi i)) [0..<fi_nelements fi]"

definition fi_inv :: "('a, 'w) fifo \<Rightarrow> bool" where
  "fi_inv fi \<longleftrightarrow> 0 < fi_size fi \<and> length (fi_queue fi) = fi_size fi \<and> fi_head fi < fi_size fi
     \<and> fi_nelements fi \<le> fi_size fi
     \<and> fi_tail fi = (if fi_nelements fi = 0 then fi_head fi
                     else (fi_head fi + (fi_nelements fi - 1)) mod fi_size fi)
     \<and> (\<forall>i < fi_size fi. fi_get fi i \<noteq> None \<longleftrightarrow> i < fi_nelements fi)"

lemma fi_invD:
  assumes "fi_inv fi"
  shows "0 < fi_size fi" "length (fi_queue fi) = fi_size fi" "fi_head fi < fi_size fi"
    "fi_nelements fi \<le> fi_size fi" "\<And>i. i < fi_size fi \<Longrightarrow> fi_get fi i \<noteq> None \<longleftrightarrow> i < fi_nelements fi"
  using assms unfolding fi_inv_def by blast+

lemma length_fi_list [simp]: "length (fi_list fi) = fi_nelements fi"
  by (simp add: fi_list_def)

lemma mod_add_inj:
  assumes "(i::nat) < n" "j < n"
  shows "(h + i) mod n = (h + j) mod n \<longleftrightarrow> i = j"
proof
  assume "(h + i) mod n = (h + j) mod n"
  then have "i mod n = j mod n" by (auto simp: nat_mod_eq_iff)
  with assms show "i = j" by simp
qed simp

text \<open>Storing at position \<open>k\<close> from the head changes that position only.\<close>

lemma nth_store:
  assumes "length q = n" "i < n" "k < n"
  shows "(q[(h + k) mod n := v]) ! ((h + i) mod n) = (if i = k then v else q ! ((h + i) mod n))"
  using assms mod_add_inj [of i n k h] by (auto simp: nth_list_update)

lemma fi_get_Suc: "(fi_head fi + 1) mod fi_size fi = h \<Longrightarrow>
    (h + i) mod fi_size fi = (fi_head fi + Suc i) mod fi_size fi"
  by (metis Suc_eq_plus1_left ab_semigroup_add_class.add_ac(1) mod_add_left_eq)

section \<open>Growing\<close>

lemma fi_grow_loop_eq:
  assumes "0 < sz" "length q = sz" "h < sz"
    and "\<And>j. j < n \<Longrightarrow> q ! ((h + j) mod sz) \<noteq> None" "length new = i + n + k"
  shows "fi_grow_loop sz q h i n new =
    Some (take i new @ map (\<lambda>j. q ! ((h + j) mod sz)) [0..<n] @ drop (i + n) new)"
  using assms(3-5)
proof (induction n arbitrary: h i new)
  case (Suc n)
  obtain x where x: "q ! h = Some x" using Suc.prems(1) Suc.prems(2) [of 0] by auto
  let ?h = "(h + 1) mod sz"
  have sh: "(?h + j) mod sz = (h + Suc j) mod sz" for j
    by (simp add: mod_add_left_eq)
  have sh': "(Suc h mod sz + j) mod sz = Suc (h + j) mod sz" for j
    by (metis add_Suc mod_add_left_eq)
  have some: "q ! ((?h + j) mod sz) \<noteq> None" if "j < n" for j
    unfolding sh using that by (intro Suc.prems(2)) simp
  have "fi_grow_loop sz q ?h (i + 1) n (new[i := Some x]) = Some (take (i + 1) (new[i := Some x])
      @ map (\<lambda>j. q ! ((?h + j) mod sz)) [0..<n] @ drop (i + 1 + n) (new[i := Some x]))"
    using Suc.prems(3) assms(1) by (intro Suc.IH some) simp_all
  moreover have "take (i + 1) (new[i := Some x]) = take i new @ [Some x]"
    using Suc.prems(3) by (simp add: take_Suc_conv_app_nth)
  moreover have "map (\<lambda>j. q ! ((h + j) mod sz)) [0..<Suc n] =
      Some x # map (\<lambda>j. q ! ((?h + j) mod sz)) [0..<n]"
    using Suc.prems(1) x by (simp add: sh' upt_conv_Cons map_Suc_upt [symmetric] del: upt_Suc)
  ultimately show ?case using Suc.prems(1) assms(2) x by (simp add: fi_read_def sh' del: upt_Suc)
qed simp

text \<open>Growing rebuilds the buffer with the queue at its start.\<close>

definition fi_grown :: "('a, 'w) fifo \<Rightarrow> ('a, 'w) fifo" where
  "fi_grown fi = fi\<lparr>fi_head := 0, fi_tail := fi_size fi - 1,
     fi_queue := map (fi_get fi) [0..<fi_size fi] @ replicate (fi_size fi) None,
     fi_size := fi_size fi * 2\<rparr>"

lemma fi_grown_fields [simp]:
  "fi_head (fi_grown fi) = 0" "fi_tail (fi_grown fi) = fi_size fi - 1"
  "fi_size (fi_grown fi) = fi_size fi * 2" "fi_nelements (fi_grown fi) = fi_nelements fi"
  "fi_queue (fi_grown fi) = map (fi_get fi) [0..<fi_size fi] @ replicate (fi_size fi) None"
  by (simp_all add: fi_grown_def)

lemma fi_grow_eq:
  assumes "fi_inv fi" "fi_full fi"
  shows "fi_grow (fi, m, w) =
     (if fst (malloc m) then Done () (fi_grown fi, snd (malloc m), w)
      else Fail ENOMEM (fi, snd (malloc m), w))"
proof -
  have "fi_grow_loop (fi_size fi) (fi_queue fi) (fi_head fi) 0 (fi_nelements fi)
      (replicate (fi_size fi * 2) None) =
    Some (map (fi_get fi) [0..<fi_size fi] @ replicate (fi_size fi) None)"
    using fi_grow_loop_eq [of "fi_size fi" "fi_queue fi" "fi_head fi" "fi_size fi"
        "replicate (fi_size fi * 2) None" 0 "fi_size fi"] fi_invD [OF assms(1)] assms(2)
    by (simp add: fi_full_def fi_get_def del: replicate.simps)
  then show ?thesis using assms(2)
    by (simp add: fi_grow_def fi_full_def fi_grown_def split_beta Let_def)
qed

lemma fi_grown_inv:
  assumes "fi_inv fi" "fi_full fi"
  shows "fi_inv (fi_grown fi)" and "fi_list (fi_grown fi) = fi_list fi" and "\<not> fi_full (fi_grown fi)"
proof -
  have get: "fi_get (fi_grown fi) i = (if i < fi_size fi then fi_get fi i else None)"
    if "i < fi_size fi * 2" for i
    using that by (simp add: fi_get_def [of "fi_grown fi"] nth_append)
  show "fi_inv (fi_grown fi)"
    using fi_invD [OF assms(1)] assms(2)
    by (auto simp: fi_inv_def [of "fi_grown fi"] get fi_full_def)
  show "fi_list (fi_grown fi) = fi_list fi"
    using fi_invD(1,4) [OF assms(1)] by (simp add: fi_list_def get)
  show "\<not> fi_full (fi_grown fi)"
    using fi_invD [OF assms(1)] assms(2) by (simp add: fi_full_def)
qed

section \<open>Putting in and taking out\<close>

text \<open>The store of \<^verbatim>\<open>fi_enq\<close> once there is room.\<close>

definition fi_put :: "'a \<Rightarrow> ('a, 'w) fifo \<Rightarrow> ('a, 'w) fifo" where
  "fi_put x fi = fi\<lparr>fi_tail := (fi_head fi + fi_nelements fi) mod fi_size fi,
     fi_queue := (fi_queue fi)[(fi_head fi + fi_nelements fi) mod fi_size fi := Some x],
     fi_nelements := Suc (fi_nelements fi)\<rparr>"

lemma fi_put_fields [simp]:
  "fi_head (fi_put x fi) = fi_head fi"
  "fi_tail (fi_put x fi) = (fi_head fi + fi_nelements fi) mod fi_size fi"
  "fi_size (fi_put x fi) = fi_size fi" "fi_nelements (fi_put x fi) = Suc (fi_nelements fi)"
  "fi_queue (fi_put x fi) = (fi_queue fi)[(fi_head fi + fi_nelements fi) mod fi_size fi := Some x]"
  by (simp_all add: fi_put_def)

lemma fi_enq_room:
  assumes inv: "fi_inv fi" and room: "\<not> fi_full fi"
  shows "fi_enq x (fi, m, w) = Done () (fi_put x fi, m, w)"
proof -
  note D = fi_invD [OF inv]
  let ?n = "fi_nelements fi" and ?h = "fi_head fi"
  have n: "?n < fi_size fi" using D(4) room by (simp add: fi_full_def)
  have free: "fi_queue fi ! ((?h + ?n) mod fi_size fi) = None"
    using D(5) [OF n] by (simp add: fi_get_def)
  show ?thesis
  proof (cases "?n = 0")
    case True
    with inv have "fi_tail fi = ?h" "?h mod fi_size fi = ?h" by (simp_all add: fi_inv_def)
    with True room free D(1-3) show ?thesis
      by (simp add: fi_enq_def fi_empty_def fi_read_def fi_put_def)
  next
    case False
    with inv have t: "fi_tail fi = (?h + (?n - 1)) mod fi_size fi" by (simp add: fi_inv_def)
    have "(fi_tail fi + 1) mod fi_size fi = (?h + (?n - 1) + 1) mod fi_size fi"
      unfolding t by (rule mod_add_left_eq)
    with False have t': "(fi_tail fi + 1) mod fi_size fi = (?h + ?n) mod fi_size fi" by simp
    have "fi_get fi (?n - 1) \<noteq> None" using D(5) [of "?n - 1"] False n by simp
    then have "\<exists>y. fi_read (fi_queue fi) (fi_tail fi) = Some (Some y)"
      using D(1,2) by (simp add: fi_read_def fi_get_def t)
    with False room free D(1-3) t' show ?thesis
      by (simp add: fi_enq_def fi_empty_def fi_put_def) (simp add: fi_read_def)
  qed
qed

lemma fi_put_inv:
  assumes inv: "fi_inv fi" and room: "\<not> fi_full fi"
  shows "fi_inv (fi_put x fi)" and "fi_list (fi_put x fi) = fi_list fi @ [x]"
proof -
  note D = fi_invD [OF inv]
  have n: "fi_nelements fi < fi_size fi" using D(4) room by (simp add: fi_full_def)
  have get: "fi_get (fi_put x fi) i = (if i = fi_nelements fi then Some x else fi_get fi i)"
    if "i < fi_size fi" for i
    using nth_store [OF D(2) that n, of "fi_head fi" "Some x"]
    by (simp add: fi_get_def)
  show "fi_inv (fi_put x fi)"
    using D n by (auto simp: fi_inv_def [of "fi_put x fi"] get)
  have "fi_list (fi_put x fi) = map (\<lambda>i. the (fi_get (fi_put x fi) i)) [0..<Suc (fi_nelements fi)]"
    by (simp add: fi_list_def)
  also have "\<dots> = map (\<lambda>i. the (if i = fi_nelements fi then Some x else fi_get fi i))
      [0..<Suc (fi_nelements fi)]"
    using n by (intro map_cong refl arg_cong [where f = the] get) auto
  also have "\<dots> = fi_list fi @ [x]" by (simp add: fi_list_def)
  finally show "fi_list (fi_put x fi) = fi_list fi @ [x]" .
qed

text \<open>The buffer after \<^verbatim>\<open>fi_deq\<close>.\<close>

definition fi_take :: "('a, 'w) fifo \<Rightarrow> ('a, 'w) fifo" where
  "fi_take fi = fi\<lparr>fi_queue := (fi_queue fi)[fi_head fi := None],
     fi_nelements := fi_nelements fi - 1,
     fi_head := (if fi_nelements fi = 1 then fi_head fi else (fi_head fi + 1) mod fi_size fi)\<rparr>"

lemma fi_take_fields [simp]:
  "fi_head (fi_take fi) =
     (if fi_nelements fi = 1 then fi_head fi else (fi_head fi + 1) mod fi_size fi)"
  "fi_tail (fi_take fi) = fi_tail fi" "fi_size (fi_take fi) = fi_size fi"
  "fi_nelements (fi_take fi) = fi_nelements fi - 1"
  "fi_queue (fi_take fi) = (fi_queue fi)[fi_head fi := None]"
  by (simp_all add: fi_take_def)

lemma fi_take_get:
  assumes inv: "fi_inv fi" and ne: "1 < fi_nelements fi" and i: "i < fi_size fi"
  shows "fi_get (fi_take fi) i = (if Suc i < fi_size fi then fi_get fi (Suc i) else None)"
proof -
  note D = fi_invD [OF inv]
  have sh: "((fi_head fi + 1) mod fi_size fi + i) mod fi_size fi = (fi_head fi + Suc i) mod fi_size fi"
    by (simp add: mod_add_left_eq)
  have h: "(fi_head fi + 0) mod fi_size fi = fi_head fi" using D(3) by simp
  show ?thesis
  proof (cases "Suc i < fi_size fi")
    case True
    with nth_store [OF D(2) True D(1), of "fi_head fi" None] ne sh h show ?thesis
      by (simp add: fi_get_def fi_take_def)
  next
    case False
    with i have "fi_head fi + Suc i = fi_head fi + fi_size fi" by simp
    then have "(fi_head fi + Suc i) mod fi_size fi = fi_head fi" using D(3) by simp
    with False ne sh D(2,3) show ?thesis by (simp add: fi_get_def fi_take_def)
  qed
qed

lemma fi_take_get_last:
  assumes inv: "fi_inv fi" and one: "fi_nelements fi = 1" and i: "i < fi_size fi"
  shows "fi_get (fi_take fi) i = None"
proof -
  note D = fi_invD [OF inv]
  have "(fi_head fi + 0) mod fi_size fi = fi_head fi" using D(3) by simp
  with nth_store [OF D(2) i D(1), of "fi_head fi" None] D(5) [OF i] one show ?thesis
    by (auto simp: fi_get_def)
qed

lemma fi_take_inv:
  assumes inv: "fi_inv fi" and ne: "fi_nelements fi \<noteq> 0"
  shows "fi_inv (fi_take fi)"
proof (cases "fi_nelements fi = 1")
  case True
  with inv fi_take_get_last [OF inv True] show ?thesis
    by (simp add: fi_inv_def [of "fi_take fi"] fi_invD) (simp add: fi_inv_def)
next
  case False
  note D = fi_invD [OF inv]
  from False ne have n: "1 < fi_nelements fi" by simp
  have "((fi_head fi + 1) mod fi_size fi + (fi_nelements fi - 1 - 1)) mod fi_size fi =
      (fi_head fi + 1 + (fi_nelements fi - 1 - 1)) mod fi_size fi" by (rule mod_add_left_eq)
  also have "fi_head fi + 1 + (fi_nelements fi - 1 - 1) = fi_head fi + (fi_nelements fi - 1)"
    using n by simp
  finally have t: "fi_tail fi =
      ((fi_head fi + 1) mod fi_size fi + (fi_nelements fi - 1 - 1)) mod fi_size fi"
    using inv ne by (simp add: fi_inv_def)
  have "fi_get (fi_take fi) i \<noteq> None \<longleftrightarrow> i < fi_nelements fi - 1" if "i < fi_size fi" for i
    using fi_take_get [OF inv n that] D(4) D(5) [of "Suc i"] that n by auto
  with D n t show ?thesis by (simp add: fi_inv_def [of "fi_take fi"])
qed

lemma fi_take_list:
  assumes inv: "fi_inv fi" and ne: "fi_nelements fi \<noteq> 0"
  shows "fi_list fi = the (fi_get fi 0) # fi_list (fi_take fi)"
proof (cases "fi_nelements fi = 1")
  case True
  then show ?thesis by (simp add: fi_list_def)
next
  case False
  with ne have n: "1 < fi_nelements fi" by simp
  have "fi_list fi = the (fi_get fi 0) # map (\<lambda>i. the (fi_get fi (Suc i))) [0..<fi_nelements fi - 1]"
    using ne by (cases "fi_nelements fi")
      (simp_all add: fi_list_def upt_conv_Cons map_Suc_upt [symmetric] del: upt_Suc)
  moreover have "map (\<lambda>i. the (fi_get fi (Suc i))) [0..<fi_nelements fi - 1] = fi_list (fi_take fi)"
    using fi_take_get [OF inv n] fi_invD(4) [OF inv] by (auto simp: fi_list_def intro!: map_cong)
  ultimately show ?thesis by simp
qed

lemma fi_deq_eq:
  assumes inv: "fi_inv fi" and ne: "fi_nelements fi \<noteq> 0"
  shows "fi_deq (fi, m, w) = Done (the (fi_get fi 0)) (fi_take fi, m, w)"
proof -
  note D = fi_invD [OF inv]
  obtain x where x: "fi_get fi 0 = Some x" using D(1,5) ne by fastforce
  then have hd: "fi_queue fi ! fi_head fi = Some x" using D(3) by (simp add: fi_get_def)
  show ?thesis
  proof (cases "fi_nelements fi = 1")
    case True
    moreover from True inv have "fi_tail fi = fi_head fi" by (simp add: fi_inv_def)
    ultimately show ?thesis using D x hd
      by (simp add: fi_deq_def fi_empty_def fi_read_def fi_take_def)
  next
    case False
    with ne have n: "1 < fi_nelements fi" by simp
    have "fi_get (fi_take fi) 0 \<noteq> None"
      using fi_take_get [OF inv n D(1)] D(4) D(5) [of 1] n by simp
    then obtain y where "(fi_queue fi)[fi_head fi := None] ! ((fi_head fi + 1) mod fi_size fi) = Some y"
      using n by (auto simp: fi_get_def)
    with n D x hd show ?thesis
      by (simp add: fi_deq_def fi_empty_def fi_read_def fi_take_def Let_def)
  qed
qed

section \<open>The queue contract\<close>

definition fi_items :: "('a, 'w) fi_state \<Rightarrow> 'a list" where
  "fi_items st = fi_list (fst st)"

definition fi_good :: "('a, 'w) fi_state \<Rightarrow> bool" where
  "fi_good st \<longleftrightarrow> fi_inv (fst st)"

definition fi_reliable :: "('a, 'w) fi_state \<Rightarrow> bool" where
  "fi_reliable st \<longleftrightarrow> never_fails (fst (snd st))"

lemmas fi_abs_defs = fi_items_def fi_good_def fi_reliable_def

lemma fi_enq_full:
  assumes inv: "fi_inv fi" and full: "fi_full fi"
  shows "fi_enq x (fi, m, w) =
    (if fst (malloc m) then Done () (fi_put x (fi_grown fi), snd (malloc m), w)
     else Fail ENOMEM (fi, snd (malloc m), w))"
proof (cases "fst (malloc m)")
  case True
  note G = fi_grown_inv [OF inv full]
  have "fi_enq x (fi, m, w) = fi_enq x (fi_grown fi, snd (malloc m), w)"
    using True full G(3) by (simp add: fi_enq_def [of x "(fi, m, w)"] fi_grow_eq [OF inv full])
      (simp add: fi_enq_def)
  with True fi_enq_room [OF G(1,3)] show ?thesis by simp
next
  case False
  with full show ?thesis by (simp add: fi_enq_def fi_grow_eq [OF inv full])
qed

lemma fi_enq_result:
  assumes inv: "fi_inv fi"
  shows "(\<exists>fi' m'. fi_enq x (fi, m, w) = Done () (fi', m', w) \<and> fi_inv fi'
        \<and> fi_list fi' = fi_list fi @ [x] \<and> (never_fails m \<longrightarrow> never_fails m'))
     \<or> \<not> never_fails m \<and> (\<exists>m'. fi_enq x (fi, m, w) = Fail ENOMEM (fi, m', w))"
proof (cases "fi_full fi")
  case False
  with fi_enq_room [OF inv False, of x m w] fi_put_inv [OF inv False, of x] show ?thesis by auto
next
  case True
  obtain ok m' where m: "malloc m = (ok, m')" by fastforce
  show ?thesis
  proof (cases ok)
    case False
    with m have "\<not> never_fails m" using malloc_never_fails by blast
    with False m show ?thesis by (simp add: fi_enq_full [OF inv True])
  next
    case ok: True
    have "never_fails m \<Longrightarrow> never_fails m'" using m malloc_never_fails by blast
    with ok m fi_grown_inv [OF inv True] show ?thesis
      by (simp add: fi_enq_full [OF inv True] fi_put_inv)
  qed
qed

lemma fi_deq_result:
  assumes inv: "fi_inv fi"
  shows "fi_deq (fi, m, w) =
     (case fi_list fi of [] \<Rightarrow> Fail ENOENT (fi, m, w) | x # _ \<Rightarrow> Done x (fi_take fi, m, w))"
  using fi_deq_eq [OF inv, of m w] fi_take_list [OF inv]
  by (cases "fi_nelements fi = 0") (auto simp: fi_deq_def fi_empty_def fi_list_def)

lemma fi_list_Nil: "fi_list fi = [] \<longleftrightarrow> fi_nelements fi = 0"
  by (simp add: fi_list_def)

lemma fi_deq_Cons:
  assumes "fi_inv fi" "fi_list fi = x # xs"
  shows "\<exists>fi'. fi_deq (fi, m, w) = Done x (fi', m, w) \<and> fi_inv fi' \<and> fi_list fi' = xs"
proof -
  have "fi_nelements fi \<noteq> 0" using assms(2) fi_list_Nil [of fi] by auto
  with fi_take_inv [OF assms(1)] fi_take_list [OF assms(1)] assms show ?thesis
    by (simp add: fi_deq_result)
qed

lemma fi_enq_ok:
  assumes "fi_inv fi" "never_fails m"
  shows "\<exists>fi' m'. fi_enq x (fi, m, w) = Done () (fi', m', w) \<and> fi_inv fi'
    \<and> fi_list fi' = fi_list fi @ [x] \<and> never_fails m'"
  using fi_enq_result [OF assms(1), of x m w] assms(2) by auto

lemma fi_create_ok:
  assumes "never_fails m"
  shows "\<exists>fi m'. fi_create ops m = (Some fi, m') \<and> fi_inv fi \<and> fi_list fi = [] \<and> never_fails m'"
proof -
  obtain m1 where 1: "malloc m = (True, m1)" "never_fails m1" using malloc_ok [OF assms] by blast
  obtain m2 where 2: "malloc m1 = (True, m2)" "never_fails m2" using malloc_ok [OF 1(2)] by blast
  obtain m3 where 3: "malloc m2 = (True, m3)" "never_fails m3" using malloc_ok [OF 2(2)] by blast
  from 1 2 3 show ?thesis
    by (simp add: fi_create_def fi_inv_def fi_get_def fi_list_def FIFO_START_SIZE_def)
qed

interpretation fi: fifo_queue fi_items fi_good fi_reliable fi_enq fi_deq
proof (unfold_locales, goal_cases)
  case (1 s x)
  then show ?case using fi_enq_result [of "fst s" x "fst (snd s)" "snd (snd s)"]
    by (cases s) (auto simp: fi_abs_defs)
next
  case (2 s x)
  then show ?case using fi_enq_result [of "fst s" x "fst (snd s)" "snd (snd s)"]
    by (cases s) (auto simp: fi_abs_defs)
next
  case (3 s)
  then show ?case by (cases s) (simp add: fi_abs_defs fi_deq_result)
next
  case (4 s x xs)
  then have inv: "fi_inv (fst s)" and l: "fi_list (fst s) = x # xs" by (simp_all add: fi_abs_defs)
  then have n: "fi_nelements (fst s) \<noteq> 0" using fi_list_Nil [of "fst s"] by auto
  from fi_take_inv [OF inv n] fi_take_list [OF inv n] l 4 show ?case
    by (cases s) (auto simp: fi_abs_defs fi_deq_result)
qed

section \<open>Checking\<close>

lemma fi_slot:
  assumes inv: "fi_inv fi" and i: "i < fi_size fi"
  shows "fi_queue fi ! i \<noteq> None \<longleftrightarrow>
    (if fi_head fi \<le> i then i - fi_head fi else i + fi_size fi - fi_head fi) < fi_nelements fi"
proof (cases "fi_head fi \<le> i")
  case True
  with i have "fi_get fi (i - fi_head fi) = fi_queue fi ! i" by (simp add: fi_get_def)
  with True i fi_invD(5) [OF inv, of "i - fi_head fi"] show ?thesis by simp
next
  case False
  note h = fi_invD(3) [OF inv]
  have "fi_head fi + (i + fi_size fi - fi_head fi) = i + fi_size fi" using h by simp
  with i have "fi_get fi (i + fi_size fi - fi_head fi) = fi_queue fi ! i" by (simp add: fi_get_def)
  with False i h fi_invD(5) [OF inv, of "i + fi_size fi - fi_head fi"] show ?thesis by simp
qed

lemma fi_tail_cases:
  assumes inv: "fi_inv fi" and ne: "fi_nelements fi \<noteq> 0"
  shows "fi_tail fi = (if fi_head fi + (fi_nelements fi - 1) < fi_size fi
      then fi_head fi + (fi_nelements fi - 1)
      else fi_head fi + (fi_nelements fi - 1) - fi_size fi)"
proof -
  note D = fi_invD [OF inv]
  have t: "fi_tail fi = (fi_head fi + (fi_nelements fi - 1)) mod fi_size fi"
    using inv ne by (simp add: fi_inv_def)
  have "fi_head fi + (fi_nelements fi - 1) - fi_size fi < fi_size fi" using D(3,4) by linarith
  then show ?thesis unfolding t by (simp add: mod_if le_mod_geq not_less)
qed

lemma fi_occupied_card:
  assumes inv: "fi_inv fi"
  shows "length (filter (\<lambda>i. fi_queue fi ! i \<noteq> None) [0..<fi_size fi]) = fi_nelements fi"
proof -
  note D = fi_invD [OF inv]
  let ?f = "\<lambda>i. (fi_head fi + i) mod fi_size fi"
  have inj: "inj_on ?f {..<fi_nelements fi}"
    using D(4) mod_add_inj [of _ "fi_size fi" _ "fi_head fi"] by (auto simp: inj_on_def)
  have "?f ` {..<fi_nelements fi} = {i. i < fi_size fi \<and> fi_queue fi ! i \<noteq> None}"
  proof (intro set_eqI iffI)
    fix j assume "j \<in> ?f ` {..<fi_nelements fi}"
    then show "j \<in> {i. i < fi_size fi \<and> fi_queue fi ! i \<noteq> None}"
      using D(1,4,5) by (auto simp: fi_get_def)
  next
    fix j assume "j \<in> {i. i < fi_size fi \<and> fi_queue fi ! i \<noteq> None}"
    then have j: "j < fi_size fi" "fi_queue fi ! j \<noteq> None" by auto
    let ?i = "if fi_head fi \<le> j then j - fi_head fi else j + fi_size fi - fi_head fi"
    have "?f ?i = j" using j(1) D(3) by simp
    then show "j \<in> ?f ` {..<fi_nelements fi}" using fi_slot [OF inv j(1)] j(2) by force
  qed
  then have "card {i. i < fi_size fi \<and> fi_queue fi ! i \<noteq> None} = fi_nelements fi"
    using card_image [OF inj] by simp
  moreover have "length (filter (\<lambda>i. fi_queue fi ! i \<noteq> None) [0..<fi_size fi]) =
      card (set (filter (\<lambda>i. fi_queue fi ! i \<noteq> None) [0..<fi_size fi]))"
    by (intro distinct_card [symmetric] distinct_filter distinct_upt)
  ultimately show ?thesis by (simp add: conj_commute)
qed

lemma fi_inv_check:
  assumes inv: "fi_inv fi"
  shows "fi_check fi"
proof -
  note D = fi_invD [OF inv]
  have t0: "fi_nelements fi = 0 \<longrightarrow> fi_tail fi = fi_head fi" using inv by (simp add: fi_inv_def)
  have t: "fi_tail fi < fi_size fi" using inv D(1,3) by (simp add: fi_inv_def)
  have slot: "fi_queue fi ! i = None \<longleftrightarrow> \<not>
    (if fi_head fi \<le> i then i - fi_head fi else i + fi_size fi - fi_head fi) < fi_nelements fi"
    if "i < fi_size fi" for i
    using fi_slot [OF inv that] by blast
  have "list_all (\<lambda>i.
      if fi_head fi \<le> fi_tail fi then
        if fi_queue fi ! i \<noteq> None then i \<ge> fi_head fi \<and> i \<le> fi_tail fi
        else fi_empty fi \<or> i < fi_head fi \<or> i > fi_tail fi
      else
        if fi_queue fi ! i \<noteq> None then i \<ge> fi_head fi \<or> i \<le> fi_tail fi
        else fi_empty fi \<or> i < fi_head fi \<and> i > fi_tail fi) [0..<fi_size fi]"
  proof (cases "fi_nelements fi = 0")
    case True
    with slot show ?thesis by (simp add: list_all_iff fi_empty_def)
  next
    case False
    note tl = fi_tail_cases [OF inv False]
    show ?thesis
    proof (cases "fi_head fi + (fi_nelements fi - 1) < fi_size fi")
      case True
      with tl have tail: "fi_tail fi = fi_head fi + (fi_nelements fi - 1)" by simp
      with False True slot show ?thesis by (auto simp: list_all_iff fi_empty_def simp del: not_None_eq)
    next
      case wrap: False
      with tl have tail: "fi_tail fi = fi_head fi + (fi_nelements fi - 1) - fi_size fi" by simp
      with wrap D(3,4) have "fi_tail fi < fi_head fi" by linarith
      with tail False wrap D(3,4) slot show ?thesis
        by (auto simp: list_all_iff fi_empty_def simp del: not_None_eq)
    qed
  qed
  then show ?thesis unfolding fi_check_def fi_occupied_card [OF inv]
    using D(3) t t0 by (auto simp: fi_empty_def)
qed

section \<open>Properties\<close>

text \<open>
  C3: Any sequence of \<^verbatim>\<open>fi_enq\<close> and \<^verbatim>\<open>fi_deq\<close> calls on a well-formed fifo, with an allocator that
  does not fail, returns what a first-in first-out list returns. No assertion fails, whatever
  the position of the queue in the circular buffer and however often it grows.
\<close>

theorem fi_refines_queue:
  assumes "fi_inv fi" "never_fails m"
  shows "\<exists>fi' m' w'. queue_run fi_enq fi_deq ops (fi, m, w) =
        Some (fst (queue_spec ops (fi_list fi)), (fi', m', w'))
      \<and> fi_inv fi' \<and> fi_list fi' = snd (queue_spec ops (fi_list fi))"
  using fi.run_refines [of "(fi, m, w)" ops] assms by (auto simp: fi_abs_defs)

text \<open>A full buffer of two slots whose queue wraps around: 1 at position 1, then 2 at position 0.\<close>

definition int_fi :: "(int, int list) fifo" where
  "int_fi = \<lparr>fi_head = 1, fi_tail = 0, fi_size = 2, fi_nelements = 2,
     fi_queue = [Some 2, Some 1], fi_ops = \<lparr>fo_destroy_data_fn = None\<rparr>\<rparr>"

lemma int_fi_inv: "fi_inv int_fi"
proof -
  have "(\<forall>i<2. P i) \<longleftrightarrow> P 0 \<and> P 1" for P :: "nat \<Rightarrow> bool"
    by (auto simp: less_2_cases_iff)
  then show ?thesis by (simp add: fi_inv_def int_fi_def fi_get_def)
qed

lemma int_fi_list: "fi_list int_fi = [1, 2]"
  by (simp add: fi_list_def int_fi_def fi_get_def upt_conv_Cons)

theorem fi_refines_queue_witness:
  "\<exists>fi' m' w'. queue_run fi_enq fi_deq [Enq 3, Deq, Deq, Deq, Deq, Enq 4] (int_fi, [], []) =
      Some ([(None, None), (Some 1, None), (Some 2, None), (Some 3, None), (None, Some ENOENT),
             (None, None)], (fi', m', w'))
    \<and> fi_list fi' = [4]"
  using fi_refines_queue [OF int_fi_inv never_fails_Nil,
      of "[Enq 3, Deq, Deq, Deq, Deq, Enq 4]" "[]"]
  by (auto simp: int_fi_list)

text \<open>
  \<^verbatim>\<open>fi_enq\<close> on a full buffer moves the queue to a buffer of twice the size without losing or
  reordering an element; when the allocation fails it returns \<^verbatim>\<open>ENOMEM\<close> and the fifo is untouched.
\<close>

theorem fi_enq_grows:
  assumes "fi_inv fi" "fi_full fi"
  shows "case fi_enq x (fi, m, w) of
      Done _ (fi', m', w') \<Rightarrow> fst (malloc m) \<and> fi_size fi' = 2 * fi_size fi \<and> fi_inv fi'
        \<and> fi_list fi' = fi_list fi @ [x] \<and> w' = w
    | Fail e s' \<Rightarrow> \<not> fst (malloc m) \<and> e = ENOMEM \<and> s' = (fi, snd (malloc m), w)
    | Abort \<Rightarrow> False"
  using fi_grown_inv [OF assms] by (simp add: fi_enq_full [OF assms] fi_put_inv)

theorem fi_enq_grows_witness:
  "\<exists>fi'. fi_enq 3 (int_fi, [], []) = Done () (fi', [], []) \<and> fi_size fi' = 4
     \<and> fi_list fi' = [1, 2, 3]"
proof -
  have full: "fi_full int_fi" by (simp add: int_fi_def fi_full_def)
  have "\<exists>fi'. fi_enq 3 (int_fi, [], []) = Done () (fi', [], [])"
    by (simp add: fi_enq_full [OF int_fi_inv full])
  with fi_enq_grows [OF int_fi_inv full, where x = 3 and m = "[]" and w = "[]"] show ?thesis
    by (auto simp: int_fi_list) (simp add: int_fi_def)
qed

text \<open>
  \<^verbatim>\<open>fi_check\<close> accepts every well-formed fifo, in the straight and in the wrapped-around case.
\<close>

theorem fi_check_accepts:
  assumes "fi_inv fi"
  shows "fi_check fi"
  using assms by (rule fi_inv_check)

theorem fi_check_accepts_witness: "fi_check int_fi"
  using fi_check_accepts [OF int_fi_inv] .

end
