(* ===== verification/HeapQueue.thy ===== *)
theory HeapQueue
  imports QueueSpec
begin

text \<open>
  \<^verbatim>\<open>queues/heaps/heap.c\<close>: a binary max-heap in an array that grows by 64 slots. A NULL slot is
  \<open>None\<close>; the slots \<^verbatim>\<open>realloc\<close> adds have unspecified contents, a parameter (\<open>junk\<close>) of the
  insertion. The heap implements the contract \<open>prio_queue\<close> for every such contents. Indices (\<^verbatim>\<open>int\<close>) are
  natural numbers: the heap has fewer than about \<open>2 ^ 30\<close> elements.
\<close>

section \<open>State and operations\<close>

record ('a, 'w) heap_ops =
  heap_compare :: "'a \<Rightarrow> 'a \<Rightarrow> int"
  heap_destroy_element :: "'a option \<Rightarrow> 'w \<Rightarrow> 'w"

record ('a, 'w) heap =
  h_size :: nat
  h_ops :: "('a, 'w) heap_ops"
  h_heap :: "'a option list"
  h_nelements :: nat

type_synonym ('a, 'w) h_state = "(('a, 'w) heap, 'w) cstate"

definition HEAP_START_SIZE :: nat where
  "HEAP_START_SIZE = 64"

definition heap_create :: "('a, 'w) heap_ops \<Rightarrow> allocator \<Rightarrow> ('a, 'w) heap option \<times> allocator" where
  "heap_create hops m =
     (let (ok, m1) = malloc m in
      if \<not> ok then (None, m1)
      else let (ok2, m2) = malloc m1 in
        if \<not> ok2 then (None, m2)
        else (Some \<lparr>h_size = HEAP_START_SIZE, h_ops = hops,
                    h_heap = replicate HEAP_START_SIZE None, h_nelements = 0\<rparr>, m2))"

definition heap_destroy :: "('a, 'w) heap \<Rightarrow> 'w \<Rightarrow> 'w" where
  "heap_destroy h w =
     fold (\<lambda>i. heap_destroy_element (h_ops h) (h_heap h ! i)) [0..<h_nelements h] w"

text \<open>A slot; \<open>None\<close> is a NULL slot, or an index out of bounds.\<close>

definition heap_slot :: "'a option list \<Rightarrow> nat \<Rightarrow> 'a option" where
  "heap_slot hp i = (if i < length hp then hp ! i else None)"

text \<open>Giving a NULL element to the comparison function stops the program (\<open>None\<close>).\<close>

function heap_upheap :: "('a \<Rightarrow> 'a \<Rightarrow> int) \<Rightarrow> 'a option list \<Rightarrow> nat \<Rightarrow> 'a option list option" where
  "heap_upheap cmp hp ind =
     (if ind = 0 then Some hp
      else
        let pind = (ind - 1) div 2 in
        case (heap_slot hp ind, heap_slot hp pind) of
          (Some child, Some parent) \<Rightarrow>
            if cmp parent child < 0
            then heap_upheap cmp (hp[ind := Some parent, pind := Some child]) pind
            else Some hp
        | _ \<Rightarrow> None)"
  by pat_completeness auto

termination
  by (relation "measure (\<lambda>(cmp, hp, ind). ind)") auto

definition heap_insert :: "(nat \<Rightarrow> 'a option) \<Rightarrow> 'a \<Rightarrow> (('a, 'w) h_state, unit) prog" where
  "heap_insert junk element st =
     (let (h, m, w) = st;
          (ok, m1) = (if h_nelements h = h_size h then malloc m else (True, m)) in
      if \<not> ok then Fail EGENERIC (h, m1, w)
      else
        let h1 = (if h_nelements h = h_size h
                  then h\<lparr>h_heap := h_heap h @ map junk [0..<HEAP_START_SIZE],
                         h_size := h_size h + HEAP_START_SIZE\<rparr>
                  else h) in
        if \<not> h_nelements h1 < length (h_heap h1) then Abort
        else case heap_upheap (heap_compare (h_ops h1)) ((h_heap h1)[h_nelements h1 := Some element])
                    (h_nelements h1) of
          None \<Rightarrow> Abort
        | Some hp \<Rightarrow> Done () (h1\<lparr>h_heap := hp, h_nelements := h_nelements h1 + 1\<rparr>, m1, w))"

function heap_downheap :: "('a \<Rightarrow> 'a \<Rightarrow> int) \<Rightarrow> nat \<Rightarrow> 'a option list \<Rightarrow> nat
    \<Rightarrow> 'a option list option" where
  "heap_downheap cmp nelements hp ind =
     (if nelements = 0 then Some hp
      else if \<not> ind < nelements then None
      else
        let cind1 = ind * 2 + 1;
            cind2 = cind1 + 1;
            parent = heap_slot hp ind;
            child1 = (if cind1 < nelements then heap_slot hp cind1 else None);
            child2 = (if cind2 < nelements then heap_slot hp cind2 else None) in
        if child1 = None \<and> child2 = None then Some hp
        else
          let scind = (case (child1, child2) of
                         (Some c1, Some c2) \<Rightarrow> if cmp c1 c2 > 0 then cind1 else cind2
                       | (None, _) \<Rightarrow> cind2
                       | (_, None) \<Rightarrow> cind1) in
          case (heap_slot hp scind, parent) of
            (Some swap_child, Some p) \<Rightarrow>
              if cmp swap_child p > 0
              then heap_downheap cmp nelements (hp[ind := Some swap_child, scind := Some p]) scind
              else Some hp
          | _ \<Rightarrow> None)"
  by pat_completeness auto

termination
  by (relation "measure (\<lambda>(cmp, n, hp, ind). n - ind)") (auto split: option.splits if_splits)

definition heap_top :: "('a, 'w) heap \<Rightarrow> 'a option" where
  "heap_top h = heap_slot (h_heap h) 0"

definition heap_pop :: "(('a, 'w) h_state, 'a option) prog" where
  "heap_pop st =
     (let (h, m, w) = st; top = heap_top h in
      if h_nelements h = 0 then Done top (h, m, w)
      else
        let n = h_nelements h;
            hp = (h_heap h)[0 := heap_slot (h_heap h) (n - 1)];
            hp1 = hp[n - 1 := None] in
        case heap_downheap (heap_compare (h_ops h)) (n - 1) hp1 0 of
          None \<Rightarrow> Abort
        | Some hp2 \<Rightarrow> Done top (h\<lparr>h_heap := hp2, h_nelements := n - 1\<rparr>, m, w))"

definition heap_empty :: "('a, 'w) heap \<Rightarrow> bool" where
  "heap_empty h \<longleftrightarrow> h_nelements h = 0"

declare heap_upheap.simps [simp del] heap_downheap.simps [simp del]

section \<open>Heap order\<close>

abbreviation hparent :: "nat \<Rightarrow> nat" where
  "hparent i \<equiv> (i - 1) div 2"

lemma hparent_less [simp]: "0 < k \<Longrightarrow> (k - Suc 0) div 2 < k"
  by linarith

lemma hparent_neq [simp]: "0 < k \<Longrightarrow> (k - Suc 0) div 2 \<noteq> k"
  by linarith

definition is_heap :: "('a \<Rightarrow> 'a \<Rightarrow> int) \<Rightarrow> 'a list \<Rightarrow> bool" where
  "is_heap c xs \<longleftrightarrow> (\<forall>i < length xs. 0 < i \<longrightarrow> 0 \<le> c (xs ! hparent i) (xs ! i))"

text \<open>A heap except for the edge above \<open>k\<close>, and a heap except for the edges below \<open>k\<close>.\<close>

definition up_heap :: "('a \<Rightarrow> 'a \<Rightarrow> int) \<Rightarrow> 'a list \<Rightarrow> nat \<Rightarrow> bool" where
  "up_heap c xs k \<longleftrightarrow>
     (\<forall>i < length xs. 0 < i \<longrightarrow> i \<noteq> k \<longrightarrow> 0 \<le> c (xs ! hparent i) (xs ! i))
     \<and> (\<forall>i < length xs. 0 < i \<longrightarrow> hparent i = k \<longrightarrow> 0 < k \<longrightarrow> 0 \<le> c (xs ! hparent k) (xs ! i))"

definition down_heap :: "('a \<Rightarrow> 'a \<Rightarrow> int) \<Rightarrow> 'a list \<Rightarrow> nat \<Rightarrow> bool" where
  "down_heap c xs k \<longleftrightarrow>
     (\<forall>i < length xs. 0 < i \<longrightarrow> hparent i \<noteq> k \<longrightarrow> 0 \<le> c (xs ! hparent i) (xs ! i))
     \<and> (\<forall>i < length xs. 0 < i \<longrightarrow> hparent i = k \<longrightarrow> 0 < k \<longrightarrow> 0 \<le> c (xs ! hparent k) (xs ! i))"

lemma ge_trans: "total_cmp c \<Longrightarrow> 0 \<le> c x y \<Longrightarrow> 0 \<le> c y z \<Longrightarrow> 0 \<le> c x z"
  using total_cmp_trans [of c z y x] total_cmp_gt [of c z y] total_cmp_gt [of c y x]
    total_cmp_gt [of c z x] by linarith

lemma heap_slot_Some: "i < length xs \<Longrightarrow> heap_slot (map Some xs @ rest) i = Some (xs ! i)"
  by (simp add: heap_slot_def nth_append)

lemma map_Some_swap:
  assumes "i < length xs" "j < length xs"
  shows "(map Some xs @ rest)[i := Some x, j := Some y] = map Some (xs[i := x, j := y]) @ rest"
  using assms by (simp add: list_update_append map_update)

lemma up_heap_step:
  assumes c: "total_cmp c" and up: "up_heap c xs k" and k: "0 < k" "k < length xs"
    and lt: "c (xs ! hparent k) (xs ! k) < 0"
  shows "up_heap c (xs[k := xs ! hparent k, hparent k := xs ! k]) (hparent k)"
proof -
  let ?p = "hparent k" and ?ys = "xs[k := xs ! hparent k, hparent k := xs ! k]"
  have p: "?p < k" using k(1) by simp
  have gt: "0 \<le> c (xs ! k) (xs ! ?p)" using total_cmp_gt [OF c, of "xs ! k" "xs ! ?p"] lt by simp
  have ys: "?ys ! i = (if i = ?p then xs ! k else if i = k then xs ! ?p else xs ! i)"
    if "i < length xs" for i
    using that p k(2) by (simp add: nth_list_update)
  note U = up [unfolded up_heap_def]
  have e: "0 \<le> c (xs ! hparent i) (xs ! i)" if "i < length xs" "0 < i" "i \<noteq> k" for i
    using U that by blast
  have g: "0 \<le> c (xs ! ?p) (xs ! i)" if "i < length xs" "0 < i" "hparent i = k" for i
    using U that k(1) by blast
  have 1: "0 \<le> c (?ys ! hparent i) (?ys ! i)" if i: "i < length xs" "0 < i" "i \<noteq> ?p" for i
  proof -
    have hp: "hparent i < length xs" using i by simp
    consider "i = k" | "i \<noteq> k" "hparent i = k" | "i \<noteq> k" "hparent i = ?p"
      | "i \<noteq> k" "hparent i \<noteq> k" "hparent i \<noteq> ?p" by blast
    then show ?thesis
    proof cases
      case 1
      with gt p k(2) ys show ?thesis by simp
    next
      case 2
      with g [OF i(1,2)] p i ys [OF i(1)] ys [OF hp] show ?thesis by simp
    next
      case 3
      have "0 \<le> c (xs ! ?p) (xs ! i)" using e [OF i(1,2) 3(1)] 3(2) by simp
      then have "0 \<le> c (xs ! k) (xs ! i)" by (rule ge_trans [OF c gt])
      with 3 i ys [OF i(1)] ys [OF hp] show ?thesis by simp
    next
      case 4
      with e [OF i(1,2) 4(1)] i ys [OF i(1)] ys [OF hp] show ?thesis by simp
    qed
  qed
  have 2: "0 \<le> c (?ys ! hparent ?p) (?ys ! i)" if i: "i < length xs" "0 < i" "hparent i = ?p" "0 < ?p" for i
  proof -
    have hp: "hparent ?p < length xs" "hparent ?p \<noteq> ?p" "hparent ?p \<noteq> k" using p k(2) i(4) by simp_all
    have pp: "0 \<le> c (xs ! hparent ?p) (xs ! ?p)" using e [of ?p] p k i(4) by simp
    have ip: "i \<noteq> ?p" using i(2,3) by auto
    show ?thesis
    proof (cases "i = k")
      case True
      with pp hp i ys p show ?thesis by simp
    next
      case False
      have "0 \<le> c (xs ! ?p) (xs ! i)" using e [OF i(1,2) False] i(3) by simp
      then have "0 \<le> c (xs ! hparent ?p) (xs ! i)" by (rule ge_trans [OF c pp])
      with False ip hp(2,3) show ?thesis by (simp only: ys [OF i(1)] ys [OF hp(1)] if_False)
    qed
  qed
  show ?thesis unfolding up_heap_def length_list_update by (intro conjI allI impI 1 2)
qed

lemma heap_upheap_correct:
  assumes c: "total_cmp c"
  shows "k < length xs \<Longrightarrow> up_heap c xs k \<Longrightarrow>
    \<exists>ys. heap_upheap c (map Some xs @ rest) k = Some (map Some ys @ rest)
      \<and> mset ys = mset xs \<and> is_heap c ys"
proof (induction k arbitrary: xs rule: less_induct)
  case (less k)
  show ?case
  proof (cases "0 < k \<and> c (xs ! hparent k) (xs ! k) < 0")
    case True
    let ?ys = "xs[k := xs ! hparent k, hparent k := xs ! k]"
    have p: "hparent k < k" using True by simp
    have "heap_upheap c (map Some xs @ rest) k = heap_upheap c (map Some ?ys @ rest) (hparent k)"
      using True p less.prems(1)
      by (simp add: heap_upheap.simps [of c "map Some xs @ rest"] heap_slot_Some map_Some_swap Let_def)
    moreover have "up_heap c ?ys (hparent k)"
      using True less.prems by (intro up_heap_step c) auto
    moreover have "mset ?ys = mset xs"
      using p less.prems(1) by (intro mset_swap) auto
    ultimately show ?thesis using less.IH [OF p, of ?ys] p less.prems(1) by auto
  next
    case False
    then have "is_heap c xs" using less.prems(2) unfolding up_heap_def is_heap_def by force
    moreover have "heap_upheap c (map Some xs @ rest) k = Some (map Some xs @ rest)"
      using False less.prems(1)
      by (auto simp: heap_upheap.simps [of c "map Some xs @ rest"] heap_slot_Some Let_def)
    ultimately show ?thesis by blast
  qed
qed

section \<open>Moving down\<close>

lemma hparent_children: "0 < i \<Longrightarrow> hparent i = k \<longleftrightarrow> i = 2 * k + 1 \<or> i = 2 * k + 2"
  by presburger

lemma down_heap_stop:
  assumes "down_heap c xs k"
    and "\<And>i. i < length xs \<Longrightarrow> i = 2 * k + 1 \<or> i = 2 * k + 2 \<Longrightarrow> 0 \<le> c (xs ! k) (xs ! i)"
  shows "is_heap c xs"
  unfolding is_heap_def
proof (intro allI impI)
  fix i assume i: "i < length xs" "0 < i"
  show "0 \<le> c (xs ! hparent i) (xs ! i)"
  proof (cases "hparent i = k")
    case True
    with assms(2) [OF i(1)] hparent_children [OF i(2), of k] show ?thesis by simp
  next
    case False
    with assms(1) i show ?thesis unfolding down_heap_def by blast
  qed
qed

text \<open>\<open>s\<close> is the greater child of \<open>k\<close>.\<close>

lemma down_heap_step:
  assumes c: "total_cmp c" and down: "down_heap c xs k" and s: "s < length xs" "0 < s" "hparent s = k"
    and gt: "0 < c (xs ! s) (xs ! k)"
    and sib: "\<And>i. i < length xs \<Longrightarrow> 0 < i \<Longrightarrow> hparent i = k \<Longrightarrow> 0 \<le> c (xs ! s) (xs ! i)"
  shows "down_heap c (xs[k := xs ! s, s := xs ! k]) s"
proof -
  let ?ys = "xs[k := xs ! s, s := xs ! k]"
  have k: "k < s" using s(2,3) hparent_less [of s] by simp
  have ys: "?ys ! i = (if i = s then xs ! k else if i = k then xs ! s else xs ! i)"
    if "i < length xs" for i
    using that k s(1) by (simp add: nth_list_update)
  note D = down [unfolded down_heap_def]
  have e: "0 \<le> c (xs ! hparent i) (xs ! i)" if "i < length xs" "0 < i" "hparent i \<noteq> k" for i
    using D that by blast
  have 1: "0 \<le> c (?ys ! hparent i) (?ys ! i)" if i: "i < length xs" "0 < i" "hparent i \<noteq> s" for i
  proof -
    have hp: "hparent i < length xs" using i(1) hparent_less [OF i(2)] by simp
    consider "hparent i = k" "i = s" | "hparent i = k" "i \<noteq> s" | "hparent i \<noteq> k" "i = k"
      | "hparent i \<noteq> k" "i \<noteq> k" by blast
    then show ?thesis
    proof cases
      case 1
      with gt k ys [OF i(1)] ys [OF hp] show ?thesis by simp
    next
      case 2
      then have "i \<noteq> k" using hparent_neq [OF i(2)] by auto
      with 2 sib [OF i(1,2)] k ys [OF i(1)] ys [OF hp] show ?thesis by simp
    next
      case 3
      then have "0 \<le> c (xs ! hparent k) (xs ! s)" using D s i(2) by blast
      with 3 k i(3) ys [OF i(1)] ys [OF hp] show ?thesis by simp
    next
      case 4
      have "i \<noteq> s" using 4 s(3) by auto
      with 4 e [OF i(1,2)] i(3) ys [OF i(1)] ys [OF hp] show ?thesis by simp
    qed
  qed
  have 2: "0 \<le> c (?ys ! hparent s) (?ys ! i)" if i: "i < length xs" "0 < i" "hparent i = s" for i
  proof -
    have "i \<noteq> s" "i \<noteq> k" using hparent_less [OF i(2)] i(3) k by auto
    moreover have "0 \<le> c (xs ! s) (xs ! i)" using e [OF i(1,2)] i(3) k by simp
    ultimately show ?thesis using ys [OF i(1)] ys [of k] s(1,3) k by simp
  qed
  show ?thesis unfolding down_heap_def length_list_update by (intro conjI allI impI 1 2)
qed

lemma heap_downheap_correct:
  assumes c: "total_cmp c"
  shows "xs = [] \<or> k < length xs \<Longrightarrow> down_heap c xs k \<Longrightarrow>
    \<exists>ys. heap_downheap c (length xs) (map Some xs @ rest) k = Some (map Some ys @ rest)
      \<and> mset ys = mset xs \<and> is_heap c ys"
proof (induction "length xs - k" arbitrary: xs k rule: less_induct)
  case less
  note eq = heap_downheap.simps [of c "length xs" "map Some xs @ rest" k]
  consider "xs = []" | "xs \<noteq> []" "length xs \<le> 2 * k + 1" | "2 * k + 1 < length xs" by fastforce
  then show ?case
  proof cases
    case 1
    then show ?thesis by (simp add: heap_downheap.simps [of c 0] is_heap_def)
  next
    case 2
    with less.prems have "is_heap c xs" by (intro down_heap_stop [OF less.prems(2)]) auto
    with 2 less.prems(1) show ?thesis by (auto simp: eq Let_def)
  next
    case 3
    define s where "s = (if 2 * k + 2 < length xs \<and> \<not> c (xs ! (2 * k + 1)) (xs ! (2 * k + 2)) > 0
      then 2 * k + 2 else 2 * k + 1)"
    have s: "s < length xs" "0 < s" "hparent s = k" "k < s" using 3 by (auto simp: s_def)
    have sib: "0 \<le> c (xs ! s) (xs ! i)" if "i < length xs" "0 < i" "hparent i = k" for i
    proof -
      from that have "i = 2 * k + 1 \<or> i = 2 * k + 2" using hparent_children by blast
      then show ?thesis using that(1) total_cmp_refl [OF c, of "xs ! i"]
          total_cmp_gt [OF c, of "xs ! (2 * k + 1)" "xs ! (2 * k + 2)"]
          total_cmp_gt [OF c, of "xs ! (2 * k + 2)" "xs ! (2 * k + 1)"]
        by (auto simp: s_def)
    qed
    have step: "heap_downheap c (length xs) (map Some xs @ rest) k =
        (if c (xs ! s) (xs ! k) > 0
         then heap_downheap c (length xs) (map Some (xs[k := xs ! s, s := xs ! k]) @ rest) s
         else Some (map Some xs @ rest))"
    proof -
      have slots: "heap_slot (map Some xs @ rest) k = Some (xs ! k)"
        "heap_slot (map Some xs @ rest) (2 * k + 1) = Some (xs ! (2 * k + 1))"
        "heap_slot (map Some xs @ rest) s = Some (xs ! s)"
        using 3 s(1,4) by (simp_all add: heap_slot_Some)
      have sl2: "heap_slot (map Some xs @ rest) (2 * k + 2) = Some (xs ! (2 * k + 2))"
        if "2 * k + 2 < length xs"
        using that by (rule heap_slot_Some)
      have swap: "(map Some xs @ rest)[k := Some (xs ! s), s := Some (xs ! k)]
          = map Some (xs[k := xs ! s, s := xs ! k]) @ rest"
        using s by (intro map_Some_swap) auto
      have "k * 2 + 1 = 2 * k + 1" "k * 2 + 1 + 1 = 2 * k + 2" "length xs \<noteq> 0" "k < length xs"
        using 3 by auto
      then show ?thesis using 3 slots swap unfolding eq
        by (cases "2 * k + 2 < length xs"; cases "c (xs ! (2 * k + 1)) (xs ! (2 * k + 2)) > 0")
          (simp_all only: Let_def s_def sl2 if_True if_False option.case prod.case option.distinct
            simp_thms)
    qed
    show ?thesis
    proof (cases "c (xs ! s) (xs ! k) > 0")
      case True
      let ?ys = "xs[k := xs ! s, s := xs ! k]"
      have "down_heap c ?ys s" using True s sib by (intro down_heap_step c less.prems) auto
      moreover have "mset ?ys = mset xs" using s by (intro mset_swap) auto
      ultimately show ?thesis using less.hyps [of ?ys s] s True step by auto
    next
      case False
      then have ks: "0 \<le> c (xs ! k) (xs ! s)" using total_cmp_gt [OF c, of "xs ! s" "xs ! k"] by simp
      have "is_heap c xs"
      proof (rule down_heap_stop [OF less.prems(2)])
        fix i assume i: "i < length xs" "i = 2 * k + 1 \<or> i = 2 * k + 2"
        then have "0 \<le> c (xs ! s) (xs ! i)" using hparent_children [of i k] by (intro sib) auto
        then show "0 \<le> c (xs ! k) (xs ! i)" by (rule ge_trans [OF c ks])
      qed
      with False step show ?thesis by auto
    qed
  qed
qed

lemma is_heap_max:
  assumes c: "total_cmp c" and h: "is_heap c xs"
  shows "i < length xs \<Longrightarrow> 0 \<le> c (xs ! 0) (xs ! i)"
proof (induction i rule: less_induct)
  case (less i)
  show ?case
  proof (cases "i = 0")
    case True
    then show ?thesis using total_cmp_refl [OF c] by simp
  next
    case False
    then have p: "hparent i < i" by simp
    with less have "0 \<le> c (xs ! 0) (xs ! hparent i)" by simp
    moreover have "0 \<le> c (xs ! hparent i) (xs ! i)"
      using h False less.prems unfolding is_heap_def by blast
    ultimately show ?thesis by (rule ge_trans [OF c])
  qed
qed

section \<open>The invariant and the entry points\<close>

definition heap_list :: "('a, 'w) heap \<Rightarrow> 'a list" where
  "heap_list h = map the (take (h_nelements h) (h_heap h))"

definition heap_inv :: "('a, 'w) heap \<Rightarrow> bool" where
  "heap_inv h \<longleftrightarrow> total_cmp (heap_compare (h_ops h)) \<and> length (h_heap h) = h_size h \<and> 0 < h_size h
     \<and> h_nelements h \<le> h_size h \<and> None \<notin> set (take (h_nelements h) (h_heap h))
     \<and> (h_nelements h = 0 \<longrightarrow> h_heap h ! 0 = None)
     \<and> is_heap (heap_compare (h_ops h)) (heap_list h)"

text \<open>A well-formed heap array is the elements followed by free slots.\<close>

lemma heap_inv_split:
  assumes "heap_inv h"
  shows "h_heap h = map Some (heap_list h) @ drop (h_nelements h) (h_heap h)"
    and "length (heap_list h) = h_nelements h"
proof -
  have "map Some (heap_list h) = take (h_nelements h) (h_heap h)"
    using assms unfolding heap_inv_def heap_list_def map_map
    by (intro map_idI) (metis comp_apply option.collapse)
  then show "h_heap h = map Some (heap_list h) @ drop (h_nelements h) (h_heap h)" by simp
  show "length (heap_list h) = h_nelements h" using assms by (simp add: heap_inv_def heap_list_def)
qed

lemma heap_invI:
  assumes "total_cmp (heap_compare (h_ops h))" "h_heap h = map Some xs @ rest"
    and "h_size h = length xs + length rest" "0 < h_size h" "h_nelements h = length xs"
    and "is_heap (heap_compare (h_ops h)) xs" "xs = [] \<Longrightarrow> rest ! 0 = None"
  shows "heap_inv h" and "heap_list h = xs"
  using assms by (auto simp: heap_inv_def heap_list_def o_def)

lemma heap_create_inv:
  assumes "total_cmp (heap_compare hops)" "heap_create hops m = (Some h, m')"
  shows "heap_inv h \<and> heap_list h = []"
  using assms by (auto simp: heap_create_def Let_def heap_inv_def heap_list_def is_heap_def
      HEAP_START_SIZE_def split: prod.splits if_splits)

lemma up_heap_snoc: "is_heap c xs \<Longrightarrow> up_heap c (xs @ [x]) (length xs)"
  unfolding up_heap_def is_heap_def
proof (intro conjI allI impI)
  fix i assume h: "\<forall>i<length xs. 0 < i \<longrightarrow> 0 \<le> c (xs ! hparent i) (xs ! i)"
    and i: "i < length (xs @ [x])" "0 < i" "i \<noteq> length xs"
  then have "i < length xs" "hparent i < length xs" using hparent_less [of i] by simp_all
  with h i show "0 \<le> c ((xs @ [x]) ! hparent i) ((xs @ [x]) ! i)" by (simp add: nth_append)
next
  fix i assume "i < length (xs @ [x])" "0 < i" "hparent i = length xs" "0 < length xs"
  then have False using hparent_less [of i] by simp
  then show "0 \<le> c ((xs @ [x]) ! hparent (length xs)) ((xs @ [x]) ! i)" ..
qed

lemma heap_insert_room:
  assumes inv: "heap_inv h" and x: "h1 = h\<lparr>h_heap := h_heap h @ extra, h_size := h_size h + length extra\<rparr>"
    and room: "h_nelements h < h_size h + length extra"
  obtains hp where "heap_upheap (heap_compare (h_ops h1)) ((h_heap h1)[h_nelements h1 := Some e])
      (h_nelements h1) = Some hp"
    "heap_inv (h1\<lparr>h_heap := hp, h_nelements := h_nelements h1 + 1\<rparr>)"
    "mset (heap_list (h1\<lparr>h_heap := hp, h_nelements := h_nelements h1 + 1\<rparr>)) =
      add_mset e (mset (heap_list h))"
proof -
  let ?xs = "heap_list h" and ?c = "heap_compare (h_ops h)"
  note S = heap_inv_split [OF inv]
  have c: "total_cmp ?c" and h: "is_heap ?c ?xs" and n: "length (h_heap h) = h_size h"
    using inv by (simp_all add: heap_inv_def)
  let ?rest = "drop (h_nelements h) (h_heap h) @ extra"
  have hp1: "h_heap h1 = map Some ?xs @ ?rest" using S x by simp
  have ne: "?rest \<noteq> []" using room n by auto
  then have upd: "(h_heap h1)[h_nelements h1 := Some e] = map Some (?xs @ [e]) @ tl ?rest"
    unfolding hp1 using S(2) x by (cases ?rest) (auto simp: list_update_append)
  from heap_upheap_correct [OF c _ up_heap_snoc [OF h, of e], of "tl ?rest"] obtain ys where
    ys: "heap_upheap ?c (map Some (?xs @ [e]) @ tl ?rest) (length ?xs) = Some (map Some ys @ tl ?rest)"
    "mset ys = mset (?xs @ [e])" "is_heap ?c ys" by auto
  have len: "length ys = Suc (h_nelements h)" using mset_eq_length [OF ys(2)] S(2) by simp
  let ?h = "h1\<lparr>h_heap := map Some ys @ tl ?rest, h_nelements := h_nelements h1 + 1\<rparr>"
  have sz: "h_size ?h = length ys + length (tl ?rest)"
  proof -
    have "length (tl ?rest) = h_size h + length extra - h_nelements h - 1"
      using n inv by (simp add: heap_inv_def)
    with len x room show ?thesis by simp
  qed
  have "ys \<noteq> []" using len by auto
  with c ys len sz x have inv': "heap_inv ?h" "heap_list ?h = ys"
    by (auto intro!: heap_invI [where xs = ys and rest = "tl ?rest"])
  show thesis
    by (rule that [of "map Some ys @ tl ?rest"]) (use ys inv' upd x S(2) in \<open>simp_all\<close>)
qed

lemma heap_insert_result:
  assumes inv: "heap_inv h"
  shows "(\<exists>h' m'. heap_insert junk e (h, m, w) = Done () (h', m', w) \<and> heap_inv h'
        \<and> h_ops h' = h_ops h \<and> mset (heap_list h') = add_mset e (mset (heap_list h))
        \<and> (never_fails m \<longrightarrow> never_fails m'))
     \<or> \<not> never_fails m \<and> (\<exists>m'. heap_insert junk e (h, m, w) = Fail EGENERIC (h, m', w))"
proof (cases "h_nelements h = h_size h")
  case False
  then have "h_nelements h < h_size h + length []" using inv by (simp add: heap_inv_def)
  from heap_insert_room [OF inv refl this, of e] obtain hp where
    "heap_upheap (heap_compare (h_ops h)) ((h_heap h)[h_nelements h := Some e]) (h_nelements h) = Some hp"
    "heap_inv (h\<lparr>h_heap := hp, h_nelements := h_nelements h + 1\<rparr>)"
    "mset (heap_list (h\<lparr>h_heap := hp, h_nelements := h_nelements h + 1\<rparr>)) =
      add_mset e (mset (heap_list h))" by auto
  with False inv show ?thesis by (simp add: heap_insert_def heap_inv_def)
next
  case full: True
  obtain ok m' where m: "malloc m = (ok, m')" by fastforce
  show ?thesis
  proof (cases ok)
    case False
    then have "\<not> never_fails m" using m malloc_never_fails by blast
    with False full m show ?thesis by (simp add: heap_insert_def)
  next
    case True
    let ?h1 = "h\<lparr>h_heap := h_heap h @ map junk [0..<HEAP_START_SIZE],
      h_size := h_size h + length (map junk [0..<HEAP_START_SIZE])\<rparr>"
    have "h_nelements h < h_size h + length (map junk [0..<HEAP_START_SIZE])"
      using full by (simp add: HEAP_START_SIZE_def)
    from heap_insert_room [OF inv refl this, of e] obtain hp where
      "heap_upheap (heap_compare (h_ops ?h1)) ((h_heap ?h1)[h_nelements ?h1 := Some e])
        (h_nelements ?h1) = Some hp"
      "heap_inv (?h1\<lparr>h_heap := hp, h_nelements := h_nelements ?h1 + 1\<rparr>)"
      "mset (heap_list (?h1\<lparr>h_heap := hp, h_nelements := h_nelements ?h1 + 1\<rparr>)) =
        add_mset e (mset (heap_list h))" by auto
    moreover have "never_fails m \<Longrightarrow> never_fails m'" using m malloc_never_fails by blast
    moreover have "h_nelements h < length (h_heap h @ map junk [0..<HEAP_START_SIZE])"
      using full inv by (simp add: heap_inv_def HEAP_START_SIZE_def)
    ultimately show ?thesis using True full m by (simp add: heap_insert_def Let_def)
  qed
qed

lemma heap_pop_empty:
  assumes "heap_inv h" "h_nelements h = 0"
  shows "heap_pop (h, m, w) = Done None (h, m, w)"
  using assms by (simp add: heap_pop_def heap_top_def heap_slot_def heap_inv_def)

lemma heap_pop_result:
  assumes inv: "heap_inv h" and ne: "h_nelements h \<noteq> 0"
  shows "\<exists>h'. heap_pop (h, m, w) = Done (Some (heap_list h ! 0)) (h', m, w) \<and> heap_inv h'
    \<and> h_ops h' = h_ops h \<and> mset (heap_list h') = mset (heap_list h) - {#heap_list h ! 0#}"
proof -
  let ?xs = "heap_list h" and ?c = "heap_compare (h_ops h)" and ?n = "h_nelements h"
  note S = heap_inv_split [OF inv]
  have c: "total_cmp ?c" and h: "is_heap ?c ?xs" and n: "length (h_heap h) = h_size h" "?n \<le> h_size h"
    using inv by (simp_all add: heap_inv_def)
  define zs where "zs = butlast (?xs[0 := last ?xs])"
  let ?rest = "None # drop ?n (h_heap h)"
  have xs: "?xs \<noteq> []" "length ?xs = ?n" using S(2) ne by auto
  have slot: "heap_slot (h_heap h) i = Some (?xs ! i)" if "i < ?n" for i
    using heap_slot_Some [of i ?xs "drop ?n (h_heap h)"] that S by simp
  have len: "length zs = ?n - 1" using S(2) by (simp add: zs_def)
  have "(h_heap h)[0 := Some (last ?xs)] = map Some (?xs[0 := last ?xs]) @ drop ?n (h_heap h)"
    using xs ne by (subst S(1)) (simp add: list_update_append map_update)
  also have "?xs[0 := last ?xs] = zs @ [last ?xs]"
    using xs append_butlast_last_id [of "?xs[0 := last ?xs]"] by (simp add: zs_def last_list_update)
  finally have "(h_heap h)[0 := Some (last ?xs)] = map Some zs @ Some (last ?xs) # drop ?n (h_heap h)"
    by simp
  then have hp1: "(h_heap h)[0 := heap_slot (h_heap h) (?n - 1), ?n - 1 := None] = map Some zs @ ?rest"
    using slot [of "?n - 1"] ne xs len by (simp add: last_conv_nth list_update_append)
  have ms: "mset zs = mset ?xs - {#?xs ! 0#}"
  proof (cases "?xs" rule: rev_cases)
    case (snoc ys y)
    then show ?thesis by (cases ys) (auto simp: zs_def butlast_append)
  qed (use xs in simp)
  have "down_heap ?c zs 0"
  proof -
    have "0 \<le> ?c (zs ! hparent i) (zs ! i)" if i: "i < length zs" "0 < i" "hparent i \<noteq> 0" for i
    proof -
      have hp: "hparent i < length zs" using hparent_less [OF i(2)] i(1) by linarith
      have "zs ! j = ?xs ! j" if "j < length zs" "j \<noteq> 0" for j
        using that len by (simp add: zs_def nth_butlast)
      then have "zs ! i = ?xs ! i" "zs ! hparent i = ?xs ! hparent i" using i hp by blast+
      moreover have "0 \<le> ?c (?xs ! hparent i) (?xs ! i)"
        using h i xs(2) len unfolding is_heap_def by simp
      ultimately show ?thesis by simp
    qed
    then show ?thesis unfolding down_heap_def by blast
  qed
  from heap_downheap_correct [OF c _ this, of ?rest] obtain ys where
    ys: "heap_downheap ?c (length zs) (map Some zs @ ?rest) 0 = Some (map Some ys @ ?rest)"
    "mset ys = mset zs" "is_heap ?c ys" by auto
  have leny: "length ys = ?n - 1" using mset_eq_length [OF ys(2)] len by simp
  let ?h = "h\<lparr>h_heap := map Some ys @ ?rest, h_nelements := ?n - 1\<rparr>"
  have "heap_pop (h, m, w) = Done (Some (?xs ! 0)) (?h, m, w)"
    using ne ys(1) slot [of 0] hp1 len by (simp add: heap_pop_def heap_top_def Let_def)
  moreover have "heap_inv ?h" "heap_list ?h = ys"
    using c ys leny n ne by (auto intro!: heap_invI [where xs = ys and rest = ?rest])
  ultimately show ?thesis using ys(2) ms by auto
qed

section \<open>The priority queue contract\<close>

definition h_items :: "('a, 'w) h_state \<Rightarrow> 'a multiset" where
  "h_items st = mset (heap_list (fst st))"

definition h_good :: "('a, 'w) h_state \<Rightarrow> bool" where
  "h_good st \<longleftrightarrow> heap_inv (fst st)"

definition h_prio :: "('a, 'w) h_state \<Rightarrow> 'a \<Rightarrow> 'a \<Rightarrow> int" where
  "h_prio st = heap_compare (h_ops (fst st))"

lemmas h_abs_defs = h_items_def h_good_def h_prio_def

lemma heap_list_empty: "heap_inv h \<Longrightarrow> heap_list h = [] \<longleftrightarrow> h_nelements h = 0"
  using heap_inv_split(2) [of h] by auto

lemma heap_list_ge:
  assumes "heap_inv h" "y \<in> set (heap_list h)"
  shows "0 \<le> heap_compare (h_ops h) (heap_list h ! 0) y"
  using assms is_heap_max [of "heap_compare (h_ops h)" "heap_list h"]
  by (auto simp: in_set_conv_nth heap_inv_def)

interpretation h: prio_queue h_items h_good h_prio "heap_insert junk" heap_pop
proof (unfold_locales, goal_cases)
  case (1 s)
  then show ?case by (simp add: h_abs_defs heap_inv_def)
next
  case (2 s x)
  then show ?case using heap_insert_result [of "fst s" junk x "fst (snd s)" "snd (snd s)"]
    by (cases s) (auto simp: h_abs_defs)
next
  case (3 s)
  then show ?case using heap_pop_empty [of "fst s"] heap_list_empty [of "fst s"]
    by (cases s) (simp add: h_abs_defs)
next
  case (4 s)
  obtain h m w where s: "s = (h, m, w)" by (cases s)
  with 4 have inv: "heap_inv h" and ne: "heap_list h \<noteq> []" "h_nelements h \<noteq> 0"
    using heap_list_empty [of h] by (auto simp: h_abs_defs)
  from heap_pop_result [OF inv ne(2), of m w] obtain h' where
    "heap_pop (h, m, w) = Done (Some (heap_list h ! 0)) (h', m, w)" "heap_inv h'" "h_ops h' = h_ops h"
    "mset (heap_list h') = mset (heap_list h) - {#heap_list h ! 0#}" by blast
  with s ne heap_list_ge [OF inv] show ?case by (auto simp: h_abs_defs)
qed

section \<open>Properties\<close>

text \<open>
  C28: \<^verbatim>\<open>heap_pop\<close> on a well-formed heap never dereferences a NULL slot. It returns NULL when the
  heap is empty, and otherwise takes out exactly one element, one that no element of the heap
  is greater than, and leaves a well-formed heap.
\<close>

theorem heap_pop_greatest:
  assumes "heap_inv h"
  shows "\<exists>top h'. heap_pop (h, m, w) = Done top (h', m, w) \<and> heap_inv h'
    \<and> (case top of
         None \<Rightarrow> heap_list h = [] \<and> h' = h
       | Some x \<Rightarrow> x \<in> set (heap_list h) \<and> mset (heap_list h') = mset (heap_list h) - {#x#}
           \<and> (\<forall>y\<in>set (heap_list h). 0 \<le> heap_compare (h_ops h) x y))"
proof (cases "h_nelements h = 0")
  case True
  with assms heap_pop_empty [OF assms True] heap_list_empty show ?thesis by auto
next
  case False
  from heap_pop_result [OF assms False, of m w] obtain h' where
    "heap_pop (h, m, w) = Done (Some (heap_list h ! 0)) (h', m, w)" "heap_inv h'"
    "mset (heap_list h') = mset (heap_list h) - {#heap_list h ! 0#}" by blast
  moreover have "heap_list h ! 0 \<in> set (heap_list h)"
    using False heap_list_empty [OF assms] by (intro nth_mem) auto
  ultimately show ?thesis using heap_list_ge [OF assms] by auto
qed

definition int_heap :: "(int, int list) heap" where
  "int_heap = \<lparr>h_size = 4,
     h_ops = \<lparr>heap_compare = (\<lambda>x y. x - y), heap_destroy_element = (\<lambda>x w. w)\<rparr>,
     h_heap = [Some 9, Some 4, Some 7, None], h_nelements = 3\<rparr>"

lemma int_heap_inv: "heap_inv int_heap"
proof -
  have "is_heap (\<lambda>x y :: int. x - y) [9, 4, 7]"
    unfolding is_heap_def
  proof (intro allI impI)
    fix i :: nat assume "i < length [9, 4, 7 :: int]" "0 < i"
    then have "i = 1 \<or> i = 2" by auto
    then show "0 \<le> [9, 4, 7 :: int] ! hparent i - [9, 4, 7] ! i" by auto
  qed
  then show ?thesis by (simp add: heap_inv_def int_heap_def heap_list_def total_cmp_int)
qed

lemma int_heap_list: "heap_list int_heap = [9, 4, 7]"
  by (simp add: heap_list_def int_heap_def)

lemma int_heap_compare: "heap_compare (h_ops int_heap) = (\<lambda>x y. x - y)"
  by (simp add: int_heap_def)

theorem heap_pop_greatest_witness:
  "\<exists>h'. heap_pop (int_heap, [], []) = Done (Some 9) (h', [], []) \<and> mset (heap_list h') = {#4, 7#}"
proof -
  have "heap_pop (int_heap, [], []) = Done top s \<Longrightarrow> top = Some 9" for top s
    by (auto simp: heap_pop_def heap_top_def heap_slot_def int_heap_def Let_def split: option.splits)
  then show ?thesis using heap_pop_greatest [OF int_heap_inv, of "[]" "[]"]
    by (auto simp: int_heap_list)
qed

text \<open>
  C29: Inserting into a well-formed heap, also when the array has to grow and whatever
  \<^verbatim>\<open>realloc\<close> leaves in the new slots, adds the element and keeps the heap well-formed. When the
  allocation fails the call returns -1 and the heap is untouched.
\<close>

theorem heap_insert_adds:
  assumes "heap_inv h"
  shows "case heap_insert junk x (h, m, w) of
      Done _ (h', m', w') \<Rightarrow> heap_inv h' \<and> mset (heap_list h') = add_mset x (mset (heap_list h)) \<and> w' = w
    | Fail e (h', m', w') \<Rightarrow> e = EGENERIC \<and> \<not> never_fails m \<and> h' = h \<and> w' = w
    | Abort \<Rightarrow> False"
  using heap_insert_result [OF assms, of junk x m w] by auto

theorem heap_insert_adds_witness:
  "\<exists>h' m' w'. heap_insert (\<lambda>i. Some 99) 8 (int_heap, [], []) = Done () (h', m', w')
     \<and> mset (heap_list h') = {#4, 7, 8, 9#}"
  using heap_insert_adds [OF int_heap_inv, where junk = "\<lambda>i. Some 99" and x = 8 and m = "[]" and w = "[]"]
  by (auto simp: int_heap_list split: outcome.splits)

text \<open>
  C16: Popping a well-formed heap until it returns NULL yields its elements, each exactly once,
  in non-increasing order.
\<close>

theorem heap_drain_sorted:
  assumes "heap_inv h" "length (heap_list h) < n"
  shows "\<exists>xs. drain heap_pop n (h, m, w) = Some xs \<and> mset xs = mset (heap_list h)
    \<and> sorted_wrt (\<lambda>x y. 0 \<le> heap_compare (h_ops h) x y) xs"
  using h.drain_sorted [of "(h, m, w)" n] assms by (simp add: h_abs_defs)

theorem heap_drain_sorted_witness:
  "\<exists>xs. drain heap_pop 4 (int_heap, [], []) = Some xs \<and> mset xs = {#4, 7, 9#}
     \<and> sorted_wrt (\<lambda>x y. x \<ge> y) xs"
proof -
  have "length (heap_list int_heap) < 4" by (simp add: int_heap_list)
  from heap_drain_sorted [OF int_heap_inv this, of "[]" "[]"] show ?thesis
    by (auto simp: int_heap_list int_heap_compare)
qed

end
