(* ===== verification/HashTable.thy ===== *)
theory HashTable
  imports LinkedList "HOL-Library.Multiset" "HOL-Library.While_Combinator"
begin

text \<open>
  \<^verbatim>\<open>hash_tables/hash_table.c\<close>: a table of linked lists indexed by the hash of an element, that
  doubles when it is more than half full. A slot of the table is NULL, a pointer to a list, or
  a value that points nowhere: \<^verbatim>\<open>ht_resize\<close> does not clear the table it allocates, so what
  \<^verbatim>\<open>malloc\<close> leaves there (\<open>junk\<close>) is a parameter. The theorems
  hold for every such memory and say when a call follows a pointer it left.
\<close>

section \<open>The default hash\<close>

text \<open>
  \<^verbatim>\<open>p[i]\<close> is a \<^verbatim>\<open>char\<close>: where \<^verbatim>\<open>char\<close> is signed it is sign-extended before the exclusive or.
\<close>

definition ht_char :: "bool \<Rightarrow> 8 word \<Rightarrow> 32 word" where
  "ht_char char_signed b = (if char_signed then scast b else ucast b)"

definition ht_default_hash :: "bool \<Rightarrow> 8 word list \<Rightarrow> 32 word" where
  "ht_default_hash char_signed key =
     fold (\<lambda>b hash. xor hash (ht_char char_signed b) * 16777619) key 2166136261"

section \<open>State\<close>

datatype ('a, 'w) slot = NullSlot | WildSlot | Bucket "('a, 'w) linked_list"

record ('a, 'w) hash_table_ops =
  hto_hash_fn :: "'a \<Rightarrow> 32 word"
  hto_lops :: "('a, 'w) linked_list_ops"

record ('a, 'w) hash_table =
  ht_table :: "('a, 'w) slot list"
  ht_ops :: "('a, 'w) hash_table_ops"
  ht_size :: nat
  ht_nelements :: nat

type_synonym ('a, 'w) ht_state = "(('a, 'w) hash_table, 'w) cstate"
type_synonym ('a, 'w) ht_table_state = "(('a, 'w) slot list, 'w) cstate"

definition HT_START_SIZE :: nat where
  "HT_START_SIZE = 1024"

definition ht_create :: "('a, 'w) hash_table_ops \<Rightarrow> allocator
    \<Rightarrow> ('a, 'w) hash_table option \<times> allocator" where
  "ht_create hops m =
     (let (ok, m1) = malloc m in
      if \<not> ok then (None, m1)
      else let (ok2, m2) = malloc m1 in
        if \<not> ok2 then (None, m2)
        else let (ok3, m3) = malloc m2 in
          if \<not> ok3 then (None, m3)
          else (Some \<lparr>ht_table = replicate HT_START_SIZE NullSlot, ht_ops = hops,
                      ht_size = HT_START_SIZE, ht_nelements = 0\<rparr>, m3))"

section \<open>Operations\<close>

text \<open>\<open>preserve\<close> is the flag \<^verbatim>\<open>HTDT_PRESERVE_DATA\<close>; \<open>None\<close> is a wild pointer followed.\<close>

fun ht_destroy_table :: "bool \<Rightarrow> ('a, 'w) slot list \<Rightarrow> 'w \<Rightarrow> 'w option" where
  "ht_destroy_table preserve [] w = Some w"
| "ht_destroy_table preserve (NullSlot # slots) w = ht_destroy_table preserve slots w"
| "ht_destroy_table preserve (WildSlot # slots) w = None"
| "ht_destroy_table preserve (Bucket ll # slots) w =
     ht_destroy_table preserve slots
       (ll_destroy (if preserve then ll\<lparr>ll_ops := (ll_ops ll)\<lparr>llo_destroy_data_fn := None\<rparr>\<rparr> else ll) w)"

definition ht_destroy :: "('a, 'w) hash_table \<Rightarrow> 'w \<Rightarrow> 'w option" where
  "ht_destroy ht w = ht_destroy_table False (take (ht_size ht) (ht_table ht)) w"

definition ht_index :: "('a, 'w) hash_table_ops \<Rightarrow> nat \<Rightarrow> 'a \<Rightarrow> nat" where
  "ht_index ops tsize x = unat (hto_hash_fn ops x) mod tsize"

text \<open>The list of a slot, created on demand.\<close>

definition ht_bucket :: "('a, 'w) hash_table_ops \<Rightarrow> ('a, 'w) slot
    \<Rightarrow> (allocator, ('a, 'w) linked_list) prog" where
  "ht_bucket ops slot m =
     (case slot of
        NullSlot \<Rightarrow>
          (case ll_create (Some (hto_lops ops)) m of
             (None, m1) \<Rightarrow> Fail ENOMEM m1
           | (Some ll, m1) \<Rightarrow> Done ll m1)
      | WildSlot \<Rightarrow> Abort
      | Bucket ll \<Rightarrow> Done ll m)"

text \<open>\<^verbatim>\<open>_ht_insert\<close>: insertion in the table given as an argument.\<close>

definition ht_put :: "('a, 'w) hash_table_ops \<Rightarrow> nat \<Rightarrow> 'a \<Rightarrow> (('a, 'w) ht_table_state, unit) prog" where
  "ht_put ops tsize data st =
     (let (table, m, w) = st; index = ht_index ops tsize data in
      case ht_bucket ops (table ! index) m of
        Abort \<Rightarrow> Abort
      | Fail e m1 \<Rightarrow> Fail e (table, m1, w)
      | Done ll m1 \<Rightarrow>
          (case ll_insert data (ll, m1, w) of
             Abort \<Rightarrow> Abort
           | Fail e (ll', m2, w') \<Rightarrow> Fail e (table[index := Bucket ll'], m2, w')
           | Done _ (ll', m2, w') \<Rightarrow> Done () (table[index := Bucket ll'], m2, w')))"

definition ht_needs_resize :: "('a, 'w) hash_table \<Rightarrow> bool" where
  "ht_needs_resize ht \<longleftrightarrow> ht_nelements ht > ht_size ht div 2"

text \<open>
  Iteration: the flag \<^verbatim>\<open>stop\<close> that \<^verbatim>\<open>ht_iterate\<close> owns travels with the client's context.
\<close>

definition ht_iterate_cb :: "('a, 'c) callback \<Rightarrow> ('a, 'c \<times> bool) callback" where
  "ht_iterate_cb callback data hic =
     (let (c, stop) = hic in
      case callback data c of
        Abort \<Rightarrow> Abort
      | Fail e c' \<Rightarrow> Fail e (c', stop)
      | Done s c' \<Rightarrow> Done (stop \<or> s) (c', stop \<or> s))"

fun ht_iterate_loop :: "('a, 'c) callback \<Rightarrow> ('a, 'w) slot list \<Rightarrow> ('c \<times> bool, unit) prog" where
  "ht_iterate_loop callback [] hic = Done () hic"
| "ht_iterate_loop callback (NullSlot # slots) hic = ht_iterate_loop callback slots hic"
| "ht_iterate_loop callback (WildSlot # slots) hic = Abort"
| "ht_iterate_loop callback (Bucket ll # slots) hic =
     (case ll_iterate ll (ht_iterate_cb callback) hic of
        Abort \<Rightarrow> Abort
      | Fail e hic' \<Rightarrow> Fail e hic'
      | Done _ hic' \<Rightarrow> if snd hic' then Done () hic' else ht_iterate_loop callback slots hic')"

definition ht_iterate :: "('a, 'w) hash_table \<Rightarrow> ('a, 'c) callback \<Rightarrow> ('c, unit) prog" where
  "ht_iterate ht callback c =
     (case ht_iterate_loop callback (take (ht_size ht) (ht_table ht)) (c, False) of
        Abort \<Rightarrow> Abort
      | Fail e hic \<Rightarrow> Fail e (fst hic)
      | Done _ hic \<Rightarrow> Done () (fst hic))"

definition ht_resize_migrate_cb :: "('a, 'w) hash_table_ops \<Rightarrow> nat
    \<Rightarrow> ('a, ('a, 'w) ht_table_state) callback" where
  "ht_resize_migrate_cb ops new_size data ctx =
     (case ht_put ops new_size data ctx of
        Abort \<Rightarrow> Abort
      | Fail e ctx' \<Rightarrow> Fail e ctx'
      | Done _ ctx' \<Rightarrow> Done False ctx')"

definition ht_resize :: "(nat \<Rightarrow> ('a, 'w) slot) \<Rightarrow> (('a, 'w) ht_state, unit) prog" where
  "ht_resize junk st =
     (let (ht, m, w) = st; new_size = ht_size ht * 2; (ok, m1) = malloc m in
      if \<not> ok then Fail ENOMEM (ht, m1, w)
      else case ht_iterate ht (ht_resize_migrate_cb (ht_ops ht) new_size)
                  (map junk [0..<new_size], m1, w) of
        Abort \<Rightarrow> Abort
      | Fail e (new_table, m2, w2) \<Rightarrow>
          (case ht_destroy_table True new_table w2 of
             None \<Rightarrow> Abort
           | Some w3 \<Rightarrow> Fail e (ht, m2, w3))
      | Done _ (new_table, m2, w2) \<Rightarrow>
          (case ht_destroy_table True (take (ht_size ht) (ht_table ht)) w2 of
             None \<Rightarrow> Abort
           | Some w3 \<Rightarrow> Done () (ht\<lparr>ht_table := new_table, ht_size := new_size\<rparr>, m2, w3)))"

text \<open>The result of the resize is ignored.\<close>

definition ht_insert :: "(nat \<Rightarrow> ('a, 'w) slot) \<Rightarrow> 'a \<Rightarrow> (('a, 'w) ht_state, unit) prog" where
  "ht_insert junk data st =
     (let (ht, m, w) = st in
      case ht_put (ht_ops ht) (ht_size ht) data (ht_table ht, m, w) of
        Abort \<Rightarrow> Abort
      | Fail e (table, m1, w1) \<Rightarrow> Fail e (ht\<lparr>ht_table := table\<rparr>, m1, w1)
      | Done _ (table, m1, w1) \<Rightarrow>
          let ht1 = ht\<lparr>ht_table := table, ht_nelements := ht_nelements ht + 1\<rparr> in
          if ht_needs_resize ht1 then
            (case ht_resize junk (ht1, m1, w1) of
               Abort \<Rightarrow> Abort
             | Fail e st' \<Rightarrow> Done () st'
             | Done _ st' \<Rightarrow> Done () st')
          else Done () (ht1, m1, w1))"

definition ht_find :: "'a \<Rightarrow> (('a, 'w) ht_state, 'a) prog" where
  "ht_find to_find st =
     (let (ht, m, w) = st in
      case ht_table ht ! ht_index (ht_ops ht) (ht_size ht) to_find of
        NullSlot \<Rightarrow> Fail ENOENT st
      | WildSlot \<Rightarrow> Abort
      | Bucket ll \<Rightarrow>
          (case ll_find to_find (ll, m, w) of
             Abort \<Rightarrow> Abort
           | Fail e _ \<Rightarrow> Fail e st
           | Done y _ \<Rightarrow> Done y st))"

definition ht_remove :: "'a \<Rightarrow> (('a, 'w) ht_state, unit) prog" where
  "ht_remove to_remove st =
     (let (ht, m, w) = st; index = ht_index (ht_ops ht) (ht_size ht) to_remove in
      case ht_table ht ! index of
        NullSlot \<Rightarrow> Fail ENOENT st
      | WildSlot \<Rightarrow> Abort
      | Bucket ll \<Rightarrow>
          (case ll_remove to_remove (ll, m, w) of
             Abort \<Rightarrow> Abort
           | Fail e (ll', m', w') \<Rightarrow> Fail e (ht\<lparr>ht_table := (ht_table ht)[index := Bucket ll']\<rparr>, m', w')
           | Done _ (ll', m', w') \<Rightarrow>
               Done () (ht\<lparr>ht_table := (ht_table ht)[index := Bucket ll'],
                           ht_nelements := ht_nelements ht - 1\<rparr>, m', w')))"

definition ht_empty :: "('a, 'w) hash_table \<Rightarrow> bool" where
  "ht_empty ht \<longleftrightarrow> ht_nelements ht = 0"

text \<open>
  \<open>rnd\<close> and \<open>rnd2\<close> are the results of the two \<^verbatim>\<open>rand()\<close> calls. The probing loop has no bound:
  \<open>None\<close> is a loop that never ends.
\<close>

fun slot_skipped :: "('a, 'w) slot \<Rightarrow> bool" where
  "slot_skipped NullSlot \<longleftrightarrow> True"
| "slot_skipped WildSlot \<longleftrightarrow> False"
| "slot_skipped (Bucket ll) \<longleftrightarrow> ll_empty ll"

definition ht_get_random :: "nat \<Rightarrow> nat \<Rightarrow> ('a, 'w) ht_state \<Rightarrow> ('a, ('a, 'w) ht_state) outcome option" where
  "ht_get_random rnd rnd2 st =
     (let (ht, m, w) = st in
      if ht_empty ht then Some (Fail ENOENT st)
      else case while_option (\<lambda>ind. slot_skipped (ht_table ht ! ind)) (\<lambda>ind. (ind + 1) mod ht_size ht)
                  (rnd mod ht_size ht) of
        None \<Rightarrow> None
      | Some ind \<Rightarrow>
          (case ht_table ht ! ind of
             Bucket ll \<Rightarrow>
               (case ll_get_random rnd2 (ll, m, w) of
                  Abort \<Rightarrow> Some Abort
                | Fail e _ \<Rightarrow> Some (Fail e st)
                | Done y _ \<Rightarrow> Some (Done y st))
           | _ \<Rightarrow> Some Abort))"

text \<open>The sum of the node counts of the lists; \<open>None\<close> is a wild pointer followed.\<close>

fun ht_count :: "('a, 'w) slot list \<Rightarrow> nat option" where
  "ht_count [] = Some 0"
| "ht_count (NullSlot # slots) = ht_count slots"
| "ht_count (WildSlot # slots) = None"
| "ht_count (Bucket ll # slots) = map_option ((+) (ll_nnodes ll)) (ht_count slots)"

definition ht_check :: "('a, 'w) hash_table \<Rightarrow> bool" where
  "ht_check ht \<longleftrightarrow> ht_count (take (ht_size ht) (ht_table ht)) = Some (ht_nelements ht)"

end
