(* ===== verification/HashCorrect.thy ===== *)
theory HashCorrect
  imports HashTable
begin

text \<open>
  Correctness of the hash table: what an insertion does to a table, migration to a table of
  twice the size, the dictionary contract, iteration, random choice and checking, and the
  default hash function.
\<close>

section \<open>Tables\<close>

fun bucket :: "('a, 'w) slot \<Rightarrow> 'a list" where
  "bucket NullSlot = []"
| "bucket WildSlot = []"
| "bucket (Bucket ll) = ll_root ll"

definition tbl_list :: "('a, 'w) slot list \<Rightarrow> 'a list" where
  "tbl_list table = concat (map bucket table)"

definition ht_cmp :: "('a, 'w) hash_table_ops \<Rightarrow> 'a \<Rightarrow> 'a \<Rightarrow> int" where
  "ht_cmp ops = the (llo_compare_fn (hto_lops ops))"

text \<open>The client's side: an equivalence as comparison, and a hash that agrees with it.\<close>

definition ops_ok :: "('a, 'w) hash_table_ops \<Rightarrow> bool" where
  "ops_ok ops \<longleftrightarrow> llo_compare_fn (hto_lops ops) \<noteq> None \<and> equiv_cmp (ht_cmp ops)
     \<and> (\<forall>x y. ht_cmp ops x y = 0 \<longrightarrow> hto_hash_fn ops x = hto_hash_fn ops y)"

fun slot_ok :: "('a, 'w) hash_table_ops \<Rightarrow> nat \<Rightarrow> nat \<Rightarrow> ('a, 'w) slot \<Rightarrow> bool" where
  "slot_ok ops tsize i NullSlot \<longleftrightarrow> True"
| "slot_ok ops tsize i WildSlot \<longleftrightarrow> False"
| "slot_ok ops tsize i (Bucket ll) \<longleftrightarrow> ll_inv ll \<and> ll_ops ll = hto_lops ops
     \<and> (\<forall>x\<in>set (ll_root ll). ht_index ops tsize x = i)"

definition tbl_ok :: "('a, 'w) hash_table_ops \<Rightarrow> ('a, 'w) slot list \<Rightarrow> bool" where
  "tbl_ok ops table \<longleftrightarrow> table \<noteq> [] \<and> (\<forall>i < length table. slot_ok ops (length table) i (table ! i))"

lemma ops_okD:
  assumes "ops_ok ops"
  shows "llo_compare_fn (hto_lops ops) = Some (ht_cmp ops)" "equiv_cmp (ht_cmp ops)"
    "ht_cmp ops x y = 0 \<Longrightarrow> ht_index ops n x = ht_index ops n y"
  using assms by (auto simp: ops_ok_def ht_cmp_def ht_index_def)

lemma tbl_ok_nonempty: "tbl_ok ops table \<Longrightarrow> 0 < length table"
  by (simp add: tbl_ok_def)

lemma ht_index_less: "tbl_ok ops table \<Longrightarrow> ht_index ops (length table) x < length table"
  by (simp add: ht_index_def tbl_ok_def)

lemma tbl_ok_slot: "tbl_ok ops table \<Longrightarrow> i < length table \<Longrightarrow> slot_ok ops (length table) i (table ! i)"
  by (simp add: tbl_ok_def)

lemma slot_ok_index:
  "slot_ok ops n i s \<Longrightarrow> x \<in> set (bucket s) \<Longrightarrow> ht_index ops n x = i"
  by (cases s) auto

lemma ll_cmp_ops: "ll_ops ll = hto_lops ops \<Longrightarrow> ll_cmp ll = ht_cmp ops"
  by (simp add: ll_cmp_def ht_cmp_def)

lemma mem_tbl_list: "x \<in> set (tbl_list table) \<longleftrightarrow> (\<exists>i < length table. x \<in> set (bucket (table ! i)))"
  by (simp add: tbl_list_def) (metis in_set_conv_nth)

text \<open>An element of the table is in the bucket of its hash.\<close>

lemma in_tbl_list:
  assumes "tbl_ok ops table"
  shows "x \<in> set (tbl_list table) \<longleftrightarrow> x \<in> set (bucket (table ! ht_index ops (length table) x))"
proof
  assume "x \<in> set (tbl_list table)"
  then obtain i where "i < length table" "x \<in> set (bucket (table ! i))"
    by (auto simp: mem_tbl_list)
  with slot_ok_index [OF tbl_ok_slot [OF assms]] show "x \<in> set (bucket (table ! ht_index ops (length table) x))"
    by force
next
  assume "x \<in> set (bucket (table ! ht_index ops (length table) x))"
  then show "x \<in> set (tbl_list table)"
    using ht_index_less [OF assms, of x] by (auto simp: mem_tbl_list)
qed

text \<open>What compares equal to \<open>x\<close> is in the bucket of \<open>x\<close>.\<close>

lemma same_in_bucket:
  assumes "ops_ok ops" "tbl_ok ops table" "ht_cmp ops x y = 0"
  shows "y \<in> set (tbl_list table) \<longleftrightarrow> y \<in> set (bucket (table ! ht_index ops (length table) x))"
  using in_tbl_list [OF assms(2), of y] ops_okD(3) [OF assms(1,3), of "length table"] by simp

lemma tbl_list_split:
  assumes "i < length table"
  shows "tbl_list table = tbl_list (take i table) @ bucket (table ! i) @ tbl_list (drop (Suc i) table)"
  unfolding tbl_list_def by (subst id_take_nth_drop [OF assms]) simp

lemma tbl_list_update:
  assumes "i < length table"
  shows "tbl_list (table[i := s]) = tbl_list (take i table) @ bucket s @ tbl_list (drop (Suc i) table)"
  using assms by (simp add: tbl_list_def upd_conv_take_nth_drop)

lemma tbl_ok_update:
  assumes "tbl_ok ops table" "slot_ok ops (length table) i s"
  shows "tbl_ok ops (table[i := s])"
proof -
  have "slot_ok ops (length table) j (table[i := s] ! j)" if "j < length table" for j
    using assms that by (cases "j = i") (auto simp: tbl_ok_def)
  with assms(1) show ?thesis by (simp add: tbl_ok_def)
qed

lemma tbl_distinct:
  assumes "ops_ok ops" "tbl_ok ops table"
  shows "distinct_by (ht_cmp ops) (tbl_list table)"
proof -
  have "distinct_by (ht_cmp ops) (tbl_list (take n table))" if "n \<le> length table" for n
    using that
  proof (induction n)
    case (Suc n)
    then have n: "n < length table" by simp
    have split: "tbl_list (take (Suc n) table) = tbl_list (take n table) @ bucket (table ! n)"
      using n by (simp add: tbl_list_def take_Suc_conv_app_nth)
    note ok = tbl_ok_slot [OF assms(2) n]
    have "distinct_by (ht_cmp ops) (bucket (table ! n))"
    proof (cases "table ! n")
      case (Bucket ll)
      with ok ll_cmp_ops [of ll ops] show ?thesis by (simp add: ll_inv_def)
    qed simp_all
    moreover have "ht_cmp ops x y \<noteq> 0" if xy: "x \<in> set (tbl_list (take n table))" "y \<in> set (bucket (table ! n))" for x y
    proof
      assume z: "ht_cmp ops x y = 0"
      from xy(1) obtain i where i: "i < n" "x \<in> set (bucket (table ! i))"
        using n by (auto simp: mem_tbl_list)
      have "ht_index ops (length table) x = i"
        using i n by (intro slot_ok_index [OF tbl_ok_slot [OF assms(2)]]) auto
      moreover have "ht_index ops (length table) y = n" by (rule slot_ok_index [OF ok xy(2)])
      ultimately show False using i(1) ops_okD(3) [OF assms(1) z, of "length table"] by simp
    qed
    ultimately show ?case unfolding split sorted_wrt_append using Suc by simp
  qed (simp add: tbl_list_def)
  from this [of "length table"] show ?thesis by simp
qed

section \<open>Insertion in a table\<close>

definition absent :: "('a, 'w) hash_table_ops \<Rightarrow> 'a \<Rightarrow> ('a, 'w) slot list \<Rightarrow> bool" where
  "absent ops x table \<longleftrightarrow> (\<forall>y\<in>set (tbl_list table). ht_cmp ops x y \<noteq> 0)"

lemma absent_bucket:
  assumes "ops_ok ops" "tbl_ok ops table"
  shows "absent ops x table \<longleftrightarrow>
    (\<forall>y\<in>set (bucket (table ! ht_index ops (length table) x)). ht_cmp ops x y \<noteq> 0)"
  unfolding absent_def using same_in_bucket [OF assms] by blast

definition same_table :: "('a, 'w) hash_table_ops \<Rightarrow> ('a, 'w) slot list \<Rightarrow> ('a, 'w) slot list \<Rightarrow> bool" where
  "same_table ops table table' \<longleftrightarrow> tbl_ok ops table' \<and> length table' = length table
     \<and> mset (tbl_list table') = mset (tbl_list table)"

definition put_table :: "('a, 'w) hash_table_ops \<Rightarrow> 'a \<Rightarrow> ('a, 'w) slot list \<Rightarrow> ('a, 'w) slot list \<Rightarrow> bool" where
  "put_table ops x table table' \<longleftrightarrow> absent ops x table \<and> tbl_ok ops table' \<and> length table' = length table
     \<and> mset (tbl_list table') = add_mset x (mset (tbl_list table))"

text \<open>The list a bucket yields: the one there is, or a new empty one.\<close>

lemma ht_bucket_cases:
  assumes ops: "ops_ok ops" and ok: "slot_ok ops n i slot"
  shows "(\<exists>ll m'. ht_bucket ops slot m = Done ll m' \<and> slot_ok ops n i (Bucket ll)
        \<and> ll_root ll = bucket slot \<and> (never_fails m \<longrightarrow> never_fails m'))
    \<or> \<not> never_fails m \<and> (\<exists>m'. ht_bucket ops slot m = Fail ENOMEM m')"
proof (cases slot)
  case NullSlot
  obtain r m' where r: "ll_create (Some (hto_lops ops)) m = (r, m')" by fastforce
  show ?thesis
  proof (cases r)
    case None
    then have "\<not> never_fails m" using r ll_create_result [of m "hto_lops ops"] by auto
    with None r NullSlot show ?thesis by (simp add: ht_bucket_def)
  next
    case (Some ll)
    have "never_fails m \<Longrightarrow> never_fails m'" using r ll_create_result [of m "hto_lops ops"] by auto
    with Some r NullSlot ll_create_empty [of "hto_lops ops" m ll m' "ht_cmp ops"] ops_okD [OF ops]
    show ?thesis by (simp add: ht_bucket_def)
  qed
qed (use ok in \<open>simp_all add: ht_bucket_def\<close>)

lemma ht_put_cases:
  assumes ops: "ops_ok ops" and ok: "tbl_ok ops table"
  shows "\<exists>table' m'. (never_fails m \<longrightarrow> never_fails m') \<and>
    (ht_put ops (length table) x (table, m, w) = Done () (table', m', w) \<and> put_table ops x table table'
     \<or> (\<exists>e. ht_put ops (length table) x (table, m, w) = Fail e (table', m', w)
          \<and> same_table ops table table' \<and> (never_fails m \<longrightarrow> e = EEXIST \<and> \<not> absent ops x table)))"
proof -
  let ?i = "ht_index ops (length table) x"
  have i: "?i < length table" by (rule ht_index_less [OF ok])
  from ht_bucket_cases [OF ops tbl_ok_slot [OF ok i], of m] show ?thesis
  proof (elim disjE exE conjE)
    fix m' assume "\<not> never_fails m" "ht_bucket ops (table ! ?i) m = Fail ENOMEM m'"
    with ok show ?thesis by (auto simp: ht_put_def same_table_def)
  next
    fix ll m1
    assume b: "ht_bucket ops (table ! ?i) m = Done ll m1" and s: "slot_ok ops (length table) ?i (Bucket ll)"
      and r: "ll_root ll = bucket (table ! ?i)" and nf: "never_fails m \<longrightarrow> never_fails m1"
    from s have inv: "ll_inv ll" and ops': "ll_ops ll = hto_lops ops"
      and idx: "\<forall>y\<in>set (ll_root ll). ht_index ops (length table) y = ?i" by auto
    note cmp = ll_cmp_ops [OF ops']
    have ab: "absent ops x table \<longleftrightarrow> (\<forall>y\<in>set (ll_root ll). ll_cmp ll x y \<noteq> 0)"
      unfolding cmp r by (rule absent_bucket [OF ops ok])
    have same: "same_table ops table (table[?i := Bucket ll])"
      using tbl_ok_update [OF ok s] tbl_list_split [OF i] tbl_list_update [OF i, of "Bucket ll"] r
      by (simp add: same_table_def)
    obtain okm m2 where m2: "malloc m1 = (okm, m2)" by fastforce
    have nf2: "never_fails m \<longrightarrow> okm \<and> never_fails m2" using nf m2 malloc_never_fails by blast
    show ?thesis
    proof (cases "okm \<and> absent ops x table")
      case True
      let ?ll = "ll\<lparr>ll_root := ll_root ll @ [x], ll_nnodes := Suc (ll_nnodes ll)\<rparr>"
      have all: "\<forall>y\<in>set (ll_root ll). ll_cmp ll x y \<noteq> 0" using True ab by blast
      have "slot_ok ops (length table) ?i (Bucket ?ll)"
        using ll_inv_snoc [OF inv all] ops' idx by auto
      with True have "put_table ops x table (table[?i := Bucket ?ll])"
        using tbl_ok_update [OF ok] tbl_list_split [OF i] tbl_list_update [OF i, of "Bucket ?ll"] r
        by (simp add: put_table_def)
      moreover have "ht_put ops (length table) x (table, m, w) = Done () (table[?i := Bucket ?ll], m2, w)"
        using True b m2 ll_insert_new [OF inv _ all, of m1 m2 w] by (simp add: ht_put_def)
      ultimately show ?thesis using nf2 by blast
    next
      case False
      have "\<exists>e. ll_insert x (ll, m1, w) = Fail e (ll, m2, w) \<and> (okm \<longrightarrow> e = EEXIST)"
      proof (cases okm)
        case True
        with False ab obtain y where "y \<in> set (ll_root ll)" "ll_cmp ll x y = 0" by blast
        with ll_insert_dup [OF inv, of m1 m2 y x w] True m2 show ?thesis by simp
      next
        case False
        with ll_insert_oom [of m1 m2 x ll w] m2 show ?thesis by simp
      qed
      then obtain e where "ll_insert x (ll, m1, w) = Fail e (ll, m2, w)" "okm \<longrightarrow> e = EEXIST" by blast
      then have "ht_put ops (length table) x (table, m, w) = Fail e (table[?i := Bucket ll], m2, w)"
        using b by (simp add: ht_put_def)
      with same nf2 False \<open>okm \<longrightarrow> e = EEXIST\<close> show ?thesis by blast
    qed
  qed
qed

section \<open>Iteration and migration\<close>

lemma ht_iterate_cb_eq:
  "iterate_list (ht_iterate_cb cb) xs (c, False) =
     (case iterate_list cb xs c of
        Done stop c' \<Rightarrow> Done stop (c', stop)
      | Fail e c' \<Rightarrow> Fail e (c', False)
      | Abort \<Rightarrow> Abort)"
  by (induction xs arbitrary: c) (auto simp: ht_iterate_cb_def split: outcome.splits)

lemma ht_iterate_loop_eq:
  assumes "WildSlot \<notin> set slots"
  shows "ht_iterate_loop cb slots (c, False) =
     (case iterate_list cb (tbl_list slots) c of
        Done stop c' \<Rightarrow> Done () (c', stop)
      | Fail e c' \<Rightarrow> Fail e (c', False)
      | Abort \<Rightarrow> Abort)"
  using assms
proof (induction slots arbitrary: c)
  case (Cons s slots)
  then show ?case
    by (cases s) (auto simp: tbl_list_def ll_iterate_def ht_iterate_cb_eq iterate_list_append
        split: outcome.splits)
qed (simp add: tbl_list_def)

lemma tbl_ok_no_wild: "tbl_ok ops table \<Longrightarrow> WildSlot \<notin> set table"
  unfolding tbl_ok_def in_set_conv_nth by (metis slot_ok.simps(2))

lemma ht_destroy_table_preserve:
  assumes "WildSlot \<notin> set table"
  shows "ht_destroy_table True table w = Some w"
proof -
  have "ll_destroy (ll\<lparr>ll_ops := (ll_ops ll)\<lparr>llo_destroy_data_fn := None\<rparr>\<rparr>) v = v"
    for ll :: "('a, 'b) linked_list" and v
  proof -
    have "ll_destroy_node (ll\<lparr>ll_ops := (ll_ops ll)\<lparr>llo_destroy_data_fn := None\<rparr>\<rparr>) = (\<lambda>d u. u)"
      by (simp add: ll_destroy_node_def fun_eq_iff)
    moreover have "fold (\<lambda>d u. u) xs v = v" for xs :: "'a list" by (induction xs) auto
    ultimately show ?thesis by (simp add: ll_destroy_def)
  qed
  with assms show ?thesis
  proof (induction table)
    case (Cons s table)
    then show ?case by (cases s) auto
  qed simp
qed

lemma migrate_list:
  assumes ops: "ops_ok ops"
  shows "tbl_ok ops table \<Longrightarrow> length table = n \<Longrightarrow> distinct_by (ht_cmp ops) xs \<Longrightarrow>
    (\<forall>x\<in>set xs. absent ops x table) \<Longrightarrow>
    \<exists>table' m'. (never_fails m \<longrightarrow> never_fails m') \<and> tbl_ok ops table' \<and>
     (iterate_list (ht_resize_migrate_cb ops n) xs (table, m, w) = Done False (table', m', w)
        \<and> length table' = n \<and> mset (tbl_list table') = mset xs + mset (tbl_list table)
      \<or> (\<exists>e. iterate_list (ht_resize_migrate_cb ops n) xs (table, m, w) = Fail e (table', m', w)
           \<and> \<not> never_fails m))"
proof (induction xs arbitrary: table m)
  case Nil
  then show ?case by auto
next
  case (Cons x xs)
  from ht_put_cases [OF ops Cons.prems(1), of m x w] Cons.prems(2) obtain t1 m1 where
    nf: "never_fails m \<longrightarrow> never_fails m1" and
    r: "ht_put ops n x (table, m, w) = Done () (t1, m1, w) \<and> put_table ops x table t1
     \<or> (\<exists>e. ht_put ops n x (table, m, w) = Fail e (t1, m1, w)
          \<and> same_table ops table t1 \<and> (never_fails m \<longrightarrow> e = EEXIST \<and> \<not> absent ops x table))"
    by auto
  have abs: "absent ops x table" using Cons.prems(4) by simp
  from r show ?case
  proof (elim disjE exE conjE)
    fix e assume "ht_put ops n x (table, m, w) = Fail e (t1, m1, w)" "same_table ops table t1"
      "never_fails m \<longrightarrow> e = EEXIST \<and> \<not> absent ops x table"
    with abs nf show ?thesis
      by (intro exI [of _ t1] exI [of _ m1])
        (auto simp: ht_resize_migrate_cb_def same_table_def)
  next
    assume put: "ht_put ops n x (table, m, w) = Done () (t1, m1, w)" and t1: "put_table ops x table t1"
    have set1: "set (tbl_list t1) = insert x (set (tbl_list table))"
      using t1 unfolding put_table_def by (metis set_mset_add_mset_insert set_mset_mset)
    have "\<forall>y\<in>set xs. absent ops y t1"
    proof
      fix y assume y: "y \<in> set xs"
      then have "ht_cmp ops x y \<noteq> 0" using Cons.prems(3) by simp
      then have "ht_cmp ops y x \<noteq> 0" using equiv_cmp_sym [OF ops_okD(2) [OF ops]] by blast
      with y Cons.prems(4) set1 show "absent ops y t1" by (auto simp: absent_def)
    qed
    from Cons.IH [OF _ _ _ this, of m1] t1 Cons.prems(2,3) obtain t2 m2 where
      IH: "never_fails m1 \<longrightarrow> never_fails m2" "tbl_ok ops t2"
      "iterate_list (ht_resize_migrate_cb ops n) xs (t1, m1, w) = Done False (t2, m2, w)
         \<and> length t2 = n \<and> mset (tbl_list t2) = mset xs + mset (tbl_list t1)
       \<or> (\<exists>e. iterate_list (ht_resize_migrate_cb ops n) xs (t1, m1, w) = Fail e (t2, m2, w)
           \<and> \<not> never_fails m1)"
      by (auto simp: put_table_def)
    have step: "iterate_list (ht_resize_migrate_cb ops n) (x # xs) (table, m, w) =
        iterate_list (ht_resize_migrate_cb ops n) xs (t1, m1, w)"
      using put by (simp add: ht_resize_migrate_cb_def)
    have "mset (tbl_list t1) = add_mset x (mset (tbl_list table))" using t1 by (simp add: put_table_def)
    with IH nf show ?thesis unfolding step
      by (intro exI [of _ t2] exI [of _ m2]) auto
  qed
qed

section \<open>The invariant\<close>

definition ht_list :: "('a, 'w) hash_table \<Rightarrow> 'a list" where
  "ht_list ht = tbl_list (ht_table ht)"

definition ht_inv :: "('a, 'w) hash_table \<Rightarrow> bool" where
  "ht_inv ht \<longleftrightarrow> ops_ok (ht_ops ht) \<and> tbl_ok (ht_ops ht) (ht_table ht)
     \<and> length (ht_table ht) = ht_size ht \<and> ht_nelements ht = length (ht_list ht)"

lemma ht_list_update [simp]:
  "ht_list (ht\<lparr>ht_table := t\<rparr>) = tbl_list t" "ht_list (ht\<lparr>ht_size := n\<rparr>) = ht_list ht"
  "ht_list (ht\<lparr>ht_nelements := n\<rparr>) = ht_list ht"
  by (simp_all add: ht_list_def)

lemma ht_invD:
  assumes "ht_inv ht"
  shows "ops_ok (ht_ops ht)" "tbl_ok (ht_ops ht) (ht_table ht)"
    "ht_size ht = length (ht_table ht)" "ht_nelements ht = length (ht_list ht)"
    "0 < ht_size ht"
  using assms tbl_ok_nonempty [of "ht_ops ht" "ht_table ht"] by (simp_all add: ht_inv_def)

text \<open>A table that the allocator returned cleared.\<close>

abbreviation cleared :: "nat \<Rightarrow> ('a, 'w) slot" where
  "cleared \<equiv> \<lambda>i. NullSlot"

lemma tbl_list_cleared [simp]: "tbl_list (map (\<lambda>i. NullSlot) xs) = []"
  by (induction xs) (auto simp: tbl_list_def)

lemma tbl_ok_cleared: "0 < n \<Longrightarrow> tbl_ok ops (map cleared [0..<n])"
  by (simp add: tbl_ok_def)

lemma ht_resize_result:
  assumes inv: "ht_inv ht"
  shows "\<exists>ht' m'. (never_fails m \<longrightarrow> never_fails m') \<and> ht_inv ht' \<and> ht_ops ht' = ht_ops ht
    \<and> mset (ht_list ht') = mset (ht_list ht)
    \<and> (ht_resize cleared (ht, m, w) = Done () (ht', m', w) \<and> ht_size ht' = 2 * ht_size ht
       \<or> (\<exists>e. ht_resize cleared (ht, m, w) = Fail e (ht', m', w) \<and> ht' = ht \<and> \<not> never_fails m))"
proof -
  note D = ht_invD [OF inv]
  let ?ops = "ht_ops ht" and ?n = "ht_size ht * 2"
  let ?new = "map cleared [0..<?n] :: ('a, 'b) slot list"
  obtain ok m1 where m: "malloc m = (ok, m1)" by fastforce
  have nf: "never_fails m \<longrightarrow> ok \<and> never_fails m1" using m malloc_never_fails by blast
  show ?thesis
  proof (cases ok)
    case False
    with m inv nf show ?thesis by (auto simp: ht_resize_def)
  next
    case True
    have new: "tbl_ok ?ops ?new" "length ?new = ?n" using D(5) by (simp_all add: tbl_ok_cleared)
    from migrate_list [OF D(1) new tbl_distinct [OF D(1,2)], of m1 w] obtain t m2 where
      r: "never_fails m1 \<longrightarrow> never_fails m2" "tbl_ok ?ops t"
      "iterate_list (ht_resize_migrate_cb ?ops ?n) (ht_list ht) (?new, m1, w) = Done False (t, m2, w)
         \<and> length t = ?n \<and> mset (tbl_list t) = mset (ht_list ht)
       \<or> (\<exists>e. iterate_list (ht_resize_migrate_cb ?ops ?n) (ht_list ht) (?new, m1, w) = Fail e (t, m2, w)
           \<and> \<not> never_fails m1)"
      by (auto simp: absent_def ht_list_def)
    have it: "ht_iterate ht (ht_resize_migrate_cb ?ops ?n) (?new, m1, w) =
        (case iterate_list (ht_resize_migrate_cb ?ops ?n) (ht_list ht) (?new, m1, w) of
           Done stop c' \<Rightarrow> Done () c' | Fail e c' \<Rightarrow> Fail e c' | Abort \<Rightarrow> Abort)"
      using D(3) tbl_ok_no_wild [OF D(2)]
      by (simp add: ht_iterate_def ht_iterate_loop_eq ht_list_def split: outcome.splits)
    from r(3) show ?thesis
    proof (elim disjE exE conjE)
      fix e assume "iterate_list (ht_resize_migrate_cb ?ops ?n) (ht_list ht) (?new, m1, w) = Fail e (t, m2, w)"
        "\<not> never_fails m1"
      with True m inv nf r it ht_destroy_table_preserve [OF tbl_ok_no_wild [OF r(2)]] show ?thesis
        by (intro exI [of _ ht] exI [of _ m2]) (simp add: ht_resize_def)
    next
      assume d: "iterate_list (ht_resize_migrate_cb ?ops ?n) (ht_list ht) (?new, m1, w) = Done False (t, m2, w)"
        and len: "length t = ?n" and ms: "mset (tbl_list t) = mset (ht_list ht)"
      let ?ht = "ht\<lparr>ht_table := t, ht_size := ?n\<rparr>"
      have "ht_inv ?ht"
        using inv r(2) len mset_eq_length [OF ms] by (simp add: ht_inv_def)
      with True m nf r d it ms D(3) ht_destroy_table_preserve [OF tbl_ok_no_wild [OF D(2)]] show ?thesis
        by (intro exI [of _ ?ht] exI [of _ m2]) (simp add: ht_resize_def)
    qed
  qed
qed

section \<open>The entry points\<close>

lemma ht_insert_result:
  assumes inv: "ht_inv ht"
  shows "\<exists>ht' m'. (never_fails m \<longrightarrow> never_fails m') \<and> ht_inv ht' \<and> ht_ops ht' = ht_ops ht
    \<and> (ht_insert cleared x (ht, m, w) = Done () (ht', m', w) \<and> absent (ht_ops ht) x (ht_table ht)
         \<and> mset (ht_list ht') = add_mset x (mset (ht_list ht))
       \<or> (\<exists>e. ht_insert cleared x (ht, m, w) = Fail e (ht', m', w) \<and> mset (ht_list ht') = mset (ht_list ht)
           \<and> (never_fails m \<longrightarrow> e = EEXIST \<and> \<not> absent (ht_ops ht) x (ht_table ht))))"
proof -
  note D = ht_invD [OF inv]
  let ?ops = "ht_ops ht"
  from ht_put_cases [OF D(1,2), of m x w] obtain t m1 where nf: "never_fails m \<longrightarrow> never_fails m1" and
    "ht_put ?ops (ht_size ht) x (ht_table ht, m, w) = Done () (t, m1, w) \<and> put_table ?ops x (ht_table ht) t
     \<or> (\<exists>e. ht_put ?ops (ht_size ht) x (ht_table ht, m, w) = Fail e (t, m1, w)
          \<and> same_table ?ops (ht_table ht) t \<and> (never_fails m \<longrightarrow> e = EEXIST \<and> \<not> absent ?ops x (ht_table ht)))"
    unfolding D(3) by blast
  then show ?thesis
  proof (elim disjE exE conjE)
    fix e assume r: "ht_put ?ops (ht_size ht) x (ht_table ht, m, w) = Fail e (t, m1, w)"
      "same_table ?ops (ht_table ht) t" "never_fails m \<longrightarrow> e = EEXIST \<and> \<not> absent ?ops x (ht_table ht)"
    then have ms: "mset (tbl_list t) = mset (ht_list ht)" by (simp add: same_table_def ht_list_def)
    have "ht_inv (ht\<lparr>ht_table := t\<rparr>)"
      using r(2) inv mset_eq_length [OF ms] by (simp add: ht_inv_def same_table_def)
    with r nf ms show ?thesis
      by (intro exI [of _ "ht\<lparr>ht_table := t\<rparr>"] exI [of _ m1]) (simp add: ht_insert_def)
  next
    assume r: "ht_put ?ops (ht_size ht) x (ht_table ht, m, w) = Done () (t, m1, w)"
      and t: "put_table ?ops x (ht_table ht) t"
    let ?h = "ht\<lparr>ht_table := t, ht_nelements := ht_nelements ht + 1\<rparr>"
    have ms: "mset (ht_list ?h) = add_mset x (mset (ht_list ht))"
      using t by (simp add: put_table_def ht_list_def [of ht])
    have "length (tbl_list t) = Suc (length (ht_list ht))" using mset_eq_length [of _ "x # ht_list ht"] ms by simp
    then have inv1: "ht_inv ?h" using t inv by (simp add: ht_inv_def put_table_def)
    show ?thesis
    proof (cases "ht_needs_resize ?h")
      case False
      with r t nf ms inv1 show ?thesis
        by (intro exI [of _ ?h] exI [of _ m1]) (simp add: ht_insert_def put_table_def)
    next
      case True
      from ht_resize_result [OF inv1, of m1 w] obtain h m2 where
        "never_fails m1 \<longrightarrow> never_fails m2" "ht_inv h" "ht_ops h = ?ops" "mset (ht_list h) = mset (ht_list ?h)"
        "ht_resize cleared (?h, m1, w) = Done () (h, m2, w)
         \<or> (\<exists>e. ht_resize cleared (?h, m1, w) = Fail e (h, m2, w))" by auto
      with r t nf ms True show ?thesis
        by (intro exI [of _ h] exI [of _ m2]) (auto simp: ht_insert_def put_table_def)
    qed
  qed
qed

lemma ht_find_hit:
  assumes inv: "ht_inv ht" and y: "y \<in> set (ht_list ht)" "ht_cmp (ht_ops ht) x y = 0"
  shows "ht_find x (ht, m, w) = Done y (ht, m, w)"
proof -
  note D = ht_invD [OF inv]
  let ?i = "ht_index (ht_ops ht) (ht_size ht) x"
  have mem: "y \<in> set (bucket (ht_table ht ! ?i))"
    using same_in_bucket [OF D(1,2) y(2)] y(1) D(3) by (simp add: ht_list_def)
  then obtain ll where ll: "ht_table ht ! ?i = Bucket ll" by (cases "ht_table ht ! ?i") auto
  have "slot_ok (ht_ops ht) (ht_size ht) ?i (Bucket ll)"
    using tbl_ok_slot [OF D(2), of ?i] ht_index_less [OF D(2), of x] ll D(3) by simp
  then have inv': "ll_inv ll" and "ll_cmp ll x y = 0" using ll_cmp_ops [of ll] y(2) by auto
  with ll mem show ?thesis by (simp add: ht_find_def ll_find_eq ll_find_hit)
qed

lemma ht_miss_bucket:
  assumes inv: "ht_inv ht" and "absent (ht_ops ht) x (ht_table ht)"
    and ll: "ht_table ht ! ht_index (ht_ops ht) (ht_size ht) x = Bucket ll"
  shows "ll_inv ll" and "List.find (\<lambda>n. ll_cmp ll x n = 0) (ll_root ll) = None"
proof -
  note D = ht_invD [OF inv]
  have s: "slot_ok (ht_ops ht) (ht_size ht) (ht_index (ht_ops ht) (ht_size ht) x) (Bucket ll)"
    using tbl_ok_slot [OF D(2)] ht_index_less [OF D(2), of x] ll D(3) by force
  then show "ll_inv ll" by simp
  have "ll_cmp ll = ht_cmp (ht_ops ht)" using s ll_cmp_ops by auto
  with assms(2) ll D(3) absent_bucket [OF D(1,2), of x]
  show "List.find (\<lambda>n. ll_cmp ll x n = 0) (ll_root ll) = None" by (simp add: find_None_iff)
qed

lemma ht_find_miss:
  assumes inv: "ht_inv ht" and ab: "absent (ht_ops ht) x (ht_table ht)"
  shows "ht_find x (ht, m, w) = Fail ENOENT (ht, m, w)"
proof (cases "ht_table ht ! ht_index (ht_ops ht) (ht_size ht) x")
  case (Bucket ll)
  with ht_miss_bucket [OF inv ab Bucket] show ?thesis by (simp add: ht_find_def ll_find_eq)
next
  case WildSlot
  with ht_invD(2,3) [OF inv] show ?thesis
    using tbl_ok_slot [OF ht_invD(2) [OF inv] ht_index_less [OF ht_invD(2) [OF inv], of x]] by simp
qed (simp add: ht_find_def)

lemma ht_remove_miss:
  assumes inv: "ht_inv ht" and ab: "absent (ht_ops ht) x (ht_table ht)"
  shows "ht_remove x (ht, m, w) = Fail ENOENT (ht, m, w)"
proof (cases "ht_table ht ! ht_index (ht_ops ht) (ht_size ht) x")
  case (Bucket ll)
  have "(ht_table ht)[ht_index (ht_ops ht) (ht_size ht) x := Bucket ll] = ht_table ht"
    unfolding Bucket [symmetric] by (rule list_update_id)
  with Bucket ht_miss_bucket [OF inv ab Bucket] show ?thesis by (simp add: ht_remove_def ll_remove_eq)
next
  case WildSlot
  with ht_invD(2,3) [OF inv] show ?thesis
    using tbl_ok_slot [OF ht_invD(2) [OF inv] ht_index_less [OF ht_invD(2) [OF inv], of x]] by simp
qed (simp add: ht_remove_def)

lemma ht_destroy_node_ops:
  "ll_ops ll = ll_ops ll' \<Longrightarrow> ll_destroy_node ll = ll_destroy_node ll'"
  by (rule ll_destroy_ops)

lemma mset_del_by:
  assumes "equiv_cmp c" "distinct_by c xs" "y \<in> set xs" "c x y = 0"
  shows "mset (del_by c x xs) = mset xs - {#y#}"
  using assms(2,3)
proof (induction xs)
  case (Cons a xs)
  show ?case
  proof (cases "c x a = 0")
    case True
    then have "c a y = 0" using equiv_cmp_cong [OF assms(1) True, of y] assms(4) by simp
    then have "a = y" using distinct_by_inj [OF assms(1) Cons.prems(1)] Cons.prems(2) by simp
    with True show ?thesis by simp
  next
    case False
    then have "a \<noteq> y" using assms(4) by auto
    with False Cons show ?thesis by simp
  qed
qed simp

lemma ht_remove_hit:
  assumes inv: "ht_inv ht" and y: "y \<in> set (ht_list ht)" "ht_cmp (ht_ops ht) x y = 0"
  shows "\<exists>ht'. ht_remove x (ht, m, w) =
        Done () (ht', m, (case llo_destroy_data_fn (hto_lops (ht_ops ht)) of None \<Rightarrow> w | Some f \<Rightarrow> f y w))
    \<and> ht_inv ht' \<and> ht_ops ht' = ht_ops ht \<and> mset (ht_list ht') = mset (ht_list ht) - {#y#}"
proof -
  note D = ht_invD [OF inv]
  let ?i = "ht_index (ht_ops ht) (ht_size ht) x"
  have i: "?i < length (ht_table ht)" using ht_index_less [OF D(2), of x] D(3) by simp
  have mem: "y \<in> set (bucket (ht_table ht ! ?i))"
    using same_in_bucket [OF D(1,2) y(2)] y(1) D(3) by (simp add: ht_list_def)
  then obtain ll where ll: "ht_table ht ! ?i = Bucket ll" by (cases "ht_table ht ! ?i") auto
  have s: "slot_ok (ht_ops ht) (length (ht_table ht)) ?i (Bucket ll)"
    using tbl_ok_slot [OF D(2) i] ll by simp
  then have inv': "ll_inv ll" and ops: "ll_ops ll = hto_lops (ht_ops ht)" by auto
  note cmp = ll_cmp_ops [OF ops]
  have memll: "y \<in> set (ll_root ll)" "ll_cmp ll x y = 0" using mem ll y(2) cmp by simp_all
  let ?ll = "ll\<lparr>ll_root := del_by (ll_cmp ll) x (ll_root ll), ll_nnodes := ll_nnodes ll - 1\<rparr>"
  let ?t = "(ht_table ht)[?i := Bucket ?ll]"
  let ?ht = "ht\<lparr>ht_table := ?t, ht_nelements := ht_nelements ht - 1\<rparr>"
  have del: "mset (del_by (ll_cmp ll) x (ll_root ll)) = mset (ll_root ll) - {#y#}"
    using mset_del_by [of "ll_cmp ll" "ll_root ll" y x] inv' memll by (simp add: ll_inv_def)
  have "slot_ok (ht_ops ht) (length (ht_table ht)) ?i (Bucket ?ll)"
    using s ll_inv_del [OF inv' memll] set_del_by_subset [of "ll_cmp ll" x "ll_root ll"] by auto
  then have ok: "tbl_ok (ht_ops ht) ?t" by (rule tbl_ok_update [OF D(2)])
  have ms: "mset (tbl_list ?t) = mset (ht_list ht) - {#y#}"
    using del memll ll unfolding ht_list_def tbl_list_update [OF i] tbl_list_split [OF i] by simp
  have "length (tbl_list ?t) = ht_nelements ht - 1"
    using arg_cong [OF ms, of size] y(1) D(4) by (simp add: size_Diff_singleton)
  then have "ht_inv ?ht" using inv ok by (simp add: ht_inv_def)
  moreover have "ht_remove x (ht, m, w) = Done () (?ht, m, ll_destroy_node ll y w)"
    using ll inv' memll by (simp add: ht_remove_def ll_remove_eq ll_find_hit)
  ultimately show ?thesis using ms ops by (intro exI [of _ ?ht]) (simp add: ll_destroy_node_def)
qed

section \<open>The dictionary contract\<close>

definition ht_contents :: "('a, 'w) ht_state \<Rightarrow> 'a set" where
  "ht_contents st = set (ht_list (fst st))"

definition ht_good :: "('a, 'w) ht_state \<Rightarrow> bool" where
  "ht_good st \<longleftrightarrow> ht_inv (fst st)"

definition ht_same :: "('a, 'w) ht_state \<Rightarrow> 'a \<Rightarrow> 'a \<Rightarrow> bool" where
  "ht_same st x y \<longleftrightarrow> ht_cmp (ht_ops (fst st)) x y = 0"

lemmas ht_abs_defs = ht_contents_def ht_good_def ht_same_def

lemma ht_keeps:
  assumes "ht_inv ht'" "ht_ops ht' = ht_ops ht" "never_fails m \<Longrightarrow> never_fails m'"
  shows "keeps ht_good ht_same reliable_mem (ht, m, w) (ht', m', w')"
  using assms by (auto simp: keeps_def ht_abs_defs fun_eq_iff)

lemma ht_unique:
  assumes inv: "ht_inv ht" and mem: "y \<in> set (ht_list ht)" "z \<in> set (ht_list ht)"
    and eq: "ht_cmp (ht_ops ht) x y = 0" "ht_cmp (ht_ops ht) x z = 0"
  shows "y = z"
proof -
  note D = ht_invD [OF inv]
  note e = ops_okD(2) [OF D(1)]
  from eq have "ht_cmp (ht_ops ht) y z = 0" using equiv_cmp_cong [OF e] by blast
  with distinct_by_inj [OF e tbl_distinct [OF D(1,2)]] mem show ?thesis by (simp add: ht_list_def)
qed

lemma ht_list_distinct: "ht_inv ht \<Longrightarrow> distinct (ht_list ht)"
  using distinct_by_distinct [OF ops_okD(2) [OF ht_invD(1)] tbl_distinct [OF ht_invD(1,2)]]
  by (simp add: ht_list_def)

lemma set_add_mset: "mset ys = add_mset x (mset xs) \<Longrightarrow> set ys = insert x (set xs)"
  using mset_eq_setD [of ys "x # xs"] by simp

lemma absent_ht_list: "absent (ht_ops ht) x (ht_table ht) \<longleftrightarrow> (\<forall>y\<in>set (ht_list ht). ht_cmp (ht_ops ht) x y \<noteq> 0)"
  by (simp add: absent_def ht_list_def)

interpretation ht: dict ht_contents ht_good ht_same reliable_mem "ht_insert cleared" ht_find ht_remove
proof (unfold_locales, goal_cases)
  case (1 s y z x)
  then show ?case using ht_unique [of "fst s" y z x] by (simp add: ht_abs_defs)
next
  case (2 s x)
  then show ?case using equiv_cmp_refl [OF ops_okD(2) [OF ht_invD(1), of "fst s"], of x]
    by (simp add: ht_abs_defs)
next
  case (3 s y x)
  then show ?case by (cases s) (simp add: ht_abs_defs ht_find_hit)
next
  case (4 s x)
  then show ?case by (cases s) (simp add: ht_abs_defs ht_find_miss absent_ht_list)
next
  case (5 s x)
  obtain ht m w where s: "s = (ht, m, w)" by (cases s)
  with 5 have inv: "ht_inv ht" "never_fails m" "absent (ht_ops ht) x (ht_table ht)"
    by (auto simp: ht_abs_defs absent_ht_list)
  from ht_insert_result [OF inv(1), of m x w] inv(2,3) obtain ht' m' where
    "never_fails m'" "ht_inv ht'" "ht_ops ht' = ht_ops ht" "ht_insert cleared x (ht, m, w) = Done () (ht', m', w)"
    and ms: "mset (ht_list ht') = mset (x # ht_list ht)" by auto
  with s show ?case using mset_eq_setD [OF ms] by (auto simp: ht_contents_def intro!: ht_keeps)
next
  case (6 s y x)
  obtain ht m w where s: "s = (ht, m, w)" by (cases s)
  with 6 have inv: "ht_inv ht" "never_fails m" "\<not> absent (ht_ops ht) x (ht_table ht)"
    by (auto simp: ht_abs_defs absent_ht_list)
  from ht_insert_result [OF inv(1), of m x w] inv(2,3) obtain ht' m' where
    "never_fails m'" "ht_inv ht'" "ht_ops ht' = ht_ops ht" "ht_insert cleared x (ht, m, w) = Fail EEXIST (ht', m', w)"
    and ms: "mset (ht_list ht') = mset (ht_list ht)" by auto
  with s show ?case using mset_eq_setD [OF ms] by (auto simp: ht_contents_def intro!: ht_keeps)
next
  case (7 s x)
  obtain ht m w where s: "s = (ht, m, w)" by (cases s)
  with 7 have inv: "ht_inv ht" by (simp add: ht_good_def)
  from ht_insert_result [OF inv, of m x w] obtain ht' m' where
    r: "never_fails m \<longrightarrow> never_fails m'" "ht_inv ht'" "ht_ops ht' = ht_ops ht"
      "ht_insert cleared x (ht, m, w) = Done () (ht', m', w) \<and> absent (ht_ops ht) x (ht_table ht)
         \<and> mset (ht_list ht') = mset (x # ht_list ht)
       \<or> (\<exists>e. ht_insert cleared x (ht, m, w) = Fail e (ht', m', w) \<and> mset (ht_list ht') = mset (ht_list ht))"
    by auto
  have k: "keeps ht_good ht_same reliable_mem s (ht', m', w)" unfolding s using r by (intro ht_keeps) auto
  show ?case
  proof (rule exI [of _ "(ht', m', w)"], rule conjI [OF k])
    from r(4) show "ht_insert cleared x s = Done () (ht', m', w) \<and> ht_contents (ht', m', w) = insert x (ht_contents s)
          \<and> (\<forall>y\<in>ht_contents s. \<not> ht_same s x y)
        \<or> (\<exists>e. ht_insert cleared x s = Fail e (ht', m', w) \<and> ht_contents (ht', m', w) = ht_contents s)"
      unfolding s ht_abs_defs fst_conv absent_ht_list
      using set_add_mset [of "ht_list ht'" x "ht_list ht"] mset_eq_setD [of "ht_list ht'" "ht_list ht"]
      by fastforce
  qed
next
  case (8 s y x)
  obtain ht m w where s: "s = (ht, m, w)" by (cases s)
  with 8 have inv: "ht_inv ht" and y: "y \<in> set (ht_list ht)" "ht_cmp (ht_ops ht) x y = 0"
    by (auto simp: ht_abs_defs)
  from ht_remove_hit [OF inv y, of m w] obtain ht' w' where
    r: "ht_remove x (ht, m, w) = Done () (ht', m, w')" "ht_inv ht'" "ht_ops ht' = ht_ops ht"
      "mset (ht_list ht') = mset (ht_list ht) - {#y#}" by blast
  have "keeps ht_good ht_same reliable_mem s (ht', m, w')" unfolding s using r by (intro ht_keeps) auto
  moreover have "set (ht_list ht') = set (ht_list ht) - {y}"
    using r(4) ht_list_distinct [OF inv] by (metis mset_remove1 set_mset_mset set_remove1_eq)
  ultimately show ?case using r(1) s by (auto simp: ht_contents_def)
next
  case (9 s x)
  then show ?case by (cases s) (simp add: ht_abs_defs ht_remove_miss absent_ht_list)
qed

section \<open>Random choice, checking and the default hash\<close>

lemma probe_ends:
  assumes "0 < (n :: nat)" "j < n" "\<not> P j"
  shows "i < n \<Longrightarrow> \<exists>k. while_option P (\<lambda>i. (i + 1) mod n) i = Some k \<and> k < n \<and> \<not> P k"
proof (induction "(j + n - i) mod n" arbitrary: i rule: less_induct)
  case less
  show ?case
  proof (cases "P i")
    case False
    with less.prems show ?thesis by (subst while_option_unfold) simp
  next
    case True
    then have ij: "i \<noteq> j" using assms(3) by auto
    let ?i = "(i + 1) mod n"
    have "(j + n - ?i) mod n < (j + n - i) mod n"
    proof (cases "i + 1 = n")
      case True
      then have "j + n - i = j + 1" "(j + n - ?i) mod n = j" using assms(2) by simp_all
      moreover have "j + 1 < n" using True ij assms(2) by simp
      ultimately show ?thesis by (simp only: mod_less)
    next
      case False
      then have i: "?i = i + 1" using less.prems by simp
      show ?thesis
      proof (cases "i < j")
        case True
        then have "j + n - i = (j - i) + n" "j + n - (i + 1) = (j - (i + 1)) + n" by simp_all
        then have "(j + n - i) mod n = j - i" "(j + n - (i + 1)) mod n = j - (i + 1)"
          using assms(2) by (simp_all only: mod_add_self2) simp_all
        then show ?thesis unfolding i using True by simp
      next
        case False
        with ij have "j < i" by simp
        with less.prems show ?thesis unfolding i by simp
      qed
    qed
    from less.hyps [OF this] assms(1) True show ?thesis by (subst while_option_unfold) simp
  qed
qed

lemma ht_count_eq:
  "\<forall>s\<in>set table. \<exists>n i. slot_ok ops n i s \<Longrightarrow> ht_count table = Some (length (tbl_list table))"
proof (induction table)
  case (Cons s table)
  then show ?case by (cases s) (auto simp: tbl_list_def ll_inv_def ll_check_def)
qed (simp add: tbl_list_def)

text \<open>FNV-1a over the natural numbers.\<close>

fun fnv1a :: "nat list \<Rightarrow> nat \<Rightarrow> nat" where
  "fnv1a [] h = h"
| "fnv1a (b # bs) h = fnv1a bs (xor h b * 16777619 mod 2 ^ 32)"

lemma scast_ascii: "unat b < 128 \<Longrightarrow> (scast (b :: 8 word) :: 32 word) = ucast b"
proof -
  assume "unat b < 128"
  then have "uint b < 128" unfolding uint_nat by linarith
  then have "sint b = uint b"
    using signed_take_bit_int_eq_self [of 7 "uint b"] uint_ge_0 [of b]
    by (simp add: sint_uint del: uint_ge_0)
  then show ?thesis by (simp only: scast_eq ucast_eq)
qed

lemma unat_ht_char: "char_signed \<longrightarrow> unat b < 128 \<Longrightarrow> unat (ht_char char_signed b) = unat b"
proof -
  assume a: "char_signed \<longrightarrow> unat b < 128"
  have "unat (ucast b :: 32 word) = unat b"
    using unsigned_less [of b, where 'a = nat] by (simp add: unsigned_ucast_eq take_bit_nat_eq_self)
  with a show ?thesis by (simp add: ht_char_def scast_ascii)
qed

lemma hash_fold:
  "(\<forall>b\<in>set key. char_signed \<longrightarrow> unat b < 128) \<Longrightarrow>
   unat (fold (\<lambda>b hash. xor hash (ht_char char_signed b) * 16777619) key h) = fnv1a (map unat key) (unat h)"
proof (induction key arbitrary: h)
  case (Cons b key)
  have "unat (xor h (ht_char char_signed b) * 16777619) = xor (unat h) (unat b) * 16777619 mod 2 ^ 32"
    using Cons.prems by (simp add: unat_word_ariths unsigned_xor_eq unat_ht_char)
  with Cons show ?case by simp
qed simp

section \<open>Properties\<close>

definition int_hops :: "(int, int list) hash_table_ops" where
  "int_hops = \<lparr>hto_hash_fn = (\<lambda>x. word_of_int x),
     hto_lops = \<lparr>llo_compare_fn = Some (\<lambda>x y. x - y), llo_destroy_data_fn = Some (#)\<rparr>\<rparr>"

text \<open>A table of two slots: the list of 0 is missing, that of 1 holds 3.\<close>

definition int_ht :: "(int, int list) hash_table" where
  "int_ht = \<lparr>ht_table = [NullSlot, Bucket \<lparr>ll_root = [3], ll_ops = hto_lops int_hops, ll_nnodes = 1\<rparr>],
     ht_ops = int_hops, ht_size = 2, ht_nelements = 1\<rparr>"

lemma int_hops_ok: "ops_ok int_hops"
  using total_cmp_equiv [OF total_cmp_int] by (simp add: ops_ok_def int_hops_def ht_cmp_def)

lemma int_ht_inv: "ht_inv int_ht"
proof -
  have "ll_inv \<lparr>ll_root = [3], ll_ops = hto_lops int_hops, ll_nnodes = 1\<rparr>"
    using total_cmp_equiv [OF total_cmp_int]
    by (simp add: ll_inv_def ll_cmp_def ll_check_def int_hops_def)
  moreover have "ht_index int_hops 2 3 = 1" by (simp add: ht_index_def int_hops_def)
  then have "ht_index int_hops (Suc (Suc 0)) 3 = 1" by (simp only: numeral_2_eq_2)
  ultimately have "tbl_ok int_hops (ht_table int_ht)"
    by (simp add: tbl_ok_def int_ht_def All_less_Suc)
  then show ?thesis by (simp add: ht_inv_def int_hops_ok ht_list_def tbl_list_def int_ht_def)
qed

lemma int_ht_list: "ht_list int_ht = [3]"
  by (simp add: ht_list_def tbl_list_def int_ht_def)

lemma int_ht_cmp: "ht_cmp (ht_ops int_ht) = (\<lambda>x y. x - y)"
  by (simp add: ht_cmp_def int_ht_def int_hops_def)



text \<open>
  \<^verbatim>\<open>ht_iterate\<close> visits the elements of all buckets in table order, across bucket borders: the
  client's callback sees exactly the calls an iteration over one list would make, it stops
  at the first request to stop and returns the first error.
\<close>

theorem ht_iterate_all:
  assumes "ht_inv ht"
  shows "ht_iterate ht cb c =
     (case iterate_list cb (ht_list ht) c of
        Abort \<Rightarrow> Abort | Fail e c' \<Rightarrow> Fail e c' | Done stop c' \<Rightarrow> Done () c')"
  using ht_invD(3) [OF assms] tbl_ok_no_wild [OF ht_invD(2) [OF assms]]
  by (simp add: ht_iterate_def ht_iterate_loop_eq ht_list_def split: outcome.splits)

theorem ht_iterate_all_witness:
  "ht_iterate int_ht (\<lambda>x c. Done (x > 2) (c + x)) 10 = Done () (13 :: int)"
  using ht_iterate_all [OF int_ht_inv, of "\<lambda>x c. Done (x > 2) (c + x)" 10] by (simp add: int_ht_list)

text \<open>
  C32: On a table that holds an element, the probing loop of \<^verbatim>\<open>ht_get_random\<close> ends, whatever slot it
  starts from, and the call returns an element of the table; on an empty table it returns
  \<^verbatim>\<open>ENOENT\<close>.
\<close>

theorem ht_get_random_ends:
  assumes "ht_inv ht"
  shows "(ht_list ht = [] \<longrightarrow> ht_get_random rnd rnd2 (ht, m, w) = Some (Fail ENOENT (ht, m, w)))
    \<and> (ht_list ht \<noteq> [] \<longrightarrow>
        (\<exists>y\<in>set (ht_list ht). ht_get_random rnd rnd2 (ht, m, w) = Some (Done y (ht, m, w))))"
proof (cases "ht_list ht = []")
  case True
  with ht_invD(4) [OF assms] show ?thesis by (simp add: ht_get_random_def ht_empty_def)
next
  case False
  note D = ht_invD [OF assms]
  let ?P = "\<lambda>i. slot_skipped (ht_table ht ! i)"
  have slot: "slot_ok (ht_ops ht) (ht_size ht) i (ht_table ht ! i)" if "i < ht_size ht" for i
    using tbl_ok_slot [OF D(2), of i] that D(3) by simp
  have skipped: "?P i \<longleftrightarrow> bucket (ht_table ht ! i) = []" if "i < ht_size ht" for i
    using slot [OF that] by (cases "ht_table ht ! i") (auto simp: ll_empty_def ll_inv_def ll_check_def)
  from False obtain x where "x \<in> set (ht_list ht)" by (cases "ht_list ht") auto
  then obtain j where j: "j < ht_size ht" "bucket (ht_table ht ! j) \<noteq> []"
    unfolding D(3) ht_list_def mem_tbl_list by fastforce
  with skipped have "\<not> ?P j" by blast
  from probe_ends [OF D(5) j(1), of ?P, OF this, of "rnd mod ht_size ht"] D(5) obtain k where
    k: "while_option ?P (\<lambda>i. (i + 1) mod ht_size ht) (rnd mod ht_size ht) = Some k"
    "k < ht_size ht" "\<not> ?P k" by auto
  from slot [OF k(2)] skipped [OF k(2)] k(3) obtain ll where
    ll: "ht_table ht ! k = Bucket ll" "ll_inv ll" "ll_root ll \<noteq> []"
    by (cases "ht_table ht ! k") auto
  let ?y = "ll_root ll ! (rnd2 mod length (ll_root ll))"
  have "?y \<in> set (ll_root ll)" using ll(3) by simp
  then have "?y \<in> set (ht_list ht)" using ll(1) k(2) D(3) by (auto simp: ht_list_def mem_tbl_list)
  moreover have "ht_get_random rnd rnd2 (ht, m, w) = Some (Done ?y (ht, m, w))"
    using k(1) ll D(4) False by (simp add: ht_get_random_def ht_empty_def ll_get_random_eq)
  ultimately show ?thesis using False by blast
qed

theorem ht_get_random_ends_witness:
  "ht_get_random 4 7 (int_ht, [], []) = Some (Done 3 (int_ht, [], []))"
  using ht_get_random_ends [OF int_ht_inv, of 4 7 "[]" "[]"] by (simp add: int_ht_list)

text \<open>\<^verbatim>\<open>ht_check\<close> accepts every well-formed table.\<close>

theorem ht_check_accepts:
  assumes "ht_inv ht"
  shows "ht_check ht"
proof -
  note D = ht_invD [OF assms]
  have "\<forall>s\<in>set (ht_table ht). \<exists>n i. slot_ok (ht_ops ht) n i s"
  proof
    fix s assume "s \<in> set (ht_table ht)"
    then obtain i where "i < length (ht_table ht)" "s = ht_table ht ! i" by (auto simp: in_set_conv_nth)
    with tbl_ok_slot [OF D(2), of i] show "\<exists>n i. slot_ok (ht_ops ht) n i s" by blast
  qed
  from ht_count_eq [OF this] D(3,4) show ?thesis by (simp add: ht_check_def ht_list_def)
qed

theorem ht_check_accepts_witness: "ht_check int_ht"
  using ht_check_accepts [OF int_ht_inv] .

text \<open>
  C33: \<^verbatim>\<open>ht_default_hash\<close> is FNV-1a with 32 bits on keys of 7-bit characters, and on all keys where
  \<^verbatim>\<open>char\<close> is unsigned; where \<^verbatim>\<open>char\<close> is signed, a byte of 128 hashes differently.
\<close>

theorem ht_default_hash_fnv1a:
  assumes "\<forall>b\<in>set key. char_signed \<longrightarrow> unat b < 128"
  shows "unat (ht_default_hash char_signed key) = fnv1a (map unat key) 2166136261
    \<and> ht_default_hash True [128] \<noteq> ht_default_hash False [128]"
proof -
  have "ht_default_hash True [128] \<noteq> ht_default_hash False [128]"
    by (simp add: ht_default_hash_def ht_char_def)
  with hash_fold [OF assms, of 2166136261] show ?thesis by (simp add: ht_default_hash_def)
qed

theorem ht_default_hash_fnv1a_witness:
  "unat (ht_default_hash True [97, 98]) = fnv1a [97, 98] 2166136261"
  using ht_default_hash_fnv1a [of "[97, 98]" True] by simp

end
