(* ===== verification/HashSpec.thy ===== *)
theory HashSpec
  imports HashCorrect
begin

text \<open>
  The hash table on whatever \<^verbatim>\<open>malloc\<close> leaves in the memory of a new table. Every slot of it reads as
  NULL or as a pointer that points nowhere; a call that follows such a pointer aborts. The proofs
  compare each call with the same call on the table whose wild slots are cleared.
\<close>

section \<open>Clearing the wild slots\<close>

fun slot_clean :: "('a, 'w) slot \<Rightarrow> ('a, 'w) slot" where
  "slot_clean NullSlot = NullSlot"
| "slot_clean WildSlot = NullSlot"
| "slot_clean (Bucket ll) = Bucket ll"

definition ht_clean :: "('a, 'w) hash_table \<Rightarrow> ('a, 'w) hash_table" where
  "ht_clean ht = ht\<lparr>ht_table := map slot_clean (ht_table ht)\<rparr>"

text \<open>Memory that \<^verbatim>\<open>malloc\<close> returns: no slot of it is a list.\<close>

definition raw_memory :: "(nat \<Rightarrow> ('a, 'w) slot) \<Rightarrow> bool" where
  "raw_memory junk \<longleftrightarrow> (\<forall>i. junk i = NullSlot \<or> junk i = WildSlot)"

lemma bucket_clean [simp]: "bucket (slot_clean s) = bucket s"
  by (cases s) auto

lemma tbl_list_clean [simp]: "tbl_list (map slot_clean table) = tbl_list table"
  by (simp add: tbl_list_def o_def)

lemma slot_clean_id: "s \<noteq> WildSlot \<Longrightarrow> slot_clean s = s"
  by (cases s) auto

lemma slot_clean_raw: "raw_memory junk \<Longrightarrow> map slot_clean (map junk xs) = map (\<lambda>i. NullSlot) xs"
  by (simp add: raw_memory_def) (metis slot_clean.simps(1,2))

lemma ht_clean_simps [simp]:
  "ht_list (ht_clean ht) = ht_list ht" "ht_ops (ht_clean ht) = ht_ops ht" "ht_size (ht_clean ht) = ht_size ht"
  "ht_nelements (ht_clean ht) = ht_nelements ht" "ht_table (ht_clean ht) = map slot_clean (ht_table ht)"
  "ht_needs_resize (ht_clean ht) = ht_needs_resize ht"
  by (simp_all add: ht_clean_def ht_list_def ht_needs_resize_def)

lemma ht_clean_upd:
  "ht_clean (ht\<lparr>ht_table := t\<rparr>) = (ht_clean ht)\<lparr>ht_table := map slot_clean t\<rparr>"
  "ht_clean (ht\<lparr>ht_size := n\<rparr>) = (ht_clean ht)\<lparr>ht_size := n\<rparr>"
  "ht_clean (ht\<lparr>ht_nelements := n\<rparr>) = (ht_clean ht)\<lparr>ht_nelements := n\<rparr>"
  by (simp_all add: ht_clean_def)

lemma ht_clean_inv: "ht_inv ht \<Longrightarrow> ht_clean ht = ht"
proof -
  assume "ht_inv ht"
  then have "WildSlot \<notin> set (ht_table ht)" using ht_invD(2) tbl_ok_no_wild by blast
  then have "map slot_clean (ht_table ht) = ht_table ht" by (intro map_idI slot_clean_id) auto
  then show ?thesis by (simp add: ht_clean_def)
qed

section \<open>A call and the same call on the cleared table\<close>

text \<open>The outcome is an abort, or that on the cleared table.\<close>

definition cleans :: "('s \<Rightarrow> 's) \<Rightarrow> ('r, 's) outcome \<Rightarrow> ('r, 's) outcome \<Rightarrow> bool" where
  "cleans f r r' \<longleftrightarrow> (case r of Abort \<Rightarrow> True | Fail e s \<Rightarrow> r' = Fail e (f s) | Done x s \<Rightarrow> r' = Done x (f s))"

lemma cleans_simps [simp]: "cleans f Abort r" "cleans f (Done x s) (Done x (f s))" "cleans f (Fail e s) (Fail e (f s))"
  by (simp_all add: cleans_def)

abbreviation tbl_clean :: "('a, 'w) ht_table_state \<Rightarrow> ('a, 'w) ht_table_state" where
  "tbl_clean \<equiv> \<lambda>(t, mw). (map slot_clean t, mw)"

abbreviation st_clean :: "('a, 'w) ht_state \<Rightarrow> ('a, 'w) ht_state" where
  "st_clean \<equiv> \<lambda>(h, mw). (ht_clean h, mw)"

lemma ht_put_cleans:
  assumes "0 < n" "length table = n"
  shows "cleans tbl_clean (ht_put ops n x (table, m, w)) (ht_put ops n x (map slot_clean table, m, w))"
proof -
  have i: "ht_index ops n x < length table" using assms by (simp add: ht_index_def)
  show ?thesis
    using i by (cases "table ! ht_index ops n x")
      (auto simp: ht_put_def ht_bucket_def map_update cleans_def Let_def split: outcome.splits prod.splits option.splits)
qed

lemma ht_put_length:
  assumes "ht_put ops n x (table, m, w) = Done u (t', m', w') \<or> ht_put ops n x (table, m, w) = Fail e (t', m', w')"
  shows "length t' = length table"
  using assms by (auto simp: ht_put_def Let_def split: outcome.splits prod.splits)

lemma migrate_cleans:
  assumes "0 < n" "length table = n"
  shows "cleans tbl_clean (iterate_list (ht_resize_migrate_cb ops n) xs (table, m, w))
    (iterate_list (ht_resize_migrate_cb ops n) xs (map slot_clean table, m, w))"
  using assms(2)
proof (induction xs arbitrary: table m w)
  case (Cons x xs)
  note p = ht_put_cleans [OF assms(1) Cons.prems, of ops x m w]
  show ?case
  proof (cases "ht_put ops n x (table, m, w)")
    case (Done u s)
    obtain t1 m1 w1 where s: "s = (t1, m1, w1)" by (cases s)
    have "length t1 = n" using ht_put_length [of ops n x table m w u t1 m1 w1] Done s Cons.prems by simp
    from Cons.IH [OF this] p show ?thesis by (simp add: Done s cleans_def ht_resize_migrate_cb_def)
  next
    case (Fail e s)
    with p show ?thesis by (cases s) (simp add: cleans_def ht_resize_migrate_cb_def)
  qed (simp add: ht_resize_migrate_cb_def)
qed (simp add: cleans_def)

lemma ht_iterate_loop_cleans:
  "ht_iterate_loop cb slots hic = Abort \<or> ht_iterate_loop cb slots hic = ht_iterate_loop cb (map slot_clean slots) hic"
proof (induction slots arbitrary: hic)
  case (Cons s slots)
  show ?case
  proof (cases s)
    case (Bucket ll)
    show ?thesis
    proof (cases "ll_iterate ll (ht_iterate_cb cb) hic")
      case (Done u hic')
      with Bucket Cons.IH [of hic'] show ?thesis by simp
    qed (simp_all add: Bucket)
  qed (use Cons.IH [of hic] in simp_all)
qed simp

lemma slot_clean_not_wild: "slot_clean s \<noteq> WildSlot"
  by (cases s) auto

lemma no_wild_clean: "WildSlot \<notin> set (map slot_clean slots)"
  by (induction slots) (simp_all add: slot_clean_not_wild [symmetric] not_sym [OF slot_clean_not_wild])

lemma ht_iterate_cleans:
  "ht_iterate ht cb c = Abort \<or> ht_iterate ht cb c =
     (case iterate_list cb (tbl_list (take (ht_size ht) (ht_table ht))) c of
        Abort \<Rightarrow> Abort | Fail e c' \<Rightarrow> Fail e c' | Done stop c' \<Rightarrow> Done () c')"
proof -
  let ?s = "take (ht_size ht) (ht_table ht)"
  have "ht_iterate_loop cb (map slot_clean ?s) (c, False) =
    (case iterate_list cb (tbl_list ?s) c of
        Done stop c' \<Rightarrow> Done () (c', stop) | Fail e c' \<Rightarrow> Fail e (c', False) | Abort \<Rightarrow> Abort)"
    unfolding ht_iterate_loop_eq [OF no_wild_clean] by simp
  with ht_iterate_loop_cleans [of cb ?s "(c, False)"] show ?thesis
    by (auto simp: ht_iterate_def split: outcome.splits)
qed

lemma ht_iterate_clean:
  "ht_iterate (ht_clean ht) cb c =
     (case iterate_list cb (tbl_list (take (ht_size ht) (ht_table ht))) c of
        Abort \<Rightarrow> Abort | Fail e c' \<Rightarrow> Fail e c' | Done stop c' \<Rightarrow> Done () c')"
  by (simp add: ht_iterate_def take_map ht_iterate_loop_eq [OF no_wild_clean] split: outcome.splits)

lemma ht_destroy_table_cleans:
  "ht_destroy_table p slots w = None \<or> ht_destroy_table p slots w = ht_destroy_table p (map slot_clean slots) w"
proof (induction slots arbitrary: w)
  case (Cons s slots)
  then show ?case by (cases s) auto
qed simp

lemma ht_resize_cleans:
  assumes junk: "raw_memory junk" and pos: "0 < ht_size ht"
  shows "cleans st_clean (ht_resize junk (ht, m, w)) (ht_resize cleared (ht_clean ht, m, w))"
proof -
  let ?n = "ht_size ht * 2" and ?cb = "ht_resize_migrate_cb (ht_ops ht) (ht_size ht * 2)"
  let ?xs = "tbl_list (take (ht_size ht) (ht_table ht))"
  obtain ok m1 where m: "malloc m = (ok, m1)" by fastforce
  show ?thesis
  proof (cases ok)
    case False
    with m show ?thesis by (simp add: ht_resize_def cleans_def)
  next
    case True
    have "cleans tbl_clean (iterate_list ?cb ?xs (map junk [0..<?n], m1, w)) (iterate_list ?cb ?xs (map cleared [0..<?n], m1, w))"
      using migrate_cleans [of ?n "map junk [0..<?n]" "ht_ops ht" ?xs m1 w] pos unfolding slot_clean_raw [OF junk] by simp
    note it = this
    show ?thesis
    proof (cases "iterate_list ?cb ?xs (map junk [0..<?n], m1, w)")
      case Abort
      then have "ht_iterate ht ?cb (map junk [0..<?n], m1, w) = Abort"
        using ht_iterate_cleans [of ht ?cb "(map junk [0..<?n], m1, w)"] by auto
      with True m show ?thesis by (simp add: ht_resize_def)
    next
      case (Fail e c)
      obtain t m2 w2 where c: "c = (t, m2, w2)" by (cases c)
      have f: "iterate_list ?cb ?xs (map cleared [0..<?n], m1, w) = Fail e (map slot_clean t, m2, w2)"
        using it Fail c by (simp add: cleans_def)
      with True m Fail c ht_iterate_cleans [of ht ?cb "(map junk [0..<?n], m1, w)"] ht_destroy_table_cleans [of True t w2] show ?thesis
        by (auto simp: ht_resize_def ht_iterate_clean cleans_def split: option.splits)
    next
      case (Done stop c)
      obtain t m2 w2 where c: "c = (t, m2, w2)" by (cases c)
      have f: "iterate_list ?cb ?xs (map cleared [0..<?n], m1, w) = Done stop (map slot_clean t, m2, w2)"
        using it Done c by (simp add: cleans_def)
      with True m Done c ht_iterate_cleans [of ht ?cb "(map junk [0..<?n], m1, w)"]
        ht_destroy_table_cleans [of True "take (ht_size ht) (ht_table ht)" w2] show ?thesis
        by (auto simp: ht_resize_def ht_iterate_clean cleans_def take_map ht_clean_upd split: option.splits)
    qed
  qed
qed

lemma ht_insert_cleans:
  assumes junk: "raw_memory junk" and size: "0 < ht_size ht" "length (ht_table ht) = ht_size ht"
  shows "cleans st_clean (ht_insert junk x (ht, m, w)) (ht_insert cleared x (ht_clean ht, m, w))"
proof -
  note p = ht_put_cleans [OF size, of "ht_ops ht" x m w]
  show ?thesis
  proof (cases "ht_put (ht_ops ht) (ht_size ht) x (ht_table ht, m, w)")
    case Abort
    then show ?thesis by (simp add: ht_insert_def)
  next
    case (Fail e c)
    with p show ?thesis by (cases c) (simp add: ht_insert_def cleans_def ht_clean_upd)
  next
    case (Done u c)
    obtain t m1 w1 where c: "c = (t, m1, w1)" by (cases c)
    let ?h = "ht\<lparr>ht_table := t, ht_nelements := ht_nelements ht + 1\<rparr>"
    have q: "ht_put (ht_ops ht) (ht_size ht) x (map slot_clean (ht_table ht), m, w) = Done u (map slot_clean t, m1, w1)"
      using p Done c by (simp add: cleans_def)
    have hc: "ht_clean ?h = (ht_clean ht)\<lparr>ht_table := map slot_clean t, ht_nelements := ht_nelements ht + 1\<rparr>"
      by (simp add: ht_clean_def)
    have nr: "ht_needs_resize (ht_clean ?h) = ht_needs_resize ?h" by simp
    have "cleans st_clean (ht_resize junk (?h, m1, w1)) (ht_resize cleared (ht_clean ?h, m1, w1))"
      by (rule ht_resize_cleans [OF junk]) (use size in simp)
    with Done c q nr show ?thesis unfolding hc
      by (auto simp: ht_insert_def cleans_def Let_def hc split: outcome.splits)
  qed
qed

lemma ht_find_cleans:
  assumes "0 < ht_size ht" "length (ht_table ht) = ht_size ht"
  shows "cleans st_clean (ht_find x (ht, m, w)) (ht_find x (ht_clean ht, m, w))"
proof -
  have "ht_index (ht_ops ht) (ht_size ht) x < length (ht_table ht)" using assms by (simp add: ht_index_def)
  then show ?thesis
    by (cases "ht_table ht ! ht_index (ht_ops ht) (ht_size ht) x")
      (auto simp: ht_find_def cleans_def Let_def split: outcome.splits)
qed

lemma ht_remove_cleans:
  assumes "0 < ht_size ht" "length (ht_table ht) = ht_size ht"
  shows "cleans st_clean (ht_remove x (ht, m, w)) (ht_remove x (ht_clean ht, m, w))"
proof -
  have "ht_index (ht_ops ht) (ht_size ht) x < length (ht_table ht)" using assms by (simp add: ht_index_def)
  then show ?thesis
    by (cases "ht_table ht ! ht_index (ht_ops ht) (ht_size ht) x")
      (auto simp: ht_remove_def cleans_def Let_def ht_clean_upd map_update split: outcome.splits)
qed

section \<open>When a call aborts\<close>

lemma ht_destroy_table_wild: "ht_destroy_table p slots w \<noteq> None \<longleftrightarrow> WildSlot \<notin> set slots"
proof (induction slots arbitrary: w)
  case (Cons s slots)
  then show ?case by (cases s) auto
qed simp

text \<open>Migration stops at the first element whose slot in the new table is wild.\<close>

lemma ht_put_wild:
  assumes "ht_put ops n x (table, m, w) = Done u (t', m', w')"
  shows "(t' ! j = WildSlot) = (table ! j = WildSlot)"
proof -
  let ?i = "ht_index ops n x"
  have "\<exists>ll. t' = table[?i := Bucket ll] \<and> table ! ?i \<noteq> WildSlot"
    using assms by (auto simp: ht_put_def ht_bucket_def Let_def split: outcome.splits prod.splits slot.splits option.splits)
  then obtain ll where t: "t' = table[?i := Bucket ll]" "table ! ?i \<noteq> WildSlot" by blast
  show ?thesis
  proof (cases "j = ?i \<and> ?i < length table")
    case True
    with t show ?thesis by simp
  next
    case False
    then have "t' ! j = table ! j" unfolding t(1) by (cases "?i < length table") (auto simp: list_update_beyond)
    then show ?thesis by simp
  qed
qed

lemma migrate_abort:
  assumes ops: "ops_ok ops" and n: "0 < n"
  shows "length table = n \<Longrightarrow> tbl_ok ops (map slot_clean table) \<Longrightarrow> distinct_by (ht_cmp ops) xs \<Longrightarrow>
    (\<forall>x\<in>set xs. absent ops x table) \<Longrightarrow> never_fails m \<Longrightarrow>
    iterate_list (ht_resize_migrate_cb ops n) xs (table, m, w) = Abort
      \<longleftrightarrow> (\<exists>x\<in>set xs. table ! ht_index ops n x = WildSlot)"
proof (induction xs arbitrary: table m)
  case (Cons x xs)
  let ?i = "ht_index ops n x"
  show ?case
  proof (cases "table ! ?i = WildSlot")
    case True
    then show ?thesis by (simp add: ht_resize_migrate_cb_def ht_put_def ht_bucket_def)
  next
    case False
    have i: "?i < length table" using n Cons.prems(1) by (simp add: ht_index_def)
    have abs: "absent ops x (map slot_clean table)" using Cons.prems(4) by (simp add: absent_def)
    from ht_put_cases [OF ops Cons.prems(2), of m x w] abs Cons.prems(1,5) obtain t1 m1 where
      nf: "never_fails m1" and r: "ht_put ops n x (map slot_clean table, m, w) = Done () (t1, m1, w)"
      and t1: "put_table ops x (map slot_clean table) t1" by auto
    have "ht_put ops n x (table, m, w) \<noteq> Abort"
    proof -
      have "ht_put ops n x (table, m, w) = Abort \<longleftrightarrow> ht_put ops n x (map slot_clean table, m, w) = Abort"
        using False i by (cases "table ! ?i")
          (auto simp: ht_put_def ht_bucket_def Let_def split: outcome.splits prod.splits option.splits)
      with r show ?thesis by simp
    qed
    with ht_put_cleans [OF n Cons.prems(1), of ops x m w] r obtain t2 where
      t2: "ht_put ops n x (table, m, w) = Done () (t2, m1, w)" "map slot_clean t2 = t1"
      by (cases "ht_put ops n x (table, m, w)") (auto simp: cleans_def)
    have len: "length t2 = n" using ht_put_length [of ops n x table m w "()" t2 m1 w] t2(1) Cons.prems(1) by simp
    have set1: "set (tbl_list t2) = insert x (set (tbl_list table))"
      using t1 t2(2) set_add_mset [of "tbl_list t2" x "tbl_list table"] by (auto simp: put_table_def)
    have "\<forall>y\<in>set xs. absent ops y t2"
    proof
      fix y assume y: "y \<in> set xs"
      then have "ht_cmp ops x y \<noteq> 0" using Cons.prems(3) by simp
      then have "ht_cmp ops y x \<noteq> 0" using equiv_cmp_sym [OF ops_okD(2) [OF ops]] by blast
      with y Cons.prems(4) set1 show "absent ops y t2" by (auto simp: absent_def)
    qed
    moreover have "tbl_ok ops (map slot_clean t2)" using t1 t2(2) by (simp add: put_table_def)
    ultimately have "iterate_list (ht_resize_migrate_cb ops n) xs (t2, m1, w) = Abort
      \<longleftrightarrow> (\<exists>y\<in>set xs. t2 ! ht_index ops n y = WildSlot)"
      using Cons.IH [OF len] Cons.prems(3) nf by simp
    moreover have "iterate_list (ht_resize_migrate_cb ops n) (x # xs) (table, m, w)
        = iterate_list (ht_resize_migrate_cb ops n) xs (t2, m1, w)"
      using t2(1) by (simp add: ht_resize_migrate_cb_def)
    ultimately show ?thesis using False ht_put_wild [OF t2(1)] by simp
  qed
qed simp

lemma ht_resize_abort:
  assumes inv: "ht_inv ht" and junk: "raw_memory junk" and m: "never_fails m"
  shows "ht_resize junk (ht, m, w) = Abort \<longleftrightarrow> (\<exists>x\<in>set (ht_list ht). junk (ht_index (ht_ops ht) (ht_size ht * 2) x) = WildSlot)"
proof -
  note D = ht_invD [OF inv]
  let ?n = "ht_size ht * 2" and ?cb = "ht_resize_migrate_cb (ht_ops ht) (ht_size ht * 2)"
  let ?new = "map junk [0..<?n]"
  obtain m1 where m1: "malloc m = (True, m1)" "never_fails m1" using malloc_ok [OF m] by blast
  have pos: "0 < ?n" using D(5) by simp
  have new: "tbl_ok (ht_ops ht) (map slot_clean ?new)" unfolding slot_clean_raw [OF junk] by (rule tbl_ok_cleared [OF pos])
  have "tbl_list ?new = []" using arg_cong [OF slot_clean_raw [OF junk], of tbl_list "[0..<?n]"] unfolding tbl_list_clean by simp
  then have "\<forall>x\<in>set (ht_list ht). absent (ht_ops ht) x ?new" by (simp add: absent_def)
  moreover have "distinct_by (ht_cmp (ht_ops ht)) (ht_list ht)" unfolding ht_list_def by (rule tbl_distinct [OF D(1,2)])
  ultimately have it: "iterate_list ?cb (ht_list ht) (?new, m1, w) = Abort
      \<longleftrightarrow> (\<exists>x\<in>set (ht_list ht). ?new ! ht_index (ht_ops ht) ?n x = WildSlot)"
    by (intro migrate_abort [OF D(1) pos _ new _ _ m1(2)]) simp_all
  have "?new ! ht_index (ht_ops ht) ?n x = junk (ht_index (ht_ops ht) ?n x)" for x
    using pos by (simp add: ht_index_def)
  note it = it [unfolded this]
  have wild: "WildSlot \<notin> set (ht_table ht)" by (rule tbl_ok_no_wild [OF D(2)])
  have ih: "ht_iterate ht ?cb (?new, m1, w) = (case iterate_list ?cb (ht_list ht) (?new, m1, w) of
        Abort \<Rightarrow> Abort | Fail e c' \<Rightarrow> Fail e c' | Done stop c' \<Rightarrow> Done () c')"
    using ht_iterate_clean [of ht ?cb "(?new, m1, w)"] D(3) ht_clean_inv [OF inv] by (simp add: ht_list_def)
  show ?thesis
  proof (cases "iterate_list ?cb (ht_list ht) (?new, m1, w)")
    case Abort
    with it ih m1 show ?thesis by (simp add: ht_resize_def)
  next
    case (Fail e c)
    obtain t m2 w2 where c: "c = (t, m2, w2)" by (cases c)
    have "cleans tbl_clean (iterate_list ?cb (ht_list ht) (?new, m1, w)) (iterate_list ?cb (ht_list ht) (map slot_clean ?new, m1, w))"
      by (rule migrate_cleans) (use pos in simp_all)
    with Fail c have "\<exists>e s. iterate_list ?cb (ht_list ht) (map cleared [0..<?n], m1, w) = Fail e s"
      unfolding slot_clean_raw [OF junk] by (simp add: cleans_def)
    moreover have "tbl_ok (ht_ops ht) (map cleared [0..<?n])" by (rule tbl_ok_cleared [OF pos])
    ultimately have False
      using migrate_list [OF D(1), of "map cleared [0..<?n]" ?n "ht_list ht" m1 w] m1(2) tbl_distinct [OF D(1,2)]
      by (auto simp: absent_def ht_list_def)
    then show ?thesis ..
  next
    case (Done stop c)
    obtain t m2 w2 where c: "c = (t, m2, w2)" by (cases c)
    have "ht_destroy_table True (take (ht_size ht) (ht_table ht)) w2 \<noteq> None"
      unfolding ht_destroy_table_wild using wild by (meson in_set_takeD)
    with Done c it ih m1 show ?thesis by (auto simp: ht_resize_def)
  qed
qed

section \<open>Sequences of calls\<close>

fun inserts :: "'a dict_op list \<Rightarrow> nat" where
  "inserts [] = 0"
| "inserts (Insert x # ops) = Suc (inserts ops)"
| "inserts (Remove x # ops) = inserts ops"
| "inserts (Find x # ops) = inserts ops"

lemma dict_exec_cleans:
  assumes junk: "raw_memory junk" and inv: "ht_inv (ht_clean ht)"
  shows "dict_exec (ht_insert junk) ht_remove ht_find op (ht, m, w) = None
    \<or> (\<exists>r s. dict_exec (ht_insert junk) ht_remove ht_find op (ht, m, w) = Some (r, s)
        \<and> dict_exec (ht_insert cleared) ht_remove ht_find op (ht_clean ht, m, w) = Some (r, st_clean s))"
proof -
  have size: "0 < ht_size ht" "length (ht_table ht) = ht_size ht" using ht_invD(3,5) [OF inv] by simp_all
  have reply: "reply_of f r = None \<or> (\<exists>a s. reply_of f r = Some (a, s) \<and> reply_of f r' = Some (a, st_clean s))"
    if "cleans st_clean r r'" for f and r r' :: "('c, ('a, 'b) ht_state) outcome"
    using that by (cases r) (auto simp: cleans_def)
  show ?thesis
    using reply [OF ht_insert_cleans [OF junk size]] reply [OF ht_remove_cleans [OF size]] reply [OF ht_find_cleans [OF size]]
    by (cases op) simp_all
qed

lemma dict_run_cleans:
  assumes junk: "raw_memory junk"
  shows "ht_inv (ht_clean ht) \<Longrightarrow> never_fails m \<Longrightarrow> dict_run (ht_insert junk) ht_remove ht_find ops (ht, m, w) = None
    \<or> (\<exists>rs s. dict_run (ht_insert junk) ht_remove ht_find ops (ht, m, w) = Some (rs, s)
        \<and> dict_run (ht_insert cleared) ht_remove ht_find ops (ht_clean ht, m, w) = Some (rs, st_clean s))"
proof (induction ops arbitrary: ht m w)
  case (Cons op ops)
  from dict_exec_cleans [OF junk Cons.prems(1), of op m w] show ?case
  proof (elim disjE exE conjE)
    fix r s
    assume e: "dict_exec (ht_insert junk) ht_remove ht_find op (ht, m, w) = Some (r, s)"
      "dict_exec (ht_insert cleared) ht_remove ht_find op (ht_clean ht, m, w) = Some (r, st_clean s)"
    obtain h1 m1 w1 where s: "s = (h1, m1, w1)" by (cases s)
    have "keeps ht_good ht_same reliable_mem (ht_clean ht, m, w) (st_clean s)"
      using ht.exec_refines [of "(ht_clean ht, m, w)" "ht_list ht" op] Cons.prems e(2)
      by (auto simp: ht_good_def ht_contents_def)
    then have "ht_inv (ht_clean h1)" "never_fails m1" using Cons.prems(2) s by (auto simp: keeps_def ht_good_def)
    from Cons.IH [OF this, of w1] e s show ?case by auto
  qed simp
qed simp

lemma ht_insert_no_resize:
  assumes "ht_nelements ht + 1 \<le> ht_size ht div 2"
  shows "ht_insert junk x (ht, m, w) = ht_insert cleared x (ht, m, w)"
  using assms by (auto simp: ht_insert_def ht_needs_resize_def Let_def split: outcome.splits prod.splits)

lemma ht_insert_grows:
  assumes "ht_nelements ht + 1 \<le> ht_size ht div 2"
    and "ht_insert junk x (ht, m, w) = Done u (ht', m', w') \<or> ht_insert junk x (ht, m, w) = Fail e (ht', m', w')"
  shows "ht_size ht' = ht_size ht" "ht_nelements ht' \<le> ht_nelements ht + 1"
  using assms by (auto simp: ht_insert_def ht_needs_resize_def Let_def split: outcome.splits prod.splits if_splits)

lemma ht_remove_shrinks:
  assumes "ht_remove x (ht, m, w) = Done u (ht', m', w') \<or> ht_remove x (ht, m, w) = Fail e (ht', m', w')"
  shows "ht_size ht' = ht_size ht" "ht_nelements ht' \<le> ht_nelements ht"
  using assms by (auto simp: ht_remove_def Let_def split: outcome.splits prod.splits slot.splits)

lemma ht_find_same:
  assumes "ht_find x st = Done u st' \<or> ht_find x st = Fail e st'"
  shows "st' = st"
  using assms by (cases st) (auto simp: ht_find_def Let_def split: outcome.splits slot.splits)

lemma reply_of_Some:
  "reply_of f r = Some (a, s) \<Longrightarrow> (\<exists>x. r = Done x s) \<or> (\<exists>e. r = Fail e s)"
  by (cases r) auto

lemma dict_run_no_resize:
  "ht_inv ht \<Longrightarrow> never_fails m \<Longrightarrow> ht_nelements ht + inserts ops \<le> ht_size ht div 2 \<Longrightarrow>
    dict_run (ht_insert junk) ht_remove ht_find ops (ht, m, w) = dict_run (ht_insert cleared) ht_remove ht_find ops (ht, m, w)"
proof (induction ops arbitrary: ht m w)
  case (Cons op ops)
  have same: "dict_exec (ht_insert junk) ht_remove ht_find op (ht, m, w) = dict_exec (ht_insert cleared) ht_remove ht_find op (ht, m, w)"
    using Cons.prems(3) ht_insert_no_resize [of ht junk _ m w] by (cases op) auto
  obtain r h1 m1 w1 where e: "dict_exec (ht_insert cleared) ht_remove ht_find op (ht, m, w) = Some (r, h1, m1, w1)"
    and k: "keeps ht_good ht_same reliable_mem (ht, m, w) (h1, m1, w1)"
    using ht.exec_refines [of "(ht, m, w)" "ht_list ht" op] Cons.prems(1,2) by (auto simp: ht_good_def ht_contents_def)
  have "ht_nelements h1 + inserts ops \<le> ht_size h1 div 2"
  proof (cases op)
    case (Insert x)
    then have n: "ht_nelements ht + 1 \<le> ht_size ht div 2" using Cons.prems(3) by simp
    have "reply_of (\<lambda>_. Replied) (ht_insert cleared x (ht, m, w)) = Some (r, h1, m1, w1)" using e Insert by simp
    from reply_of_Some [OF this] obtain e where "ht_insert cleared x (ht, m, w) = Done () (h1, m1, w1) \<or> ht_insert cleared x (ht, m, w) = Fail e (h1, m1, w1)"
      by auto
    from ht_insert_grows [OF n this] Cons.prems(3) Insert show ?thesis by simp
  next
    case (Remove x)
    then have "reply_of (\<lambda>_. Replied) (ht_remove x (ht, m, w)) = Some (r, h1, m1, w1)" using e by simp
    from reply_of_Some [OF this] obtain e where "ht_remove x (ht, m, w) = Done () (h1, m1, w1) \<or> ht_remove x (ht, m, w) = Fail e (h1, m1, w1)"
      by auto
    from ht_remove_shrinks [OF this] Cons.prems(3) Remove show ?thesis by simp
  next
    case (Find x)
    then have "reply_of Found (ht_find x (ht, m, w)) = Some (r, h1, m1, w1)" using e by simp
    from reply_of_Some [OF this] have "(h1, m1, w1) = (ht, m, w)" using ht_find_same [of x "(ht, m, w)"] by blast
    with Cons.prems(3) Find show ?thesis by simp
  qed
  moreover have "ht_inv h1" "never_fails m1" using k Cons.prems(2) by (auto simp: keeps_def ht_good_def)
  ultimately show ?case using Cons.IH same e by simp
qed simp

section \<open>Properties\<close>

text \<open>
  C2: Any sequence of \<^verbatim>\<open>ht_insert\<close>, \<^verbatim>\<open>ht_remove\<close> and \<^verbatim>\<open>ht_find\<close> calls on a well-formed hash table,
  whatever \<^verbatim>\<open>malloc\<close> leaves in the memory of a new table: either every call returns what the dictionary
  specification returns, through all resizes, and the table that is left holds the elements of the
  specification and is well-formed but for slots that point nowhere; or a call follows such a pointer.
  The second happens only when a new table was not all NULL, and only when there were enough insertions
  to make the table more than half full.
\<close>

theorem ht_refines_dictionary:
  assumes "ht_inv ht" "never_fails m" "raw_memory junk"
  shows "case dict_run (ht_insert junk) ht_remove ht_find ops (ht, m, w) of
      Some (rs, (ht', m', w')) \<Rightarrow> rs = fst (spec_run (\<lambda>x y. ht_cmp (ht_ops ht) x y = 0) ops (ht_list ht))
        \<and> ht_inv (ht_clean ht')
        \<and> set (ht_list ht') = set (snd (spec_run (\<lambda>x y. ht_cmp (ht_ops ht) x y = 0) ops (ht_list ht)))
    | None \<Rightarrow> (\<exists>i. junk i = WildSlot) \<and> ht_size ht div 2 < ht_nelements ht + inserts ops"
proof -
  let ?same = "\<lambda>x y. ht_cmp (ht_ops ht) x y = 0"
  have same: "ht_same (ht, m, w) = ?same" by (simp add: ht_same_def fun_eq_iff)
  obtain s0 where s0: "dict_run (ht_insert cleared) ht_remove ht_find ops (ht, m, w) = Some (fst (spec_run ?same ops (ht_list ht)), s0)"
    "set (snd (spec_run ?same ops (ht_list ht))) = ht_contents s0" "ht_good s0"
    using ht.run_refines [of "(ht, m, w)" "ht_list ht" ops] assms(1,2)
    unfolding same by (auto simp: ht_contents_def ht_good_def keeps_def)
  have inv: "ht_inv (ht_clean ht)" "ht_clean ht = ht" using assms(1) ht_clean_inv [OF assms(1)] by simp_all
  from dict_run_cleans [OF assms(3) inv(1) assms(2), of ops w] show ?thesis
  proof (elim disjE exE conjE)
    assume none: "dict_run (ht_insert junk) ht_remove ht_find ops (ht, m, w) = None"
    have "\<exists>i. junk i = WildSlot"
    proof (rule ccontr)
      assume "\<nexists>i. junk i = WildSlot"
      then have "junk = cleared" using assms(3) by (auto simp: raw_memory_def)
      with none s0(1) show False by simp
    qed
    moreover have "\<not> ht_nelements ht + inserts ops \<le> ht_size ht div 2"
      using dict_run_no_resize [OF assms(1,2), of ops junk w] none s0(1) by auto
    ultimately show ?thesis using none by simp
  next
    fix rs s
    assume r: "dict_run (ht_insert junk) ht_remove ht_find ops (ht, m, w) = Some (rs, s)"
      "dict_run (ht_insert cleared) ht_remove ht_find ops (ht_clean ht, m, w) = Some (rs, st_clean s)"
    obtain ht' m' w' where s: "s = (ht', m', w')" by (cases s)
    from r(2) s0 s inv(2) show ?thesis unfolding r(1) by (auto simp: ht_contents_def ht_good_def)
  qed
qed

theorem ht_refines_dictionary_witness:
  "\<exists>ht' m' w'. dict_run (ht_insert (\<lambda>i. NullSlot)) ht_remove ht_find
      [Insert 5, Insert 4, Find 3, Insert 5, Remove 3, Find 3] (int_ht, [], []) =
    Some ([Replied, Replied, Found 3, Refused EEXIST, Replied, Refused ENOENT], (ht', m', w'))
    \<and> set (ht_list ht') = {4, 5}"
proof -
  have raw: "raw_memory (\<lambda>i. NullSlot :: (int, int list) slot)" by (simp add: raw_memory_def)
  let ?ops = "[Insert 5, Insert 4, Find 3, Insert 5, Remove 3, Find (3 :: int)]"
  have spec: "spec_run (\<lambda>x y. ht_cmp (ht_ops int_ht) x y = 0) ?ops (ht_list int_ht)
    = ([Replied, Replied, Found 3, Refused EEXIST, Replied, Refused ENOENT], [4, 5])"
    by (simp add: int_ht_list int_ht_cmp)
  obtain res where run: "dict_run (ht_insert (\<lambda>i. NullSlot)) ht_remove ht_find ?ops (int_ht, [], []) = res" by blast
  from ht_refines_dictionary [OF int_ht_inv never_fails_Nil raw, of ?ops "[]"] show ?thesis
    unfolding spec run by (cases res) auto
qed

text \<open>
  C30: \<^verbatim>\<open>ht_resize\<close>, whatever \<^verbatim>\<open>malloc\<close> leaves in the new table, either doubles the table with every element
  kept exactly once and in the bucket of its hash modulo the new size, well-formed but for slots that
  point nowhere; or leaves the table as it was, only when an allocation failed; or follows a wild pointer,
  and with enough memory that happens exactly when an element hashes to a slot that points nowhere. No
  destroy callback runs.
\<close>

theorem ht_resize_keeps:
  assumes "ht_inv ht" "raw_memory junk"
  shows "(case ht_resize junk (ht, m, w) of
      Done _ (ht', m', w') \<Rightarrow> ht_size ht' = 2 * ht_size ht \<and> ht_inv (ht_clean ht')
        \<and> mset (ht_list ht') = mset (ht_list ht) \<and> w' = w
    | Fail e (ht', m', w') \<Rightarrow> \<not> never_fails m \<and> ht' = ht \<and> w' = w
    | Abort \<Rightarrow> \<exists>i. junk i = WildSlot)
    \<and> (never_fails m \<longrightarrow> (ht_resize junk (ht, m, w) = Abort
        \<longleftrightarrow> (\<exists>x\<in>set (ht_list ht). junk (ht_index (ht_ops ht) (2 * ht_size ht) x) = WildSlot)))"
proof (rule conjI)
  show "never_fails m \<longrightarrow> (ht_resize junk (ht, m, w) = Abort
        \<longleftrightarrow> (\<exists>x\<in>set (ht_list ht). junk (ht_index (ht_ops ht) (2 * ht_size ht) x) = WildSlot))"
    using ht_resize_abort [OF assms] by (simp add: mult.commute)
  from ht_resize_result [OF assms(1), of m w] obtain ht1 m1 where
    r: "ht_inv ht1" "mset (ht_list ht1) = mset (ht_list ht)"
      "ht_resize cleared (ht, m, w) = Done () (ht1, m1, w) \<and> ht_size ht1 = 2 * ht_size ht
       \<or> (\<exists>e. ht_resize cleared (ht, m, w) = Fail e (ht1, m1, w) \<and> ht1 = ht \<and> \<not> never_fails m)" by blast
  have c: "cleans st_clean (ht_resize junk (ht, m, w)) (ht_resize cleared (ht, m, w))"
    using ht_resize_cleans [OF assms(2) ht_invD(5) [OF assms(1)], of m w] ht_clean_inv [OF assms(1)] by simp
  show "case ht_resize junk (ht, m, w) of
      Done _ (ht', m', w') \<Rightarrow> ht_size ht' = 2 * ht_size ht \<and> ht_inv (ht_clean ht')
        \<and> mset (ht_list ht') = mset (ht_list ht) \<and> w' = w
    | Fail e (ht', m', w') \<Rightarrow> \<not> never_fails m \<and> ht' = ht \<and> w' = w
    | Abort \<Rightarrow> \<exists>i. junk i = WildSlot"
  proof (cases "ht_resize junk (ht, m, w)")
    case (Done u s)
    obtain h m' w' where s: "s = (h, m', w')" by (cases s)
    with c r Done have e: "ht_clean h = ht1" "w' = w" "ht_size ht1 = 2 * ht_size ht" by (auto simp: cleans_def)
    then have "ht_list h = ht_list ht1" "ht_size h = ht_size ht1" using ht_clean_simps(1,3) [of h] by simp_all
    with Done s r e show ?thesis by simp
  next
    case (Fail er s)
    obtain h m' w' where s: "s = (h, m', w')" by (cases s)
    have "h = ht"
      using Fail s by (auto simp: ht_resize_def Let_def split: prod.splits if_splits outcome.splits option.splits)
    with c r Fail s show ?thesis by (auto simp: cleans_def)
  next
    case Abort
    have "\<exists>i. junk i = WildSlot"
    proof (rule ccontr)
      assume "\<nexists>i. junk i = WildSlot"
      then have "junk = cleared" using assms(2) by (auto simp: raw_memory_def)
      with Abort r(3) show False by auto
    qed
    with Abort show ?thesis by simp
  qed
qed

theorem ht_resize_keeps_witness:
  "\<exists>ht' m' w'. ht_resize (\<lambda>i. if i = 2 then WildSlot else NullSlot) (int_ht, [], []) = Done () (ht', m', w') \<and> ht_size ht' = 4
     \<and> ht_list ht' = [3]"
proof -
  let ?junk = "\<lambda>i :: nat. if i = 2 then WildSlot else NullSlot :: (int, int list) slot"
  have raw: "raw_memory ?junk" by (simp add: raw_memory_def)
  have ind: "ht_index (ht_ops int_ht) 4 3 = 3" "ht_size int_ht = 2" by (simp_all add: ht_index_def int_ht_def int_hops_def)
  from ht_resize_keeps [OF int_ht_inv raw, of "[]" "[]"] ind show ?thesis
    by (auto simp: int_ht_list split: outcome.splits)
qed

end
