(* ===== verification/BinaryTree.thy ===== *)
theory BinaryTree
  imports CPrelude
begin

text \<open>
  \<^verbatim>\<open>binary_trees/binary_tree.c\<close>: an unbalanced search tree from keys to values, both copied into
  the tree. The node's key is the first argument of the comparison, and a positive result goes
  to the right child: the tree grows in decreasing order. Removal is a stub in the source.
\<close>

section \<open>State and operations\<close>

datatype ('k, 'v) bt_node = BNull
  | BNode (bn_key: 'k) (bn_value: 'v) (bn_lchild: "('k, 'v) bt_node") (bn_rchild: "('k, 'v) bt_node")

record ('k, 'v) binary_tree =
  bin_root :: "('k, 'v) bt_node"
  bin_key_compare :: "'k \<Rightarrow> 'k \<Rightarrow> int"

definition bin_create :: "('k \<Rightarrow> 'k \<Rightarrow> int) \<Rightarrow> allocator \<Rightarrow> ('k, 'v) binary_tree option \<times> allocator" where
  "bin_create key_compare m =
     (let (ok, m1) = malloc m in
      if \<not> ok then (None, m1)
      else (Some \<lparr>bin_root = BNull, bin_key_compare = key_compare\<rparr>, m1))"

text \<open>\<^verbatim>\<open>_bt_insert\<close>: the key and the value are allocated before either result is looked at.\<close>

fun bin_insert_node :: "('k \<Rightarrow> 'k \<Rightarrow> int) \<Rightarrow> 'k \<Rightarrow> 'v \<Rightarrow> ('k, 'v) bt_node \<Rightarrow> allocator
    \<Rightarrow> (unit, ('k, 'v) bt_node \<times> allocator) outcome" where
  "bin_insert_node cmp key val BNull m =
     (let (ok, m1) = malloc m in
      if \<not> ok then Fail EGENERIC (BNull, m1)
      else let (kok, m2) = malloc m1; (vok, m3) = malloc m2 in
        if \<not> kok \<or> \<not> vok then Fail EGENERIC (BNull, m3)
        else Done () (BNode key val BNull BNull, m3))"
| "bin_insert_node cmp key val (BNode k v l r) m =
     (let keycmp = cmp k key in
      if keycmp > 0 then
        (case bin_insert_node cmp key val r m of
           Done u (r', m') \<Rightarrow> Done u (BNode k v l r', m')
         | Fail e (r', m') \<Rightarrow> Fail e (BNode k v l r', m')
         | Abort \<Rightarrow> Abort)
      else if keycmp < 0 then
        (case bin_insert_node cmp key val l m of
           Done u (l', m') \<Rightarrow> Done u (BNode k v l' r, m')
         | Fail e (l', m') \<Rightarrow> Fail e (BNode k v l' r, m')
         | Abort \<Rightarrow> Abort)
      else Fail EGENERIC (BNode k v l r, m))"

definition bin_insert :: "'k \<Rightarrow> 'v \<Rightarrow> (('k, 'v) binary_tree \<times> allocator, unit) prog" where
  "bin_insert key val st =
     (let (bt, m) = st in
      case bin_insert_node (bin_key_compare bt) key val (bin_root bt) m of
        Done u (t, m') \<Rightarrow> Done u (bt\<lparr>bin_root := t\<rparr>, m')
      | Fail e (t, m') \<Rightarrow> Fail e (bt\<lparr>bin_root := t\<rparr>, m')
      | Abort \<Rightarrow> Abort)"

fun bin_find_node :: "('k \<Rightarrow> 'k \<Rightarrow> int) \<Rightarrow> 'k \<Rightarrow> ('k, 'v) bt_node \<Rightarrow> 'v option" where
  "bin_find_node cmp key BNull = None"
| "bin_find_node cmp key (BNode k v l r) =
     (let keycmp = cmp k key in
      if keycmp = 0 then Some v
      else if keycmp > 0 then bin_find_node cmp key r
      else bin_find_node cmp key l)"

definition bin_find :: "'k \<Rightarrow> (('k, 'v) binary_tree \<times> allocator, 'v) prog" where
  "bin_find key st =
     (case bin_find_node (bin_key_compare (fst st)) key (bin_root (fst st)) of
        None \<Rightarrow> Fail EGENERIC st
      | Some v \<Rightarrow> Done v st)"

text \<open>\<^verbatim>\<open>bt_remove\<close> has no body but \<^verbatim>\<open>return 0\<close>.\<close>

definition bin_remove :: "'k \<Rightarrow> (('k, 'v) bt_node, unit) prog" where
  "bin_remove key root = Done () root"

text \<open>
  Memory objects: a node and the two buffers it owns. \<^verbatim>\<open>destroy_tree\<close> frees the nodes, children
  first; the result lists the calls of \<^verbatim>\<open>free\<close>.
\<close>

datatype ('k, 'v) bt_object = NodeObj 'k | KeyObj 'k | ValueObj 'v

fun destroy_tree :: "('k, 'v) bt_node \<Rightarrow> ('k, 'v) bt_object list" where
  "destroy_tree BNull = []"
| "destroy_tree (BNode k v l r) = destroy_tree l @ destroy_tree r @ [NodeObj k]"

definition bin_destroy :: "('k, 'v) binary_tree \<Rightarrow> ('k, 'v) bt_object list" where
  "bin_destroy bt = destroy_tree (bin_root bt)"

text \<open>What the insertions that built a tree have allocated.\<close>

fun bt_owned :: "('k, 'v) bt_node \<Rightarrow> ('k, 'v) bt_object list" where
  "bt_owned BNull = []"
| "bt_owned (BNode k v l r) = [NodeObj k, KeyObj k, ValueObj v] @ bt_owned l @ bt_owned r"

section \<open>Correctness\<close>

fun bt_keys :: "('k, 'v) bt_node \<Rightarrow> 'k list" where
  "bt_keys BNull = []"
| "bt_keys (BNode k v l r) = bt_keys r @ k # bt_keys l"

text \<open>Two keys that compare equal send a search the same way.\<close>

lemma cmp_sign_cong:
  assumes "total_cmp c" "c x y = 0"
  shows "c k x > 0 \<longleftrightarrow> c k y > 0" and "c k x < 0 \<longleftrightarrow> c k y < 0" and "c k x = 0 \<longleftrightarrow> c k y = 0"
proof -
  have yx: "c y x = 0" using total_cmp_sym [OF assms(1)] assms(2) by simp
  have "c k x < 0 \<Longrightarrow> c k y < 0" using total_cmp_less_trans [OF assms(1), of k x y] assms(2) by simp
  moreover have "c k y < 0 \<Longrightarrow> c k x < 0" using total_cmp_less_trans [OF assms(1), of k y x] yx by simp
  ultimately show lt: "c k x < 0 \<longleftrightarrow> c k y < 0" by blast
  show eq: "c k x = 0 \<longleftrightarrow> c k y = 0"
    using equiv_cmp_trans [OF total_cmp_equiv [OF assms(1)]] assms(2) yx by blast
  from lt eq show "c k x > 0 \<longleftrightarrow> c k y > 0" by linarith
qed

lemma bin_insert_node_result:
  assumes c: "total_cmp cmp"
  shows "case bin_insert_node cmp key val t m of
      Done _ (t', m') \<Rightarrow> bin_find_node cmp key t = None
        \<and> (\<forall>q. bin_find_node cmp q t' = (if cmp key q = 0 then Some val else bin_find_node cmp q t))
        \<and> set (bt_keys t') = insert key (set (bt_keys t))
        \<and> length (bt_owned t') = length (bt_owned t) + 3
    | Fail e (t', m') \<Rightarrow> e = EGENERIC \<and> t' = t \<and> (never_fails m \<longrightarrow> bin_find_node cmp key t \<noteq> None)
    | Abort \<Rightarrow> False"
proof (induction t)
  case BNull
  obtain ok m1 kok m2 vok m3 where m: "malloc m = (ok, m1)" "malloc m1 = (kok, m2)" "malloc m2 = (vok, m3)"
    by fastforce
  then have "never_fails m \<Longrightarrow> ok \<and> kok \<and> vok" using malloc_never_fails by blast
  with m show ?case using cmp_sign_cong(3) [OF c] total_cmp_sym [OF c] by auto
next
  case (BNode k v l r)
  note cong = cmp_sign_cong [OF c]
  show ?case
  proof (cases "cmp k key" "0::int" rule: linorder_cases)
    case equal
    then show ?thesis by simp
  next
    case greater
    then have "\<forall>q. cmp key q = 0 \<longrightarrow> cmp k q > 0 \<and> cmp k q \<noteq> 0" using cong(1) [of key _ k] by force
    note sign = this
    from BNode.IH(2) show ?thesis
      by (cases "bin_insert_node cmp key val r m") (use greater sign in \<open>auto simp: Let_def\<close>)
  next
    case less
    then have "\<forall>q. cmp key q = 0 \<longrightarrow> \<not> cmp k q > 0 \<and> cmp k q \<noteq> 0" using cong(2) [of key _ k] by force
    note sign = this
    from BNode.IH(1) show ?thesis
      by (cases "bin_insert_node cmp key val l m") (use less sign in \<open>auto simp: Let_def\<close>)
  qed
qed

lemma bin_insert_sorted:
  assumes c: "total_cmp cmp"
  shows "csorted cmp (bt_keys t) \<Longrightarrow> bin_insert_node cmp key val t m = Done u (t', m') \<Longrightarrow>
    bt_keys t' = ins_by cmp key (bt_keys t)"
proof (induction t arbitrary: t' m')
  case BNull
  then show ?case by (auto split: prod.splits if_splits)
next
  case (BNode k v l r)
  have s: "csorted cmp (bt_keys r @ k # bt_keys l)" using BNode.prems(1) by (simp only: bt_keys.simps)
  show ?case
  proof (cases "cmp k key" "0::int" rule: linorder_cases)
    case equal
    then have "bin_insert_node cmp key val (BNode k v l r) m = Fail EGENERIC (BNode k v l r, m)" by simp
    with BNode.prems(2) show ?thesis by simp
  next
    case greater
    then have "cmp key k < 0" using total_cmp_gt [OF c] by simp
    moreover from greater BNode.prems(2) obtain r' where
      "bin_insert_node cmp key val r m = Done u (r', m')" "t' = BNode k v l r'"
      by (auto split: outcome.splits)
    moreover have "csorted cmp (bt_keys r)" using s by (simp add: sorted_wrt_append)
    ultimately show ?thesis using BNode.IH(2) [of r' m'] by (simp add: ins_by_left [OF c])
  next
    case less
    then have "cmp key k > 0" using total_cmp_gt [OF c] by simp
    moreover from less BNode.prems(2) obtain l' where
      "bin_insert_node cmp key val l m = Done u (l', m')" "t' = BNode k v l' r"
      by (auto split: outcome.splits)
    moreover have "csorted cmp (bt_keys l)" using s by (simp add: sorted_wrt_append)
    ultimately show ?thesis using BNode.IH(1) [of l' m'] by (simp add: ins_by_right [OF c s])
  qed
qed

lemma bin_find_none_absent:
  assumes c: "total_cmp cmp"
  shows "csorted cmp (bt_keys t) \<Longrightarrow> bin_find_node cmp key t = None \<Longrightarrow>
    \<forall>y\<in>set (bt_keys t). cmp key y \<noteq> 0"
proof (induction t)
  case (BNode k v l r)
  then have srt: "csorted cmp (bt_keys r @ k # bt_keys l)" by simp
  have "cmp k key \<noteq> 0" using BNode.prems(2) by auto
  then consider "cmp k key < 0" "cmp key k > 0" | "cmp k key > 0" "cmp key k < 0"
    using total_cmp_gt [OF c, of key k] total_cmp_gt [OF c, of k key] by linarith
  then show ?case
  proof cases
    case 1
    then have "\<forall>y\<in>set (bt_keys r). cmp key y \<noteq> 0"
      using csorted_all_less [OF c srt, of key] by fastforce
    with 1 BNode srt show ?thesis by (auto simp: sorted_wrt_append)
  next
    case 2
    then have "\<forall>y\<in>set (bt_keys l). cmp key y \<noteq> 0"
      using csorted_all_greater [OF c srt, of key] by fastforce
    with 2 BNode srt show ?thesis by (auto simp: sorted_wrt_append)
  qed
qed simp

lemma destroy_tree_nodes:
  "length (bt_owned t) = 3 * length (destroy_tree t)"
  "set (destroy_tree t) = set (bt_owned t) - (range KeyObj \<union> range ValueObj)"
  by (induction t) auto

section \<open>Properties\<close>

text \<open>
  C39: \<^verbatim>\<open>bt_insert\<close> extends the map that \<^verbatim>\<open>bt_find\<close> reads: after it, exactly the keys that compare
  equal to the new one find the new value. An existing key, or a failed allocation, returns
  -1 and leaves the tree as it was; the keys stay sorted.
\<close>

theorem bin_insert_extends_map:
  assumes "total_cmp (bin_key_compare bt)" "csorted (bin_key_compare bt) (bt_keys (bin_root bt))"
  shows "case bin_insert key val (bt, m) of
      Done _ (bt', m') \<Rightarrow> bin_find key (bt, m) = Fail EGENERIC (bt, m)
        \<and> (\<forall>q. bin_find q (bt', m') =
             (if bin_key_compare bt key q = 0 then Done val (bt', m')
              else case bin_find q (bt, m) of Done v _ \<Rightarrow> Done v (bt', m') | _ \<Rightarrow> Fail EGENERIC (bt', m')))
        \<and> csorted (bin_key_compare bt) (bt_keys (bin_root bt'))
    | Fail e (bt', m') \<Rightarrow> e = EGENERIC \<and> bt' = bt
        \<and> (never_fails m \<longrightarrow> bin_find key (bt, m) \<noteq> Fail EGENERIC (bt, m))
    | Abort \<Rightarrow> False"
proof -
  let ?c = "bin_key_compare bt" and ?t = "bin_root bt"
  note R = bin_insert_node_result [OF assms(1), where key = key and val = val and t = ?t and m = m]
  show ?thesis
  proof (cases "bin_insert_node ?c key val ?t m")
    case (Done u s)
    obtain t' m' where s: "s = (t', m')" by fastforce
    have new: "bin_find_node ?c key ?t = None" using R Done s by simp
    have "\<forall>y\<in>set (bt_keys ?t). ?c key y \<noteq> 0" using bin_find_none_absent [OF assms new] .
    then have "csorted ?c (bt_keys t')"
      using bin_insert_sorted [OF assms, where key = key and val = val and m = m and u = u and t' = t' and m' = m'] csorted_ins_by [OF assms] Done s by simp
    with R Done s show ?thesis
      by (auto simp: bin_insert_def bin_find_def split: option.splits)
  next
    case (Fail e s)
    with R show ?thesis by (cases s) (auto simp: bin_insert_def bin_find_def split: option.splits)
  next
    case Abort
    with R show ?thesis by simp
  qed
qed

definition int_bt :: "(int, int) binary_tree" where
  "int_bt = \<lparr>bin_root = BNode 5 50 (BNode 7 70 BNull BNull) (BNode 3 30 BNull BNull),
     bin_key_compare = (\<lambda>x y. x - y)\<rparr>"

theorem bin_insert_extends_map_witness:
  "\<exists>bt' m'. bin_insert 4 40 (int_bt, []) = Done () (bt', m') \<and> bin_find 4 (bt', m') = Done 40 (bt', m')
     \<and> bin_find 7 (bt', m') = Done 70 (bt', m') \<and> bin_find 6 (bt', m') = Fail EGENERIC (bt', m')"
proof -
  have "total_cmp (bin_key_compare int_bt)" "csorted (bin_key_compare int_bt) (bt_keys (bin_root int_bt))"
    by (simp_all add: int_bt_def total_cmp_int)
  from bin_insert_extends_map [OF this, where key = 4 and val = 40 and m = "[]"] show ?thesis
    by (auto simp: int_bt_def bin_insert_def bin_find_def)
qed

text \<open>
  The two unfinished operations: \<^verbatim>\<open>bt_remove\<close> reports success and removes nothing, and
  \<^verbatim>\<open>bt_destroy\<close> frees the nodes but neither the keys nor the values they own, two of every three
  objects the insertions allocated.
\<close>

theorem bin_remove_stub_and_leak:
  "bin_remove key t = Done () t
   \<and> length (bt_owned (bin_root bt)) = 3 * length (bin_destroy bt)
   \<and> set (bin_destroy bt) = set (bt_owned (bin_root bt)) - (range KeyObj \<union> range ValueObj)"
  by (simp add: bin_remove_def bin_destroy_def destroy_tree_nodes)

end
