(* ===== verification/UdGraph.thy ===== *)
theory UdGraph
  imports AvlDict Fifo LinkedList
begin

text \<open>
  \<^verbatim>\<open>graphs/ud_graph/ud_graph.c\<close>: an undirected graph whose nodes and adjacency sets are AVL trees,
  with depth-first and breadth-first iteration and two searches for a shortest path. A node
  pointer is its address and the data it points to, which never changes; the adjacency tree
  a node owns is looked up by the address (\<open>g_adjs\<close>). Recursion gets a stack depth: running
  out of it is a stack overflow (\<open>Abort\<close>). Loops without a bound are partial functions. The nodes a
  client passes are nodes of the graph it passes them with: the assertion \<^verbatim>\<open>n1->n_graph == n2->n_graph\<close>
  of the comparison then holds and is left out.
\<close>

section \<open>State\<close>

record 'a udg_node =
  n_id :: nat
  n_data :: 'a

record ('a, 'w) ud_graph_ops =
  go_compare_fn :: "'a \<Rightarrow> 'a \<Rightarrow> int"
  go_destroy_data_fn :: "('a \<Rightarrow> 'w \<Rightarrow> 'w) option"

type_synonym 'a node_tree = "('a udg_node, unit) avl_tree"

record ('a, 'w) ud_graph =
  g_nodes :: "('a udg_node, 'w) avl_tree"
  g_ops :: "('a, 'w) ud_graph_ops"
  g_adjs :: "nat \<Rightarrow> 'a node_tree"
  g_next :: nat

type_synonym ('a, 'w) udg_state = "(('a, 'w) ud_graph, 'w) cstate"

definition udg_compare_nodes :: "('a, 'w) ud_graph_ops \<Rightarrow> 'a udg_node \<Rightarrow> 'a udg_node \<Rightarrow> int" where
  "udg_compare_nodes ops n1 n2 = go_compare_fn ops (n_data n1) (n_data n2)"

definition udg_destroy_node :: "('a, 'w) ud_graph_ops \<Rightarrow> 'a udg_node \<Rightarrow> 'w \<Rightarrow> 'w" where
  "udg_destroy_node ops n w = (case go_destroy_data_fn ops of None \<Rightarrow> w | Some f \<Rightarrow> f (n_data n) w)"

definition udg_aops :: "('a, 'w) ud_graph_ops \<Rightarrow> ('a udg_node, 'w) avl_tree_ops" where
  "udg_aops ops = \<lparr>ato_compare_fn = udg_compare_nodes ops, ato_destroy_data_fn = Some (udg_destroy_node ops)\<rparr>"

definition udg_node_aops :: "('a, 'w) ud_graph_ops \<Rightarrow> ('a udg_node, unit) avl_tree_ops" where
  "udg_node_aops ops = \<lparr>ato_compare_fn = udg_compare_nodes ops, ato_destroy_data_fn = None\<rparr>"

section \<open>Building a graph\<close>

definition udg_create :: "('a, 'w) ud_graph_ops \<Rightarrow> allocator \<Rightarrow> ('a, 'w) ud_graph option \<times> allocator" where
  "udg_create gops m =
     (let (ok, m1) = malloc m in
      if \<not> ok then (None, m1)
      else case at_create (udg_aops gops) m1 of
        (None, m2) \<Rightarrow> (None, m2)
      | (Some nodes, m2) \<Rightarrow>
          let (ok, m3) = malloc m2 in
          if \<not> ok then (None, m3)
          else (Some \<lparr>g_nodes = nodes, g_ops = gops,
                      g_adjs = (\<lambda>i. \<lparr>at_root = Null, at_ops = udg_node_aops gops, at_nnodes = 0\<rparr>),
                      g_next = 0\<rparr>, m3))"

definition udg_destroy :: "('a, 'w) ud_graph \<Rightarrow> 'w \<Rightarrow> 'w" where
  "udg_destroy g w = at_destroy (g_nodes g) w"

definition udg_add_node :: "'a \<Rightarrow> (('a, 'w) udg_state, 'a udg_node) prog" where
  "udg_add_node data st =
     (let (g, m, w) = st; (ok, m1) = malloc m in
      if \<not> ok then Fail ENOMEM (g, m1, w)
      else case at_create (udg_node_aops (g_ops g)) m1 of
        (None, m2) \<Rightarrow> Fail ENOMEM (g, m2, w)
      | (Some adjs, m2) \<Rightarrow>
          let n = \<lparr>n_id = g_next g, n_data = data\<rparr> in
          (case at_insert n (g_nodes g, m2, w) of
             Abort \<Rightarrow> Abort
           | Fail e (nodes, m3, w3) \<Rightarrow> Fail e (g\<lparr>g_nodes := nodes\<rparr>, m3, w3)
           | Done _ (nodes, m3, w3) \<Rightarrow>
               Done n (g\<lparr>g_nodes := nodes, g_adjs := (g_adjs g)(n_id n := adjs),
                         g_next := g_next g + 1\<rparr>, m3, w3)))"

definition udg_set_adjs :: "'a udg_node \<Rightarrow> 'a node_tree \<Rightarrow> ('a, 'w) ud_graph \<Rightarrow> ('a, 'w) ud_graph" where
  "udg_set_adjs n t g = g\<lparr>g_adjs := (g_adjs g)(n_id n := t)\<rparr>"

definition udg_add_edge :: "'a udg_node \<Rightarrow> 'a udg_node \<Rightarrow> (('a, 'w) udg_state, unit) prog" where
  "udg_add_edge n1 n2 st =
     (let (g, m, w) = st in
      case at_insert n2 (g_adjs g (n_id n1), m, ()) of
        Abort \<Rightarrow> Abort
      | Fail e (t1, m1, _) \<Rightarrow> Fail e (udg_set_adjs n1 t1 g, m1, w)
      | Done _ (t1, m1, _) \<Rightarrow>
          let g1 = udg_set_adjs n1 t1 g in
          (case at_insert n1 (g_adjs g1 (n_id n2), m1, ()) of
             Abort \<Rightarrow> Abort
           | Done _ (t2, m2, _) \<Rightarrow> Done () (udg_set_adjs n2 t2 g1, m2, w)
           | Fail e (t2, m2, _) \<Rightarrow>
               let g2 = udg_set_adjs n2 t2 g1 in
               (case at_remove n2 (g_adjs g2 (n_id n1), m2, ()) of
                  Abort \<Rightarrow> Abort
                | Fail _ (t3, m3, _) \<Rightarrow> Fail e (udg_set_adjs n1 t3 g2, m3, w)
                | Done _ (t3, m3, _) \<Rightarrow> Fail e (udg_set_adjs n1 t3 g2, m3, w))))"

text \<open>The node on the stack that carries the data to search for; its address is not looked at.\<close>

definition udg_get_node :: "'a \<Rightarrow> (('a, 'w) udg_state, 'a udg_node) prog" where
  "udg_get_node data st =
     (let (g, m, w) = st in
      case at_find \<lparr>n_id = 0, n_data = data\<rparr> (g_nodes g, m, w) of
        Abort \<Rightarrow> Abort
      | Fail e _ \<Rightarrow> Fail e st
      | Done n _ \<Rightarrow> Done n st)"

definition udg_check_node_adjacencies_cb :: "('a, 'w) ud_graph \<Rightarrow> 'a udg_node
    \<Rightarrow> ('a udg_node, unit) callback" where
  "udg_check_node_adjacencies_cb g n adj c =
     (case at_find n (g_adjs g (n_id adj), [], ()) of
        Done _ _ \<Rightarrow> Done False c
      | _ \<Rightarrow> Abort)"

definition udg_check_node_cb :: "('a, 'w) ud_graph \<Rightarrow> ('a udg_node, unit) callback" where
  "udg_check_node_cb g n c =
     (case at_iterate (g_adjs g (n_id n)) (udg_check_node_adjacencies_cb g n) c of
        Done _ c' \<Rightarrow> Done False c'
      | Fail e c' \<Rightarrow> Fail e c'
      | Abort \<Rightarrow> Abort)"

definition udg_check :: "('a, 'w) ud_graph \<Rightarrow> bool" where
  "udg_check g \<longleftrightarrow> at_iterate (g_nodes g) (udg_check_node_cb g) () = Done () ()"

section \<open>Depth-first iteration\<close>

text \<open>The visited set, the allocator, the client's context.\<close>

type_synonym ('a, 'c) df_state = "'a node_tree \<times> allocator \<times> 'c"

definition udg_iterate_df_adjs_cb :: "('a udg_node \<Rightarrow> (('a, 'c) df_state, bool) prog)
    \<Rightarrow> ('a udg_node, ('a, 'c) df_state \<times> bool) callback" where
  "udg_iterate_df_adjs_cb visit adj ia_ctx =
     (let (st, stop) = ia_ctx in
      case visit adj st of
        Abort \<Rightarrow> Abort
      | Fail e st' \<Rightarrow> Fail e (st', stop)
      | Done s st' \<Rightarrow> Done (stop \<or> s) (st', stop \<or> s))"

fun udg_df_node :: "nat \<Rightarrow> ('a, 'w) ud_graph \<Rightarrow> ('a, 'c) callback \<Rightarrow> 'a udg_node
    \<Rightarrow> (('a, 'c) df_state, bool) prog" where
  "udg_df_node 0 g callback n st = Abort"
| "udg_df_node (Suc depth) g callback n st =
     (let (visited, m, c) = st in
      case at_find n (visited, m, ()) of
        Abort \<Rightarrow> Abort
      | Done _ _ \<Rightarrow> Done False st
      | Fail _ _ \<Rightarrow>
          (case at_insert n (visited, m, ()) of
             Abort \<Rightarrow> Abort
           | Fail e (visited1, m1, _) \<Rightarrow> Fail e (visited1, m1, c)
           | Done _ (visited1, m1, _) \<Rightarrow>
               (case at_iterate (g_adjs g (n_id n)) (udg_iterate_df_adjs_cb (udg_df_node depth g callback))
                       ((visited1, m1, c), False) of
                  Abort \<Rightarrow> Abort
                | Fail e (st2, _) \<Rightarrow> Fail e st2
                | Done _ ((visited2, m2, c2), stop) \<Rightarrow>
                    if stop then Done True (visited2, m2, c2)
                    else case callback (n_data n) c2 of
                      Abort \<Rightarrow> Abort
                    | Fail e c3 \<Rightarrow> Fail e (visited2, m2, c3)
                    | Done s c3 \<Rightarrow> Done s (visited2, m2, c3))))"

definition udg_iterate_df :: "nat \<Rightarrow> ('a, 'w) ud_graph \<Rightarrow> 'a udg_node \<Rightarrow> ('a, 'c) callback
    \<Rightarrow> (allocator \<times> 'c, unit) prog" where
  "udg_iterate_df depth g start callback st =
     (let (m, c) = st in
      case at_create (udg_node_aops (g_ops g)) m of
        (None, m1) \<Rightarrow> Fail ENOMEM (m1, c)
      | (Some visited, m1) \<Rightarrow>
          (case udg_df_node depth g callback start (visited, m1, c) of
             Abort \<Rightarrow> Abort
           | Fail e (_, m2, c2) \<Rightarrow> Fail e (m2, c2)
           | Done _ (_, m2, c2) \<Rightarrow> Done () (m2, c2)))"

section \<open>Breadth-first iteration\<close>

type_synonym 'a bf_state = "'a node_tree \<times> ('a udg_node, unit) fifo \<times> allocator"

definition udg_iterate_bf_add_adjs_cb :: "('a udg_node, 'a bf_state) callback" where
  "udg_iterate_bf_add_adjs_cb adj st =
     (let (visited, fi, m) = st in
      case at_find adj (visited, m, ()) of
        Abort \<Rightarrow> Abort
      | Done _ _ \<Rightarrow> Done False st
      | Fail _ _ \<Rightarrow>
          (case fi_enq adj (fi, m, ()) of
             Abort \<Rightarrow> Abort
           | Fail e (fi1, m1, _) \<Rightarrow> Fail e (visited, fi1, m1)
           | Done _ (fi1, m1, _) \<Rightarrow>
               (case at_insert adj (visited, m1, ()) of
                  Abort \<Rightarrow> Abort
                | Fail e (visited2, m2, _) \<Rightarrow> Fail e (visited2, fi1, m2)
                | Done _ (visited2, m2, _) \<Rightarrow> Done False (visited2, fi1, m2))))"

partial_function (option) udg_bf_loop :: "('a, 'w) ud_graph \<Rightarrow> ('a, 'c) callback
    \<Rightarrow> 'a bf_state \<times> 'c \<Rightarrow> (unit, 'a bf_state \<times> 'c) outcome option" where
  "udg_bf_loop g callback st =
     (case st of ((visited, fi, m), c) \<Rightarrow>
      if fi_empty fi then Some (Done () st)
      else case fi_deq (fi, m, ()) of
        Abort \<Rightarrow> Some Abort
      | Fail e (fi1, m1, _) \<Rightarrow> Some (Fail e ((visited, fi1, m1), c))
      | Done next (fi1, m1, _) \<Rightarrow>
          (case callback (n_data next) c of
             Abort \<Rightarrow> Some Abort
           | Fail e c1 \<Rightarrow> Some (Fail e ((visited, fi1, m1), c1))
           | Done stop c1 \<Rightarrow>
               if stop then Some (Done () ((visited, fi1, m1), c1))
               else case at_iterate (g_adjs g (n_id next)) udg_iterate_bf_add_adjs_cb (visited, fi1, m1) of
                 Abort \<Rightarrow> Some Abort
               | Fail e bf \<Rightarrow> Some (Fail e (bf, c1))
               | Done _ bf \<Rightarrow> udg_bf_loop g callback (bf, c1)))"

declare udg_bf_loop.simps [code]

definition udg_bf_start :: "('a, 'w) ud_graph \<Rightarrow> 'a udg_node \<Rightarrow> ('a, 'c) callback
    \<Rightarrow> 'a bf_state \<times> 'c \<Rightarrow> (unit, 'a bf_state \<times> 'c) outcome option" where
  "udg_bf_start g start callback st =
     (case st of ((visited, fi, m), c) \<Rightarrow>
      case fi_enq start (fi, m, ()) of
        Abort \<Rightarrow> Some Abort
      | Fail e (fi1, m1, _) \<Rightarrow> Some (Fail e ((visited, fi1, m1), c))
      | Done _ (fi1, m1, _) \<Rightarrow>
          (case at_insert start (visited, m1, ()) of
             Abort \<Rightarrow> Some Abort
           | Fail e (visited2, m2, _) \<Rightarrow> Some (Fail e ((visited2, fi1, m2), c))
           | Done _ (visited2, m2, _) \<Rightarrow> udg_bf_loop g callback ((visited2, fi1, m2), c)))"

text \<open>
  \<open>fi_junk\<close>: whether the local variable \<^verbatim>\<open>fi\<close>, which is not initialised, happens to hold a value
  other than NULL. The error path hands it to \<^verbatim>\<open>fi_destroy\<close>.
\<close>

definition udg_iterate_bf :: "bool \<Rightarrow> ('a, 'w) ud_graph \<Rightarrow> 'a udg_node \<Rightarrow> ('a, 'c) callback
    \<Rightarrow> allocator \<times> 'c \<Rightarrow> (unit, allocator \<times> 'c) outcome option" where
  "udg_iterate_bf fi_junk g start callback st =
     (case st of (m, c) \<Rightarrow>
      case at_create (udg_node_aops (g_ops g)) m of
        (None, m1) \<Rightarrow> Some (if fi_junk then Abort else Fail ENOMEM (m1, c))
      | (Some visited, m1) \<Rightarrow>
          (case fi_create None m1 of
             (None, m2) \<Rightarrow> Some (Fail ENOMEM (m2, c))
           | (Some fi, m2) \<Rightarrow>
               (case udg_bf_start g start callback ((visited, fi, m2), c) of
                  None \<Rightarrow> None
                | Some Abort \<Rightarrow> Some Abort
                | Some (Fail e ((_, _, m3), c3)) \<Rightarrow> Some (Fail e (m3, c3))
                | Some (Done _ ((_, _, m3), c3)) \<Rightarrow> Some (Done () (m3, c3)))))"

end
