(* ===== verification/UdCorrect.thy ===== *)
theory UdCorrect
  imports UdGraph
begin

text \<open>
  Correctness of building and iterating an undirected graph: the edges stay symmetric, and
  both iterations call the client's function on exactly the nodes reachable from the start,
  once each.
\<close>

section \<open>The invariant\<close>

definition udg_nodes :: "('a, 'w) ud_graph \<Rightarrow> 'a udg_node set" where
  "udg_nodes g = set (at_list (g_nodes g))"

definition udg_adj :: "('a, 'w) ud_graph \<Rightarrow> 'a udg_node \<Rightarrow> 'a udg_node list" where
  "udg_adj g n = at_list (g_adjs g (n_id n))"

definition udg_edges :: "('a, 'w) ud_graph \<Rightarrow> ('a udg_node \<times> 'a udg_node) set" where
  "udg_edges g = {(x, y). x \<in> udg_nodes g \<and> y \<in> set (udg_adj g x)}"

definition udg_inv :: "('a, 'w) ud_graph \<Rightarrow> bool" where
  "udg_inv g \<longleftrightarrow> at_inv (g_nodes g) \<and> at_ops (g_nodes g) = udg_aops (g_ops g)
     \<and> (\<forall>n\<in>udg_nodes g. at_inv (g_adjs g (n_id n)) \<and> at_ops (g_adjs g (n_id n)) = udg_node_aops (g_ops g)
          \<and> set (udg_adj g n) \<subseteq> udg_nodes g \<and> n_id n < g_next g)
     \<and> sym (udg_edges g) \<and> irrefl (udg_edges g) \<and> inj_on n_id (udg_nodes g)"

lemma udg_invD:
  assumes "udg_inv g"
  shows "at_inv (g_nodes g)" "at_ops (g_nodes g) = udg_aops (g_ops g)"
    "\<And>n. n \<in> udg_nodes g \<Longrightarrow> at_inv (g_adjs g (n_id n))"
    "\<And>n. n \<in> udg_nodes g \<Longrightarrow> at_ops (g_adjs g (n_id n)) = udg_node_aops (g_ops g)"
    "\<And>n. n \<in> udg_nodes g \<Longrightarrow> set (udg_adj g n) \<subseteq> udg_nodes g"
    "\<And>n. n \<in> udg_nodes g \<Longrightarrow> n_id n < g_next g"
    "sym (udg_edges g)" "irrefl (udg_edges g)" "inj_on n_id (udg_nodes g)"
    "total_cmp (udg_compare_nodes (g_ops g))"
  using assms at_invD(1) [of "g_nodes g"] unfolding udg_inv_def by (simp_all add: udg_aops_def)

lemma udg_ops_cmp [simp]:
  "ato_compare_fn (udg_aops ops) = udg_compare_nodes ops"
  "ato_compare_fn (udg_node_aops ops) = udg_compare_nodes ops"
  by (simp_all add: udg_aops_def udg_node_aops_def)

text \<open>Two nodes of the graph that compare equal are the same node.\<close>

lemma udg_node_unique:
  assumes "udg_inv g" "x \<in> udg_nodes g" "y \<in> udg_nodes g" "udg_compare_nodes (g_ops g) x y = 0"
  shows "x = y"
  using distinct_by_inj [OF at_invD(4,5) [OF udg_invD(1) [OF assms(1)]], of x y] assms
    udg_invD(2) [OF assms(1)] by (simp add: udg_nodes_def)

lemma udg_node_refl: "udg_inv g \<Longrightarrow> udg_compare_nodes (g_ops g) x x = 0"
  by (rule total_cmp_refl [OF udg_invD(10)])

lemma finite_udg_nodes [simp]: "finite (udg_nodes g)"
  by (simp add: udg_nodes_def)

section \<open>Sets of nodes in AVL trees\<close>

text \<open>A tree that holds the nodes \<open>S\<close> of the graph: an adjacency tree, or a visited set.\<close>

definition node_set :: "('a, 'w) ud_graph \<Rightarrow> 'a node_tree \<Rightarrow> 'a udg_node set \<Rightarrow> bool" where
  "node_set g t S \<longleftrightarrow> at_inv t \<and> at_ops t = udg_node_aops (g_ops g) \<and> set (at_list t) = S \<and> S \<subseteq> udg_nodes g"

lemma node_set_find:
  assumes g: "udg_inv g" and t: "node_set g t S" and n: "n \<in> udg_nodes g"
  shows "at_find n (t, m, w) = (if n \<in> S then Done n (t, m, w) else Fail ENOENT (t, m, w))"
proof (cases "n \<in> S")
  case True
  with t udg_node_refl [OF g] show ?thesis by (simp add: node_set_def at_find_hit)
next
  case False
  have "\<forall>y\<in>set (at_list t). at_cmp t n y \<noteq> 0"
    using t udg_node_unique [OF g n] False by (auto simp: node_set_def)
  with False show ?thesis by (simp add: at_find_miss)
qed

lemma node_set_insert:
  assumes g: "udg_inv g" and t: "node_set g t S" and n: "n \<in> udg_nodes g" "n \<notin> S" and m: "never_fails m"
  shows "\<exists>t' m'. at_insert n (t, m, w) = Done () (t', m', w) \<and> node_set g t' (insert n S) \<and> never_fails m'"
proof -
  obtain m' where m': "malloc m = (True, m')" "never_fails m'" using malloc_ok [OF m] by blast
  have new: "\<forall>y\<in>set (at_list t). at_cmp t n y \<noteq> 0"
    using t udg_node_unique [OF g n(1)] n(2) by (auto simp: node_set_def)
  have inv: "at_inv t" using t by (simp add: node_set_def)
  obtain r where r: "at_insert n (t, m, w) =
      Done () (t\<lparr>at_root := r, at_nnodes := Suc (at_nnodes t)\<rparr>, m', w)"
    "avl_ok r" "atn_inorder r = ins_by (at_cmp t) n (at_list t)"
    by (rule at_insert_new [OF inv m'(1) new, of w])
  with at_inv_insert [OF inv r(2,3) new] t n m'(2) show ?thesis by (simp add: node_set_def)
qed

lemma node_set_insert_dup:
  assumes g: "udg_inv g" and t: "node_set g t S" and n: "n \<in> S" and m: "malloc m = (True, m')"
  shows "at_insert n (t, m, w) = Fail EEXIST (t, m', w)"
  using at_insert_dup [of t m m' n n w] t n m udg_node_refl [OF g] by (simp add: node_set_def)

lemma node_set_remove:
  assumes g: "udg_inv g" and t: "node_set g t S" and n: "n \<in> S"
  shows "\<exists>t'. at_remove n (t, m, w) = Done () (t', m, w) \<and> node_set g t' (S - {n})"
proof -
  have inv: "at_inv t" "n \<in> set (at_list t)" "at_cmp t n n = 0"
    using t n udg_node_refl [OF g] by (auto simp: node_set_def)
  obtain r where r: "at_remove n (t, m, w) =
      Done () (t\<lparr>at_root := r, at_nnodes := at_nnodes t - 1\<rparr>, m, atn_destroy t n w)"
    "avl_ok r" "atn_inorder r = del_by (at_cmp t) n (at_list t)"
    by (rule at_remove_hit [OF inv, of m w])
  have "atn_destroy t n w = w" using t by (simp add: atn_destroy_def node_set_def udg_node_aops_def)
  moreover have "set (del_by (at_cmp t) n (at_list t)) = S - {n}"
    using at_remove_contents [OF inv(1,2)] t by (simp add: node_set_def)
  ultimately show ?thesis using r at_inv_remove [OF inv(1) r(2,3) inv(2)] t
    by (auto simp: node_set_def)
qed

lemma udg_adj_node_set:
  "udg_inv g \<Longrightarrow> n \<in> udg_nodes g \<Longrightarrow> node_set g (g_adjs g (n_id n)) (set (udg_adj g n))"
  using udg_invD(3-5) [of g n] by (simp add: node_set_def udg_adj_def)

lemma node_set_empty:
  "udg_inv g \<Longrightarrow> node_set g \<lparr>at_root = Null, at_ops = udg_node_aops (g_ops g), at_nnodes = 0\<rparr> {}"
  using udg_invD(10) [of g] by (simp add: node_set_def at_inv_def at_list_def)

section \<open>Depth-first iteration\<close>

text \<open>
  The result of a search agrees with a plain iteration over the data of the nodes in \<open>ord\<close>:
  same context, same stop, same error. Where it ran to the end the visited set is \<open>S\<close>.
\<close>

definition df_agrees :: "('a, 'w) ud_graph \<Rightarrow> 'a udg_node set \<Rightarrow> (bool, ('a, 'c) df_state) outcome
    \<Rightarrow> (bool, 'c) outcome \<Rightarrow> bool" where
  "df_agrees g S out res \<longleftrightarrow>
     (case res of
        Abort \<Rightarrow> out = Abort
      | Fail e c \<Rightarrow> (\<exists>v m. out = Fail e (v, m, c) \<and> never_fails m)
      | Done stop c \<Rightarrow> (\<exists>v m. out = Done stop (v, m, c) \<and> never_fails m \<and> (\<not> stop \<longrightarrow> node_set g v S)))"

text \<open>What is found from a state where the nodes of \<open>S\<close> have been visited.\<close>

definition df_order :: "('a, 'w) ud_graph \<Rightarrow> 'a udg_node set \<Rightarrow> 'a udg_node set \<Rightarrow> 'a udg_node list \<Rightarrow> bool" where
  "df_order g S from ord \<longleftrightarrow> distinct ord \<and> set ord \<inter> S = {} \<and> set ord \<subseteq> (udg_edges g)\<^sup>* `` from
     \<and> (\<forall>x\<in>set ord. set (udg_adj g x) \<subseteq> S \<union> set ord) \<and> from \<subseteq> S \<union> set ord"

text \<open>A visit from any state with the visited set \<open>S\<close> goes through the same nodes.\<close>

definition df_visits :: "('a, 'w) ud_graph \<Rightarrow> ('a, 'c) callback \<Rightarrow> 'a udg_node set \<Rightarrow> 'a udg_node list
    \<Rightarrow> (('a, 'c) df_state \<Rightarrow> (bool, ('a, 'c) df_state) outcome) \<Rightarrow> bool" where
  "df_visits g cb S ord run \<longleftrightarrow>
     (\<forall>v m c. node_set g v S \<longrightarrow> never_fails m \<longrightarrow>
        df_agrees g (S \<union> set ord) (run (v, m, c)) (iterate_list cb (map n_data ord) c))"

lemma df_visitsD:
  "df_visits g cb S ord run \<Longrightarrow> node_set g v S \<Longrightarrow> never_fails m \<Longrightarrow>
   df_agrees g (S \<union> set ord) (run (v, m, c)) (iterate_list cb (map n_data ord) c)"
  unfolding df_visits_def by blast

definition df_adjs_run :: "('a udg_node \<Rightarrow> (('a, 'c) df_state, bool) prog) \<Rightarrow> 'a udg_node list
    \<Rightarrow> (('a, 'c) df_state, bool) prog" where
  "df_adjs_run visit adjs st =
     (case iterate_list (udg_iterate_df_adjs_cb visit) adjs (st, False) of
        Abort \<Rightarrow> Abort | Fail e (st, _) \<Rightarrow> Fail e st | Done _ (st, stop) \<Rightarrow> Done stop st)"

lemma df_adjs_run_simps:
  "df_adjs_run visit [] st = Done False st"
  "df_adjs_run visit (a # as) st =
     (case visit a st of
        Abort \<Rightarrow> Abort
      | Fail e st' \<Rightarrow> Fail e st'
      | Done stop st' \<Rightarrow> if stop then Done True st' else df_adjs_run visit as st')"
  by (auto simp: df_adjs_run_def udg_iterate_df_adjs_cb_def split: outcome.splits)

lemma df_order_append:
  assumes "df_order g S A o1" "df_order g (S \<union> set o1) B o2"
  shows "df_order g S (A \<union> B) (o1 @ o2)"
  using assms unfolding df_order_def by (auto simp: Image_Un)

lemma df_adjs_list:
  assumes visit: "\<And>n S. n \<in> udg_nodes g \<Longrightarrow> S \<subseteq> udg_nodes g \<Longrightarrow> card (udg_nodes g - S) < depth \<Longrightarrow>
        \<exists>ord. df_order g S {n} ord \<and> df_visits g cb S ord (visit n)"
    and ord_nodes: "\<And>n S ord. n \<in> udg_nodes g \<Longrightarrow> df_order g S {n} ord \<Longrightarrow> set ord \<subseteq> udg_nodes g"
  shows "set adjs \<subseteq> udg_nodes g \<Longrightarrow> S \<subseteq> udg_nodes g \<Longrightarrow> card (udg_nodes g - S) < depth \<Longrightarrow>
    \<exists>ord. df_order g S (set adjs) ord \<and> df_visits g cb S ord (df_adjs_run visit adjs)"
proof (induction adjs arbitrary: S)
  case Nil
  then show ?case
    by (intro exI [of _ "[]"]) (auto simp: df_order_def df_visits_def df_agrees_def df_adjs_run_simps)
next
  case (Cons a adjs)
  from visit [OF _ Cons.prems(2,3), of a] Cons.prems(1) obtain o1 where
    o1: "df_order g S {a} o1" and v1: "df_visits g cb S o1 (visit a)" by auto
  have sub: "S \<union> set o1 \<subseteq> udg_nodes g" using ord_nodes [OF _ o1] Cons.prems(1,2) by auto
  have "card (udg_nodes g - (S \<union> set o1)) \<le> card (udg_nodes g - S)" by (rule card_mono) auto
  with Cons.IH [OF _ sub] Cons.prems(1,3) obtain o2 where
    o2: "df_order g (S \<union> set o1) (set adjs) o2"
    and v2: "df_visits g cb (S \<union> set o1) o2 (df_adjs_run visit adjs)" by auto
  have "df_visits g cb S (o1 @ o2) (df_adjs_run visit (a # adjs))"
    unfolding df_visits_def
  proof (intro allI impI)
    fix v m c assume v: "node_set g v S" and m: "never_fails m"
    note 1 = df_visitsD [OF v1 v m, of c]
    show "df_agrees g (S \<union> set (o1 @ o2)) (df_adjs_run visit (a # adjs) (v, m, c))
        (iterate_list cb (map n_data (o1 @ o2)) c)"
    proof (cases "iterate_list cb (map n_data o1) c")
      case (Done stop c1)
      with 1 obtain v' m' where r: "visit a (v, m, c) = Done stop (v', m', c1)" "never_fails m'"
        "\<not> stop \<longrightarrow> node_set g v' (S \<union> set o1)" by (auto simp: df_agrees_def)
      show ?thesis
      proof (cases stop)
        case True
        with Done r show ?thesis
          by (simp add: df_adjs_run_simps iterate_list_append df_agrees_def)
      next
        case False
        with r df_visitsD [OF v2, of v' m' c1] Done show ?thesis
          by (simp add: df_adjs_run_simps iterate_list_append Un_assoc)
      qed
    next
      case (Fail e c1)
      with 1 show ?thesis by (auto simp: df_adjs_run_simps iterate_list_append df_agrees_def)
    next
      case Abort
      with 1 show ?thesis by (simp add: df_adjs_run_simps iterate_list_append df_agrees_def)
    qed
  qed
  moreover have "df_order g S (set (a # adjs)) (o1 @ o2)"
    using df_order_append [OF o1 o2] by simp
  ultimately show ?case by blast
qed

lemma df_order_nodes:
  assumes "udg_inv g" "from \<subseteq> udg_nodes g" "df_order g S from ord"
  shows "set ord \<subseteq> udg_nodes g"
proof -
  have closed: "y \<in> udg_nodes g" if "(x, y) \<in> (udg_edges g)\<^sup>*" "x \<in> udg_nodes g" for x y
    using that by (induction) (use udg_invD(5) [OF assms(1)] in \<open>auto simp: udg_edges_def\<close>)
  have "set ord \<subseteq> (udg_edges g)\<^sup>* `` from" using assms(3) by (simp add: df_order_def)
  with assms(2) closed show ?thesis by blast
qed

lemma at_iterate_df:
  "at_iterate (g_adjs g (n_id n)) (udg_iterate_df_adjs_cb visit) (st, False) =
     (case iterate_list (udg_iterate_df_adjs_cb visit) (udg_adj g n) (st, False) of
        Abort \<Rightarrow> Abort | Fail e c' \<Rightarrow> Fail e c' | Done stop c' \<Rightarrow> Done () c')"
  by (simp add: at_iterate_def at_iterate_node_eq udg_adj_def at_list_def)

lemma udg_df_node_step:
  "udg_df_node (Suc depth) g cb n (visited, m, c) =
     (case at_find n (visited, m, ()) of
        Abort \<Rightarrow> Abort
      | Done _ _ \<Rightarrow> Done False (visited, m, c)
      | Fail _ _ \<Rightarrow>
          (case at_insert n (visited, m, ()) of
             Abort \<Rightarrow> Abort
           | Fail e (visited1, m1, _) \<Rightarrow> Fail e (visited1, m1, c)
           | Done _ (visited1, m1, _) \<Rightarrow>
               (case df_adjs_run (udg_df_node depth g cb) (udg_adj g n) (visited1, m1, c) of
                  Abort \<Rightarrow> Abort
                | Fail e st2 \<Rightarrow> Fail e st2
                | Done stop (visited2, m2, c2) \<Rightarrow>
                    if stop then Done True (visited2, m2, c2)
                    else case cb (n_data n) c2 of
                      Abort \<Rightarrow> Abort
                    | Fail e c3 \<Rightarrow> Fail e (visited2, m2, c3)
                    | Done s c3 \<Rightarrow> Done s (visited2, m2, c3))))"
  by (simp add: at_iterate_df df_adjs_run_def split: outcome.splits prod.splits)

lemma udg_df_node_correct:
  assumes g: "udg_inv g"
  shows "n \<in> udg_nodes g \<Longrightarrow> S \<subseteq> udg_nodes g \<Longrightarrow> card (udg_nodes g - S) < depth \<Longrightarrow>
    \<exists>ord. df_order g S {n} ord \<and> df_visits g cb S ord (udg_df_node depth g cb n)"
proof (induction depth arbitrary: n S)
  case (Suc depth)
  show ?case
  proof (cases "n \<in> S")
    case True
    have "df_visits g cb S [] (udg_df_node (Suc depth) g cb n)"
      unfolding df_visits_def
    proof (intro allI impI)
      fix v m c assume v: "node_set g v S" "never_fails m"
      have "at_find n (v, m, ()) = Done n (v, m, ())"
        using node_set_find [OF g v(1) Suc.prems(1), of m "()"] True by simp
      with v show "df_agrees g (S \<union> set []) (udg_df_node (Suc depth) g cb n (v, m, c))
          (iterate_list cb (map n_data []) c)"
        by (simp add: df_agrees_def)
    qed
    moreover have "df_order g S {n} []" using True by (simp add: df_order_def)
    ultimately show ?thesis by blast
  next
    case False
    let ?S = "insert n S"
    have sub: "?S \<subseteq> udg_nodes g" using Suc.prems by simp
    have "udg_nodes g - ?S \<subset> udg_nodes g - S" using Suc.prems(1) False by blast
    then have "card (udg_nodes g - ?S) < card (udg_nodes g - S)" by (intro psubset_card_mono) simp_all
    with Suc.prems(3) have d: "card (udg_nodes g - ?S) < depth" by simp
    have "\<exists>ord. df_order g ?S (set (udg_adj g n)) ord
        \<and> df_visits g cb ?S ord (df_adjs_run (udg_df_node depth g cb) (udg_adj g n))"
    proof (rule df_adjs_list [where depth = depth])
      fix k T ord assume "k \<in> udg_nodes g" "df_order g T {k} ord"
      then show "set ord \<subseteq> udg_nodes g" using df_order_nodes [OF g, of "{k}" T ord] by simp
    qed (use Suc.IH udg_invD(5) [OF g Suc.prems(1)] sub d in auto)
    then obtain ord where
      o: "df_order g ?S (set (udg_adj g n)) ord"
      and v: "df_visits g cb ?S ord (df_adjs_run (udg_df_node depth g cb) (udg_adj g n))" by blast
    have edge: "(n, y) \<in> udg_edges g" if "y \<in> set (udg_adj g n)" for y
      using that Suc.prems(1) by (simp add: udg_edges_def)
    have "(udg_edges g)\<^sup>* `` set (udg_adj g n) \<subseteq> (udg_edges g)\<^sup>* `` {n}"
      using edge by (auto intro: converse_rtrancl_into_rtrancl)
    moreover have "set ord \<subseteq> (udg_edges g)\<^sup>* `` set (udg_adj g n)" using o by (simp add: df_order_def)
    ultimately have "set ord \<subseteq> (udg_edges g)\<^sup>* `` {n}" by (rule order_trans [rotated])
    then have "df_order g S {n} (ord @ [n])"
      using o False unfolding df_order_def by auto
    moreover have "df_visits g cb S (ord @ [n]) (udg_df_node (Suc depth) g cb n)"
      unfolding df_visits_def
    proof (intro allI impI)
      fix vt m c assume vt: "node_set g vt S" and m: "never_fails m"
      from node_set_insert [OF g vt Suc.prems(1) False m, of "()"] obtain v1 m1 where
        i: "at_insert n (vt, m, ()) = Done () (v1, m1, ())" "node_set g v1 ?S" "never_fails m1" by blast
      note 1 = df_visitsD [OF v i(2,3), of c]
      have S': "?S \<union> set ord = S \<union> set (ord @ [n])" by auto
      show "df_agrees g (S \<union> set (ord @ [n])) (udg_df_node (Suc depth) g cb n (vt, m, c))
          (iterate_list cb (map n_data (ord @ [n])) c)"
        using 1 i(1) False unfolding S'
        by (auto simp: udg_df_node_step node_set_find [OF g vt Suc.prems(1)] iterate_list_append
            df_agrees_def simp del: udg_df_node.simps split: outcome.splits if_splits)
    qed
    ultimately show ?thesis by blast
  qed
qed simp

section \<open>Breadth-first iteration\<close>

lemma bf_add_adjs:
  assumes g: "udg_inv g"
  shows "set adjs \<subseteq> udg_nodes g \<Longrightarrow> distinct adjs \<Longrightarrow> node_set g v W \<Longrightarrow> fi_inv fi \<Longrightarrow> never_fails m \<Longrightarrow>
    \<exists>v' fi' m'. iterate_list udg_iterate_bf_add_adjs_cb adjs (v, fi, m) = Done False (v', fi', m')
      \<and> node_set g v' (W \<union> set adjs) \<and> fi_inv fi' \<and> never_fails m'
      \<and> fi_list fi' = fi_list fi @ filter (\<lambda>x. x \<notin> W) adjs"
proof (induction adjs arbitrary: v W fi m)
  case (Cons a adjs)
  have a: "a \<in> udg_nodes g" using Cons.prems(1) by simp
  note find = node_set_find [OF g Cons.prems(3) a, of m "()"]
  show ?case
  proof (cases "a \<in> W")
    case True
    with find have "udg_iterate_bf_add_adjs_cb a (v, fi, m) = Done False (v, fi, m)"
      by (simp add: udg_iterate_bf_add_adjs_cb_def)
    with Cons.IH [OF _ _ Cons.prems(3-5)] Cons.prems(1,2) True show ?thesis by (auto simp: insert_absorb)
  next
    case False
    from fi_enq_ok [OF Cons.prems(4,5), of a "()"] obtain fi1 m1 where
      e: "fi_enq a (fi, m, ()) = Done () (fi1, m1, ())" "fi_inv fi1" "fi_list fi1 = fi_list fi @ [a]"
        "never_fails m1" by blast
    from node_set_insert [OF g Cons.prems(3) a False e(4), of "()"] obtain v2 m2 where
      i: "at_insert a (v, m1, ()) = Done () (v2, m2, ())" "node_set g v2 (insert a W)" "never_fails m2" by blast
    have step: "udg_iterate_bf_add_adjs_cb a (v, fi, m) = Done False (v2, fi1, m2)"
      using find False e i by (simp add: udg_iterate_bf_add_adjs_cb_def)
    have "filter (\<lambda>x. x \<notin> insert a W) adjs = filter (\<lambda>x. x \<notin> W) adjs"
      using Cons.prems(2) by (intro filter_cong) auto
    with Cons.IH [OF _ _ i(2) e(2) i(3)] Cons.prems(1,2) e(3) False step show ?thesis by auto
  qed
qed simp

definition bf_ok :: "('a, 'w) ud_graph \<Rightarrow> 'a udg_node set \<Rightarrow> 'a udg_node list \<Rightarrow> bool" where
  "bf_ok g W q \<longleftrightarrow> W \<subseteq> udg_nodes g \<and> distinct q \<and> set q \<subseteq> W
     \<and> (\<forall>x\<in>W - set q. set (udg_adj g x) \<subseteq> W)"

text \<open>The nodes taken off the queue from the state \<open>W\<close>, \<open>q\<close> on.\<close>

definition bf_order :: "('a, 'w) ud_graph \<Rightarrow> 'a udg_node set \<Rightarrow> 'a udg_node list \<Rightarrow> 'a udg_node list \<Rightarrow> bool" where
  "bf_order g W q ord \<longleftrightarrow> distinct ord \<and> set ord \<inter> (W - set q) = {} \<and> set q \<subseteq> set ord
     \<and> set ord \<subseteq> (udg_edges g)\<^sup>* `` set q \<and> (\<forall>x\<in>set ord. set (udg_adj g x) \<subseteq> (W - set q) \<union> set ord)"

definition bf_agrees :: "(unit, 's \<times> 'c) outcome option \<Rightarrow> (bool, 'c) outcome \<Rightarrow> bool" where
  "bf_agrees out res \<longleftrightarrow>
     (case res of
        Abort \<Rightarrow> out = Some Abort
      | Fail e c \<Rightarrow> (\<exists>s. out = Some (Fail e (s, c)))
      | Done stop c \<Rightarrow> (\<exists>s. out = Some (Done () (s, c))))"

lemma udg_adj_distinct: "udg_inv g \<Longrightarrow> n \<in> udg_nodes g \<Longrightarrow> distinct (udg_adj g n)"
  unfolding udg_adj_def using at_invD(4,5) [OF udg_invD(3)] by (rule distinct_by_distinct)

lemma at_iterate_adj:
  "at_iterate (g_adjs g (n_id n)) cb st =
     (case iterate_list cb (udg_adj g n) st of
        Abort \<Rightarrow> Abort | Fail e c' \<Rightarrow> Fail e c' | Done stop c' \<Rightarrow> Done () c')"
  by (simp add: at_iterate_list udg_adj_def)

lemma fi_empty_list: "fi_empty fi \<longleftrightarrow> fi_list fi = []"
  by (simp add: fi_empty_def fi_list_Nil)

text \<open>Taking a node off the queue and adding its new neighbours keeps the invariant.\<close>

lemma bf_ok_step:
  assumes g: "udg_inv g" and ok: "bf_ok g W (x # q)"
  shows "bf_ok g (W \<union> set (udg_adj g x)) (q @ filter (\<lambda>y. y \<notin> W) (udg_adj g x))"
    and "(W \<union> set (udg_adj g x)) - set (q @ filter (\<lambda>y. y \<notin> W) (udg_adj g x)) = insert x (W - set (x # q))"
proof -
  have x: "x \<in> udg_nodes g" "x \<in> W" "x \<notin> set q" using ok by (auto simp: bf_ok_def)
  show eq: "(W \<union> set (udg_adj g x)) - set (q @ filter (\<lambda>y. y \<notin> W) (udg_adj g x)) = insert x (W - set (x # q))"
    using x ok by (auto simp: bf_ok_def)
  show "bf_ok g (W \<union> set (udg_adj g x)) (q @ filter (\<lambda>y. y \<notin> W) (udg_adj g x))"
    using ok udg_invD(5) [OF g x(1)] udg_adj_distinct [OF g x(1)] unfolding bf_ok_def eq by auto
qed

lemma bf_order_step:
  assumes ok: "bf_ok g W (x # q)" and g: "udg_inv g"
    and o: "bf_order g (W \<union> set (udg_adj g x)) (q @ filter (\<lambda>y. y \<notin> W) (udg_adj g x)) ord"
  shows "bf_order g W (x # q) (x # ord)"
proof -
  let ?q = "q @ filter (\<lambda>y. y \<notin> W) (udg_adj g x)"
  have x: "x \<in> udg_nodes g" using ok by (auto simp: bf_ok_def)
  have edge: "(x, y) \<in> udg_edges g" if "y \<in> set (udg_adj g x)" for y
    using that x by (simp add: udg_edges_def)
  have "(udg_edges g)\<^sup>* `` set ?q \<subseteq> (udg_edges g)\<^sup>* `` set (x # q)"
    using edge by (auto intro: converse_rtrancl_into_rtrancl)
  moreover have "set (udg_adj g x) \<subseteq> (W - set (x # q)) \<union> set (x # ord)"
    using o ok unfolding bf_order_def by auto
  ultimately show ?thesis
    using o unfolding bf_order_def bf_ok_step(2) [OF g ok] by auto
qed

lemma udg_bf_loop_correct:
  assumes g: "udg_inv g"
  shows "bf_ok g W q \<Longrightarrow> \<exists>ord. bf_order g W q ord \<and>
    (\<forall>v fi m c. node_set g v W \<longrightarrow> fi_inv fi \<longrightarrow> fi_list fi = q \<longrightarrow> never_fails m \<longrightarrow>
      bf_agrees (udg_bf_loop g cb ((v, fi, m), c)) (iterate_list cb (map n_data ord) c))"
proof (induction "card (udg_nodes g - W) + length q" arbitrary: W q rule: less_induct)
  case less
  show ?case
  proof (cases q)
    case Nil
    then have "bf_order g W q []" by (simp add: bf_order_def)
    moreover have "bf_agrees (udg_bf_loop g cb ((v, fi, m), c)) (iterate_list cb (map n_data []) c)"
      if "fi_list fi = q" for v fi m c
      using that Nil by (simp add: udg_bf_loop.simps bf_agrees_def fi_empty_list)
    ultimately show ?thesis by blast
  next
    case (Cons x q1)
    let ?new = "filter (\<lambda>y. y \<notin> W) (udg_adj g x)" and ?W = "W \<union> set (udg_adj g x)"
    have ok: "bf_ok g W (x # q1)" using less.prems Cons by simp
    then have x: "x \<in> udg_nodes g" by (auto simp: bf_ok_def)
    note adj = udg_invD(5) [OF g x] udg_adj_distinct [OF g x]
    have "udg_nodes g - W = (udg_nodes g - ?W) \<union> set ?new" using adj(1) by auto
    then have "card (udg_nodes g - W) = card (udg_nodes g - ?W) + length ?new"
      using adj(2) by (simp add: card_Un_disjoint distinct_card [symmetric] Int_def)
    then have "card (udg_nodes g - ?W) + length (q1 @ ?new) < card (udg_nodes g - W) + length q"
      using Cons by simp
    from less.hyps [OF this bf_ok_step(1) [OF g ok]] obtain ord where
      o: "bf_order g ?W (q1 @ ?new) ord" and
      IH: "\<And>v fi m c. node_set g v ?W \<Longrightarrow> fi_inv fi \<Longrightarrow> fi_list fi = q1 @ ?new \<Longrightarrow> never_fails m \<Longrightarrow>
        bf_agrees (udg_bf_loop g cb ((v, fi, m), c)) (iterate_list cb (map n_data ord) c)" by blast
    have "bf_agrees (udg_bf_loop g cb ((v, fi, m), c)) (iterate_list cb (map n_data (x # ord)) c)"
      if v: "node_set g v W" and fi: "fi_inv fi" "fi_list fi = q" and m: "never_fails m" for v fi m c
    proof -
      from fi_deq_Cons [OF fi(1), of x q1 m "()"] fi(2) Cons obtain fi1 where
        d: "fi_deq (fi, m, ()) = Done x (fi1, m, ())" "fi_inv fi1" "fi_list fi1 = q1" by auto
      from bf_add_adjs [OF g adj v d(2) m] obtain v2 fi2 m2 where
        i: "iterate_list udg_iterate_bf_add_adjs_cb (udg_adj g x) (v, fi1, m) = Done False (v2, fi2, m2)"
          "node_set g v2 ?W" "fi_inv fi2" "never_fails m2" "fi_list fi2 = q1 @ ?new"
        using d(3) by auto
      have ne: "\<not> fi_empty fi" using fi(2) Cons by (simp add: fi_empty_list)
      have step: "udg_bf_loop g cb ((v, fi, m), c) =
          (case cb (n_data x) c of
             Abort \<Rightarrow> Some Abort
           | Fail e c1 \<Rightarrow> Some (Fail e ((v, fi1, m), c1))
           | Done stop c1 \<Rightarrow>
               if stop then Some (Done () ((v, fi1, m), c1))
               else udg_bf_loop g cb ((v2, fi2, m2), c1))"
        using d(1) i(1) ne
        by (simp add: udg_bf_loop.simps [of g cb "((v, fi, m), c)"] at_iterate_adj split: outcome.splits)
      show ?thesis
      proof (cases "cb (n_data x) c")
        case (Done stop c1)
        with IH [OF i(2,3,5,4), of c1] show ?thesis
          by (cases stop) (simp_all add: step, simp add: bf_agrees_def)
      qed (simp_all add: step bf_agrees_def)
    qed
    with bf_order_step [OF ok g o] Cons show ?thesis by blast
  qed
qed

section \<open>Changing the graph\<close>

lemma node_set_insert_cases:
  assumes g: "udg_inv g" and t: "node_set g t S" and n: "n \<in> udg_nodes g"
  shows "\<exists>m'. (never_fails m \<longrightarrow> never_fails m')
    \<and> ((\<exists>t'. at_insert n (t, m, w) = Done () (t', m', w) \<and> n \<notin> S \<and> node_set g t' (insert n S))
    \<or> (\<exists>e. at_insert n (t, m, w) = Fail e (t, m', w) \<and> (never_fails m \<longrightarrow> e = EEXIST \<and> n \<in> S)))"
proof -
  have "at_inv t" and S: "set (at_list t) = S" "at_ops t = udg_node_aops (g_ops g)"
    using t by (simp_all add: node_set_def)
  have "(\<forall>y\<in>S. udg_compare_nodes (g_ops g) n y \<noteq> 0) \<longleftrightarrow> n \<notin> S"
    "(\<exists>y\<in>S. udg_compare_nodes (g_ops g) n y = 0) \<longleftrightarrow> n \<in> S"
    using t udg_node_unique [OF g n] udg_node_refl [OF g] by (auto simp: node_set_def)
  with at_insert_cases [OF \<open>at_inv t\<close>, of m n w] t n show ?thesis by (simp add: node_set_def S)
qed

lemma udg_set_adjs_simps [simp]:
  "g_nodes (udg_set_adjs n t g) = g_nodes g" "g_ops (udg_set_adjs n t g) = g_ops g"
  "g_next (udg_set_adjs n t g) = g_next g"
  "g_adjs (udg_set_adjs n t g) i = (if i = n_id n then t else g_adjs g i)"
  "udg_nodes (udg_set_adjs n t g) = udg_nodes g"
  by (simp_all add: udg_set_adjs_def udg_nodes_def)

text \<open>A graph with the nodes of \<open>g\<close> whose adjacency trees hold the sets \<open>A\<close>.\<close>

lemma udg_inv_adjs:
  assumes g: "udg_inv g" and eq: "g_nodes g' = g_nodes g" "g_ops g' = g_ops g" "g_next g' = g_next g"
    and A: "\<And>k. k \<in> udg_nodes g \<Longrightarrow> node_set g (g_adjs g' (n_id k)) (A k)"
    and E: "E = {(x, y). x \<in> udg_nodes g \<and> y \<in> A x}" "sym E" "irrefl E"
  shows "udg_inv g'" and "udg_edges g' = E"
proof -
  have nodes: "udg_nodes g' = udg_nodes g" by (simp add: udg_nodes_def eq)
  have adj: "set (udg_adj g' k) = A k" if "k \<in> udg_nodes g" for k
    using A [OF that] by (simp add: udg_adj_def node_set_def)
  show edges: "udg_edges g' = E" using adj by (auto simp: udg_edges_def nodes E(1))
  show "udg_inv g'"
    using g A adj E(2,3) unfolding udg_inv_def edges nodes eq by (auto simp: node_set_def)
qed

lemma udg_add_edge_result:
  assumes g: "udg_inv g" and n: "n1 \<in> udg_nodes g" "n2 \<in> udg_nodes g"
  shows "\<exists>g' m'. udg_inv g' \<and> udg_nodes g' = udg_nodes g \<and> g_ops g' = g_ops g
    \<and> (never_fails m \<longrightarrow> never_fails m')
    \<and> (udg_add_edge n1 n2 (g, m, w) = Done () (g', m', w) \<and> n1 \<noteq> n2 \<and> (n1, n2) \<notin> udg_edges g
         \<and> udg_edges g' = udg_edges g \<union> {(n1, n2), (n2, n1)}
       \<or> (\<exists>e. udg_add_edge n1 n2 (g, m, w) = Fail e (g', m', w) \<and> udg_edges g' = udg_edges g
           \<and> (never_fails m \<longrightarrow> e = EEXIST \<and> (n1 = n2 \<or> (n1, n2) \<in> udg_edges g))))"
proof -
  note D = udg_invD [OF g]
  let ?A = "\<lambda>k. set (udg_adj g k)"
  have adj: "node_set g (g_adjs g (n_id k)) (?A k)" if "k \<in> udg_nodes g" for k
    by (rule udg_adj_node_set [OF g that])
  have id: "n_id k = n_id l \<longleftrightarrow> k = l" if "k \<in> udg_nodes g" "l \<in> udg_nodes g" for k l
    using D(9) that by (auto simp: inj_on_def)
  have E: "udg_edges g = {(x, y). x \<in> udg_nodes g \<and> y \<in> ?A x}" by (simp add: udg_edges_def)
  have noself: "k \<notin> ?A k" if "k \<in> udg_nodes g" for k
    using D(8) that by (auto simp: irrefl_def udg_edges_def)
  from node_set_insert_cases [OF g adj [OF n(1)] n(2), of m "()"] show ?thesis
  proof (elim exE disjE conjE)
    fix m' e assume f: "at_insert n2 (g_adjs g (n_id n1), m, ()) = Fail e (g_adjs g (n_id n1), m', ())"
      and nf: "never_fails m \<longrightarrow> never_fails m'" "never_fails m \<longrightarrow> e = EEXIST \<and> n2 \<in> ?A n1"
    let ?g = "udg_set_adjs n1 (g_adjs g (n_id n1)) g"
    have A: "node_set g (g_adjs ?g (n_id k)) (?A k)" if "k \<in> udg_nodes g" for k
      using adj [OF that] id [OF that n(1)] by auto
    have "udg_inv ?g" "udg_edges ?g = udg_edges g"
      by (rule udg_inv_adjs [OF g _ _ _ A E D(7,8)]; simp)+
    with f nf n show ?thesis by (intro exI [of _ ?g] exI [of _ m']) (simp add: udg_add_edge_def E)
  next
    fix m1 t1 assume i1: "at_insert n2 (g_adjs g (n_id n1), m, ()) = Done () (t1, m1, ())"
      and nf1: "never_fails m \<longrightarrow> never_fails m1" and new: "n2 \<notin> ?A n1" and t1: "node_set g t1 (insert n2 (?A n1))"
    let ?g1 = "udg_set_adjs n1 t1 g"
    let ?S2 = "if n1 = n2 then insert n2 (?A n1) else ?A n2"
    have s2: "node_set g (g_adjs ?g1 (n_id n2)) ?S2"
      using t1 adj [OF n(2)] id [OF n] by auto
    from node_set_insert_cases [OF g s2 n(1), of m1 "()"] show ?thesis
    proof (elim exE disjE conjE)
      fix m2 e assume f: "at_insert n1 (g_adjs ?g1 (n_id n2), m1, ()) = Fail e (g_adjs ?g1 (n_id n2), m2, ())"
        and nf2: "never_fails m1 \<longrightarrow> never_fails m2" "never_fails m1 \<longrightarrow> e = EEXIST \<and> n1 \<in> ?S2"
      have sym: "n1 \<notin> ?A n2" if "n1 \<noteq> n2"
        using D(7) new n unfolding E sym_def by blast
      let ?g2 = "udg_set_adjs n2 (g_adjs ?g1 (n_id n2)) ?g1"
      have "node_set g (g_adjs ?g2 (n_id n1)) (insert n2 (?A n1))" using t1 id [OF n] by auto
      from node_set_remove [OF g this, of n2 m2 "()"] new obtain t3 where
        r: "at_remove n2 (g_adjs ?g2 (n_id n1), m2, ()) = Done () (t3, m2, ())" "node_set g t3 (?A n1)"
        by auto
      let ?g3 = "udg_set_adjs n1 t3 ?g2"
      have A: "node_set g (g_adjs ?g3 (n_id k)) (?A k)" if "k \<in> udg_nodes g" for k
        using r(2) adj [OF that] id [OF that n(1)] id [OF that n(2)] by auto
      have "udg_inv ?g3" "udg_edges ?g3 = udg_edges g"
        by (rule udg_inv_adjs [OF g _ _ _ A E D(7,8)]; simp)+
      moreover have "udg_add_edge n1 n2 (g, m, w) = Fail e (?g3, m2, w)"
        using i1 f r(1) by (simp add: udg_add_edge_def Let_def)
      moreover have "never_fails m \<longrightarrow> e = EEXIST \<and> n1 = n2"
        using nf1 nf2(2) sym by (cases "n1 = n2") simp_all
      ultimately show ?thesis using nf1 nf2(1)
        by (intro exI [of _ ?g3] exI [of _ m2]) simp
    next
      fix m2 t2 assume i2: "at_insert n1 (g_adjs ?g1 (n_id n2), m1, ()) = Done () (t2, m2, ())"
        and nf2: "never_fails m1 \<longrightarrow> never_fails m2" and new2: "n1 \<notin> ?S2" and t2: "node_set g t2 (insert n1 ?S2)"
      have ne: "n1 \<noteq> n2" using new2 by auto
      let ?g2 = "udg_set_adjs n2 t2 ?g1"
      let ?B = "\<lambda>k. if k = n1 then insert n2 (?A n1) else if k = n2 then insert n1 (?A n2) else ?A k"
      let ?E = "udg_edges g \<union> {(n1, n2), (n2, n1)}"
      have B: "node_set g (g_adjs ?g2 (n_id k)) (?B k)" if "k \<in> udg_nodes g" for k
        using t1 t2 ne adj [OF that] id [OF that n(1)] id [OF that n(2)] by auto
      have E2: "?E = {(x, y). x \<in> udg_nodes g \<and> y \<in> ?B x}" using ne n unfolding E by (auto split: if_splits)
      have "sym ?E" "irrefl ?E" using D(7,8) ne by (auto simp: sym_def irrefl_def)
      then have "udg_inv ?g2" "udg_edges ?g2 = ?E"
        by (intro udg_inv_adjs [OF g _ _ _ B E2]; simp)+
      with i1 i2 ne new n nf1 nf2 show ?thesis
        by (intro exI [of _ ?g2] exI [of _ m2]) (simp add: udg_add_edge_def Let_def E)
    qed
  qed
qed

lemma udg_create_inv:
  assumes "total_cmp (go_compare_fn ops)" and "udg_create ops m = (Some g, m')"
  shows "udg_inv g" and "udg_nodes g = {}" and "g_ops g = ops"
proof -
  have "total_cmp (udg_compare_nodes ops)"
    using assms(1) unfolding total_cmp_def udg_compare_nodes_def by blast
  with assms(2) show "udg_inv g" "udg_nodes g = {}" "g_ops g = ops"
    by (auto simp: udg_create_def at_create_def udg_inv_def udg_nodes_def udg_edges_def at_inv_def at_list_def
        sym_def irrefl_def split: prod.splits if_splits)
qed

lemma udg_add_node_result:
  assumes g: "udg_inv g" and m: "never_fails m"
  shows "if \<exists>x\<in>udg_nodes g. go_compare_fn (g_ops g) d (n_data x) = 0
    then \<exists>m'. udg_add_node d (g, m, w) = Fail EEXIST (g, m', w) \<and> never_fails m'
    else \<exists>n g' m'. udg_add_node d (g, m, w) = Done n (g', m', w) \<and> never_fails m' \<and> udg_inv g'
       \<and> n_data n = d \<and> n \<notin> udg_nodes g \<and> udg_nodes g' = insert n (udg_nodes g)
       \<and> udg_edges g' = udg_edges g \<and> g_ops g' = g_ops g"
proof -
  note D = udg_invD [OF g]
  let ?n = "\<lparr>n_id = g_next g, n_data = d\<rparr>"
  let ?E = "\<lparr>at_root = Null, at_ops = udg_node_aops (g_ops g), at_nnodes = 0\<rparr> :: 'a node_tree"
  obtain m1 where 1: "malloc m = (True, m1)" "never_fails m1" using malloc_ok [OF m] by blast
  obtain m2 where 2: "at_create (udg_node_aops (g_ops g)) m1 = (Some ?E, m2)" "never_fails m2"
    using at_create_result [OF 1(2), of "udg_node_aops (g_ops g)"] by blast
  obtain m3 where 3: "malloc m2 = (True, m3)" "never_fails m3" using malloc_ok [OF 2(2)] by blast
  have cmp: "at_cmp (g_nodes g) ?n x = go_compare_fn (g_ops g) d (n_data x)" for x
    by (simp add: D(2) udg_compare_nodes_def)
  show ?thesis
  proof (cases "\<exists>x\<in>udg_nodes g. go_compare_fn (g_ops g) d (n_data x) = 0")
    case True
    then obtain x where "x \<in> set (at_list (g_nodes g))" "at_cmp (g_nodes g) ?n x = 0"
      unfolding cmp by (auto simp: udg_nodes_def)
    from at_insert_dup [OF D(1) 3(1) this, of w] True 1 2 3 show ?thesis
      by (simp add: udg_add_node_def Let_def)
  next
    case False
    then have new: "\<forall>y\<in>set (at_list (g_nodes g)). at_cmp (g_nodes g) ?n y \<noteq> 0"
      unfolding cmp by (auto simp: udg_nodes_def)
    obtain r where r: "at_insert ?n (g_nodes g, m2, w) =
        Done () ((g_nodes g)\<lparr>at_root := r, at_nnodes := Suc (at_nnodes (g_nodes g))\<rparr>, m3, w)"
      "avl_ok r" "atn_inorder r = ins_by (at_cmp (g_nodes g)) ?n (at_list (g_nodes g))"
      by (rule at_insert_new [OF D(1) 3(1) new, of w])
    let ?t = "(g_nodes g)\<lparr>at_root := r, at_nnodes := Suc (at_nnodes (g_nodes g))\<rparr>"
    let ?g = "g\<lparr>g_nodes := ?t, g_adjs := (g_adjs g)(g_next g := ?E), g_next := g_next g + 1\<rparr>"
    have t: "at_inv ?t" "set (at_list ?t) = insert ?n (udg_nodes g)"
      using at_inv_insert [OF D(1) r(2,3) new] r(3) by (simp_all add: udg_nodes_def)
    have fresh: "n_id x \<noteq> g_next g" if "x \<in> udg_nodes g" for x using D(6) [OF that] by simp
    then have nn: "?n \<notin> udg_nodes g" by force
    have nodes: "udg_nodes ?g = insert ?n (udg_nodes g)" using t(2) by (simp add: udg_nodes_def)
    have adjs: "udg_adj ?g x = (if x = ?n then [] else udg_adj g x)" if "x \<in> udg_nodes ?g" for x
      using that fresh nodes by (auto simp: udg_adj_def at_list_def)
    have edges: "udg_edges ?g = udg_edges g"
      using adjs nn unfolding udg_edges_def nodes by (auto split: if_splits)
    have inv: "udg_inv ?g"
      unfolding udg_inv_def edges
    proof (intro conjI ballI)
      show "at_inv (g_nodes ?g)" "at_ops (g_nodes ?g) = udg_aops (g_ops ?g)" using t(1) D(2) by simp_all
      show "sym (udg_edges g)" "irrefl (udg_edges g)" by (rule D(7), rule D(8))
      show "inj_on n_id (udg_nodes ?g)" unfolding nodes using D(9) fresh fresh [THEN not_sym] by (auto simp: inj_on_def)
    next
      fix x assume x: "x \<in> udg_nodes ?g"
      have E: "at_inv ?E" using node_set_empty [OF g] by (simp add: node_set_def)
      show "at_inv (g_adjs ?g (n_id x))" "at_ops (g_adjs ?g (n_id x)) = udg_node_aops (g_ops ?g)"
        "n_id x < g_next ?g"
        using x E D(3,4) fresh D(6) unfolding nodes by (auto simp: less_Suc_eq)
      show "set (udg_adj ?g x) \<subseteq> udg_nodes ?g"
        unfolding adjs [OF x] nodes using D(5) x unfolding nodes by auto
    qed
    show ?thesis
      using False 1 2 3 r(1) inv nodes edges nn
      by (simp add: udg_add_node_def Let_def)
  qed
qed

end
