(* ===== verification/UdSpec.thy ===== *)
theory UdSpec
  imports UdCorrect
begin

text \<open>
  What building, checking and iterating an undirected graph
  (\<^verbatim>\<open>graphs/ud_graph/ud_graph.c\<close>) guarantees, over the nodes and edges of the graph alone.
\<close>

section \<open>A concrete graph\<close>

text \<open>Three nodes with the data 2, 3, 4 and an edge between 2 and 3.\<close>

definition int_gops :: "(int, unit) ud_graph_ops" where
  "int_gops = \<lparr>go_compare_fn = (\<lambda>x y. x - y), go_destroy_data_fn = None\<rparr>"

definition int_node :: "nat \<Rightarrow> int udg_node" where
  "int_node i = \<lparr>n_id = i, n_data = int i\<rparr>"

definition int_adjs :: "int udg_node atn \<Rightarrow> nat \<Rightarrow> int node_tree" where
  "int_adjs r k = \<lparr>at_root = r, at_ops = udg_node_aops int_gops, at_nnodes = k\<rparr>"

definition int_udg :: "(int, unit) ud_graph" where
  "int_udg = \<lparr>g_nodes = \<lparr>at_root = Atn 0 (int_node 3) (Atn 0 (int_node 2) Null Null) (Atn 0 (int_node 4) Null Null),
       at_ops = udg_aops int_gops, at_nnodes = 3\<rparr>,
     g_ops = int_gops,
     g_adjs = (\<lambda>i. if i = 2 then int_adjs (Atn 0 (int_node 3) Null Null) 1
                   else if i = 3 then int_adjs (Atn 0 (int_node 2) Null Null) 1 else int_adjs Null 0),
     g_next = 5\<rparr>"

lemma int_node_simps [simp]:
  "n_id (int_node i) = i" "n_data (int_node i) = int i" "int_node i = int_node j \<longleftrightarrow> i = j"
  by (simp_all add: int_node_def)

lemma int_udg_fields [simp]:
  "g_ops int_udg = int_gops" "g_next int_udg = 5"
  "udg_nodes int_udg = {int_node 2, int_node 3, int_node 4}"
  "udg_adj int_udg (int_node 2) = [int_node 3]" "udg_adj int_udg (int_node 3) = [int_node 2]"
  "udg_adj int_udg (int_node 4) = []"
  by (auto simp: int_udg_def udg_nodes_def udg_adj_def at_list_def int_adjs_def)

lemma int_udg_edges [simp]:
  "udg_edges int_udg = {(int_node 2, int_node 3), (int_node 3, int_node 2)}"
  by (auto simp: udg_edges_def)

lemma int_gops_cmp [simp]:
  "udg_compare_nodes int_gops x y = n_data x - n_data y" "total_cmp (udg_compare_nodes int_gops)"
  by (auto simp: udg_compare_nodes_def int_gops_def total_cmp_def)

lemma int_udg_inv [simp]: "udg_inv int_udg"
proof -
  have "at_inv (g_nodes int_udg)" "at_ops (g_nodes int_udg) = udg_aops (g_ops int_udg)"
    by (simp_all add: int_udg_def at_inv_def at_list_def)
  moreover have "at_inv (g_adjs int_udg i)" "at_ops (g_adjs int_udg i) = udg_node_aops int_gops" for i
    by (simp_all add: int_udg_def int_adjs_def at_inv_def at_list_def)
  moreover have "sym (udg_edges int_udg)" "irrefl (udg_edges int_udg)" "inj_on n_id (udg_nodes int_udg)"
    by (auto simp: sym_def irrefl_def)
  ultimately show ?thesis unfolding udg_inv_def by auto
qed

section \<open>Building\<close>

text \<open>
  C25: Adding a node gives a graph with exactly one node more, holding the data, with no edge;
  data that compares equal to a node's is refused with \<^verbatim>\<open>EEXIST\<close> and the graph stays as it was.
  The graph invariant (balanced trees of distinct nodes, adjacencies inside the graph, symmetric
  and without loops) is kept.
\<close>

theorem udg_add_node_correct:
  assumes "udg_inv g" "never_fails m"
  shows "if \<exists>x\<in>udg_nodes g. go_compare_fn (g_ops g) d (n_data x) = 0
    then \<exists>m'. udg_add_node d (g, m, w) = Fail EEXIST (g, m', w)
    else \<exists>n g' m'. udg_add_node d (g, m, w) = Done n (g', m', w) \<and> udg_inv g'
       \<and> n_data n = d \<and> n \<notin> udg_nodes g \<and> udg_nodes g' = insert n (udg_nodes g)
       \<and> udg_edges g' = udg_edges g"
  using udg_add_node_result [OF assms, of d w] by (auto split: if_splits)

theorem udg_add_node_correct_witness:
  "(\<exists>n g' m'. udg_add_node 7 (int_udg, [], ()) = Done n (g', m', ()) \<and> udg_inv g'
       \<and> n_data n = 7 \<and> udg_nodes g' = insert n (udg_nodes int_udg))
   \<and> (\<exists>m'. udg_add_node 2 (int_udg, [], ()) = Fail EEXIST (int_udg, m', ()))"
  using udg_add_node_correct [OF int_udg_inv never_fails_Nil, of 7 "()"]
    udg_add_node_correct [OF int_udg_inv never_fails_Nil, of 2 "()"]
  by (simp add: int_gops_def del: int_udg_inv; blast)

text \<open>
  C22: \<^verbatim>\<open>udg_add_edge\<close> adds an edge in both directions or not at all: an edge that exists and an
  edge from a node to itself are refused with \<^verbatim>\<open>EEXIST\<close>, and where the second half cannot be
  added, for want of memory too, the first is taken back.
\<close>

theorem udg_add_edge_both_or_none:
  assumes "udg_inv g" "n1 \<in> udg_nodes g" "n2 \<in> udg_nodes g"
  shows "\<exists>g' m'. udg_inv g' \<and> udg_nodes g' = udg_nodes g
    \<and> (udg_add_edge n1 n2 (g, m, w) = Done () (g', m', w) \<and> n1 \<noteq> n2 \<and> (n1, n2) \<notin> udg_edges g
         \<and> udg_edges g' = udg_edges g \<union> {(n1, n2), (n2, n1)}
       \<or> (\<exists>e. udg_add_edge n1 n2 (g, m, w) = Fail e (g', m', w) \<and> udg_edges g' = udg_edges g
           \<and> (never_fails m \<longrightarrow> e = EEXIST \<and> (n1 = n2 \<or> (n1, n2) \<in> udg_edges g))))"
  using udg_add_edge_result [OF assms, of m w] by blast

theorem udg_add_edge_both_or_none_witness:
  "(\<exists>g' m'. udg_inv g' \<and> udg_add_edge (int_node 2) (int_node 4) (int_udg, [], ()) = Done () (g', m', ())
      \<and> udg_edges g' = udg_edges int_udg \<union> {(int_node 2, int_node 4), (int_node 4, int_node 2)})
   \<and> (\<exists>g' m'. udg_add_edge (int_node 4) (int_node 4) (int_udg, [], ()) = Fail EEXIST (g', m', ())
      \<and> udg_edges g' = udg_edges int_udg)"
proof -
  note E = udg_add_edge_both_or_none [OF int_udg_inv, of _ _ "[]" "()"]
  show ?thesis using E [of "int_node 2" "int_node 4"] E [of "int_node 4" "int_node 4"]
    by (simp del: int_udg_inv int_udg_edges) (auto simp del: int_udg_inv)
qed

section \<open>Checking\<close>

text \<open>The invariant without the symmetry that \<^verbatim>\<open>udg_check\<close> looks at.\<close>

definition udg_wf :: "('a, 'w) ud_graph \<Rightarrow> bool" where
  "udg_wf g \<longleftrightarrow> at_inv (g_nodes g) \<and> at_ops (g_nodes g) = udg_aops (g_ops g) \<and> inj_on n_id (udg_nodes g)
     \<and> (\<forall>n\<in>udg_nodes g. at_inv (g_adjs g (n_id n)) \<and> at_ops (g_adjs g (n_id n)) = udg_node_aops (g_ops g)
          \<and> set (udg_adj g n) \<subseteq> udg_nodes g \<and> n_id n < g_next g)"

text \<open>The nodes of a graph without their edges: node sets are the same in both.\<close>

lemma udg_wf_bare:
  assumes "udg_wf g"
  shows "\<exists>g0. udg_inv g0 \<and> udg_nodes g0 = udg_nodes g \<and> g_ops g0 = g_ops g"
proof -
  have "at_inv (g_nodes g)" "at_ops (g_nodes g) = udg_aops (g_ops g)" using assms by (simp_all add: udg_wf_def)
  then have "total_cmp (udg_compare_nodes (g_ops g))" using at_invD(1) [of "g_nodes g"] by simp
  then have E: "at_inv \<lparr>at_root = Null, at_ops = udg_node_aops (g_ops g), at_nnodes = 0\<rparr>"
    by (simp add: at_inv_def at_list_def)
  let ?g = "g\<lparr>g_adjs := (\<lambda>i. \<lparr>at_root = Null, at_ops = udg_node_aops (g_ops g), at_nnodes = 0\<rparr>)\<rparr>"
  have n: "udg_nodes ?g = udg_nodes g" by (simp add: udg_nodes_def)
  have e: "udg_edges ?g = {}" by (simp add: udg_edges_def udg_adj_def at_list_def)
  have a: "udg_adj ?g x = []" for x by (simp add: udg_adj_def at_list_def)
  have "udg_inv ?g" using assms E unfolding udg_inv_def udg_wf_def n e
    by (simp add: a sym_def irrefl_def)
  with n show ?thesis by (intro exI [of _ ?g]) simp
qed

lemma iterate_check:
  assumes "\<And>x. x \<in> set xs \<Longrightarrow> cb x () = (if P x then Done False () else Abort)"
  shows "iterate_list cb xs () = (if \<forall>x\<in>set xs. P x then Done False () else Abort)"
  using assms by (induction xs) auto

text \<open>
  C26: \<^verbatim>\<open>udg_check\<close> runs through exactly when every edge of the graph is there in both directions.
\<close>

theorem udg_check_exact:
  assumes "udg_wf g"
  shows "udg_check g \<longleftrightarrow> sym (udg_edges g)"
proof -
  obtain g0 where g0: "udg_inv g0" "udg_nodes g0 = udg_nodes g" "g_ops g0 = g_ops g"
    using udg_wf_bare [OF assms] by blast
  have ns: "node_set g0 (g_adjs g (n_id x)) (set (udg_adj g x))" if "x \<in> udg_nodes g" for x
    using assms that g0(2,3) by (auto simp: udg_wf_def node_set_def udg_adj_def)
  have adjs: "set (udg_adj g n) \<subseteq> udg_nodes g" if "n \<in> udg_nodes g" for n
    using assms that by (auto simp: udg_wf_def)
  have cb: "udg_check_node_adjacencies_cb g n x () = (if n \<in> set (udg_adj g x) then Done False () else Abort)"
    if "n \<in> udg_nodes g" "x \<in> udg_nodes g" for n x
    using node_set_find [OF g0(1) ns [OF that(2)], of n "[]" "()"] that(1) g0(2)
    by (simp add: udg_check_node_adjacencies_cb_def)
  have node: "udg_check_node_cb g n () =
      (if \<forall>x\<in>set (udg_adj g n). n \<in> set (udg_adj g x) then Done False () else Abort)" if "n \<in> udg_nodes g" for n
  proof -
    have "iterate_list (udg_check_node_adjacencies_cb g n) (udg_adj g n) () =
        (if \<forall>x\<in>set (udg_adj g n). n \<in> set (udg_adj g x) then Done False () else Abort)"
      by (rule iterate_check) (use cb [OF that] adjs [OF that] in auto)
    then show ?thesis by (simp add: udg_check_node_cb_def at_iterate_adj)
  qed
  have "iterate_list (udg_check_node_cb g) (at_list (g_nodes g)) () =
      (if \<forall>n\<in>udg_nodes g. \<forall>x\<in>set (udg_adj g n). n \<in> set (udg_adj g x) then Done False () else Abort)"
    unfolding udg_nodes_def by (rule iterate_check) (use node in \<open>simp add: udg_nodes_def\<close>)
  then have "udg_check g \<longleftrightarrow> (\<forall>n\<in>udg_nodes g. \<forall>x\<in>set (udg_adj g n). n \<in> set (udg_adj g x))"
    by (simp add: udg_check_def at_iterate_def at_iterate_node_eq at_list_def)
  with adjs show ?thesis by (auto simp: sym_def udg_edges_def)
qed

lemma udg_inv_wf: "udg_inv g \<Longrightarrow> udg_wf g"
  by (simp add: udg_inv_def udg_wf_def)

theorem udg_check_exact_witness: "udg_check int_udg"
  using udg_check_exact [OF udg_inv_wf [OF int_udg_inv]] udg_invD(7) [OF int_udg_inv] by blast

section \<open>Iterating\<close>

lemma df_order_start:
  assumes "df_order g {} {n} ord" "n \<in> udg_nodes g" "udg_inv g"
  shows "set ord = (udg_edges g)\<^sup>* `` {n}"
proof -
  have sub: "set ord \<subseteq> udg_nodes g" using df_order_nodes [OF assms(3) _ assms(1)] assms(2) by simp
  have "y \<in> set ord" if "(n, y) \<in> (udg_edges g)\<^sup>*" for y
    using that
  proof (induction)
    case (step y z)
    then show ?case using assms(1) by (auto simp: df_order_def udg_edges_def)
  qed (use assms(1) in \<open>simp add: df_order_def\<close>)
  with assms(1) show ?thesis by (auto simp: df_order_def)
qed

text \<open>
  C17: \<^verbatim>\<open>udg_iterate_df\<close> calls the client's function on the data of every node connected to the
  start, each exactly once, and on no other, in an order that does not depend on the client; it
  stops at the first call that asks for it and returns the code of the first call that fails. A
  stack as deep as the graph has nodes is enough.
\<close>

theorem udg_iterate_df_reachable:
  fixes callback :: "('a, 'c) callback"
  assumes "udg_inv g" "start \<in> udg_nodes g" "card (udg_nodes g) < depth" "never_fails m"
  shows "\<exists>ord. distinct ord \<and> set ord = (udg_edges g)\<^sup>* `` {start} \<and>
    (\<forall>c. case iterate_list callback (map n_data ord) c of
       Abort \<Rightarrow> udg_iterate_df depth g start callback (m, c) = Abort
     | Fail e c' \<Rightarrow> \<exists>m'. udg_iterate_df depth g start callback (m, c) = Fail e (m', c')
     | Done _ c' \<Rightarrow> \<exists>m'. udg_iterate_df depth g start callback (m, c) = Done () (m', c'))"
proof -
  from udg_df_node_correct [OF assms(1,2), of "{}" depth callback] assms(3) obtain ord where
    o: "df_order g {} {start} ord" and v: "df_visits g callback {} ord (udg_df_node depth g callback start)"
    by auto
  obtain m1 where m1: "at_create (udg_node_aops (g_ops g)) m =
      (Some (\<lparr>at_root = Null, at_ops = udg_node_aops (g_ops g), at_nnodes = 0\<rparr> :: 'a node_tree), m1)" "never_fails m1"
    using at_create_result [OF assms(4), of "udg_node_aops (g_ops g)"] by blast
  note df = df_visitsD [OF v node_set_empty [OF assms(1)] m1(2)]
  have "case iterate_list callback (map n_data ord) c of
       Abort \<Rightarrow> udg_iterate_df depth g start callback (m, c) = Abort
     | Fail e c' \<Rightarrow> \<exists>m'. udg_iterate_df depth g start callback (m, c) = Fail e (m', c')
     | Done _ c' \<Rightarrow> \<exists>m'. udg_iterate_df depth g start callback (m, c) = Done () (m', c')" for c
    using df [of c] m1(1) by (auto simp: udg_iterate_df_def df_agrees_def split: outcome.splits)
  moreover have "distinct ord" using o by (simp add: df_order_def)
  ultimately show ?thesis using df_order_start [OF o assms(2,1)] by blast
qed

text \<open>The callback that collects what it is called on.\<close>

definition collect :: "(int, int list) callback" where
  "collect x c = Done False (c @ [x])"

lemma iterate_collect [simp]: "iterate_list collect xs c = Done False (c @ xs)"
  by (induction xs arbitrary: c) (simp_all add: collect_def)

theorem udg_iterate_df_reachable_witness:
  "\<exists>c m'. udg_iterate_df 4 int_udg (int_node 2) collect ([], []) = Done () (m', c) \<and> distinct c
     \<and> set c = n_data ` ((udg_edges int_udg)\<^sup>* `` {int_node 2})"
proof -
  obtain ord where o: "distinct ord" "set ord = (udg_edges int_udg)\<^sup>* `` {int_node 2}"
    and r: "\<exists>m'. udg_iterate_df 4 int_udg (int_node 2) collect ([], []) = Done () (m', map n_data ord)"
    using udg_iterate_df_reachable [OF int_udg_inv, of "int_node 2" 4 "[]" collect]
    by (simp del: int_udg_inv int_udg_edges) (metis append_Nil)
  have "set ord \<subseteq> udg_nodes int_udg"
    unfolding o(2) by (auto elim: converse_rtranclE rtranclE)
  then have "inj_on n_data (set ord)" by (rule inj_on_subset [rotated]) (simp add: inj_on_def)
  with o r show ?thesis by (auto simp: distinct_map)
qed

lemma bf_order_start:
  assumes "bf_order g {n} [n] ord" "n \<in> udg_nodes g" "udg_inv g"
  shows "set ord = (udg_edges g)\<^sup>* `` {n}"
proof -
  have "y \<in> set ord" if "(n, y) \<in> (udg_edges g)\<^sup>*" for y
    using that
  proof (induction)
    case (step y z)
    then show ?case using assms(1) by (auto simp: bf_order_def udg_edges_def)
  qed (use assms(1) in \<open>simp add: bf_order_def\<close>)
  with assms(1) show ?thesis by (auto simp: bf_order_def)
qed

text \<open>
  C18: \<^verbatim>\<open>udg_iterate_bf\<close> always returns; it calls the client's function on the data of every node
  connected to the start, each exactly once, and on no other, stops at the first call that asks
  for it and returns the code of the first call that fails.
\<close>

theorem udg_iterate_bf_reachable:
  fixes callback :: "('a, 'c) callback"
  assumes "udg_inv g" "start \<in> udg_nodes g" "never_fails m"
  shows "\<exists>ord. distinct ord \<and> set ord = (udg_edges g)\<^sup>* `` {start} \<and>
    (\<forall>c. case iterate_list callback (map n_data ord) c of
       Abort \<Rightarrow> udg_iterate_bf fi_junk g start callback (m, c) = Some Abort
     | Fail e c' \<Rightarrow> \<exists>m'. udg_iterate_bf fi_junk g start callback (m, c) = Some (Fail e (m', c'))
     | Done _ c' \<Rightarrow> \<exists>m'. udg_iterate_bf fi_junk g start callback (m, c) = Some (Done () (m', c')))"
proof -
  have "bf_ok g {start} [start]" using assms(2) by (simp add: bf_ok_def)
  from udg_bf_loop_correct [OF assms(1) this, of callback] obtain ord where
    o: "bf_order g {start} [start] ord" and
    bf: "\<And>v fi m c. node_set g v {start} \<Longrightarrow> fi_inv fi \<Longrightarrow> fi_list fi = [start] \<Longrightarrow> never_fails m \<Longrightarrow>
      bf_agrees (udg_bf_loop g callback ((v, fi, m), c)) (iterate_list callback (map n_data ord) c)" by blast
  let ?E = "\<lparr>at_root = Null, at_ops = udg_node_aops (g_ops g), at_nnodes = 0\<rparr> :: 'a node_tree"
  obtain m1 where 1: "at_create (udg_node_aops (g_ops g)) m = (Some ?E, m1)" "never_fails m1"
    using at_create_result [OF assms(3), of "udg_node_aops (g_ops g)"] by blast
  obtain fi :: "('a udg_node, unit) fifo" and m2 where 2: "fi_create None m1 = (Some fi, m2)" "fi_inv fi" "fi_list fi = []" "never_fails m2"
    using fi_create_ok [OF 1(2), of None] by blast
  obtain fi3 m3 where 3: "fi_enq start (fi, m2, ()) = Done () (fi3, m3, ())" "fi_inv fi3"
    "fi_list fi3 = [start]" "never_fails m3" using fi_enq_ok [OF 2(2,4), of start "()"] 2(3) by auto
  obtain v4 m4 where 4: "at_insert start (?E, m3, ()) = Done () (v4, m4, ())" "node_set g v4 {start}" "never_fails m4"
    using node_set_insert [OF assms(1) node_set_empty [OF assms(1)] assms(2) _ 3(4), of "()"] by auto
  note run = bf [OF 4(2) 3(2,3) 4(3)]
  have eq: "udg_bf_start g start callback ((?E, fi, m2), c) = udg_bf_loop g callback ((v4, fi3, m4), c)" for c
    using 3(1) 4(1) by (simp add: udg_bf_start_def)
  have "case iterate_list callback (map n_data ord) c of
       Abort \<Rightarrow> udg_iterate_bf fi_junk g start callback (m, c) = Some Abort
     | Fail e c' \<Rightarrow> \<exists>m'. udg_iterate_bf fi_junk g start callback (m, c) = Some (Fail e (m', c'))
     | Done _ c' \<Rightarrow> \<exists>m'. udg_iterate_bf fi_junk g start callback (m, c) = Some (Done () (m', c'))" for c
    using run [of c] 1(1) 2(1)
    by (auto simp: udg_iterate_bf_def bf_agrees_def eq split: outcome.splits)
  moreover have "distinct ord" using o by (simp add: bf_order_def)
  ultimately show ?thesis using bf_order_start [OF o assms(2,1)] by blast
qed

theorem udg_iterate_bf_reachable_witness:
  "\<exists>c m'. udg_iterate_bf True int_udg (int_node 2) collect ([], []) = Some (Done () (m', c)) \<and> distinct c
     \<and> set c = n_data ` ((udg_edges int_udg)\<^sup>* `` {int_node 2})"
proof -
  obtain ord where o: "distinct ord" "set ord = (udg_edges int_udg)\<^sup>* `` {int_node 2}"
    and r: "\<exists>m'. udg_iterate_bf True int_udg (int_node 2) collect ([], []) = Some (Done () (m', map n_data ord))"
    using udg_iterate_bf_reachable [OF int_udg_inv, of "int_node 2" "[]" True collect]
    by (simp del: int_udg_inv int_udg_edges) (metis append_Nil)
  have "set ord \<subseteq> udg_nodes int_udg"
    unfolding o(2) by (auto elim: converse_rtranclE rtranclE)
  then have "inj_on n_data (set ord)" by (rule inj_on_subset [rotated]) (simp add: inj_on_def)
  with o r show ?thesis by (auto simp: distinct_map)
qed

end
