(* ===== verification/UdPaths.thy ===== *)
theory UdPaths
  imports UdGraph
begin

text \<open>
  The two shortest-path searches of \<^verbatim>\<open>graphs/ud_graph/ud_graph.c\<close>, one depth first over simple
  paths with pruning, one breadth first with back pointers. \<open>old\<close> is what the caller's path
  pointer held before the call: it is left alone when the destination has no neighbour.
\<close>

type_synonym 'a path = "('a udg_node, unit) linked_list"

definition udg_spath_ll_ops :: "('a, 'w) ud_graph_ops \<Rightarrow> ('a udg_node, unit) linked_list_ops" where
  "udg_spath_ll_ops ops = \<lparr>llo_compare_fn = Some (udg_compare_nodes ops), llo_destroy_data_fn = None\<rparr>"

section \<open>Depth first\<close>

text \<open>The best path so far, the length to beat (0: none), the allocator.\<close>

type_synonym 'a spac = "'a path option \<times> nat \<times> allocator"

text \<open>The end of \<^verbatim>\<open>udg_shortest_path_df_adjs_cb\<close>: a path was found, keep it if it is shorter.\<close>

definition udg_spdf_keep :: "bool \<Rightarrow> 'a path option \<Rightarrow> 'a spac \<Rightarrow> (bool, 'a spac) outcome" where
  "udg_spdf_keep stop spath ctx =
     (let (best, length_to_beat, m) = ctx in
      case spath of
        None \<Rightarrow> Done stop ctx
      | Some p \<Rightarrow>
          if (case best of None \<Rightarrow> True | Some b \<Rightarrow> ll_length p < ll_length b)
          then Done stop (Some p, ll_length p, m)
          else Done stop ctx)"

definition udg_shortest_path_df_adjs_cb :: "('a, 'w) ud_graph
    \<Rightarrow> ('a udg_node \<Rightarrow> 'a path \<Rightarrow> nat \<Rightarrow> (allocator, 'a path option) prog)
    \<Rightarrow> 'a path \<Rightarrow> 'a udg_node \<Rightarrow> ('a udg_node, 'a spac) callback" where
  "udg_shortest_path_df_adjs_cb g search curr_path to adj ctx =
     (let (best, length_to_beat, m) = ctx in
      case ll_find adj (curr_path, m, ()) of
        Abort \<Rightarrow> Abort
      | Done _ _ \<Rightarrow> Done False ctx
      | Fail _ _ \<Rightarrow>
          if udg_compare_nodes (g_ops g) adj to = 0 then
            (case ll_create (Some (udg_spath_ll_ops (g_ops g))) m of
               (None, m1) \<Rightarrow> Fail ENOMEM (best, length_to_beat, m1)
             | (Some spath, m1) \<Rightarrow>
                 (case ll_insert adj (spath, m1, ()) of
                    Abort \<Rightarrow> Abort
                  | Fail e (_, m2, _) \<Rightarrow> Fail e (best, length_to_beat, m2)
                  | Done _ (spath1, m2, _) \<Rightarrow>
                      udg_spdf_keep True (Some spath1) (best, length_to_beat, m2)))
          else if length_to_beat \<noteq> 0 \<and> length_to_beat - 1 = 1 then Done False ctx
          else
            (case search adj curr_path (if length_to_beat \<noteq> 0 then length_to_beat - 1 else 0) m of
               Abort \<Rightarrow> Abort
             | Fail e m1 \<Rightarrow> Fail e (best, length_to_beat, m1)
             | Done spath m1 \<Rightarrow> udg_spdf_keep False spath (best, length_to_beat, m1)))"

text \<open>Prepend the node a search started from to the best path of its neighbours.\<close>

definition udg_spdf_finish :: "'a udg_node \<Rightarrow> (unit, 'a spac) outcome \<Rightarrow> ('a path option, allocator) outcome" where
  "udg_spdf_finish from res =
     (case res of
        Abort \<Rightarrow> Abort
      | Fail e (_, _, m) \<Rightarrow> Fail e m
      | Done _ (None, _, m) \<Rightarrow> Done None m
      | Done _ (Some p, _, m) \<Rightarrow>
          (case ll_insert_head from (p, m, ()) of
             Abort \<Rightarrow> Abort
           | Fail e (_, m1, _) \<Rightarrow> Fail e m1
           | Done _ (p1, m1, _) \<Rightarrow> Done (Some p1) m1))"

fun udg_spdf :: "nat \<Rightarrow> ('a, 'w) ud_graph \<Rightarrow> 'a udg_node \<Rightarrow> 'a udg_node \<Rightarrow> 'a path \<Rightarrow> nat
    \<Rightarrow> (allocator, 'a path option) prog" where
  "udg_spdf 0 g to from curr_path length_to_beat m = Abort"
| "udg_spdf (Suc depth) g to from curr_path length_to_beat m =
     (case ll_create_copy curr_path (m, ()) of
        Abort \<Rightarrow> Abort
      | Fail e (m1, _) \<Rightarrow> Fail e m1
      | Done None (m1, _) \<Rightarrow> Fail ENOMEM m1
      | Done (Some copy) (m1, _) \<Rightarrow>
          (case ll_insert from (copy, m1, ()) of
             Abort \<Rightarrow> Abort
           | Fail e (_, m2, _) \<Rightarrow> Fail e m2
           | Done _ (copy1, m2, _) \<Rightarrow>
               udg_spdf_finish from
                 (at_iterate (g_adjs g (n_id from))
                    (udg_shortest_path_df_adjs_cb g (udg_spdf depth g to) copy1 to)
                    (None, length_to_beat, m2))))"

definition udg_shortest_path_df :: "nat \<Rightarrow> ('a, 'w) ud_graph \<Rightarrow> 'a udg_node \<Rightarrow> 'a udg_node
    \<Rightarrow> 'a path option \<Rightarrow> (allocator \<times> 'w, 'a path option) prog" where
  "udg_shortest_path_df depth g from to old st =
     (let (m, w) = st in
      case at_find to (g_nodes g, m, w) of
        Abort \<Rightarrow> Abort
      | Fail _ _ \<Rightarrow> Fail ENOENT (m, w)
      | Done _ _ \<Rightarrow>
          if at_empty (g_adjs g (n_id to)) then Done old (m, w)
          else (case ll_create (Some (udg_spath_ll_ops (g_ops g))) m of
                  (None, m1) \<Rightarrow> Fail ENOMEM (m1, w)
                | (Some curr_path, m1) \<Rightarrow>
                    (case ll_insert from (curr_path, m1, ()) of
                       Abort \<Rightarrow> Abort
                     | Fail e (_, m2, _) \<Rightarrow> Fail e (m2, w)
                     | Done _ (curr_path1, m2, _) \<Rightarrow>
                         (case udg_spdf_finish from
                                (at_iterate (g_adjs g (n_id from))
                                   (udg_shortest_path_df_adjs_cb g (udg_spdf depth g to) curr_path1 to)
                                   (None, 0, m2)) of
                            Abort \<Rightarrow> Abort
                          | Fail e m3 \<Rightarrow> Fail e (m3, w)
                          | Done spath m3 \<Rightarrow> Done spath (m3, w)))))"

section \<open>Breadth first\<close>

record 'a spnode =
  sp_node :: "'a udg_node"
  sp_back :: "'a udg_node option"

text \<open>
  The context of the search: the visited tree of \<^verbatim>\<open>spnode\<close>s, the queue, the allocator, the list
  of the \<^verbatim>\<open>spnode\<close>s freed so far, and whether the destination was found. The tree's destroy
  callback frees the elements too: an element freed twice shows as a duplicate in the list.
\<close>

record 'a spbf =
  sb_visited :: "('a spnode, 'a spnode list) avl_tree"
  sb_fifo :: "('a udg_node, unit) fifo"
  sb_mem :: allocator
  sb_freed :: "'a spnode list"
  sb_found :: bool

definition udg_spbf_aops :: "('a, 'w) ud_graph_ops \<Rightarrow> ('a spnode, 'a spnode list) avl_tree_ops" where
  "udg_spbf_aops ops = \<lparr>ato_compare_fn = (\<lambda>x y. udg_compare_nodes ops (sp_node x) (sp_node y)),
     ato_destroy_data_fn = Some (#)\<rparr>"

definition udg_spbf_add_adjs_cb :: "('a, 'w) ud_graph_ops \<Rightarrow> 'a udg_node \<Rightarrow> 'a udg_node
    \<Rightarrow> ('a udg_node, 'a spbf) callback" where
  "udg_spbf_add_adjs_cb ops backpointer to adj s =
     (case at_find \<lparr>sp_node = adj, sp_back = None\<rparr> (sb_visited s, sb_mem s, sb_freed s) of
        Abort \<Rightarrow> Abort
      | Done _ _ \<Rightarrow> Done False s
      | Fail _ _ \<Rightarrow>
          let (ok, m1) = malloc (sb_mem s) in
          if \<not> ok then Fail ENOMEM (s\<lparr>sb_mem := m1\<rparr>)
          else
            let spnode = \<lparr>sp_node = adj, sp_back = Some backpointer\<rparr> in
            (case at_insert spnode (sb_visited s, m1, sb_freed s) of
               Abort \<Rightarrow> Abort
             | Fail e (v, m2, freed) \<Rightarrow>
                 Fail e (s\<lparr>sb_visited := v, sb_mem := m2, sb_freed := spnode # freed\<rparr>)
             | Done _ (v, m2, freed) \<Rightarrow>
                 let s1 = s\<lparr>sb_visited := v, sb_mem := m2, sb_freed := freed\<rparr> in
                 if udg_compare_nodes ops adj to = 0 then Done True (s1\<lparr>sb_found := True\<rparr>)
                 else (case fi_enq adj (sb_fifo s1, sb_mem s1, ()) of
                         Abort \<Rightarrow> Abort
                       | Fail e (fi, m3, _) \<Rightarrow>
                           Fail e (s1\<lparr>sb_fifo := fi, sb_mem := m3, sb_freed := spnode # sb_freed s1\<rparr>)
                       | Done _ (fi, m3, _) \<Rightarrow> Done False (s1\<lparr>sb_fifo := fi, sb_mem := m3\<rparr>))))"

partial_function (option) udg_spbf_loop :: "('a, 'w) ud_graph \<Rightarrow> 'a udg_node \<Rightarrow> 'a spbf
    \<Rightarrow> (unit, 'a spbf) outcome option" where
  "udg_spbf_loop g to s =
     (if fi_empty (sb_fifo s) then Some (Done () s)
      else case fi_deq (sb_fifo s, sb_mem s, ()) of
        Abort \<Rightarrow> Some Abort
      | Fail e (fi, m, _) \<Rightarrow> Some (Fail e (s\<lparr>sb_fifo := fi, sb_mem := m\<rparr>))
      | Done next (fi, m, _) \<Rightarrow>
          (case at_iterate (g_adjs g (n_id next)) (udg_spbf_add_adjs_cb (g_ops g) next to)
                  (s\<lparr>sb_fifo := fi, sb_mem := m\<rparr>) of
             Abort \<Rightarrow> Some Abort
           | Fail e s1 \<Rightarrow> Some (Fail e s1)
           | Done _ s1 \<Rightarrow> if sb_found s1 then Some (Done () s1) else udg_spbf_loop g to s1))"

declare udg_spbf_loop.simps [code]

text \<open>
  Following the back pointers: \<open>spnode\<close> is the visited entry whose node heads the path. The
  error paths need to know which entry the variable \<^verbatim>\<open>spnode\<close> points to.
\<close>

partial_function (option) udg_spbf_back :: "'a spbf \<Rightarrow> 'a spnode \<Rightarrow> 'a path \<Rightarrow> allocator
    \<Rightarrow> ('a path, allocator \<times> 'a spnode) outcome option" where
  "udg_spbf_back s spnode path m =
     (case sp_back spnode of
        None \<Rightarrow> Some (Done path (m, spnode))
      | Some b \<Rightarrow>
          (case at_find \<lparr>sp_node = b, sp_back = None\<rparr> (sb_visited s, m, sb_freed s) of
             Abort \<Rightarrow> Some Abort
           | Fail e _ \<Rightarrow> Some (Fail e (m, spnode))
           | Done spnode1 _ \<Rightarrow>
               (case ll_insert_head (sp_node spnode1) (path, m, ()) of
                  Abort \<Rightarrow> Some Abort
                | Fail e (_, m1, _) \<Rightarrow> Some (Fail e (m1, spnode1))
                | Done _ (path1, m1, _) \<Rightarrow> udg_spbf_back s spnode1 path1 m1)))"

declare udg_spbf_back.simps [code]

text \<open>The part after the loop: build the path to the destination. \<open>spnode0\<close> is the entry of \<open>from\<close>.\<close>

definition udg_spbf_path :: "('a, 'w) ud_graph \<Rightarrow> 'a udg_node \<Rightarrow> 'a spnode \<Rightarrow> 'a spbf
    \<Rightarrow> ('a path, allocator \<times> 'a spnode) outcome option" where
  "udg_spbf_path g to spnode0 s =
     (case ll_create (Some (udg_spath_ll_ops (g_ops g))) (sb_mem s) of
        (None, m) \<Rightarrow> Some (Fail ENOMEM (m, spnode0))
      | (Some path, m) \<Rightarrow>
          (case at_find \<lparr>sp_node = to, sp_back = None\<rparr> (sb_visited s, m, sb_freed s) of
             Abort \<Rightarrow> Some Abort
           | Fail e _ \<Rightarrow> Some (Fail e (m, spnode0))
           | Done spnode _ \<Rightarrow>
               (case ll_insert_head (sp_node spnode) (path, m, ()) of
                  Abort \<Rightarrow> Some Abort
                | Fail e (_, m1, _) \<Rightarrow> Some (Fail e (m1, spnode))
                | Done _ (path1, m1, _) \<Rightarrow> udg_spbf_back s spnode path1 m1)))"

text \<open>\<^verbatim>\<open>_udg_shortest_path_bf\<close>. Its error path frees the \<^verbatim>\<open>spnode\<close> it last looked at.\<close>

definition spbf_error :: "errno \<Rightarrow> 'a spnode option \<Rightarrow> 'a spbf \<Rightarrow> ('a path option, 'a spbf) outcome" where
  "spbf_error e spnode s =
     Fail e (case spnode of None \<Rightarrow> s | Some sp \<Rightarrow> s\<lparr>sb_freed := sp # sb_freed s\<rparr>)"

definition udg_spbf :: "('a, 'w) ud_graph \<Rightarrow> 'a udg_node \<Rightarrow> 'a udg_node \<Rightarrow> 'a spbf
    \<Rightarrow> ('a path option, 'a spbf) outcome option" where
  "udg_spbf g from to s =
     (case fi_enq from (sb_fifo s, sb_mem s, ()) of
        Abort \<Rightarrow> Some Abort
      | Fail e (fi, m, _) \<Rightarrow> Some (spbf_error e None (s\<lparr>sb_fifo := fi, sb_mem := m\<rparr>))
      | Done _ (fi, m, _) \<Rightarrow>
          let s1 = s\<lparr>sb_fifo := fi\<rparr>; (ok, m1) = malloc m in
          if \<not> ok then Some (spbf_error ENOMEM None (s1\<lparr>sb_mem := m1\<rparr>))
          else
            let spnode = \<lparr>sp_node = from, sp_back = None\<rparr> in
            (case at_insert spnode (sb_visited s1, m1, sb_freed s1) of
               Abort \<Rightarrow> Some Abort
             | Fail e (v, m2, freed) \<Rightarrow>
                 Some (spbf_error e (Some spnode) (s1\<lparr>sb_visited := v, sb_mem := m2, sb_freed := freed\<rparr>))
             | Done _ (v, m2, freed) \<Rightarrow>
                 (case udg_spbf_loop g to
                         (s1\<lparr>sb_visited := v, sb_mem := m2, sb_freed := freed, sb_found := False\<rparr>) of
                    None \<Rightarrow> None
                  | Some Abort \<Rightarrow> Some Abort
                  | Some (Fail e s2) \<Rightarrow> Some (spbf_error e (Some spnode) s2)
                  | Some (Done _ s2) \<Rightarrow>
                      if \<not> sb_found s2 then Some (Done None s2)
                      else (case udg_spbf_path g to spnode s2 of
                              None \<Rightarrow> None
                            | Some Abort \<Rightarrow> Some Abort
                            | Some (Fail e (m3, sp)) \<Rightarrow> Some (spbf_error e (Some sp) (s2\<lparr>sb_mem := m3\<rparr>))
                            | Some (Done path (m3, _)) \<Rightarrow> Some (Done (Some path) (s2\<lparr>sb_mem := m3\<rparr>))))))"

text \<open>
  \<open>fi_junk\<close>: whether the uninitialised local \<^verbatim>\<open>fi\<close> holds a value other than NULL. Destroying the
  visited tree frees its entries; freeing one twice, or handing a wild pointer to
  \<^verbatim>\<open>fi_destroy\<close>, stops the program.
\<close>

definition spbf_cleanup :: "'a spbf \<Rightarrow> bool" where
  "spbf_cleanup s \<longleftrightarrow> distinct (at_destroy (sb_visited s) (sb_freed s))"

definition udg_shortest_path_bf :: "bool \<Rightarrow> ('a, 'w) ud_graph \<Rightarrow> 'a udg_node \<Rightarrow> 'a udg_node
    \<Rightarrow> 'a path option \<Rightarrow> allocator \<times> 'w \<Rightarrow> ('a path option, allocator \<times> 'w) outcome option" where
  "udg_shortest_path_bf fi_junk g from to old st =
     (let (m, w) = st in
      case at_find to (g_nodes g, m, w) of
        Abort \<Rightarrow> Some Abort
      | Fail _ _ \<Rightarrow> Some (if fi_junk then Abort else Fail ENOENT (m, w))
      | Done _ _ \<Rightarrow>
          if at_empty (g_adjs g (n_id to)) then Some (Done old (m, w))
          else case at_create (udg_spbf_aops (g_ops g)) m of
            (None, m1) \<Rightarrow> Some (if fi_junk then Abort else Fail ENOMEM (m1, w))
          | (Some visited, m1) \<Rightarrow>
              (case fi_create None m1 of
                 (None, m2) \<Rightarrow> Some (Fail ENOMEM (m2, w))
               | (Some fi, m2) \<Rightarrow>
                   (case udg_spbf g from to \<lparr>sb_visited = visited, sb_fifo = fi, sb_mem = m2,
                                           sb_freed = [], sb_found = False\<rparr> of
                      None \<Rightarrow> None
                    | Some Abort \<Rightarrow> Some Abort
                    | Some (Fail e s) \<Rightarrow> Some (if spbf_cleanup s then Fail e (sb_mem s, w) else Abort)
                    | Some (Done path s) \<Rightarrow>
                        Some (if spbf_cleanup s then Done path (sb_mem s, w) else Abort))))"

end
