(* ===== verification/Hops.thy ===== *)
theory Hops
  imports Main
begin

text \<open>
  The number of edges on a shortest way between two nodes of a relation, and the ways
  themselves as node lists. The searches of the graph components are measured against it.
\<close>

definition hops :: "('a \<times> 'a) set \<Rightarrow> 'a \<Rightarrow> 'a \<Rightarrow> nat" where
  "hops E x y = (LEAST k. (x, y) \<in> E ^^ k)"

lemma hops_power: "(x, y) \<in> E\<^sup>* \<Longrightarrow> (x, y) \<in> E ^^ hops E x y"
  unfolding hops_def by (metis LeastI rtrancl_imp_relpow)

lemma hops_le: "(x, y) \<in> E ^^ k \<Longrightarrow> hops E x y \<le> k"
  unfolding hops_def by (rule Least_le)

lemma hops_self [simp]: "hops E x x = 0"
  using hops_le [of x x 0 E] by simp

lemma hops_step:
  assumes "(x, y) \<in> E\<^sup>*" "(y, z) \<in> E"
  shows "hops E x z \<le> Suc (hops E x y)"
  using hops_power [OF assms(1)] assms(2) by (intro hops_le) auto

lemma hops_zero: "(x, y) \<in> E\<^sup>* \<Longrightarrow> hops E x y = 0 \<longleftrightarrow> x = y"
  using hops_power [of x y E] by auto

lemma hops_pred:
  assumes "(x, y) \<in> E\<^sup>*" "x \<noteq> y"
  shows "\<exists>p. (x, p) \<in> E\<^sup>* \<and> (p, y) \<in> E \<and> hops E x y = Suc (hops E x p)"
proof -
  obtain k where k: "hops E x y = Suc k" using hops_zero [OF assms(1)] assms(2) not0_implies_Suc by blast
  with hops_power [OF assms(1)] obtain p where p: "(x, p) \<in> E ^^ k" "(p, y) \<in> E" by auto
  then have xp: "(x, p) \<in> E\<^sup>*" using relpow_imp_rtrancl by blast
  have "hops E x p = k"
    using hops_le [OF p(1)] hops_step [OF xp p(2)] k by simp
  with xp p(2) k show ?thesis by auto
qed

text \<open>A way from \<open>x\<close> to \<open>y\<close>: the list of the nodes passed, both ends included.\<close>

definition way :: "('a \<times> 'a) set \<Rightarrow> 'a \<Rightarrow> 'a \<Rightarrow> 'a list \<Rightarrow> bool" where
  "way E x y p \<longleftrightarrow> p \<noteq> [] \<and> hd p = x \<and> last p = y \<and> successively (\<lambda>a b. (a, b) \<in> E) p"

lemma way_single [simp]: "way E x y [z] \<longleftrightarrow> x = z \<and> y = z"
  by (auto simp: way_def)

lemma way_Cons: "way E x y p \<Longrightarrow> (w, x) \<in> E \<Longrightarrow> way E w y (w # p)"
  by (auto simp: way_def successively_Cons)

lemma way_power: "way E x y p \<Longrightarrow> (x, y) \<in> E ^^ (length p - 1)"
proof (induction p arbitrary: x)
  case (Cons a p)
  show ?case
  proof (cases p)
    case (Cons b p')
    with Cons.prems have "way E b y p" "(a, b) \<in> E" "x = a" by (auto simp: way_def)
    with Cons.IH [of b] Cons show ?thesis using relpow_Suc_I2 [of a b E y "length p'"] by simp
  qed (use Cons.prems in \<open>auto simp: way_def\<close>)
qed (simp add: way_def)

lemma way_hops: "way E x y p \<Longrightarrow> Suc (hops E x y) \<le> length p"
  using hops_le [OF way_power [of E x y p]] by (cases p) (auto simp: way_def)

lemma way_reaches: "way E x y p \<Longrightarrow> (x, y) \<in> E\<^sup>*"
  by (rule relpow_imp_rtrancl [OF way_power])

end
