(* ===== verification/UdShortest.thy ===== *)
theory UdShortest
  imports UdPaths UdSpec Hops
begin

text \<open>
  Correctness of \<^verbatim>\<open>udg_shortest_path_bf\<close>: the visited tree is a map of back pointers along edges
  that go one hop towards the start, the queue is in the order of the distance from the start,
  and the path read off the back pointers is a shortest one.
\<close>

section \<open>The visited tree\<close>

definition sp_tree :: "('a, 'w) ud_graph \<Rightarrow> ('a spnode, 'a spnode list) avl_tree \<Rightarrow> 'a spnode set \<Rightarrow> bool" where
  "sp_tree g t V \<longleftrightarrow> at_inv t \<and> at_ops t = udg_spbf_aops (g_ops g) \<and> set (at_list t) = V
     \<and> sp_node ` V \<subseteq> udg_nodes g"

lemma udg_spbf_aops_cmp [simp]:
  "ato_compare_fn (udg_spbf_aops ops) = (\<lambda>x y. udg_compare_nodes ops (sp_node x) (sp_node y))"
  by (simp add: udg_spbf_aops_def)

lemma sp_tree_hit:
  assumes g: "udg_inv g" and t: "sp_tree g t V" and s: "s \<in> V"
  shows "at_find \<lparr>sp_node = sp_node s, sp_back = None\<rparr> (t, m, w) = Done s (t, m, w)"
  using t s udg_node_refl [OF g] by (intro at_find_hit) (auto simp: sp_tree_def)

lemma sp_tree_new:
  assumes g: "udg_inv g" and t: "sp_tree g t V" and n: "n \<in> udg_nodes g" "n \<notin> sp_node ` V"
    and x: "sp_node x = n"
  shows "\<forall>y\<in>set (at_list t). at_cmp t x y \<noteq> 0"
proof
  fix y assume "y \<in> set (at_list t)"
  then have y: "y \<in> V" "sp_node y \<in> udg_nodes g" using t by (auto simp: sp_tree_def)
  then have "n \<noteq> sp_node y" using n(2) by auto
  with udg_node_unique [OF g n(1) y(2)] t x show "at_cmp t x y \<noteq> 0" by (auto simp: sp_tree_def)
qed

lemma sp_tree_miss:
  assumes "udg_inv g" "sp_tree g t V" "n \<in> udg_nodes g" "n \<notin> sp_node ` V"
  shows "at_find \<lparr>sp_node = n, sp_back = None\<rparr> (t, m, w) = Fail ENOENT (t, m, w)"
  by (rule at_find_miss, rule sp_tree_new [OF assms]) simp

lemma sp_tree_insert:
  assumes g: "udg_inv g" and t: "sp_tree g t V" and n: "sp_node x \<in> udg_nodes g" "sp_node x \<notin> sp_node ` V"
    and m: "never_fails m"
  shows "\<exists>t' m'. at_insert x (t, m, w) = Done () (t', m', w) \<and> sp_tree g t' (insert x V) \<and> never_fails m'"
proof -
  obtain m' where m': "malloc m = (True, m')" "never_fails m'" using malloc_ok [OF m] by blast
  have new: "\<forall>y\<in>set (at_list t). at_cmp t x y \<noteq> 0" by (rule sp_tree_new [OF g t n]) simp
  have inv: "at_inv t" using t by (simp add: sp_tree_def)
  obtain r where r: "at_insert x (t, m, w) =
      Done () (t\<lparr>at_root := r, at_nnodes := Suc (at_nnodes t)\<rparr>, m', w)"
    "avl_ok r" "atn_inorder r = ins_by (at_cmp t) x (at_list t)"
    by (rule at_insert_new [OF inv m'(1) new, of w])
  with at_inv_insert [OF inv r(2,3) new] t n(1) m'(2) show ?thesis by (simp add: sp_tree_def)
qed

lemma sp_tree_empty:
  assumes "udg_inv g"
  shows "sp_tree g \<lparr>at_root = Null, at_ops = udg_spbf_aops (g_ops g), at_nnodes = 0\<rparr> {}"
proof -
  have "total_cmp (\<lambda>x y. udg_compare_nodes (g_ops g) (sp_node x) (sp_node y))"
    using udg_invD(10) [OF assms] unfolding total_cmp_def by blast
  then show ?thesis by (simp add: sp_tree_def at_inv_def at_list_def)
qed

text \<open>Destroying the tree frees every entry once.\<close>

lemma at_destroy_node_cons:
  assumes "ato_destroy_data_fn (at_ops t) = Some (#)"
  shows "set (at_destroy_node t r w) = set (atn_inorder r) \<union> set w
    \<and> (distinct (atn_inorder r) \<and> distinct w \<and> set (atn_inorder r) \<inter> set w = {}
       \<longrightarrow> distinct (at_destroy_node t r w))"
proof (induction r arbitrary: w)
  case (Atn b d l r)
  show ?case using Atn.IH(1) [of w] Atn.IH(2) [of "at_destroy_node t l w"]
    by (auto simp: atn_destroy_def assms)
qed simp

lemma sp_tree_cleanup:
  assumes "sp_tree g t V" shows "distinct (at_destroy t [])"
proof -
  have "distinct (at_list t)"
    using assms at_invD(4,5) [of t] distinct_by_distinct by (fastforce simp: sp_tree_def)
  then show ?thesis
    using at_destroy_node_cons [of t "at_root t" "[]"] assms
    by (simp add: at_destroy_def at_list_def sp_tree_def udg_spbf_aops_def)
qed

section \<open>Adding the neighbours of a node\<close>

text \<open>The state of the search: the visited entries, the queue, and no memory given back yet.\<close>

definition sb_ok :: "('a, 'w) ud_graph \<Rightarrow> 'a spbf \<Rightarrow> 'a spnode set \<Rightarrow> 'a udg_node list \<Rightarrow> bool" where
  "sb_ok g s V q \<longleftrightarrow> sp_tree g (sb_visited s) V \<and> fi_inv (sb_fifo s) \<and> fi_list (sb_fifo s) = q
     \<and> never_fails (sb_mem s) \<and> sb_freed s = []"

definition entries :: "'a udg_node \<Rightarrow> 'a udg_node set \<Rightarrow> 'a spnode set" where
  "entries x A = (\<lambda>a. \<lparr>sp_node = a, sp_back = Some x\<rparr>) ` A"

lemma entries_nodes [simp]: "sp_node ` entries x A = A"
  by (force simp: entries_def)

lemma entries_simps [simp]:
  "entries x {} = {}" "entries x (insert a A) = insert \<lparr>sp_node = a, sp_back = Some x\<rparr> (entries x A)"
  by (simp_all add: entries_def)

text \<open>One call on a node that is not visited yet.\<close>

lemma spbf_add_new:
  assumes g: "udg_inv g" and to: "to \<in> udg_nodes g" and a: "a \<in> udg_nodes g"
    and s: "sb_ok g s V q" and new: "a \<notin> sp_node ` V"
  shows "\<exists>s'. udg_spbf_add_adjs_cb (g_ops g) x to a s = Done (a = to) s'
    \<and> sb_ok g s' (insert \<lparr>sp_node = a, sp_back = Some x\<rparr> V) (if a = to then q else q @ [a])
    \<and> sb_found s' = (sb_found s \<or> a = to)"
proof -
  have t: "sp_tree g (sb_visited s) V" and m: "never_fails (sb_mem s)" using s by (simp_all add: sb_ok_def)
  note find = sp_tree_miss [OF g t a new, of "sb_mem s" "sb_freed s"]
  obtain m1 where m1: "malloc (sb_mem s) = (True, m1)" "never_fails m1" using malloc_ok [OF m] by blast
  let ?n = "\<lparr>sp_node = a, sp_back = Some x\<rparr>"
  from sp_tree_insert [OF g t _ _ m1(2), of ?n "sb_freed s"] a new obtain t' m2 where
    i: "at_insert ?n (sb_visited s, m1, sb_freed s) = Done () (t', m2, sb_freed s)"
      "sp_tree g t' (insert ?n V)" "never_fails m2" by auto
  show ?thesis
  proof (cases "a = to")
    case True
    with find m1 i s udg_node_refl [OF g] show ?thesis
      by (simp add: udg_spbf_add_adjs_cb_def sb_ok_def)
  next
    case False
    then have ne: "udg_compare_nodes (g_ops g) a to \<noteq> 0" using udg_node_unique [OF g a to] by blast
    have fi: "fi_inv (sb_fifo s)" using s by (simp add: sb_ok_def)
    from fi_enq_ok [OF fi i(3), of a "()"] obtain fi' m3 where
      "fi_enq a (sb_fifo s, m2, ()) = Done () (fi', m3, ())" "fi_inv fi'"
      "fi_list fi' = fi_list (sb_fifo s) @ [a]" "never_fails m3" by blast
    with False ne find m1 i s show ?thesis
      by (simp add: udg_spbf_add_adjs_cb_def sb_ok_def)
  qed
qed

lemma spbf_add_adjs:
  assumes g: "udg_inv g" and to: "to \<in> udg_nodes g"
  shows "set adjs \<subseteq> udg_nodes g \<Longrightarrow> distinct adjs \<Longrightarrow> sb_ok g s V q \<Longrightarrow> \<not> sb_found s \<Longrightarrow>
    (let new = filter (\<lambda>a. a \<notin> sp_node ` V) adjs in
     \<exists>s' A q'. iterate_list (udg_spbf_add_adjs_cb (g_ops g) x to) adjs s = Done (to \<in> set new) s'
       \<and> sb_ok g s' (V \<union> entries x A) q' \<and> A \<subseteq> set new \<and> sb_found s' = (to \<in> set new)
       \<and> (if to \<in> set new then to \<in> A else A = set new \<and> q' = q @ new))"
proof (induction adjs arbitrary: s V q)
  case Nil
  then show ?case unfolding Let_def by (intro exI [of _ s] exI [of _ "{}"] exI [of _ q]) simp
next
  case (Cons a adjs)
  show ?case
  proof (cases "a \<in> sp_node ` V")
    case True
    then obtain e where e: "e \<in> V" "a = sp_node e" by blast
    have t: "sp_tree g (sb_visited s) V" using Cons.prems(3) by (simp add: sb_ok_def)
    have "udg_spbf_add_adjs_cb (g_ops g) x to a s = Done False s"
      using sp_tree_hit [OF g t e(1), of "sb_mem s" "sb_freed s"] e(2)
      by (simp add: udg_spbf_add_adjs_cb_def)
    with Cons.IH [OF _ _ Cons.prems(3,4)] Cons.prems(1,2) True show ?thesis by (simp add: Let_def)
  next
    case False
    let ?V = "insert \<lparr>sp_node = a, sp_back = Some x\<rparr> V"
    from spbf_add_new [OF g to _ Cons.prems(3) False, of x] Cons.prems(1) obtain s1 where
      s1: "udg_spbf_add_adjs_cb (g_ops g) x to a s = Done (a = to) s1"
        "sb_ok g s1 ?V (if a = to then q else q @ [a])" "sb_found s1 = (sb_found s \<or> a = to)" by auto
    show ?thesis
    proof (cases "a = to")
      case True
      with s1 False show ?thesis
        by (auto simp: Let_def intro!: exI [of _ s1] exI [of _ "{a}"])
    next
      case ne: False
      have eq: "filter (\<lambda>b. b \<notin> sp_node ` ?V) adjs = filter (\<lambda>b. b \<notin> sp_node ` V) adjs"
        using Cons.prems(2) by (intro filter_cong) auto
      let ?new = "filter (\<lambda>b. b \<notin> sp_node ` V) adjs"
      from Cons.IH [of s1 ?V "q @ [a]"] Cons.prems s1 ne obtain s' A q' where
        r: "iterate_list (udg_spbf_add_adjs_cb (g_ops g) x to) adjs s1 = Done (to \<in> set ?new) s'"
          "sb_ok g s' (?V \<union> entries x A) q'" "A \<subseteq> set ?new" "sb_found s' = (to \<in> set ?new)"
          "if to \<in> set ?new then to \<in> A else A = set ?new \<and> q' = (q @ [a]) @ ?new"
        unfolding eq Let_def by auto
      have "?V \<union> entries x A = V \<union> entries x (insert a A)" by simp
      with r s1(1) ne False show ?thesis unfolding Let_def
        by (intro exI [of _ s'] exI [of _ "insert a A"] exI [of _ q']) auto
    qed
  qed
qed

section \<open>The search loop\<close>

text \<open>The back pointers: each leads along an edge, one hop closer to the start.\<close>

definition sp_backs :: "('a, 'w) ud_graph \<Rightarrow> 'a udg_node \<Rightarrow> 'a spnode set \<Rightarrow> bool" where
  "sp_backs g from V \<longleftrightarrow> (\<forall>e\<in>V. (from, sp_node e) \<in> (udg_edges g)\<^sup>*
     \<and> (case sp_back e of
          None \<Rightarrow> sp_node e = from
        | Some b \<Rightarrow> b \<in> sp_node ` V \<and> (b, sp_node e) \<in> udg_edges g
            \<and> hops (udg_edges g) from (sp_node e) = Suc (hops (udg_edges g) from b)))"

text \<open>
  The queue: in the order of the distance, spanning at most two distances; what is not visited
  is farther away than its head.
\<close>

definition sp_front :: "('a, 'w) ud_graph \<Rightarrow> 'a udg_node \<Rightarrow> 'a udg_node \<Rightarrow> 'a udg_node set
    \<Rightarrow> 'a udg_node list \<Rightarrow> bool" where
  "sp_front g from to W q \<longleftrightarrow> bf_ok g W q \<and> from \<in> W \<and> (to \<in> W \<longrightarrow> to = from)
     \<and> sorted (map (hops (udg_edges g) from) q)
     \<and> (\<forall>u\<in>set q. hops (udg_edges g) from u \<le> Suc (hops (udg_edges g) from (hd q)))
     \<and> (\<forall>y. (from, y) \<in> (udg_edges g)\<^sup>* \<longrightarrow> y \<notin> W \<longrightarrow> q \<noteq> []
          \<longrightarrow> hops (udg_edges g) from (hd q) < hops (udg_edges g) from y)"

lemma sp_frontD:
  assumes "sp_front g from to W (x # q)"
  shows "bf_ok g W (x # q)" "from \<in> W" "to \<in> W \<longrightarrow> to = from"
    "sorted (map (hops (udg_edges g) from) q)"
    "\<And>u. u \<in> set q \<Longrightarrow> hops (udg_edges g) from x \<le> hops (udg_edges g) from u"
    "\<And>u. u \<in> set q \<Longrightarrow> hops (udg_edges g) from u \<le> Suc (hops (udg_edges g) from x)"
    "\<And>y. (from, y) \<in> (udg_edges g)\<^sup>* \<Longrightarrow> y \<notin> W \<Longrightarrow> hops (udg_edges g) from x < hops (udg_edges g) from y"
  using assms unfolding sp_front_def by auto

lemma sp_front_new:
  assumes f: "sp_front g from to W (x # q)" and x: "(from, x) \<in> (udg_edges g)\<^sup>*"
    and y: "(x, y) \<in> udg_edges g" "y \<notin> W"
  shows "hops (udg_edges g) from y = Suc (hops (udg_edges g) from x)"
proof -
  have "(from, y) \<in> (udg_edges g)\<^sup>*" using x y(1) by auto
  from sp_frontD(7) [OF f this y(2)] hops_step [OF x y(1)] show ?thesis by simp
qed

text \<open>Once the queue is empty everything that can be reached is visited.\<close>

lemma sp_front_empty:
  assumes f: "sp_front g from to W []" and y: "(from, y) \<in> (udg_edges g)\<^sup>*"
  shows "y \<in> W"
  using y
proof (induction)
  case base
  then show ?case using f by (simp add: sp_front_def)
next
  case (step y z)
  then show ?case using f by (auto simp: sp_front_def bf_ok_def udg_edges_def)
qed

lemma sp_front_step:
  assumes g: "udg_inv g" and f: "sp_front g from to W (x # q)" and x: "(from, x) \<in> (udg_edges g)\<^sup>*"
    and new: "new = filter (\<lambda>y. y \<notin> W) (udg_adj g x)" and to: "to \<notin> set new"
  shows "sp_front g from to (W \<union> set (udg_adj g x)) (q @ new)"
proof -
  note F = sp_frontD [OF f]
  let ?h = "hops (udg_edges g) from" and ?W = "W \<union> set (udg_adj g x)"
  have xn: "x \<in> udg_nodes g" using F(1) by (auto simp: bf_ok_def)
  have dist: "?h y = Suc (?h x)" if "y \<in> set new" for y
    using sp_front_new [OF f x, of y] that xn by (auto simp: new udg_edges_def)
  have bounds: "?h x \<le> ?h u \<and> ?h u \<le> Suc (?h x)" if "u \<in> set (q @ new)" for u
    using that F(5,6) [of u] dist [of u] by auto
  have ok: "bf_ok g ?W (q @ new)" unfolding new by (rule bf_ok_step(1) [OF g F(1)])
  have "map ?h new = replicate (length new) (Suc (?h x))"
    using dist by (simp add: map_replicate_const [symmetric])
  then have sorted: "sorted (map ?h (q @ new))" using F(4,6) dist by (auto simp: sorted_append)
  have "\<forall>u\<in>set (q @ new). ?h u \<le> Suc (?h (hd (q @ new)))"
  proof
    fix u assume u: "u \<in> set (q @ new)"
    then have "hd (q @ new) \<in> set (q @ new)" by (intro hd_in_set) auto
    with bounds [OF u] bounds [OF this] show "?h u \<le> Suc (?h (hd (q @ new)))" by linarith
  qed
  moreover have "?h (hd (q @ new)) < ?h z"
    if z: "(from, z) \<in> (udg_edges g)\<^sup>*" "z \<notin> ?W" and ne: "q @ new \<noteq> []" for z
  proof (rule ccontr)
    let ?y = "hd (q @ new)"
    assume le: "\<not> ?h ?y < ?h z"
    have zx: "?h x < ?h z" using F(7) [OF z(1)] z(2) by simp
    have y: "?y \<in> set (q @ new)" using ne by (rule hd_in_set)
    have yz: "?h ?y = Suc (?h x)" "?h z = Suc (?h x)" using bounds [OF y] le zx by linarith+
    have "z \<noteq> from" using z(2) F(2) by auto
    with hops_pred [OF z(1)] obtain p where p: "(from, p) \<in> (udg_edges g)\<^sup>*" "(p, z) \<in> udg_edges g"
      "?h z = Suc (?h p)" by blast
    have pW: "p \<in> W" using F(7) [OF p(1)] p(3) yz(2) by force
    have "?h ?y \<le> ?h u" if "u \<in> set (q @ new)" for u
      using sorted that ne by (cases "q @ new") auto
    then have "p \<notin> set (q @ new)" using p(3) yz by force
    moreover have "p \<in> ?W" using pW by simp
    moreover have "set (udg_adj g p) \<subseteq> ?W" if "p \<in> ?W - set (q @ new)"
      using ok that unfolding bf_ok_def by blast
    ultimately show False using p(2) z(2) by (auto simp: udg_edges_def)
  qed
  moreover have "to \<in> ?W \<longrightarrow> to = from" using F(3) to by (auto simp: new)
  ultimately show ?thesis using ok sorted F(2) unfolding sp_front_def by blast
qed

lemma sp_backs_add:
  assumes "sp_backs g from V" "(from, x) \<in> (udg_edges g)\<^sup>*" "x \<in> sp_node ` V"
    and "\<And>a. a \<in> A \<Longrightarrow> (x, a) \<in> udg_edges g \<and> hops (udg_edges g) from a = Suc (hops (udg_edges g) from x)"
  shows "sp_backs g from (V \<union> entries x A)"
  using assms unfolding sp_backs_def entries_def
  by (auto split: option.splits intro: rtrancl_into_rtrancl)

definition sp_found :: "('a, 'w) ud_graph \<Rightarrow> 'a udg_node \<Rightarrow> 'a udg_node \<Rightarrow> 'a spbf \<Rightarrow> bool" where
  "sp_found g from to s \<longleftrightarrow> (\<exists>V q. sb_ok g s V q \<and> sp_backs g from V
     \<and> sb_found s = (to \<noteq> from \<and> (from, to) \<in> (udg_edges g)\<^sup>*) \<and> (sb_found s \<longrightarrow> to \<in> sp_node ` V))"

lemma udg_spbf_loop_correct:
  assumes g: "udg_inv g" and to: "to \<in> udg_nodes g"
  shows "sb_ok g s V q \<Longrightarrow> sp_front g from to (sp_node ` V) q \<Longrightarrow> sp_backs g from V \<Longrightarrow> \<not> sb_found s \<Longrightarrow>
    \<exists>s'. udg_spbf_loop g to s = Some (Done () s') \<and> sp_found g from to s'"
proof (induction "card (udg_nodes g - sp_node ` V) + length q" arbitrary: s V q rule: less_induct)
  case less
  have fi: "fi_inv (sb_fifo s)" "fi_list (sb_fifo s) = q" using less.prems(1) by (simp_all add: sb_ok_def)
  show ?case
  proof (cases q)
    case Nil
    have "udg_spbf_loop g to s = Some (Done () s)"
      using fi Nil by (simp add: udg_spbf_loop.simps fi_empty_list)
    moreover have "to = from" if "(from, to) \<in> (udg_edges g)\<^sup>*"
    proof -
      have "sp_front g from to (sp_node ` V) []" using less.prems(2) Nil by simp
      from sp_front_empty [OF this that] less.prems(2) show ?thesis by (simp add: sp_front_def)
    qed
    then have "sp_found g from to s" using less.prems(1,3,4) by (auto simp: sp_found_def)
    ultimately show ?thesis by blast
  next
    case (Cons x q1)
    let ?W = "sp_node ` V" and ?new = "filter (\<lambda>y. y \<notin> sp_node ` V) (udg_adj g x)"
    have front: "sp_front g from to ?W (x # q1)" using less.prems(2) Cons by simp
    note F = sp_frontD [OF front]
    have x: "x \<in> udg_nodes g" "x \<in> ?W" using F(1) by (auto simp: bf_ok_def)
    have fx: "(from, x) \<in> (udg_edges g)\<^sup>*" using x(2) less.prems(3) by (auto simp: sp_backs_def)
    note adj = udg_invD(5) [OF g x(1)] udg_adj_distinct [OF g x(1)]
    from fi_deq_Cons [OF fi(1), of x q1 "sb_mem s" "()"] fi(2) Cons obtain fi1 where
      d: "fi_deq (sb_fifo s, sb_mem s, ()) = Done x (fi1, sb_mem s, ())" "fi_inv fi1" "fi_list fi1 = q1" by auto
    let ?s = "s\<lparr>sb_fifo := fi1, sb_mem := sb_mem s\<rparr>"
    have s1: "sb_ok g ?s V q1" "\<not> sb_found ?s" using less.prems(1,4) d by (simp_all add: sb_ok_def)
    from spbf_add_adjs [OF g to adj s1, of x] obtain s' A q' where
      i: "iterate_list (udg_spbf_add_adjs_cb (g_ops g) x to) (udg_adj g x) ?s = Done (to \<in> set ?new) s'"
        "sb_ok g s' (V \<union> entries x A) q'" "A \<subseteq> set ?new" "sb_found s' = (to \<in> set ?new)"
        "if to \<in> set ?new then to \<in> A else A = set ?new \<and> q' = q1 @ ?new"
      unfolding Let_def by blast
    have ne: "\<not> fi_empty (sb_fifo s)" using fi(2) Cons by (simp add: fi_empty_list)
    have loop: "udg_spbf_loop g to s = (if sb_found s' then Some (Done () s') else udg_spbf_loop g to s')"
      using d(1) i(1) ne by (subst udg_spbf_loop.simps) (simp add: at_iterate_adj)
    have edge: "(x, a) \<in> udg_edges g" "hops (udg_edges g) from a = Suc (hops (udg_edges g) from x)"
      if "a \<in> A" for a
      using i(3) that x(1) sp_front_new [OF front fx, of a] by (auto simp: udg_edges_def)
    have backs: "sp_backs g from (V \<union> entries x A)"
      using sp_backs_add [OF less.prems(3) fx x(2), of A] edge by blast
    show ?thesis
    proof (cases "to \<in> set ?new")
      case True
      have "to \<noteq> from" using True F(2) by auto
      moreover have "(from, to) \<in> (udg_edges g)\<^sup>*"
        using fx edge(1) i(5) True by (auto intro: rtrancl_into_rtrancl)
      moreover have "to \<in> sp_node ` (V \<union> entries x A)" using i(5) True by (simp add: image_Un)
      ultimately have "sp_found g from to s'" using i(2,4) backs True unfolding sp_found_def by blast
      with loop i(4) True show ?thesis by simp
    next
      case False
      have W: "sp_node ` (V \<union> entries x A) = ?W \<union> set (udg_adj g x)"
        using False i(5) by (auto simp: image_Un)
      have "udg_nodes g - ?W = (udg_nodes g - (?W \<union> set (udg_adj g x))) \<union> set ?new" using adj(1) by auto
      then have "card (udg_nodes g - ?W) = card (udg_nodes g - (?W \<union> set (udg_adj g x))) + length ?new"
        using adj(2) by (simp add: card_Un_disjoint distinct_card [symmetric] Int_def)
      then have less': "card (udg_nodes g - sp_node ` (V \<union> entries x A)) + length q'
          < card (udg_nodes g - ?W) + length q"
        using Cons False i(5) W by simp
      have "sp_front g from to (sp_node ` (V \<union> entries x A)) q'"
        using sp_front_step [OF g front fx refl] False i(5) W by simp
      from less.hyps [OF less' i(2) this backs] i(4) False loop show ?thesis by auto
    qed
  qed
qed

section \<open>Reading the path off the back pointers\<close>

text \<open>A path that is part of the way back: from the entry at hand to the destination.\<close>

definition back_path :: "('a, 'w) ud_graph \<Rightarrow> 'a udg_node \<Rightarrow> 'a udg_node \<Rightarrow> 'a udg_node \<Rightarrow> 'a path \<Rightarrow> bool" where
  "back_path g from n to p \<longleftrightarrow> ll_inv p \<and> ll_ops p = udg_spath_ll_ops (g_ops g)
     \<and> set (ll_root p) \<subseteq> udg_nodes g \<and> way (udg_edges g) n to (ll_root p)
     \<and> (\<forall>z\<in>set (ll_root p). hops (udg_edges g) from n \<le> hops (udg_edges g) from z)
     \<and> length (ll_root p) + hops (udg_edges g) from n = Suc (hops (udg_edges g) from to)"

lemma spath_cmp: "ll_ops p = udg_spath_ll_ops ops \<Longrightarrow> ll_cmp p = udg_compare_nodes ops"
  by (simp add: ll_cmp_def udg_spath_ll_ops_def)

lemma back_path_step:
  assumes g: "udg_inv g" and p: "back_path g from n to p" and b: "(b, n) \<in> udg_edges g"
    and h: "hops (udg_edges g) from n = Suc (hops (udg_edges g) from b)" and m: "never_fails m"
  shows "\<exists>p' m'. ll_insert_head b (p, m, ()) = Done () (p', m', ()) \<and> back_path g from b to p' \<and> never_fails m'"
proof -
  note P = p [unfolded back_path_def]
  have bn: "b \<in> udg_nodes g" using b by (simp add: udg_edges_def)
  have new: "\<forall>y\<in>set (ll_root p). ll_cmp p b y \<noteq> 0"
  proof
    fix y assume y: "y \<in> set (ll_root p)"
    then have "b \<noteq> y" using P h by force
    then show "ll_cmp p b y \<noteq> 0"
      using udg_node_unique [OF g bn, of y] y P spath_cmp [of p "g_ops g"] by auto
  qed
  obtain m' where m': "malloc m = (True, m')" "never_fails m'" using malloc_ok [OF m] by blast
  let ?p = "p\<lparr>ll_root := b # ll_root p, ll_nnodes := Suc (ll_nnodes p)\<rparr>"
  have inv: "ll_inv p" using P by simp
  have "back_path g from b to ?p"
    using P h bn b ll_inv_cons [OF inv new] way_Cons [of "udg_edges g" n to "ll_root p" b]
    unfolding back_path_def by auto
  with ll_insert_head_new [OF inv m'(1) new, of "()"] m'(2) show ?thesis by blast
qed

lemma udg_spbf_back_correct:
  assumes g: "udg_inv g" and s: "sp_tree g (sb_visited s) V" and backs: "sp_backs g from V"
  shows "e \<in> V \<Longrightarrow> back_path g from (sp_node e) to p \<Longrightarrow> never_fails m \<Longrightarrow>
    \<exists>p' m' e'. udg_spbf_back s e p m = Some (Done p' (m', e')) \<and> back_path g from from to p' \<and> never_fails m'"
proof (induction "hops (udg_edges g) from (sp_node e)" arbitrary: e p m rule: less_induct)
  case less
  show ?case
  proof (cases "sp_back e")
    case None
    with less.prems(1) backs have "sp_node e = from" by (auto simp: sp_backs_def)
    with less.prems None show ?thesis by (simp add: udg_spbf_back.simps)
  next
    case (Some b)
    with less.prems(1) backs have b: "b \<in> sp_node ` V" "(b, sp_node e) \<in> udg_edges g"
      "hops (udg_edges g) from (sp_node e) = Suc (hops (udg_edges g) from b)"
      unfolding sp_backs_def by fastforce+
    then obtain f where f: "f \<in> V" "b = sp_node f" by blast
    from back_path_step [OF g less.prems(2) b(2,3) less.prems(3)] obtain p' m' where
      i: "ll_insert_head b (p, m, ()) = Done () (p', m', ())" "back_path g from b to p'" "never_fails m'" by blast
    have "udg_spbf_back s e p m = udg_spbf_back s f p' m'"
      using sp_tree_hit [OF g s f(1), of m "sb_freed s"] Some i(1) f(2)
      by (subst udg_spbf_back.simps) simp
    with less.hyps [of f p' m'] b(3) f i(2,3) show ?thesis by simp
  qed
qed

lemma udg_spbf_path_correct:
  assumes g: "udg_inv g" and s: "sb_ok g s V q" and backs: "sp_backs g from V" and to: "to \<in> sp_node ` V"
  shows "\<exists>p m e. udg_spbf_path g to e0 s = Some (Done p (m, e)) \<and> back_path g from from to p \<and> never_fails m"
proof -
  have t: "sp_tree g (sb_visited s) V" and m: "never_fails (sb_mem s)" using s by (simp_all add: sb_ok_def)
  obtain e where e: "e \<in> V" "to = sp_node e" using to by blast
  let ?l = "\<lparr>ll_root = [], ll_ops = udg_spath_ll_ops (g_ops g), ll_nnodes = 0\<rparr> :: 'a path"
  obtain m1 where 1: "ll_create (Some (udg_spath_ll_ops (g_ops g))) (sb_mem s) = (Some ?l, m1)" "never_fails m1"
    using ll_create_result [OF m, of "udg_spath_ll_ops (g_ops g)"] by blast
  have l: "ll_inv ?l"
    using ll_create_empty [OF 1(1), of "udg_compare_nodes (g_ops g)"] total_cmp_equiv [OF udg_invD(10) [OF g]]
    by (simp add: udg_spath_ll_ops_def)
  obtain m2 where 2: "malloc m1 = (True, m2)" "never_fails m2" using malloc_ok [OF 1(2)] by blast
  let ?p = "?l\<lparr>ll_root := [to], ll_nnodes := 1\<rparr>"
  have i: "ll_insert_head to (?l, m1, ()) = Done () (?p, m2, ())"
    using ll_insert_head_new [OF l 2(1), of to "()"] by simp
  have "to \<in> udg_nodes g" using t to by (auto simp: sp_tree_def)
  then have "back_path g from to to ?p" using ll_inv_cons [OF l, of to] by (simp add: back_path_def)
  from udg_spbf_back_correct [OF g t backs e(1), of to ?p m2] this 2(2) e(2) obtain p m3 e' where
    "udg_spbf_back s e ?p m2 = Some (Done p (m3, e'))" "back_path g from from to p" "never_fails m3" by blast
  with 1(1) i sp_tree_hit [OF g t e(1), of m1 "sb_freed s"] e(2) show ?thesis
    by (simp add: udg_spbf_path_def)
qed

section \<open>The whole search\<close>

lemma udg_spbf_correct:
  assumes g: "udg_inv g" and fr: "from \<in> udg_nodes g" and to: "to \<in> udg_nodes g"
    and fi: "fi_inv fi" "fi_list fi = []" and m: "never_fails m"
    and v: "v = \<lparr>at_root = Null, at_ops = udg_spbf_aops (g_ops g), at_nnodes = 0\<rparr>"
  shows "\<exists>path s'. udg_spbf g from to
        \<lparr>sb_visited = v, sb_fifo = fi, sb_mem = m, sb_freed = [], sb_found = False\<rparr> = Some (Done path s')
    \<and> spbf_cleanup s'
    \<and> (if to \<noteq> from \<and> (from, to) \<in> (udg_edges g)\<^sup>*
       then \<exists>p. path = Some p \<and> back_path g from from to p else path = None)"
proof -
  have t: "sp_tree g v {}" unfolding v by (rule sp_tree_empty [OF g])
  obtain fi1 m1 where 1: "fi_enq from (fi, m, ()) = Done () (fi1, m1, ())" "fi_inv fi1"
    "fi_list fi1 = [from]" "never_fails m1" using fi_enq_ok [OF fi(1) m, of "from" "()"] fi(2) by auto
  obtain m2 where 2: "malloc m1 = (True, m2)" "never_fails m2" using malloc_ok [OF 1(4)] by blast
  let ?e = "\<lparr>sp_node = from, sp_back = None\<rparr>"
  obtain v' m3 where 3: "at_insert ?e (v, m2, []) = Done () (v', m3, [])" "sp_tree g v' {?e}" "never_fails m3"
    using sp_tree_insert [OF g t _ _ 2(2), of ?e "[]"] fr by auto
  let ?s = "\<lparr>sb_visited = v', sb_fifo = fi1, sb_mem = m3, sb_freed = [], sb_found = False\<rparr>"
  have ok: "sb_ok g ?s {?e} [from]" using 1 3 by (simp add: sb_ok_def)
  have front: "sp_front g from to (sp_node ` {?e}) [from]"
    using fr hops_zero [of "from" _ "udg_edges g"] by (auto simp: sp_front_def bf_ok_def)
  have backs: "sp_backs g from {?e}" by (simp add: sp_backs_def)
  from udg_spbf_loop_correct [OF g to ok front backs] obtain s' where
    l: "udg_spbf_loop g to ?s = Some (Done () s')" "sp_found g from to s'" by auto
  then obtain V q where s': "sb_ok g s' V q" "sp_backs g from V"
    "sb_found s' = (to \<noteq> from \<and> (from, to) \<in> (udg_edges g)\<^sup>*)" "sb_found s' \<longrightarrow> to \<in> sp_node ` V"
    unfolding sp_found_def by blast
  have run: "udg_spbf g from to \<lparr>sb_visited = v, sb_fifo = fi, sb_mem = m, sb_freed = [], sb_found = False\<rparr> =
      (if \<not> sb_found s' then Some (Done None s')
       else case udg_spbf_path g to ?e s' of
              None \<Rightarrow> None
            | Some Abort \<Rightarrow> Some Abort
            | Some (Fail e (m3, sp)) \<Rightarrow> Some (spbf_error e (Some sp) (s'\<lparr>sb_mem := m3\<rparr>))
            | Some (Done path (m3, _)) \<Rightarrow> Some (Done (Some path) (s'\<lparr>sb_mem := m3\<rparr>)))"
    using 1(1) 2(1) 3(1) l(1) by (simp add: udg_spbf_def Let_def)
  have clean: "spbf_cleanup (s'\<lparr>sb_mem := m\<rparr>)" "spbf_cleanup s'" for m
    using s'(1) sp_tree_cleanup [of g "sb_visited s'" V] by (simp_all add: spbf_cleanup_def sb_ok_def)
  show ?thesis
  proof (cases "sb_found s'")
    case True
    from udg_spbf_path_correct [OF g s'(1,2), of to ?e] s'(4) True obtain p m4 e where
      "udg_spbf_path g to ?e s' = Some (Done p (m4, e))" "back_path g from from to p" by blast
    with run True clean(1) s'(3) show ?thesis by auto
  qed (use run clean(2) s'(3) in auto)
qed

text \<open>
  C6: \<^verbatim>\<open>udg_shortest_path_bf\<close> returns, and what it returns is right: with a destination that is
  connected to the start by at least one edge, a path from the start to the destination along
  edges of the graph that no other path is shorter than; with one that is not, or that is the
  start itself, NULL. Where the destination has no neighbour the caller's pointer is not written.
  Every entry of the search is freed exactly once.
\<close>

theorem udg_shortest_path_bf_shortest:
  assumes "udg_inv g" "from \<in> udg_nodes g" "to \<in> udg_nodes g" "never_fails m"
  shows "\<exists>path m'. udg_shortest_path_bf fi_junk g from to old (m, w) = Some (Done path (m', w)) \<and>
    (if udg_adj g to = [] then path = old
     else if to \<noteq> from \<and> (from, to) \<in> (udg_edges g)\<^sup>* then
       \<exists>p. path = Some p \<and> way (udg_edges g) from to (ll_root p)
         \<and> (\<forall>q. way (udg_edges g) from to q \<longrightarrow> length (ll_root p) \<le> length q)
     else path = None)"
proof -
  note D = udg_invD [OF assms(1)]
  have find: "at_find to (g_nodes g, m, w) = Done to (g_nodes g, m, w)"
    using assms(3) udg_node_refl [OF assms(1)] D(1,2) by (intro at_find_hit) (simp_all add: udg_nodes_def)
  have empty: "at_empty (g_adjs g (n_id to)) \<longleftrightarrow> udg_adj g to = []"
    using at_invD(6) [OF D(3) [OF assms(3)]] by (simp add: at_empty_def udg_adj_def)
  show ?thesis
  proof (cases "udg_adj g to = []")
    case True
    with find empty show ?thesis by (simp add: udg_shortest_path_bf_def)
  next
    case False
    let ?v = "\<lparr>at_root = Null, at_ops = udg_spbf_aops (g_ops g), at_nnodes = 0\<rparr> :: ('a spnode, 'a spnode list) avl_tree"
    obtain m1 where 1: "at_create (udg_spbf_aops (g_ops g)) m = (Some ?v, m1)" "never_fails m1"
      using at_create_result [OF assms(4), of "udg_spbf_aops (g_ops g)"] by blast
    obtain fi :: "('a udg_node, unit) fifo" and m2 where
      2: "fi_create None m1 = (Some fi, m2)" "fi_inv fi" "fi_list fi = []" "never_fails m2"
      using fi_create_ok [OF 1(2), of None] by blast
    from udg_spbf_correct [OF assms(1-3) 2(2-4) refl] obtain path s' where
      r: "udg_spbf g from to \<lparr>sb_visited = ?v, sb_fifo = fi, sb_mem = m2, sb_freed = [], sb_found = False\<rparr>
            = Some (Done path s')" "spbf_cleanup s'"
        "if to \<noteq> from \<and> (from, to) \<in> (udg_edges g)\<^sup>*
         then \<exists>p. path = Some p \<and> back_path g from from to p else path = None" by blast
    have "length (ll_root p) \<le> length q" if "back_path g from from to p" "way (udg_edges g) from to q" for p q
      using that way_hops [OF that(2)] by (simp add: back_path_def)
    with r(3) False have "if udg_adj g to = [] then path = old
     else if to \<noteq> from \<and> (from, to) \<in> (udg_edges g)\<^sup>* then
       \<exists>p. path = Some p \<and> way (udg_edges g) from to (ll_root p)
         \<and> (\<forall>q. way (udg_edges g) from to q \<longrightarrow> length (ll_root p) \<le> length q)
     else path = None" by (auto simp: back_path_def split: if_splits)
    moreover have "udg_shortest_path_bf fi_junk g from to old (m, w) = Some (Done path (sb_mem s', w))"
      using find empty False 1(1) 2(1) r(1,2) by (simp add: udg_shortest_path_bf_def)
    ultimately show ?thesis by blast
  qed
qed

theorem udg_shortest_path_bf_shortest_witness:
  "\<exists>p m'. udg_shortest_path_bf True int_udg (int_node 2) (int_node 3) None ([], ()) = Some (Done (Some p) (m', ()))
     \<and> way (udg_edges int_udg) (int_node 2) (int_node 3) (ll_root p) \<and> length (ll_root p) \<le> 2"
proof -
  have reach: "(int_node 2, int_node 3) \<in> (udg_edges int_udg)\<^sup>*" by auto
  have w: "way (udg_edges int_udg) (int_node 2) (int_node 3) [int_node 2, int_node 3]" by (simp add: way_def)
  have "\<exists>path m'. udg_shortest_path_bf True int_udg (int_node 2) (int_node 3) None ([], ()) = Some (Done path (m', ())) \<and>
       (\<exists>p. path = Some p \<and> way (udg_edges int_udg) (int_node 2) (int_node 3) (ll_root p)
         \<and> (\<forall>q. way (udg_edges int_udg) (int_node 2) (int_node 3) q \<longrightarrow> length (ll_root p) \<le> length q))"
    using udg_shortest_path_bf_shortest [OF int_udg_inv, of "int_node 2" "int_node 3" "[]" True None "()"] reach
    by (simp del: int_udg_inv int_udg_edges)
  with w show ?thesis by (auto simp del: int_udg_edges)
qed

end
