(* ===== verification/UdwGraph.thy ===== *)
theory UdwGraph
  imports AvlDict HeapQueue LinkedList
begin

text \<open>
  \<^verbatim>\<open>graphs/udw_graph/udw_graph.c\<close>: an undirected graph with weighted edges, and its search for
  a shortest path, which explores a heap of paths. A node pointer is its address and the data it
  points to; the adjacency tree a node owns is looked up by the address. An edge is a value, its
  weight a 64-bit word. Freeing memory twice stops the program (\<open>Abort\<close>). The nodes a client passes
  are nodes of the graph it passes them with: the assertions that both sides of a comparison are of the
  same graph then hold and are left out.
\<close>

section \<open>State\<close>

record 'a udwg_node =
  n_id :: nat
  n_data :: 'a

record 'a udwg_edge =
  e_adj :: "'a udwg_node"
  e_weight :: "64 word"

record ('a, 'w) udw_graph_ops =
  go_compare_fn :: "'a \<Rightarrow> 'a \<Rightarrow> int"
  go_destroy_data_fn :: "('a \<Rightarrow> 'w \<Rightarrow> 'w) option"

text \<open>The world of an adjacency tree is the list of the edges it has freed.\<close>

type_synonym 'a edge_tree = "('a udwg_edge, 'a udwg_edge list) avl_tree"

record ('a, 'w) udw_graph =
  g_nodes :: "('a udwg_node, 'w) avl_tree"
  g_ops :: "('a, 'w) udw_graph_ops"
  g_adjs :: "nat \<Rightarrow> 'a edge_tree"
  g_next :: nat

type_synonym ('a, 'w) udwg_state = "(('a, 'w) udw_graph, 'w) cstate"

definition udwg_compare_nodes :: "('a, 'w) udw_graph_ops \<Rightarrow> 'a udwg_node \<Rightarrow> 'a udwg_node \<Rightarrow> int" where
  "udwg_compare_nodes ops n1 n2 = go_compare_fn ops (n_data n1) (n_data n2)"

definition udwg_destroy_node :: "('a, 'w) udw_graph_ops \<Rightarrow> 'a udwg_node \<Rightarrow> 'w \<Rightarrow> 'w" where
  "udwg_destroy_node ops n w = (case go_destroy_data_fn ops of None \<Rightarrow> w | Some f \<Rightarrow> f (n_data n) w)"

definition udwg_aops :: "('a, 'w) udw_graph_ops \<Rightarrow> ('a udwg_node, 'w) avl_tree_ops" where
  "udwg_aops ops = \<lparr>ato_compare_fn = udwg_compare_nodes ops, ato_destroy_data_fn = Some (udwg_destroy_node ops)\<rparr>"

definition udwg_compare_node_adjs :: "('a, 'w) udw_graph_ops \<Rightarrow> 'a udwg_edge \<Rightarrow> 'a udwg_edge \<Rightarrow> int" where
  "udwg_compare_node_adjs ops e1 e2 = go_compare_fn ops (n_data (e_adj e1)) (n_data (e_adj e2))"

definition udwg_destroy_node_adj :: "'a udwg_edge \<Rightarrow> 'a udwg_edge list \<Rightarrow> 'a udwg_edge list" where
  "udwg_destroy_node_adj edge freed = edge # freed"

definition udwg_node_aops :: "('a, 'w) udw_graph_ops \<Rightarrow> ('a udwg_edge, 'a udwg_edge list) avl_tree_ops" where
  "udwg_node_aops ops = \<lparr>ato_compare_fn = udwg_compare_node_adjs ops,
     ato_destroy_data_fn = Some udwg_destroy_node_adj\<rparr>"

section \<open>Building a graph\<close>

definition udwg_create :: "('a, 'w) udw_graph_ops \<Rightarrow> allocator \<Rightarrow> ('a, 'w) udw_graph option \<times> allocator" where
  "udwg_create gops m =
     (let (ok, m1) = malloc m in
      if \<not> ok then (None, m1)
      else case at_create (udwg_aops gops) m1 of
        (None, m2) \<Rightarrow> (None, m2)
      | (Some nodes, m2) \<Rightarrow>
          let (ok, m3) = malloc m2 in
          if \<not> ok then (None, m3)
          else (Some \<lparr>g_nodes = nodes, g_ops = gops,
                      g_adjs = (\<lambda>i. \<lparr>at_root = Null, at_ops = udwg_node_aops gops, at_nnodes = 0\<rparr>),
                      g_next = 0\<rparr>, m3))"

definition udwg_destroy :: "('a, 'w) udw_graph \<Rightarrow> 'w \<Rightarrow> 'w" where
  "udwg_destroy g w = at_destroy (g_nodes g) w"

definition udwg_add_node :: "'a \<Rightarrow> (('a, 'w) udwg_state, 'a udwg_node) prog" where
  "udwg_add_node data st =
     (let (g, m, w) = st; (ok, m1) = malloc m in
      if \<not> ok then Fail ENOMEM (g, m1, w)
      else case at_create (udwg_node_aops (g_ops g)) m1 of
        (None, m2) \<Rightarrow> Fail ENOMEM (g, m2, w)
      | (Some adjs, m2) \<Rightarrow>
          let n = \<lparr>n_id = g_next g, n_data = data\<rparr> in
          (case at_insert n (g_nodes g, m2, w) of
             Abort \<Rightarrow> Abort
           | Fail e (nodes, m3, w3) \<Rightarrow> Fail e (g\<lparr>g_nodes := nodes\<rparr>, m3, w3)
           | Done _ (nodes, m3, w3) \<Rightarrow>
               Done n (g\<lparr>g_nodes := nodes, g_adjs := (g_adjs g)(n_id n := adjs),
                         g_next := g_next g + 1\<rparr>, m3, w3)))"

definition udwg_set_adjs :: "'a udwg_node \<Rightarrow> 'a edge_tree \<Rightarrow> ('a, 'w) udw_graph \<Rightarrow> ('a, 'w) udw_graph" where
  "udwg_set_adjs n t g = g\<lparr>g_adjs := (g_adjs g)(n_id n := t)\<rparr>"

text \<open>
  Where the second half of the edge cannot be added, the first is removed again, and the removal
  runs the tree's destroy callback on it; the error path frees both halves.
\<close>

definition udwg_add_edge :: "'a udwg_node \<Rightarrow> 'a udwg_node \<Rightarrow> 64 word \<Rightarrow> (('a, 'w) udwg_state, unit) prog" where
  "udwg_add_edge n1 n2 weight st =
     (let (g, m, w) = st; (ok1, m1) = malloc m in
      if \<not> ok1 then Fail ENOMEM (g, m1, w)
      else let (ok2, m2) = malloc m1 in
      if \<not> ok2 then Fail ENOMEM (g, m2, w)
      else
        let e1 = \<lparr>e_adj = n2, e_weight = weight\<rparr> in
        case at_insert e1 (g_adjs g (n_id n1), m2, []) of
          Abort \<Rightarrow> Abort
        | Fail e (t1, m3, _) \<Rightarrow> Fail e (udwg_set_adjs n1 t1 g, m3, w)
        | Done _ (t1, m3, _) \<Rightarrow>
            let g1 = udwg_set_adjs n1 t1 g; e2 = \<lparr>e_adj = n1, e_weight = weight\<rparr> in
            (case at_insert e2 (g_adjs g1 (n_id n2), m3, []) of
               Abort \<Rightarrow> Abort
             | Done _ (t2, m4, _) \<Rightarrow> Done () (udwg_set_adjs n2 t2 g1, m4, w)
             | Fail e (t2, m4, _) \<Rightarrow>
                 let g2 = udwg_set_adjs n2 t2 g1 in
                 (case at_remove e1 (g_adjs g2 (n_id n1), m4, []) of
                    Abort \<Rightarrow> Abort
                  | Fail _ (t3, m5, freed) \<Rightarrow>
                      if e1 \<in> set freed then Abort else Fail e (udwg_set_adjs n1 t3 g2, m5, w)
                  | Done _ (t3, m5, freed) \<Rightarrow>
                      if e1 \<in> set freed then Abort else Fail e (udwg_set_adjs n1 t3 g2, m5, w))))"

text \<open>Four entry points are \<^verbatim>\<open>assert(0)\<close>.\<close>

definition udwg_get_node :: "'a \<Rightarrow> (('a, 'w) udwg_state, 'a udwg_node) prog" where
  "udwg_get_node data st = Abort"

definition udwg_iterate_df :: "'a udwg_node \<Rightarrow> ('a, 'c) callback \<Rightarrow> (('a, 'w) udwg_state \<times> 'c, unit) prog" where
  "udwg_iterate_df start callback st = Abort"

definition udwg_iterate_bf :: "'a udwg_node \<Rightarrow> ('a, 'c) callback \<Rightarrow> (('a, 'w) udwg_state \<times> 'c, unit) prog" where
  "udwg_iterate_bf start callback st = Abort"

section \<open>Checking\<close>

definition udwg_check_node_adjacencies_cb :: "('a, 'w) udw_graph \<Rightarrow> 'a udwg_node
    \<Rightarrow> ('a udwg_edge, unit) callback" where
  "udwg_check_node_adjacencies_cb g n edge c =
     (case at_find \<lparr>e_adj = n, e_weight = 0\<rparr> (g_adjs g (n_id (e_adj edge)), [], []) of
        Done found_edge _ \<Rightarrow> if e_weight found_edge = e_weight edge then Done False c else Abort
      | _ \<Rightarrow> Abort)"

definition udwg_check_node_cb :: "('a, 'w) udw_graph \<Rightarrow> ('a udwg_node, unit) callback" where
  "udwg_check_node_cb g n c =
     (case at_iterate (g_adjs g (n_id n)) (udwg_check_node_adjacencies_cb g n) c of
        Done _ c' \<Rightarrow> Done False c'
      | Fail e c' \<Rightarrow> Fail e c'
      | Abort \<Rightarrow> Abort)"

definition udwg_check :: "('a, 'w) udw_graph \<Rightarrow> bool" where
  "udwg_check g \<longleftrightarrow> at_iterate (g_nodes g) (udwg_check_node_cb g) () = Done () ()"

section \<open>Paths and their heap\<close>

type_synonym 'a upath = "('a udwg_edge, unit) linked_list"
type_synonym 'a path_heap = "('a upath, unit) heap"

definition udwg_shortest_path_df :: "'a udwg_node \<Rightarrow> 'a udwg_node
    \<Rightarrow> (('a, 'w) udwg_state, 'a upath option) prog" where
  "udwg_shortest_path_df from to st = Abort"

definition udwg_path_len_cb :: "('a udwg_edge, 64 word) callback" where
  "udwg_path_len_cb edge plen = Done False (plen + e_weight edge)"

definition udwg_path_len :: "'a upath \<Rightarrow> 64 word" where
  "udwg_path_len path =
     (case ll_iterate path udwg_path_len_cb 0 of Done _ plen \<Rightarrow> plen | Fail _ plen \<Rightarrow> plen | Abort \<Rightarrow> 0)"

text \<open>The longer path compares smaller, so that the heap gives the shortest path first.\<close>

definition udwg_compare_paths :: "'a upath \<Rightarrow> 'a upath \<Rightarrow> int" where
  "udwg_compare_paths path1 path2 =
     (if udwg_path_len path2 <s udwg_path_len path1 then -1
      else if udwg_path_len path1 <s udwg_path_len path2 then 1 else 0)"

definition udwg_destroy_path :: "'a upath option \<Rightarrow> unit \<Rightarrow> unit" where
  "udwg_destroy_path element w = (case element of None \<Rightarrow> w | Some path \<Rightarrow> ll_destroy path w)"

definition spbf_pq_ops :: "('a upath, unit) heap_ops" where
  "spbf_pq_ops = \<lparr>heap_compare = udwg_compare_paths, heap_destroy_element = udwg_destroy_path\<rparr>"

definition udwg_compare_edges :: "('a, 'w) udw_graph_ops \<Rightarrow> 'a udwg_edge \<Rightarrow> 'a udwg_edge \<Rightarrow> int" where
  "udwg_compare_edges ops e1 e2 = go_compare_fn ops (n_data (e_adj e1)) (n_data (e_adj e2))"

definition spbf_ll_ops :: "('a, 'w) udw_graph_ops \<Rightarrow> ('a udwg_edge, unit) linked_list_ops" where
  "spbf_ll_ops ops = \<lparr>llo_compare_fn = Some (udwg_compare_edges ops), llo_destroy_data_fn = None\<rparr>"

section \<open>The search\<close>

text \<open>
  The heap of paths, the best path found so far, the allocator. The path being extended and the
  destination do not change while the callback runs. \<open>junk\<close>: what \<^verbatim>\<open>realloc\<close> leaves in the slots
  it adds to the heap.
\<close>

type_synonym 'a spbf_ctx = "'a path_heap \<times> 'a upath option \<times> allocator"

definition udwg_spbf_cb :: "('a, 'w) udw_graph_ops \<Rightarrow> (nat \<Rightarrow> 'a upath option) \<Rightarrow> 'a udwg_node \<Rightarrow> 'a upath
    \<Rightarrow> ('a udwg_edge, 'a spbf_ctx) callback" where
  "udwg_spbf_cb ops junk to path edge ctx =
     (let (pq, best_path, m) = ctx in
      case ll_find edge (path, m, ()) of
        Abort \<Rightarrow> Abort
      | Done _ _ \<Rightarrow> Done False ctx
      | Fail _ _ \<Rightarrow>
          (case ll_create_copy path (m, ()) of
             Abort \<Rightarrow> Abort
           | Fail e (m1, _) \<Rightarrow> Fail e (pq, best_path, m1)
           | Done None (m1, _) \<Rightarrow> Fail ENOMEM (pq, best_path, m1)
           | Done (Some copy) (m1, _) \<Rightarrow>
               (case ll_insert edge (copy, m1, ()) of
                  Abort \<Rightarrow> Abort
                | Fail e (_, m2, _) \<Rightarrow> Fail e (pq, best_path, m2)
                | Done _ (adj_path, m2, _) \<Rightarrow>
                    if udwg_compare_nodes ops (e_adj edge) to = 0 then
                      (if (case best_path of None \<Rightarrow> True
                           | Some b \<Rightarrow> udwg_path_len adj_path <s udwg_path_len b)
                       then Done False (pq, Some adj_path, m2)
                       else Done False (pq, best_path, m2))
                    else
                      (case heap_insert junk adj_path (pq, m2, ()) of
                         Abort \<Rightarrow> Abort
                       | Fail e (pq1, m3, _) \<Rightarrow> Fail e (pq1, best_path, m3)
                       | Done _ (pq1, m3, _) \<Rightarrow> Done False (pq1, best_path, m3)))))"

text \<open>\<open>us_dangling\<close>: the local variable \<^verbatim>\<open>_path\<close> points to a list that has been freed.\<close>

record 'a uspbf =
  us_pq :: "'a path_heap"
  us_visited :: "('a udwg_node, unit) avl_tree"
  us_best :: "'a upath option"
  us_mem :: allocator
  us_dangling :: bool

definition udwg_visited_ops :: "('a, 'w) udw_graph_ops \<Rightarrow> ('a udwg_node, unit) avl_tree_ops" where
  "udwg_visited_ops ops = \<lparr>ato_compare_fn = udwg_compare_nodes ops, ato_destroy_data_fn = None\<rparr>"

text \<open>
  One round of the loop with the path popped from the heap. It gives whether the loop goes on, or
  ends with the best path found.
\<close>

definition udwg_spbf_round :: "('a, 'w) udw_graph \<Rightarrow> (nat \<Rightarrow> 'a upath option) \<Rightarrow> 'a udwg_node \<Rightarrow> 'a upath
    \<Rightarrow> ('a uspbf, bool) prog" where
  "udwg_spbf_round g junk to path s =
     (if (case us_best s of None \<Rightarrow> False | Some b \<Rightarrow> udwg_path_len b \<le>s udwg_path_len path)
      then Done False s
      else case ll_last (path, us_mem s, ()) of
        Abort \<Rightarrow> Abort
      | Fail e _ \<Rightarrow> Fail e s
      | Done edge _ \<Rightarrow>
          let node = e_adj edge in
          (case at_find node (us_visited s, us_mem s, ()) of
             Abort \<Rightarrow> Abort
           | Done _ _ \<Rightarrow> Done True (s\<lparr>us_dangling := True\<rparr>)
           | Fail _ _ \<Rightarrow>
               (case at_iterate (g_adjs g (n_id node)) (udwg_spbf_cb (g_ops g) junk to path)
                       (us_pq s, us_best s, us_mem s) of
                  Abort \<Rightarrow> Abort
                | Fail e (pq, best, m) \<Rightarrow> Fail e (s\<lparr>us_pq := pq, us_best := best, us_mem := m\<rparr>)
                | Done _ (pq, best, m) \<Rightarrow>
                    (case at_insert node (us_visited s, m, ()) of
                       Abort \<Rightarrow> Abort
                     | Fail e (v, m1, _) \<Rightarrow>
                         Fail e (s\<lparr>us_pq := pq, us_visited := v, us_best := best, us_mem := m1\<rparr>)
                     | Done _ (v, m1, _) \<Rightarrow>
                         Done True (s\<lparr>us_pq := pq, us_visited := v, us_best := best, us_mem := m1,
                                      us_dangling := True\<rparr>)))))"

text \<open>The loop: \<open>Done True\<close> when it ends with \<^verbatim>\<open>found\<close>, \<open>Done False\<close> when the heap is empty.\<close>

partial_function (option) udwg_spbf_loop :: "('a, 'w) udw_graph \<Rightarrow> (nat \<Rightarrow> 'a upath option)
    \<Rightarrow> 'a udwg_node \<Rightarrow> 'a uspbf \<Rightarrow> (bool, 'a uspbf) outcome option" where
  "udwg_spbf_loop g junk to s =
     (if heap_empty (us_pq s) then Some (Done False s)
      else case heap_pop (us_pq s, us_mem s, ()) of
        Done (Some path) (pq, m, _) \<Rightarrow>
          (case udwg_spbf_round g junk to path (s\<lparr>us_pq := pq, us_mem := m, us_dangling := False\<rparr>) of
             Abort \<Rightarrow> Some Abort
           | Fail e s1 \<Rightarrow> Some (Fail e s1)
           | Done again s1 \<Rightarrow> if again then udwg_spbf_loop g junk to s1 else Some (Done True s1))
      | _ \<Rightarrow> Some Abort)"

declare udwg_spbf_loop.simps [code]

text \<open>
  The error path destroys the list \<^verbatim>\<open>_path\<close> points to, also when the loop has freed it already.
\<close>

definition udwg_shortest_path_bf :: "('a, 'w) udw_graph \<Rightarrow> (nat \<Rightarrow> 'a upath option) \<Rightarrow> 'a udwg_node
    \<Rightarrow> 'a udwg_node \<Rightarrow> allocator \<Rightarrow> ('a upath option, allocator) outcome option" where
  "udwg_shortest_path_bf g junk from to m =
     (case heap_create spbf_pq_ops m of
        (None, m1) \<Rightarrow> Some (Fail ENOMEM m1)
      | (Some pq, m1) \<Rightarrow>
          (case at_create (udwg_visited_ops (g_ops g)) m1 of
             (None, m2) \<Rightarrow> Some (Fail ENOMEM m2)
           | (Some visited, m2) \<Rightarrow>
               (case ll_create (Some (spbf_ll_ops (g_ops g))) m2 of
                  (None, m3) \<Rightarrow> Some (Fail ENOMEM m3)
                | (Some path, m3) \<Rightarrow>
                    (case at_iterate (g_adjs g (n_id from)) (udwg_spbf_cb (g_ops g) junk to path)
                            (pq, None, m3) of
                       Abort \<Rightarrow> Some Abort
                     | Fail e (_, _, m4) \<Rightarrow> Some (Fail e m4)
                     | Done _ (pq1, best, m4) \<Rightarrow>
                         (case udwg_spbf_loop g junk to \<lparr>us_pq = pq1, us_visited = visited, us_best = best,
                                 us_mem = m4, us_dangling = False\<rparr> of
                            None \<Rightarrow> None
                          | Some Abort \<Rightarrow> Some Abort
                          | Some (Fail e s) \<Rightarrow> Some (Fail e (us_mem s))
                          | Some (Done found s) \<Rightarrow>
                              Some (if found then Done (us_best s) (us_mem s)
                                    else if us_dangling s then Abort else Fail ENOENT (us_mem s)))))))"

end
