(* ===== verification/UdwCorrect.thy ===== *)
theory UdwCorrect
  imports UdwGraph
begin

text \<open>
  Building and checking a weighted graph (\<^verbatim>\<open>graphs/udw_graph/udw_graph.c\<close>): the edges stay
  symmetric in their weights; a refused edge is freed twice when its second half is refused.
\<close>

section \<open>The invariant\<close>

definition udwg_nodes :: "('a, 'w) udw_graph \<Rightarrow> 'a udwg_node set" where
  "udwg_nodes g = set (at_list (g_nodes g))"

definition udwg_adj :: "('a, 'w) udw_graph \<Rightarrow> 'a udwg_node \<Rightarrow> 'a udwg_edge list" where
  "udwg_adj g n = at_list (g_adjs g (n_id n))"

text \<open>The edges with their weights.\<close>

definition udwg_edges :: "('a, 'w) udw_graph \<Rightarrow> ('a udwg_node \<times> 64 word \<times> 'a udwg_node) set" where
  "udwg_edges g = {(x, w, y). x \<in> udwg_nodes g \<and> \<lparr>e_adj = y, e_weight = w\<rparr> \<in> set (udwg_adj g x)}"

definition wsym :: "('n \<times> 'k \<times> 'n) set \<Rightarrow> bool" where
  "wsym E \<longleftrightarrow> (\<forall>x w y. (x, w, y) \<in> E \<longrightarrow> (y, w, x) \<in> E)"

definition udwg_wf :: "('a, 'w) udw_graph \<Rightarrow> bool" where
  "udwg_wf g \<longleftrightarrow> at_inv (g_nodes g) \<and> at_ops (g_nodes g) = udwg_aops (g_ops g)
     \<and> (\<forall>n\<in>udwg_nodes g. at_inv (g_adjs g (n_id n)) \<and> at_ops (g_adjs g (n_id n)) = udwg_node_aops (g_ops g)
          \<and> e_adj ` set (udwg_adj g n) \<subseteq> udwg_nodes g \<and> n_id n < g_next g)
     \<and> inj_on n_id (udwg_nodes g)"

definition udwg_inv :: "('a, 'w) udw_graph \<Rightarrow> bool" where
  "udwg_inv g \<longleftrightarrow> udwg_wf g \<and> wsym (udwg_edges g) \<and> (\<forall>x w. (x, w, x) \<notin> udwg_edges g)"

lemma udwg_ops_cmp [simp]:
  "ato_compare_fn (udwg_aops ops) = udwg_compare_nodes ops"
  "ato_compare_fn (udwg_node_aops ops) = udwg_compare_node_adjs ops"
  by (simp_all add: udwg_aops_def udwg_node_aops_def)

lemma udwg_compare_edge [simp]:
  "udwg_compare_node_adjs ops e f = udwg_compare_nodes ops (e_adj e) (e_adj f)"
  by (simp add: udwg_compare_node_adjs_def udwg_compare_nodes_def)

lemma udwg_edge_eta [simp]: "\<lparr>e_adj = e_adj f, e_weight = e_weight f\<rparr> = f"
  by (cases f) simp

lemma udwg_edges_adj: "(x, w, y) \<in> udwg_edges g \<longleftrightarrow>
    x \<in> udwg_nodes g \<and> (\<exists>e\<in>set (udwg_adj g x). e_adj e = y \<and> e_weight e = w)"
  by (auto simp: udwg_edges_def intro!: bexI [of _ "\<lparr>e_adj = y, e_weight = w\<rparr>"])

lemma udwg_edges_image:
  "udwg_edges g = (\<Union>x\<in>udwg_nodes g. (\<lambda>e. (x, e_weight e, e_adj e)) ` set (udwg_adj g x))"
  by (fastforce simp: udwg_edges_adj)

lemma udwg_wfD:
  assumes "udwg_wf g"
  shows "at_inv (g_nodes g)" "at_ops (g_nodes g) = udwg_aops (g_ops g)"
    "\<And>n. n \<in> udwg_nodes g \<Longrightarrow> at_inv (g_adjs g (n_id n))"
    "\<And>n. n \<in> udwg_nodes g \<Longrightarrow> at_ops (g_adjs g (n_id n)) = udwg_node_aops (g_ops g)"
    "\<And>n e. n \<in> udwg_nodes g \<Longrightarrow> e \<in> set (udwg_adj g n) \<Longrightarrow> e_adj e \<in> udwg_nodes g"
    "\<And>n. n \<in> udwg_nodes g \<Longrightarrow> n_id n < g_next g" "inj_on n_id (udwg_nodes g)"
    "total_cmp (udwg_compare_nodes (g_ops g))"
  using assms at_invD(1) [of "g_nodes g"] unfolding udwg_wf_def by auto

lemma udwg_invD:
  assumes "udwg_inv g"
  shows "udwg_wf g" "wsym (udwg_edges g)" "\<And>x w. (x, w, x) \<notin> udwg_edges g"
  using assms by (simp_all add: udwg_inv_def)

lemma udwg_node_refl: "udwg_wf g \<Longrightarrow> udwg_compare_nodes (g_ops g) x x = 0"
  by (rule total_cmp_refl [OF udwg_wfD(8)])

lemma udwg_node_unique:
  assumes "udwg_wf g" "x \<in> udwg_nodes g" "y \<in> udwg_nodes g"
  shows "udwg_compare_nodes (g_ops g) x y = 0 \<longleftrightarrow> x = y"
  using distinct_by_inj [OF at_invD(4,5) [OF udwg_wfD(1) [OF assms(1)]], of x y] assms
    udwg_wfD(2) [OF assms(1)] udwg_node_refl [OF assms(1)] by (auto simp: udwg_nodes_def)

lemma finite_udwg_nodes [simp]: "finite (udwg_nodes g)"
  by (simp add: udwg_nodes_def)

section \<open>Sets of edges in AVL trees\<close>

text \<open>A tree that holds the edges \<open>S\<close>, all into nodes of the graph, at most one into each.\<close>

definition edge_set :: "('a, 'w) udw_graph \<Rightarrow> 'a edge_tree \<Rightarrow> 'a udwg_edge set \<Rightarrow> bool" where
  "edge_set g t S \<longleftrightarrow> at_inv t \<and> at_ops t = udwg_node_aops (g_ops g) \<and> set (at_list t) = S
     \<and> e_adj ` S \<subseteq> udwg_nodes g"

lemma udwg_adj_edge_set:
  "udwg_wf g \<Longrightarrow> n \<in> udwg_nodes g \<Longrightarrow> edge_set g (g_adjs g (n_id n)) (set (udwg_adj g n))"
  using udwg_wfD(3-5) [of g n] by (auto simp: edge_set_def udwg_adj_def)

lemma edge_set_inj:
  assumes g: "udwg_wf g" and t: "edge_set g t S"
  shows "inj_on e_adj S"
proof (rule inj_onI)
  fix e f assume "e \<in> S" "f \<in> S" "e_adj e = e_adj f"
  then show "e = f"
    using distinct_by_inj [OF at_invD(4,5), of t e f] t udwg_node_refl [OF g] by (simp add: edge_set_def)
qed

lemma edge_set_find:
  assumes g: "udwg_wf g" and t: "edge_set g t S" and n: "e_adj e \<in> udwg_nodes g"
  shows "f \<in> S \<Longrightarrow> e_adj f = e_adj e \<Longrightarrow> at_find e (t, m, w) = Done f (t, m, w)"
    and "e_adj e \<notin> e_adj ` S \<Longrightarrow> at_find e (t, m, w) = Fail ENOENT (t, m, w)"
proof -
  show "at_find e (t, m, w) = Done f (t, m, w)" if "f \<in> S" "e_adj f = e_adj e"
    using t that udwg_node_refl [OF g] by (simp add: edge_set_def at_find_hit)
  show "at_find e (t, m, w) = Fail ENOENT (t, m, w)" if "e_adj e \<notin> e_adj ` S"
  proof (rule at_find_miss, rule ballI)
    fix y assume "y \<in> set (at_list t)"
    then have "y \<in> S" using t by (simp add: edge_set_def)
    moreover have "e_adj y \<in> udwg_nodes g" using t \<open>y \<in> S\<close> by (auto simp: edge_set_def)
    ultimately show "at_cmp t e y \<noteq> 0"
      using udwg_node_unique [OF g n, of "e_adj y"] t that by (auto simp: edge_set_def)
  qed
qed

lemma edge_set_insert_cases:
  assumes g: "udwg_wf g" and t: "edge_set g t S" and n: "e_adj e \<in> udwg_nodes g"
  shows "\<exists>m'. (never_fails m \<longrightarrow> never_fails m')
    \<and> ((\<exists>t'. at_insert e (t, m, w) = Done () (t', m', w) \<and> e_adj e \<notin> e_adj ` S \<and> edge_set g t' (insert e S))
    \<or> (\<exists>x. at_insert e (t, m, w) = Fail x (t, m', w) \<and> (never_fails m \<longrightarrow> x = EEXIST \<and> e_adj e \<in> e_adj ` S)))"
proof -
  have "at_inv t" and S: "set (at_list t) = S" "at_ops t = udwg_node_aops (g_ops g)"
    using t by (simp_all add: edge_set_def)
  have "udwg_compare_nodes (g_ops g) (e_adj e) (e_adj y) = 0 \<longleftrightarrow> e_adj e = e_adj y" if "y \<in> S" for y
    using t that by (intro udwg_node_unique [OF g n]) (auto simp: edge_set_def)
  then have "(\<forall>y\<in>S. udwg_compare_nodes (g_ops g) (e_adj e) (e_adj y) \<noteq> 0) \<longleftrightarrow> e_adj e \<notin> e_adj ` S"
    "(\<exists>y\<in>S. udwg_compare_nodes (g_ops g) (e_adj e) (e_adj y) = 0) \<longleftrightarrow> e_adj e \<in> e_adj ` S"
    by (auto simp: image_iff)
  with at_insert_cases [OF \<open>at_inv t\<close>, of m e w] t n show ?thesis
    by (simp add: edge_set_def S)
qed

lemmas edge_insert_cases = edge_set_insert_cases
  [where e = "\<lparr>e_adj = y, e_weight = k\<rparr>" for y k, unfolded udwg_edge.simps]

section \<open>Changing the graph\<close>

lemma udwg_set_adjs_simps [simp]:
  "g_nodes (udwg_set_adjs n t g) = g_nodes g" "g_ops (udwg_set_adjs n t g) = g_ops g"
  "g_next (udwg_set_adjs n t g) = g_next g"
  "g_adjs (udwg_set_adjs n t g) i = (if i = n_id n then t else g_adjs g i)"
  "udwg_nodes (udwg_set_adjs n t g) = udwg_nodes g"
  by (simp_all add: udwg_set_adjs_def udwg_nodes_def)

text \<open>A graph with the nodes of \<open>g\<close> whose adjacency trees hold the sets \<open>A\<close>.\<close>

lemma udwg_inv_adjs:
  assumes g: "udwg_wf g" and eq: "g_nodes g' = g_nodes g" "g_ops g' = g_ops g" "g_next g' = g_next g"
    and A: "\<And>k. k \<in> udwg_nodes g \<Longrightarrow> edge_set g (g_adjs g' (n_id k)) (A k)"
    and E: "E = {(x, w, y). x \<in> udwg_nodes g \<and> \<lparr>e_adj = y, e_weight = w\<rparr> \<in> A x}"
    and sym: "wsym E" "\<And>x w. (x, w, x) \<notin> E"
  shows "udwg_inv g'" and "udwg_edges g' = E"
proof -
  have nodes: "udwg_nodes g' = udwg_nodes g" by (simp add: udwg_nodes_def eq)
  have adj: "set (udwg_adj g' k) = A k" if "k \<in> udwg_nodes g" for k
    using A [OF that] by (simp add: udwg_adj_def edge_set_def)
  show edges: "udwg_edges g' = E" using adj by (auto simp: udwg_edges_def nodes E)
  have "udwg_wf g'"
    using g A adj unfolding udwg_wf_def nodes eq by (auto simp: edge_set_def)
  with sym show "udwg_inv g'" by (simp add: udwg_inv_def edges)
qed

lemma udwg_add_edge_result:
  assumes inv: "udwg_inv g" and n: "n1 \<in> udwg_nodes g" "n2 \<in> udwg_nodes g"
  shows "(\<exists>g' m'. udwg_add_edge n1 n2 c (g, m, w) = Done () (g', m', w) \<and> udwg_inv g'
        \<and> udwg_nodes g' = udwg_nodes g \<and> n1 \<noteq> n2 \<and> (\<forall>k. (n1, k, n2) \<notin> udwg_edges g)
        \<and> udwg_edges g' = udwg_edges g \<union> {(n1, c, n2), (n2, c, n1)})
    \<or> (\<exists>e g' m'. udwg_add_edge n1 n2 c (g, m, w) = Fail e (g', m', w) \<and> udwg_inv g'
        \<and> udwg_nodes g' = udwg_nodes g \<and> udwg_edges g' = udwg_edges g
        \<and> (never_fails m \<longrightarrow> e = EEXIST \<and> (\<exists>k. (n1, k, n2) \<in> udwg_edges g)))
    \<or> udwg_add_edge n1 n2 c (g, m, w) = Abort \<and> (n1 = n2 \<or> \<not> never_fails m)"
proof -
  note g = udwg_invD(1) [OF inv]
  note D = udwg_wfD [OF g]
  let ?A = "\<lambda>k. set (udwg_adj g k)"
  let ?e1 = "\<lparr>e_adj = n2, e_weight = c\<rparr>" and ?e2 = "\<lparr>e_adj = n1, e_weight = c\<rparr>"
  have adj: "edge_set g (g_adjs g (n_id k)) (?A k)" if "k \<in> udwg_nodes g" for k
    by (rule udwg_adj_edge_set [OF g that])
  have id: "n_id k = n_id l \<longleftrightarrow> k = l" if "k \<in> udwg_nodes g" "l \<in> udwg_nodes g" for k l
    using D(7) that by (auto simp: inj_on_def)
  have E: "udwg_edges g = {(x, w, y). x \<in> udwg_nodes g \<and> \<lparr>e_adj = y, e_weight = w\<rparr> \<in> ?A x}"
    by (simp add: udwg_edges_def)
  have out: "y \<in> e_adj ` ?A x \<longleftrightarrow> (\<exists>k. (x, k, y) \<in> udwg_edges g)" if "x \<in> udwg_nodes g" for x y
  proof
    assume "y \<in> e_adj ` ?A x"
    then obtain f where "f \<in> ?A x" "y = e_adj f" by blast
    then have "\<lparr>e_adj = y, e_weight = e_weight f\<rparr> \<in> ?A x" by simp
    with that show "\<exists>k. (x, k, y) \<in> udwg_edges g" by (auto simp: E)
  next
    assume "\<exists>k. (x, k, y) \<in> udwg_edges g"
    then show "y \<in> e_adj ` ?A x" by (force simp: E)
  qed
  obtain ok1 m1 ok2 m2 where m: "malloc m = (ok1, m1)" "malloc m1 = (ok2, m2)" by fastforce
  have nf: "never_fails m \<Longrightarrow> ok1 \<and> ok2 \<and> never_fails m2" using malloc_never_fails m by blast
  show ?thesis
  proof (cases "ok1 \<and> ok2")
    case False
    with nf m inv show ?thesis by (auto simp: udwg_add_edge_def)
  next
    case ok: True
    from edge_insert_cases [OF g adj [OF n(1)] n(2), of m2 c "[]"] show ?thesis
    proof (elim exE disjE conjE)
      fix m3 e assume f: "at_insert ?e1 (g_adjs g (n_id n1), m2, []) = Fail e (g_adjs g (n_id n1), m3, [])"
        and e: "never_fails m2 \<longrightarrow> e = EEXIST \<and> n2 \<in> e_adj ` ?A n1"
      let ?g = "udwg_set_adjs n1 (g_adjs g (n_id n1)) g"
      have A: "edge_set g (g_adjs ?g (n_id k)) (?A k)" if "k \<in> udwg_nodes g" for k
        using adj [OF that] id [OF that n(1)] by auto
      have "udwg_inv ?g" "udwg_edges ?g = udwg_edges g"
        by (rule udwg_inv_adjs [OF g _ _ _ A E udwg_invD(2,3) [OF inv]]; simp)+
      moreover have "udwg_add_edge n1 n2 c (g, m, w) = Fail e (?g, m3, w)"
        using f m ok by (simp add: udwg_add_edge_def)
      ultimately show ?thesis using e nf out [OF n(1), of n2] by (auto intro!: exI [of _ ?g])
    next
      fix m3 t1 assume i1: "at_insert ?e1 (g_adjs g (n_id n1), m2, []) = Done () (t1, m3, [])"
        and new: "n2 \<notin> e_adj ` ?A n1" and t1: "edge_set g t1 (insert ?e1 (?A n1))"
        and nf1: "never_fails m2 \<longrightarrow> never_fails m3"
      let ?g1 = "udwg_set_adjs n1 t1 g"
      let ?S2 = "if n1 = n2 then insert ?e1 (?A n1) else ?A n2"
      have s2: "edge_set g (g_adjs ?g1 (n_id n2)) ?S2"
        using t1 adj [OF n(2)] id [OF n] by auto
      from edge_insert_cases [OF g s2 n(1), of m3 c "[]"] show ?thesis
      proof (elim exE disjE conjE)
        fix m4 e assume f: "at_insert ?e2 (g_adjs ?g1 (n_id n2), m3, []) = Fail e (g_adjs ?g1 (n_id n2), m4, [])"
          and e: "never_fails m3 \<longrightarrow> e = EEXIST \<and> n1 \<in> e_adj ` ?S2"
        have "n1 \<notin> e_adj ` ?A n2"
          using udwg_invD(2) [OF inv] new n out [of n2 n1] out [of n1 n2] by (auto simp: wsym_def)
        with e nf nf1 have abort: "n1 = n2 \<or> \<not> never_fails m" by (auto split: if_splits)
        have t: "g_adjs (udwg_set_adjs n2 (g_adjs ?g1 (n_id n2)) ?g1) (n_id n1) = t1" using id [OF n] by auto
        have "at_inv t1" "?e1 \<in> set (at_list t1)" "at_cmp t1 ?e1 ?e1 = 0" "atn_destroy t1 ?e1 [] = [?e1]"
          using t1 udwg_node_refl [OF g]
          by (simp_all add: edge_set_def atn_destroy_def udwg_node_aops_def udwg_destroy_node_adj_def)
        from at_remove_cases [OF this(1-3), of m4 "[]"] this(4)
        obtain t3 where "at_remove ?e1 (t1, m4, []) = Done () (t3, m4, [?e1])" by auto
        with i1 f m ok t have "udwg_add_edge n1 n2 c (g, m, w) = Abort"
          by (simp add: udwg_add_edge_def Let_def)
        with abort show ?thesis by blast
      next
        fix m4 t2 assume i2: "at_insert ?e2 (g_adjs ?g1 (n_id n2), m3, []) = Done () (t2, m4, [])"
          and new2: "n1 \<notin> e_adj ` ?S2" and t2: "edge_set g t2 (insert ?e2 ?S2)"
        have ne: "n1 \<noteq> n2" using new2 by auto
        let ?g2 = "udwg_set_adjs n2 t2 ?g1"
        let ?B = "\<lambda>k. if k = n1 then insert ?e1 (?A n1) else if k = n2 then insert ?e2 (?A n2) else ?A k"
        let ?E = "udwg_edges g \<union> {(n1, c, n2), (n2, c, n1)}"
        have B: "edge_set g (g_adjs ?g2 (n_id k)) (?B k)" if "k \<in> udwg_nodes g" for k
          using t1 t2 ne adj [OF that] id [OF that n(1)] id [OF that n(2)] by auto
        have E2: "?E = {(x, w, y). x \<in> udwg_nodes g \<and> \<lparr>e_adj = y, e_weight = w\<rparr> \<in> ?B x}"
          using ne n unfolding E by (auto split: if_splits)
        have "wsym ?E" "(x, k, x) \<notin> ?E" for x k
          using udwg_invD(2,3) [OF inv] ne by (auto simp: wsym_def)
        then have "udwg_inv ?g2" "udwg_edges ?g2 = ?E"
          by (intro udwg_inv_adjs [OF g _ _ _ B E2]; simp)+
        moreover have "udwg_add_edge n1 n2 c (g, m, w) = Done () (?g2, m4, w)"
          using i1 i2 m ok by (simp add: udwg_add_edge_def Let_def)
        ultimately show ?thesis using ne out [OF n(1), of n2] new
          by (auto intro!: exI [of _ ?g2])
      qed
    qed
  qed
qed

lemma udwg_create_inv:
  assumes "total_cmp (go_compare_fn ops)" and "udwg_create ops m = (Some g, m')"
  shows "udwg_inv g" and "udwg_nodes g = {}" and "g_ops g = ops"
proof -
  have "total_cmp (udwg_compare_nodes ops)"
    using assms(1) unfolding total_cmp_def udwg_compare_nodes_def by blast
  with assms(2) show "udwg_inv g" "udwg_nodes g = {}" "g_ops g = ops"
    by (auto simp: udwg_create_def at_create_def udwg_inv_def udwg_wf_def udwg_nodes_def udwg_edges_def
        at_inv_def at_list_def wsym_def split: prod.splits if_splits)
qed

lemma udwg_add_node_result:
  assumes inv: "udwg_inv g"
  shows "(\<exists>n g' m'. udwg_add_node d (g, m, w) = Done n (g', m', w) \<and> udwg_inv g'
        \<and> (\<forall>x\<in>udwg_nodes g. go_compare_fn (g_ops g) d (n_data x) \<noteq> 0)
        \<and> n_data n = d \<and> n \<notin> udwg_nodes g \<and> udwg_nodes g' = insert n (udwg_nodes g)
        \<and> udwg_edges g' = udwg_edges g)
    \<or> (\<exists>e m'. udwg_add_node d (g, m, w) = Fail e (g, m', w)
        \<and> (never_fails m \<longrightarrow> e = EEXIST \<and> (\<exists>x\<in>udwg_nodes g. go_compare_fn (g_ops g) d (n_data x) = 0)))"
proof -
  note g = udwg_invD(1) [OF inv]
  note D = udwg_wfD [OF g]
  let ?n = "\<lparr>n_id = g_next g, n_data = d\<rparr>"
  let ?E = "\<lparr>at_root = Null, at_ops = udwg_node_aops (g_ops g), at_nnodes = 0\<rparr> :: 'a edge_tree"
  have cmp: "at_cmp (g_nodes g) ?n x = go_compare_fn (g_ops g) d (n_data x)" for x
    by (simp add: D(2) udwg_compare_nodes_def)
  obtain ok m1 where 1: "malloc m = (ok, m1)" by fastforce
  obtain tr m2 where 2: "at_create (udwg_node_aops (g_ops g)) m1 = (tr, m2)" by fastforce
  have nf: "never_fails m \<Longrightarrow> ok \<and> tr = Some ?E \<and> never_fails m2"
    using malloc_never_fails [OF _ 1] at_create_result [of m1 "udwg_node_aops (g_ops g)"] 2 by auto
  show ?thesis
  proof (cases "ok \<and> tr \<noteq> None")
    case False
    with nf 1 2 show ?thesis by (auto simp: udwg_add_node_def)
  next
    case True
    then have tr: "tr = Some ?E" using 2 by (auto simp: at_create_def split: prod.splits if_splits)
    from at_insert_cases [OF D(1), of m2 ?n w] show ?thesis
    proof (elim exE conjE disjE)
      fix m3 e assume "at_insert ?n (g_nodes g, m2, w) = Fail e (g_nodes g, m3, w)"
        "never_fails m2 \<longrightarrow> e = EEXIST \<and> (\<exists>y\<in>set (at_list (g_nodes g)). at_cmp (g_nodes g) ?n y = 0)"
      with True tr 1 2 nf show ?thesis
        by (auto simp: udwg_add_node_def Let_def cmp udwg_nodes_def)
    next
      fix m3 t assume i: "at_insert ?n (g_nodes g, m2, w) = Done () (t, m3, w)"
        and new: "\<forall>y\<in>set (at_list (g_nodes g)). at_cmp (g_nodes g) ?n y \<noteq> 0"
        and t: "at_inv t" "at_ops t = at_ops (g_nodes g)" "set (at_list t) = insert ?n (set (at_list (g_nodes g)))"
      let ?g = "g\<lparr>g_nodes := t, g_adjs := (g_adjs g)(g_next g := ?E), g_next := Suc (g_next g)\<rparr>"
      have fresh: "n_id x \<noteq> g_next g" if "x \<in> udwg_nodes g" for x using D(6) [OF that] by simp
      then have nn: "?n \<notin> udwg_nodes g" by force
      have nodes: "udwg_nodes ?g = insert ?n (udwg_nodes g)" using t(3) by (simp add: udwg_nodes_def)
      have adjs: "udwg_adj ?g x = (if x = ?n then [] else udwg_adj g x)" if "x \<in> udwg_nodes ?g" for x
        using that fresh nodes by (auto simp: udwg_adj_def at_list_def)
      have edges: "udwg_edges ?g = udwg_edges g"
        using adjs nn unfolding udwg_edges_def nodes by (auto split: if_splits)
      have "udwg_wf ?g"
        unfolding udwg_wf_def
      proof (intro conjI ballI)
        show "at_inv (g_nodes ?g)" "at_ops (g_nodes ?g) = udwg_aops (g_ops ?g)" using t D(2) by simp_all
        show "inj_on n_id (udwg_nodes ?g)"
          unfolding nodes using D(7) fresh fresh [THEN not_sym] by (auto simp: inj_on_def)
      next
        fix x assume x: "x \<in> udwg_nodes ?g"
        have E: "at_inv ?E" using D(8) by (simp add: at_inv_def at_list_def flip: udwg_compare_edge)
            (simp add: total_cmp_def)
        show "at_inv (g_adjs ?g (n_id x))" "at_ops (g_adjs ?g (n_id x)) = udwg_node_aops (g_ops ?g)"
          "n_id x < g_next ?g"
          using x E D(3,4) fresh D(6) unfolding nodes by (auto simp: less_Suc_eq)
        show "e_adj ` set (udwg_adj ?g x) \<subseteq> udwg_nodes ?g"
          unfolding adjs [OF x] nodes using D(5) x unfolding nodes by auto
      qed
      then have "udwg_inv ?g" using udwg_invD(2,3) [OF inv] by (simp add: udwg_inv_def edges)
      moreover have "udwg_add_node d (g, m, w) = Done ?n (?g, m3, w)"
        using True tr 1 2 i by (simp add: udwg_add_node_def Let_def)
      moreover have "\<forall>x\<in>udwg_nodes g. go_compare_fn (g_ops g) d (n_data x) \<noteq> 0"
        using new by (simp add: cmp udwg_nodes_def)
      ultimately show ?thesis using nodes edges nn by fastforce
    qed
  qed
qed

section \<open>Checking\<close>

lemma iterate_assert:
  assumes "\<And>x. x \<in> set xs \<Longrightarrow> cb x () = (if P x then Done False () else Abort)"
  shows "iterate_list cb xs () = (if \<forall>x\<in>set xs. P x then Done False () else Abort)"
  using assms by (induction xs) auto

lemma udwg_check_edge:
  assumes g: "udwg_wf g" and n: "n \<in> udwg_nodes g" and e: "e \<in> set (udwg_adj g n)"
  shows "udwg_check_node_adjacencies_cb g n e () =
    (if (e_adj e, e_weight e, n) \<in> udwg_edges g then Done False () else Abort)"
proof -
  let ?x = "e_adj e" and ?s = "\<lparr>e_adj = n, e_weight = 0\<rparr>"
  have x: "?x \<in> udwg_nodes g" by (rule udwg_wfD(5) [OF g n e])
  note t = udwg_adj_edge_set [OF g x]
  have F: "at_find ?s (g_adjs g (n_id ?x), [], []) = Done f (g_adjs g (n_id ?x), [], [])"
    if "f \<in> set (udwg_adj g ?x)" "e_adj f = n" for f
    using edge_set_find(1) [OF g t, of ?s f] n that by simp
  consider f where "f \<in> set (udwg_adj g ?x)" "e_adj f = n" | "n \<notin> e_adj ` set (udwg_adj g ?x)" by blast
  then show ?thesis
  proof cases
    case 1
    have "f' = f" if "f' \<in> set (udwg_adj g ?x)" "e_adj f' = n" for f'
      using inj_onD [OF edge_set_inj [OF g t]] that 1 by simp
    then have "(?x, k, n) \<in> udwg_edges g \<longleftrightarrow> e_weight f = k" for k
      using 1 x unfolding udwg_edges_adj by blast
    with F [OF 1] show ?thesis by (simp add: udwg_check_node_adjacencies_cb_def)
  next
    case 2
    have "at_find ?s (g_adjs g (n_id ?x), [], []) = Fail ENOENT (g_adjs g (n_id ?x), [], [])"
      using edge_set_find(2) [OF g t, of ?s] n 2 by simp
    moreover have "(?x, e_weight e, n) \<notin> udwg_edges g" using 2 by (auto simp: udwg_edges_adj)
    ultimately show ?thesis by (simp add: udwg_check_node_adjacencies_cb_def)
  qed
qed

lemma udwg_check_result:
  assumes g: "udwg_wf g"
  shows "udwg_check g \<longleftrightarrow> wsym (udwg_edges g)"
proof -
  let ?P = "\<lambda>n. \<forall>e\<in>set (udwg_adj g n). (e_adj e, e_weight e, n) \<in> udwg_edges g"
  have node: "udwg_check_node_cb g n () = (if ?P n then Done False () else Abort)" if "n \<in> udwg_nodes g" for n
    using iterate_assert [of "udwg_adj g n" "udwg_check_node_adjacencies_cb g n"
        "\<lambda>e. (e_adj e, e_weight e, n) \<in> udwg_edges g"] udwg_check_edge [OF g that]
    by (simp add: udwg_check_node_cb_def at_iterate_list flip: udwg_adj_def)
  have "iterate_list (udwg_check_node_cb g) (at_list (g_nodes g)) () =
      (if \<forall>n\<in>udwg_nodes g. ?P n then Done False () else Abort)"
    unfolding udwg_nodes_def by (rule iterate_assert) (use node in \<open>simp add: udwg_nodes_def\<close>)
  then have "udwg_check g \<longleftrightarrow> (\<forall>n\<in>udwg_nodes g. ?P n)"
    by (simp add: udwg_check_def at_iterate_list)
  also have "\<dots> \<longleftrightarrow> wsym (udwg_edges g)"
  proof
    assume P: "\<forall>n\<in>udwg_nodes g. ?P n"
    show "wsym (udwg_edges g)"
      unfolding wsym_def
    proof (intro allI impI)
      fix x k y assume "(x, k, y) \<in> udwg_edges g"
      then show "(y, k, x) \<in> udwg_edges g" using P by (auto simp: udwg_edges_adj [of x])
    qed
  next
    assume sym: "wsym (udwg_edges g)"
    show "\<forall>n\<in>udwg_nodes g. ?P n"
    proof (intro ballI)
      fix n e assume "n \<in> udwg_nodes g" "e \<in> set (udwg_adj g n)"
      then have "(n, e_weight e, e_adj e) \<in> udwg_edges g" by (auto simp: udwg_edges_adj)
      with sym show "(e_adj e, e_weight e, n) \<in> udwg_edges g" by (auto simp: wsym_def)
    qed
  qed
  finally show ?thesis .
qed

end
