(* ===== verification/UdwShortest.thy ===== *)
theory UdwShortest
  imports UdwCorrect
begin

text \<open>
  The search of \<^verbatim>\<open>graphs/udw_graph/udw_graph.c\<close> for a shortest path: when it gives a path, no
  walk to the destination is shorter. The weights are non-negative and the sum over a path with
  every node once fits 64 bits.
\<close>

section \<open>Walks\<close>

fun wwalk :: "('a, 'w) udw_graph \<Rightarrow> 'a udwg_node \<Rightarrow> 'a udwg_edge list \<Rightarrow> 'a udwg_node \<Rightarrow> bool" where
  "wwalk g u [] v \<longleftrightarrow> u = v"
| "wwalk g u (e # es) v \<longleftrightarrow> e \<in> set (udwg_adj g u) \<and> wwalk g (e_adj e) es v"

definition wlen :: "'a udwg_edge list \<Rightarrow> int" where
  "wlen es = (\<Sum>e\<leftarrow>es. sint (e_weight e))"

definition weights_ok :: "('a, 'w) udw_graph \<Rightarrow> bool" where
  "weights_ok g \<longleftrightarrow> (\<exists>W. (\<forall>n\<in>udwg_nodes g. \<forall>e\<in>set (udwg_adj g n). 0 \<le> sint (e_weight e) \<and> sint (e_weight e) \<le> W)
     \<and> 0 \<le> W \<and> int (card (udwg_nodes g)) * W < 2 ^ 63)"

lemma wlen_simps [simp]:
  "wlen [] = 0" "wlen (e # es) = sint (e_weight e) + wlen es" "wlen (es @ fs) = wlen es + wlen fs"
  by (simp_all add: wlen_def)

lemma wwalk_append [simp]: "wwalk g u (es @ fs) v \<longleftrightarrow> (\<exists>x. wwalk g u es x \<and> wwalk g x fs v)"
  by (induction es arbitrary: u) auto

lemma wwalk_end: "wwalk g u es v \<Longrightarrow> es \<noteq> [] \<Longrightarrow> v = e_adj (last es)"
  by (induction es arbitrary: u) auto

lemma wwalk_nodes:
  assumes g: "udwg_wf g"
  shows "wwalk g u es v \<Longrightarrow> u \<in> udwg_nodes g \<Longrightarrow> v \<in> udwg_nodes g \<and> e_adj ` set es \<subseteq> udwg_nodes g"
  by (induction es arbitrary: u) (auto dest: udwg_wfD(5) [OF g])

lemma wwalk_weights:
  assumes g: "udwg_wf g" and W: "\<forall>n\<in>udwg_nodes g. \<forall>e\<in>set (udwg_adj g n). 0 \<le> sint (e_weight e) \<and> sint (e_weight e) \<le> W"
  shows "wwalk g u es v \<Longrightarrow> u \<in> udwg_nodes g \<Longrightarrow> 0 \<le> wlen es \<and> wlen es \<le> int (length es) * W"
proof (induction es arbitrary: u)
  case (Cons e es)
  then have "0 \<le> sint (e_weight e) \<and> sint (e_weight e) \<le> W" "0 \<le> wlen es \<and> wlen es \<le> int (length es) * W"
    using W udwg_wfD(5) [OF g] by auto
  then show ?case by (simp add: algebra_simps)
qed simp

lemma wlen_nonneg: "udwg_wf g \<Longrightarrow> weights_ok g \<Longrightarrow> wwalk g u es v \<Longrightarrow> u \<in> udwg_nodes g \<Longrightarrow> 0 \<le> wlen es"
  unfolding weights_ok_def using wwalk_weights [of g _ u es v] by blast

section \<open>Paths\<close>

text \<open>A list the search builds: a walk from the start that enters no node twice.\<close>

definition upath_ok :: "('a, 'w) udw_graph \<Rightarrow> 'a udwg_node \<Rightarrow> 'a upath \<Rightarrow> 'a udwg_node \<Rightarrow> bool" where
  "upath_ok g from p v \<longleftrightarrow> ll_inv p \<and> ll_ops p = spbf_ll_ops (g_ops g) \<and> wwalk g from (ll_root p) v"

abbreviation plen :: "'a upath \<Rightarrow> int" where
  "plen p \<equiv> wlen (ll_root p)"

abbreviation pnodes :: "'a upath \<Rightarrow> 'a udwg_node set" where
  "pnodes p \<equiv> e_adj ` set (ll_root p)"

definition ext :: "'a upath \<Rightarrow> 'a udwg_edge \<Rightarrow> 'a upath" where
  "ext p e = p\<lparr>ll_root := ll_root p @ [e], ll_nnodes := Suc (ll_nnodes p)\<rparr>"

lemma ext_root [simp]: "ll_root (ext p e) = ll_root p @ [e]"
  by (simp add: ext_def)

lemma spbf_cmp: "ll_ops p = spbf_ll_ops ops \<Longrightarrow> ll_cmp p e f = udwg_compare_nodes ops (e_adj e) (e_adj f)"
  by (simp add: ll_cmp_def spbf_ll_ops_def udwg_compare_edges_def udwg_compare_nodes_def)

lemma upath_find:
  assumes g: "udwg_wf g" "from \<in> udwg_nodes g" and p: "upath_ok g from p v" and e: "e_adj e \<in> udwg_nodes g"
  shows "(\<forall>y\<in>set (ll_root p). ll_cmp p e y \<noteq> 0) \<longleftrightarrow> e_adj e \<notin> pnodes p"
proof -
  have "ll_cmp p e y = 0 \<longleftrightarrow> e_adj e = e_adj y" if "y \<in> set (ll_root p)" for y
    using udwg_node_unique [OF g(1) e, of "e_adj y"] wwalk_nodes [OF g(1), of "from" "ll_root p" v] that p g(2)
    by (auto simp: upath_ok_def spbf_cmp)
  then show ?thesis by auto
qed

lemma upath_ext:
  assumes g: "udwg_wf g" "from \<in> udwg_nodes g" and p: "upath_ok g from p v"
    and e: "e \<in> set (udwg_adj g v)" "e_adj e \<notin> pnodes p"
  shows "upath_ok g from (ext p e) (e_adj e)"
proof -
  have v: "v \<in> udwg_nodes g" using wwalk_nodes [OF g(1), of "from" "ll_root p" v] g(2) p by (auto simp: upath_ok_def)
  have "\<forall>y\<in>set (ll_root p). ll_cmp p e y \<noteq> 0"
    using upath_find [OF g p udwg_wfD(5) [OF g(1) v e(1)]] e(2) by blast
  from ll_inv_snoc [OF _ this] p e show ?thesis
    unfolding upath_ok_def ext_def by auto
qed

lemma upath_short:
  assumes g: "udwg_wf g" "from \<in> udwg_nodes g" and p: "upath_ok g from p v"
  shows "length (ll_root p) \<le> card (udwg_nodes g)"
proof -
  have "distinct_by (ll_cmp p) (ll_root p)" using p by (simp add: upath_ok_def ll_inv_def)
  then have "distinct (map e_adj (ll_root p))"
    unfolding distinct_map using distinct_by_distinct [of "ll_cmp p"] distinct_by_inj [of "ll_cmp p"] p
      udwg_node_refl [OF g(1)] by (auto simp: upath_ok_def ll_inv_equiv inj_on_def spbf_cmp)
  then have "length (ll_root p) = card (pnodes p)" using distinct_card by fastforce
  also have "\<dots> \<le> card (udwg_nodes g)"
    using wwalk_nodes [OF g(1), of "from" "ll_root p" v] g(2) p by (intro card_mono) (auto simp: upath_ok_def)
  finally show ?thesis .
qed

lemma path_len_fold: "udwg_path_len p = word_of_int (plen p)"
proof -
  have "iterate_list udwg_path_len_cb es c = Done False (c + word_of_int (wlen es))" for es :: "'a udwg_edge list" and c
    by (induction es arbitrary: c) (simp_all add: udwg_path_len_cb_def flip: add.assoc)
  then show ?thesis by (simp add: udwg_path_len_def ll_iterate_def)
qed

lemma upath_len:
  assumes g: "udwg_wf g" "weights_ok g" "from \<in> udwg_nodes g" and p: "upath_ok g from p v"
  shows "sint (udwg_path_len p) = plen p"
proof -
  from g(2) obtain W where W: "\<forall>n\<in>udwg_nodes g. \<forall>e\<in>set (udwg_adj g n). 0 \<le> sint (e_weight e) \<and> sint (e_weight e) \<le> W"
    "0 \<le> W" "int (card (udwg_nodes g)) * W < 2 ^ 63" unfolding weights_ok_def by blast
  have "int (length (ll_root p)) * W \<le> int (card (udwg_nodes g)) * W"
    using upath_short [OF g(1,3) p] W(2) by (intro mult_right_mono) simp_all
  then have "0 \<le> plen p" "plen p < 2 ^ 63"
    using wwalk_weights [OF g(1) W(1), of "from" "ll_root p" v] p g(3) W(3) by (auto simp: upath_ok_def)
  then show ?thesis unfolding path_len_fold by (simp add: signed_of_int signed_take_bit_int_eq_self)
qed

lemma upath_compare:
  assumes "udwg_wf g" "weights_ok g" "from \<in> udwg_nodes g" "upath_ok g from p v" "upath_ok g from q w"
  shows "0 \<le> udwg_compare_paths p q \<longleftrightarrow> plen p \<le> plen q"
    and "udwg_path_len p <s udwg_path_len q \<longleftrightarrow> plen p < plen q"
    and "udwg_path_len p \<le>s udwg_path_len q \<longleftrightarrow> plen p \<le> plen q"
  using upath_len [OF assms(1-4)] upath_len [OF assms(1-3,5)]
  by (auto simp: udwg_compare_paths_def word_sless_alt word_sle_eq)

lemma total_compare_paths: "total_cmp udwg_compare_paths"
  unfolding total_cmp_def udwg_compare_paths_def word_sless_alt by auto

section \<open>The callback\<close>

definition pq_ok :: "'a path_heap \<Rightarrow> 'a upath set \<Rightarrow> bool" where
  "pq_ok pq H \<longleftrightarrow> heap_inv pq \<and> h_ops pq = spbf_pq_ops \<and> set (heap_list pq) = H"

definition best_ok :: "('a, 'w) udw_graph \<Rightarrow> 'a udwg_node \<Rightarrow> 'a udwg_node \<Rightarrow> 'a upath option \<Rightarrow> bool" where
  "best_ok g from to best \<longleftrightarrow> (\<forall>b. best = Some b \<longrightarrow> upath_ok g from b to \<and> ll_root b \<noteq> [])"

text \<open>The best path found is not longer than \<open>d\<close>.\<close>

definition beats :: "'a upath option \<Rightarrow> int \<Rightarrow> bool" where
  "beats best d \<longleftrightarrow> (\<exists>b. best = Some b \<and> plen b \<le> d)"

lemma beats_mono: "beats best d \<Longrightarrow> d \<le> d' \<Longrightarrow> beats best d'"
  unfolding beats_def by force

text \<open>What looking at the edges \<open>es\<close> from the end of the path \<open>p\<close> changes.\<close>

definition looked_at :: "'a udwg_node \<Rightarrow> 'a upath \<Rightarrow> 'a udwg_edge set \<Rightarrow> 'a upath set \<Rightarrow> 'a upath option
    \<Rightarrow> 'a upath set \<Rightarrow> 'a upath option \<Rightarrow> bool" where
  "looked_at to p es H best H' best' \<longleftrightarrow> H \<subseteq> H'
     \<and> (\<forall>q\<in>H'. q \<in> H \<or> (\<exists>e\<in>es. q = ext p e \<and> e_adj e \<notin> pnodes p \<and> e_adj e \<noteq> to))
     \<and> (\<forall>e\<in>es. e_adj e \<in> pnodes p \<or> e_adj e = to \<and> beats best' (plen p + sint (e_weight e)) \<or> e_adj e \<noteq> to \<and> ext p e \<in> H')
     \<and> (\<forall>d. beats best d \<longrightarrow> beats best' d)"

lemma looked_at_none: "looked_at to p {} H best H best"
  by (simp add: looked_at_def)

lemma looked_at_trans:
  assumes "looked_at to p A H best H1 best1" "looked_at to p B H1 best1 H2 best2"
  shows "looked_at to p (A \<union> B) H best H2 best2"
  using assms unfolding looked_at_def by blast

lemma spbf_cb_edge:
  fixes p :: "'a upath"
  assumes g: "udwg_wf g" "weights_ok g" "from \<in> udwg_nodes g" "to \<in> udwg_nodes g"
    and p: "upath_ok g from p v" and e: "e \<in> set (udwg_adj g v)"
    and st: "pq_ok pq H" "best_ok g from to best" "never_fails m"
  shows "\<exists>pq' H' best' m'. udwg_spbf_cb (g_ops g) junk to p e (pq, best, m) = Done False (pq', best', m')
    \<and> pq_ok pq' H' \<and> best_ok g from to best' \<and> never_fails m' \<and> looked_at to p {e} H best H' best'"
proof -
  have inv: "ll_inv p" using p by (simp add: upath_ok_def)
  have v: "v \<in> udwg_nodes g" using wwalk_nodes [OF g(1), of "from" "ll_root p" v] g(3) p by (auto simp: upath_ok_def)
  note x = udwg_wfD(5) [OF g(1) v e]
  note new = upath_find [OF g(1,3) p x]
  show ?thesis
  proof (cases "e_adj e \<in> pnodes p")
    case True
    then have "List.find (\<lambda>n. ll_cmp p e n = 0) (ll_root p) \<noteq> None" using new by (auto simp: find_None_iff)
    then have "udwg_spbf_cb (g_ops g) junk to p e (pq, best, m) = Done False (pq, best, m)"
      by (auto simp: udwg_spbf_cb_def ll_find_eq [OF inv])
    with st True show ?thesis by (auto simp: looked_at_def)
  next
    case False
    then have no: "\<forall>y\<in>set (ll_root p). ll_cmp p e y \<noteq> 0" using new by blast
    then have "List.find (\<lambda>n. ll_cmp p e n = 0) (ll_root p) = None" by (simp add: find_None_iff)
    then have find: "ll_find e (p, m, ()) = Fail ENOENT (p, m, ())" by (simp add: ll_find_eq [OF inv])
    obtain m1 where 1: "ll_create_copy p (m, ()) = Done (Some p) (m1, ())" "never_fails m1"
      using ll_create_copy_result [OF inv st(3), of "()"] by blast
    obtain m2 where 2: "malloc m1 = (True, m2)" "never_fails m2" using malloc_ok [OF 1(2)] by blast
    have ins: "ll_insert e (p, m1, ()) = Done () (ext p e, m2, ())"
      using ll_insert_new [OF inv 2(1) no, of "()"] by (simp add: ext_def)
    have q: "upath_ok g from (ext p e) (e_adj e)" by (rule upath_ext [OF g(1,3) p e False])
    show ?thesis
    proof (cases "e_adj e = to")
      case True
      let ?best = "if (case best of None \<Rightarrow> True | Some b \<Rightarrow> udwg_path_len (ext p e) <s udwg_path_len b)
        then Some (ext p e) else best"
      have "udwg_spbf_cb (g_ops g) junk to p e (pq, best, m) = Done False (pq, ?best, m2)"
        using find 1(1) ins True udwg_node_refl [OF g(1)] by (simp add: udwg_spbf_cb_def)
      moreover have lt: "udwg_path_len (ext p e) <s udwg_path_len b \<longleftrightarrow> plen (ext p e) < plen b" if "best = Some b" for b
        using upath_compare(2) [OF g(1-3) q, of b to] st(2) that by (simp add: best_ok_def)
      then have "beats ?best (plen (ext p e))" "\<forall>d. beats best d \<longrightarrow> beats ?best d"
        unfolding beats_def by (cases best; force)+
      then have "looked_at to p {e} H best H ?best" using True by (simp add: looked_at_def)
      moreover have "best_ok g from to ?best" using st(2) q True by (simp add: best_ok_def)
      ultimately show ?thesis using st(1) 2(2) by blast
    next
      case to: False
      then have "udwg_compare_nodes (g_ops g) (e_adj e) to \<noteq> 0" using udwg_node_unique [OF g(1) x g(4)] by simp
      moreover have "heap_inv pq" using st(1) by (simp add: pq_ok_def)
      from heap_insert_result [OF this, of junk "ext p e" m2 "()"] 2(2) obtain pq' m3 where
        h: "heap_insert junk (ext p e) (pq, m2, ()) = Done () (pq', m3, ())" "heap_inv pq'"
          "h_ops pq' = h_ops pq" "mset (heap_list pq') = add_mset (ext p e) (mset (heap_list pq))"
          "never_fails m3" by blast
      ultimately have "udwg_spbf_cb (g_ops g) junk to p e (pq, best, m) = Done False (pq', best, m3)"
        using find 1(1) ins by (simp add: udwg_spbf_cb_def)
      moreover have "pq_ok pq' (insert (ext p e) H)"
        using h st(1) by (simp add: pq_ok_def flip: set_mset_mset)
      moreover have "looked_at to p {e} H best (insert (ext p e) H) best"
        using False to by (auto simp: looked_at_def)
      ultimately show ?thesis using st(2) h(5) by blast
    qed
  qed
qed

lemma spbf_cb_edges:
  fixes p :: "'a upath"
  assumes g: "udwg_wf g" "weights_ok g" "from \<in> udwg_nodes g" "to \<in> udwg_nodes g"
    and p: "upath_ok g from p v"
  shows "set es \<subseteq> set (udwg_adj g v) \<Longrightarrow> pq_ok pq H \<Longrightarrow> best_ok g from to best \<Longrightarrow> never_fails m \<Longrightarrow>
    \<exists>pq' H' best' m'. iterate_list (udwg_spbf_cb (g_ops g) junk to p) es (pq, best, m) = Done False (pq', best', m')
    \<and> pq_ok pq' H' \<and> best_ok g from to best' \<and> never_fails m' \<and> looked_at to p (set es) H best H' best'"
proof (induction es arbitrary: pq H best m)
  case Nil
  then show ?case using looked_at_none [of to p H best] by auto
next
  case (Cons e es)
  have "e \<in> set (udwg_adj g v)" using Cons.prems(1) by simp
  from spbf_cb_edge [OF g p this Cons.prems(2-4), of junk] obtain pq1 H1 best1 m1 where
    1: "udwg_spbf_cb (g_ops g) junk to p e (pq, best, m) = Done False (pq1, best1, m1)"
      "pq_ok pq1 H1" "best_ok g from to best1" "never_fails m1" "looked_at to p {e} H best H1 best1" by blast
  have "set es \<subseteq> set (udwg_adj g v)" using Cons.prems(1) by simp
  from Cons.IH [OF this 1(2-4)] obtain pq2 H2 best2 m2 where
    2: "iterate_list (udwg_spbf_cb (g_ops g) junk to p) es (pq1, best1, m1) = Done False (pq2, best2, m2)"
      "pq_ok pq2 H2" "best_ok g from to best2" "never_fails m2" "looked_at to p (set es) H1 best1 H2 best2" by blast
  have "looked_at to p (set (e # es)) H best H2 best2"
    using looked_at_trans [OF 1(5) 2(5)] by simp
  with 1(1) 2 show ?case by auto
qed

section \<open>The invariant of the loop\<close>

abbreviation pend :: "'a upath \<Rightarrow> 'a udwg_node" where
  "pend p \<equiv> e_adj (last (ll_root p))"

text \<open>The edges of \<open>v\<close>, at distance \<open>d\<close>, have been followed.\<close>

definition explored :: "('a, 'w) udw_graph \<Rightarrow> 'a udwg_node \<Rightarrow> 'a udwg_node set \<Rightarrow> 'a upath set \<Rightarrow> 'a upath option
    \<Rightarrow> 'a udwg_node \<Rightarrow> int \<Rightarrow> bool" where
  "explored g to V H best v d \<longleftrightarrow> (\<forall>e\<in>set (udwg_adj g v). e_adj e \<in> V
     \<or> e_adj e = to \<and> beats best (d + sint (e_weight e))
     \<or> (\<exists>p\<in>H. pend p = e_adj e \<and> plen p \<le> d + sint (e_weight e)))"

definition nearest :: "('a, 'w) udw_graph \<Rightarrow> 'a udwg_node \<Rightarrow> 'a udwg_node \<Rightarrow> int \<Rightarrow> bool" where
  "nearest g from v d \<longleftrightarrow> (\<forall>es. es \<noteq> [] \<longrightarrow> wwalk g from es v \<longrightarrow> d \<le> wlen es)"

definition heap_paths :: "('a, 'w) udw_graph \<Rightarrow> 'a udwg_node \<Rightarrow> 'a udwg_node \<Rightarrow> 'a udwg_node set
    \<Rightarrow> 'a upath set \<Rightarrow> bool" where
  "heap_paths g from to V H \<longleftrightarrow> (\<forall>p\<in>H. upath_ok g from p (pend p) \<and> ll_root p \<noteq> [] \<and> pend p \<noteq> to
     \<and> pnodes p \<subseteq> insert (pend p) V)"

definition spbf_inv :: "('a, 'w) udw_graph \<Rightarrow> 'a udwg_node \<Rightarrow> 'a udwg_node \<Rightarrow> 'a udwg_node set
    \<Rightarrow> 'a upath set \<Rightarrow> 'a upath option \<Rightarrow> bool" where
  "spbf_inv g from to V H best \<longleftrightarrow> V \<subseteq> udwg_nodes g \<and> to \<notin> V \<and> heap_paths g from to V H
     \<and> best_ok g from to best \<and> explored g to V H best from 0
     \<and> (\<forall>v\<in>V. \<exists>d. explored g to V H best v d \<and> nearest g from v d)"

text \<open>
  Every walk out of the visited nodes passes the frontier: a path in the heap, or the best path, is
  not longer.
\<close>

lemma frontier:
  assumes g: "udwg_wf g" "weights_ok g" and inv: "spbf_inv g from to V H best"
  shows "wwalk g v es z \<Longrightarrow> es \<noteq> [] \<Longrightarrow> z \<notin> V \<Longrightarrow> v \<in> udwg_nodes g \<Longrightarrow> explored g to V H best v d \<Longrightarrow>
    wwalk g from pre v \<Longrightarrow> d \<le> wlen pre \<Longrightarrow>
    (\<exists>p\<in>H. plen p \<le> wlen pre + wlen es) \<or> beats best (wlen pre + wlen es)"
proof (induction es arbitrary: v d pre)
  case (Cons e es)
  let ?u = "e_adj e"
  have e: "e \<in> set (udwg_adj g v)" and rest: "wwalk g ?u es z" using Cons.prems(1) by simp_all
  have u: "?u \<in> udwg_nodes g" by (rule udwg_wfD(5) [OF g(1) Cons.prems(4) e])
  have pos: "0 \<le> wlen es" by (rule wlen_nonneg [OF g rest u])
  consider "?u \<in> V" | "beats best (d + sint (e_weight e))" | p where "p \<in> H" "plen p \<le> d + sint (e_weight e)"
    using Cons.prems(5) e unfolding explored_def by blast
  then show ?case
  proof cases
    case 1
    with inv obtain d' where d': "explored g to V H best ?u d'" "nearest g from ?u d'"
      unfolding spbf_inv_def by blast
    have w: "wwalk g from (pre @ [e]) ?u" using Cons.prems(6) e by auto
    then have le: "d' \<le> wlen (pre @ [e])" using d'(2) unfolding nearest_def by blast
    have "es \<noteq> []" using rest 1 Cons.prems(3) by auto
    from Cons.IH [OF rest this Cons.prems(3) u d'(1) w le] show ?thesis by (simp add: add.assoc)
  next
    case 2
    then have "beats best (wlen pre + wlen (e # es))"
      by (rule beats_mono) (use pos Cons.prems(7) in simp)
    then show ?thesis ..
  next
    case 3
    then have "plen p \<le> wlen pre + wlen (e # es)" using pos Cons.prems(7) by simp
    with 3(1) show ?thesis by blast
  qed
qed simp

lemma frontier_start:
  assumes g: "udwg_wf g" "weights_ok g" "from \<in> udwg_nodes g" and inv: "spbf_inv g from to V H best"
    and w: "wwalk g from es z" "es \<noteq> []" "z \<notin> V"
  shows "(\<exists>p\<in>H. plen p \<le> wlen es) \<or> beats best (wlen es)"
  using frontier [OF g(1,2) inv w g(3), of 0 "[]"] inv by (simp add: spbf_inv_def)

text \<open>The three things a round does with the shortest path \<open>p\<close> of the heap.\<close>

lemma spbf_inv_stop:
  assumes g: "udwg_wf g" "weights_ok g" "from \<in> udwg_nodes g" and inv: "spbf_inv g from to V H best"
    and p: "\<forall>q\<in>H. plen p \<le> plen q" and b: "best = Some b" "plen b \<le> plen p"
  shows "nearest g from to (plen b)"
  unfolding nearest_def
proof (intro allI impI)
  fix es assume "es \<noteq> []" "wwalk g from es to"
  moreover have "to \<notin> V" using inv by (simp add: spbf_inv_def)
  ultimately have "(\<exists>p\<in>H. plen p \<le> wlen es) \<or> beats best (wlen es)"
    using frontier_start [OF g inv] by blast
  then show "plen b \<le> wlen es" using p b unfolding beats_def by force
qed

lemma explored_mono:
  assumes "explored g to V H best v d" "V \<subseteq> V'" "\<forall>p\<in>H. p \<in> H' \<or> pend p \<in> V'"
    and "\<forall>d. beats best d \<longrightarrow> beats best' d"
  shows "explored g to V' H' best' v d"
  using assms unfolding explored_def by (metis subsetD)

lemma spbf_inv_drop:
  assumes "spbf_inv g from to V H best" "pend p \<in> V" "H' \<subseteq> H" "H \<subseteq> insert p H'"
  shows "spbf_inv g from to V H' best"
proof -
  have "explored g to V H' best v d" if "explored g to V H best v d" for v d
    using that by (rule explored_mono) (use assms(2,4) in auto)
  with assms show ?thesis unfolding spbf_inv_def heap_paths_def by blast
qed

lemma spbf_inv_visit:
  assumes g: "udwg_wf g" "weights_ok g" "from \<in> udwg_nodes g" and inv: "spbf_inv g from to V H best"
    and p: "p \<in> H" "\<forall>q\<in>H. plen p \<le> plen q" "pend p \<notin> V" and nb: "\<not> beats best (plen p)"
    and H1: "H1 \<subseteq> H" "H \<subseteq> insert p H1"
    and look: "looked_at to p (set (udwg_adj g (pend p))) H1 best H' best'" and b': "best_ok g from to best'"
  shows "spbf_inv g from to (insert (pend p) V) H' best'"
proof -
  let ?v = "pend p" and ?V = "insert (pend p) V"
  have P: "upath_ok g from p ?v" "ll_root p \<noteq> []" "?v \<noteq> to" "pnodes p \<subseteq> ?V"
    using inv p(1) unfolding spbf_inv_def heap_paths_def by blast+
  have v: "?v \<in> udwg_nodes g" using wwalk_nodes [OF g(1), of "from" "ll_root p" ?v] g(3) P(1) by (auto simp: upath_ok_def)
  note L = look [unfolded looked_at_def]
  have keep: "explored g to ?V H' best' w d" if "explored g to V H best w d" for w d
    using that by (rule explored_mono) (use L H1 in blast)+
  have "nearest g from ?v (plen p)"
    unfolding nearest_def
  proof (intro allI impI)
    fix es assume "es \<noteq> []" "wwalk g from es ?v"
    from frontier_start [OF g inv this(2,1) p(3)] show "plen p \<le> wlen es"
      using p(2) nb beats_mono by (meson linorder_le_cases order_trans)
  qed
  moreover have "explored g to ?V H' best' ?v (plen p)"
    unfolding explored_def
  proof
    fix e assume "e \<in> set (udwg_adj g ?v)"
    then consider "e_adj e \<in> pnodes p" | "e_adj e = to" "beats best' (plen p + sint (e_weight e))" | "ext p e \<in> H'"
      using L by blast
    then show "e_adj e \<in> ?V \<or> e_adj e = to \<and> beats best' (plen p + sint (e_weight e))
        \<or> (\<exists>q\<in>H'. pend q = e_adj e \<and> plen q \<le> plen p + sint (e_weight e))"
      using P(4) by cases (auto intro: bexI [of _ "ext p e"])
  qed
  moreover have "heap_paths g from to ?V H'"
    unfolding heap_paths_def
  proof
    fix q assume "q \<in> H'"
    then consider "q \<in> H" | e where "e \<in> set (udwg_adj g ?v)" "q = ext p e" "e_adj e \<notin> pnodes p" "e_adj e \<noteq> to"
      using L H1 by blast
    then show "upath_ok g from q (pend q) \<and> ll_root q \<noteq> [] \<and> pend q \<noteq> to \<and> pnodes q \<subseteq> insert (pend q) ?V"
    proof cases
      case 1
      then show ?thesis using inv unfolding spbf_inv_def heap_paths_def by blast
    next
      case 2
      with upath_ext [OF g(1,3) P(1) 2(1,3)] P(4) show ?thesis by auto
    qed
  qed
  moreover have "?V \<subseteq> udwg_nodes g" "to \<notin> ?V" "explored g to V H best from 0"
    "\<forall>v\<in>V. \<exists>d. explored g to V H best v d \<and> nearest g from v d"
    using v inv P(3) unfolding spbf_inv_def by blast+
  ultimately show ?thesis using b' keep unfolding spbf_inv_def by blast
qed

section \<open>The loop\<close>

definition us_ok :: "('a, 'w) udw_graph \<Rightarrow> 'a udwg_node \<Rightarrow> 'a udwg_node \<Rightarrow> 'a uspbf \<Rightarrow> 'a udwg_node set
    \<Rightarrow> 'a upath set \<Rightarrow> bool" where
  "us_ok g from to s V H \<longleftrightarrow> pq_ok (us_pq s) H \<and> at_inv (us_visited s)
     \<and> at_ops (us_visited s) = udwg_visited_ops (g_ops g) \<and> set (at_list (us_visited s)) = V
     \<and> never_fails (us_mem s) \<and> spbf_inv g from to V H (us_best s)"

definition us_found :: "('a, 'w) udw_graph \<Rightarrow> 'a udwg_node \<Rightarrow> 'a udwg_node \<Rightarrow> 'a uspbf \<Rightarrow> bool" where
  "us_found g from to s \<longleftrightarrow> (\<exists>b. us_best s = Some b \<and> upath_ok g from b to \<and> ll_root b \<noteq> []
     \<and> nearest g from to (plen b))"

lemma visited_tree:
  assumes g: "udwg_wf g" and t: "at_inv t" "at_ops t = udwg_visited_ops (g_ops g)" "set (at_list t) = V"
    and V: "V \<subseteq> udwg_nodes g" "n \<in> udwg_nodes g"
  shows "n \<in> V \<Longrightarrow> at_find n (t, m, ()) = Done n (t, m, ())"
    and "n \<notin> V \<Longrightarrow> at_find n (t, m, ()) = Fail ENOENT (t, m, ())"
    and "n \<notin> V \<Longrightarrow> never_fails m \<Longrightarrow> \<exists>t' m'. at_insert n (t, m, ()) = Done () (t', m', ()) \<and> at_inv t'
      \<and> at_ops t' = udwg_visited_ops (g_ops g) \<and> set (at_list t') = insert n V \<and> never_fails m'"
proof -
  have cmp: "at_cmp t n y = 0 \<longleftrightarrow> n = y" if "y \<in> V" for y
    using udwg_node_unique [OF g V(2), of y] that V(1) t(2) by (auto simp: udwg_visited_ops_def)
  show "at_find n (t, m, ()) = Done n (t, m, ())" if "n \<in> V"
    by (rule at_find_hit [OF t(1)]) (use that cmp t(3) in auto)
  have new: "\<forall>y\<in>set (at_list t). at_cmp t n y \<noteq> 0" if "n \<notin> V"
    using that cmp t(3) by auto
  then show "at_find n (t, m, ()) = Fail ENOENT (t, m, ())" if "n \<notin> V"
    using that by (intro at_find_miss) blast
  show "\<exists>t' m'. at_insert n (t, m, ()) = Done () (t', m', ()) \<and> at_inv t'
      \<and> at_ops t' = udwg_visited_ops (g_ops g) \<and> set (at_list t') = insert n V \<and> never_fails m'"
    if "n \<notin> V" "never_fails m"
    using at_insert_cases [OF t(1), of m n "()"] new [OF that(1)] that(2) t(2,3) by auto
qed

text \<open>A round with the shortest path of the heap; \<open>s\<close> is the state after the path was popped.\<close>

lemma spbf_round:
  fixes p :: "'a upath"
  assumes g: "udwg_wf g" "weights_ok g" "from \<in> udwg_nodes g" "to \<in> udwg_nodes g"
    and s: "pq_ok (us_pq s) H1" "at_inv (us_visited s)" "at_ops (us_visited s) = udwg_visited_ops (g_ops g)"
      "set (at_list (us_visited s)) = V" "never_fails (us_mem s)"
    and inv: "spbf_inv g from to V H (us_best s)" and p: "p \<in> H" "\<forall>q\<in>H. plen p \<le> plen q"
    and H1: "H1 \<subseteq> H" "H \<subseteq> insert p H1"
  shows "us_found g from to s \<and> udwg_spbf_round g junk to p s = Done False s
    \<or> (\<exists>s' V' H'. udwg_spbf_round g junk to p s = Done True s' \<and> us_ok g from to s' V' H' \<and> us_dangling s'
        \<and> (V' = V \<and> us_pq s' = us_pq s \<or> card (udwg_nodes g - V') < card (udwg_nodes g - V)))"
proof -
  let ?v = "pend p"
  have P: "upath_ok g from p ?v" "ll_root p \<noteq> []" "ll_inv p"
    using inv p(1) unfolding spbf_inv_def heap_paths_def by (auto simp: upath_ok_def)
  have V: "V \<subseteq> udwg_nodes g" and bo: "best_ok g from to (us_best s)" using inv by (auto simp: spbf_inv_def)
  have v: "?v \<in> udwg_nodes g"
    using wwalk_nodes [OF g(1), of "from" "ll_root p" ?v] g(3) P(1) by (auto simp: upath_ok_def)
  have le: "udwg_path_len b \<le>s udwg_path_len p \<longleftrightarrow> plen b \<le> plen p" if "us_best s = Some b" for b
    using upath_compare(3) [OF g(1-3) _ P(1), of b to] bo that by (simp add: best_ok_def)
  then have stop: "(case us_best s of None \<Rightarrow> False | Some b \<Rightarrow> udwg_path_len b \<le>s udwg_path_len p)
      \<longleftrightarrow> beats (us_best s) (plen p)" by (simp add: beats_def split: option.split)
  have last: "ll_last (p, us_mem s, ()) = Done (last (ll_root p)) (p, us_mem s, ())"
    using ll_last_eq [OF P(3), of "us_mem s" "()"] P(2) by simp
  note T = visited_tree [OF g(1) s(2-4) V v]
  consider "beats (us_best s) (plen p)" | "\<not> beats (us_best s) (plen p)" "?v \<in> V"
    | "\<not> beats (us_best s) (plen p)" "?v \<notin> V" by blast
  then show ?thesis
  proof cases
    case 1
    then obtain b where b: "us_best s = Some b" "plen b \<le> plen p" by (auto simp: beats_def)
    have "us_found g from to s"
      using spbf_inv_stop [OF g(1-3) inv p(2) b] b(1) bo by (auto simp: us_found_def best_ok_def)
    with 1 show ?thesis by (simp add: udwg_spbf_round_def stop)
  next
    case 2
    have "udwg_spbf_round g junk to p s = Done True (s\<lparr>us_dangling := True\<rparr>)"
      unfolding udwg_spbf_round_def stop using 2(1) last T(1) [OF 2(2)] by simp
    moreover have "us_ok g from to (s\<lparr>us_dangling := True\<rparr>) V H1"
      using s spbf_inv_drop [OF inv 2(2) H1] by (simp add: us_ok_def)
    ultimately show ?thesis by fastforce
  next
    case 3
    from spbf_cb_edges [OF g P(1) order_refl s(1) bo s(5), of junk] obtain pq' H' best' m' where
      i: "iterate_list (udwg_spbf_cb (g_ops g) junk to p) (udwg_adj g ?v) (us_pq s, us_best s, us_mem s)
          = Done False (pq', best', m')" "pq_ok pq' H'" "best_ok g from to best'" "never_fails m'"
        "looked_at to p (set (udwg_adj g ?v)) H1 (us_best s) H' best'" by blast
    obtain t' m1 where t: "at_insert ?v (us_visited s, m', ()) = Done () (t', m1, ())" "at_inv t'"
      "at_ops t' = udwg_visited_ops (g_ops g)" "set (at_list t') = insert ?v V" "never_fails m1"
      using T(3) [OF 3(2) i(4)] by blast
    let ?s = "s\<lparr>us_pq := pq', us_visited := t', us_best := best', us_mem := m1, us_dangling := True\<rparr>"
    have "udwg_spbf_round g junk to p s = Done True ?s"
      unfolding udwg_spbf_round_def stop using 3 last T(2) [OF 3(2)] i(1) t(1)
      by (simp add: at_iterate_list flip: udwg_adj_def)
    moreover have "us_ok g from to ?s (insert ?v V) H'"
      using i(2) t(2-5) spbf_inv_visit [OF g(1-3) inv p 3(2,1) H1 i(5,3)] by (simp add: us_ok_def)
    moreover have "card (udwg_nodes g - insert ?v V) < card (udwg_nodes g - V)"
      using v 3(2) by (intro psubset_card_mono) auto
    ultimately show ?thesis by fastforce
  qed
qed

lemma udwg_spbf_loop_correct:
  assumes g: "udwg_wf g" "weights_ok g" "from \<in> udwg_nodes g" "to \<in> udwg_nodes g"
  shows "us_ok g from to s V H \<Longrightarrow> \<exists>found s'. udwg_spbf_loop g junk to s = Some (Done found s')
    \<and> (if found then us_found g from to s' else us_dangling s' \<or> H = {} \<and> s' = s)"
proof (induction "(card (udwg_nodes g - V), length (heap_list (us_pq s)))" arbitrary: s V H
    rule: wf_induct_rule [OF wf_lex_prod [OF wf_less_than wf_less_than]])
  case 1
  note ok = 1(2)
  have pq: "heap_inv (us_pq s)" "h_ops (us_pq s) = spbf_pq_ops" "set (heap_list (us_pq s)) = H"
    and inv: "spbf_inv g from to V H (us_best s)"
    using ok by (simp_all add: us_ok_def pq_ok_def)
  show ?case
  proof (cases "h_nelements (us_pq s) = 0")
    case True
    then have "udwg_spbf_loop g junk to s = Some (Done False s)"
      by (subst udwg_spbf_loop.simps) (simp add: heap_empty_def)
    moreover have "H = {}" using True pq(3) heap_list_empty [OF pq(1)] by simp
    ultimately show ?thesis by auto
  next
    case False
    let ?p = "heap_list (us_pq s) ! 0"
    from heap_pop_result [OF pq(1) False, of "us_mem s" "()"] obtain pq' where
      pop: "heap_pop (us_pq s, us_mem s, ()) = Done (Some ?p) (pq', us_mem s, ())" "heap_inv pq'"
        "h_ops pq' = h_ops (us_pq s)" "mset (heap_list pq') = mset (heap_list (us_pq s)) - {#?p#}" by blast
    have "heap_list (us_pq s) \<noteq> []" using heap_list_empty [OF pq(1)] False by simp
    then have p: "?p \<in> set (heap_list (us_pq s))" by simp
    have H: "set (heap_list pq') \<subseteq> H" "H \<subseteq> insert ?p (set (heap_list pq'))"
    proof -
      have eq: "mset (heap_list (us_pq s)) = add_mset ?p (mset (heap_list pq'))" using pop(4) p by simp
      show "set (heap_list pq') \<subseteq> H" "H \<subseteq> insert ?p (set (heap_list pq'))"
        using arg_cong [OF eq, of set_mset] pq(3) by auto
    qed
    have shorter: "length (heap_list pq') < length (heap_list (us_pq s))"
      using pop(4) p by (metis in_multiset_in_set mset_subset_size multi_self_add_other_not_self size_mset
          size_Diff1_less)
    have min: "\<forall>q\<in>H. plen ?p \<le> plen q"
    proof
      fix q assume q: "q \<in> H"
      have "0 \<le> udwg_compare_paths ?p q"
        using heap_list_ge [OF pq(1), of q] q pq(2,3) by (simp add: spbf_pq_ops_def)
      then show "plen ?p \<le> plen q"
        using upath_compare(1) [OF g(1-3), of ?p "pend ?p" q "pend q"] inv p q pq(3)
        unfolding spbf_inv_def heap_paths_def by blast
    qed
    let ?s = "s\<lparr>us_pq := pq', us_mem := us_mem s, us_dangling := False\<rparr>"
    have step: "udwg_spbf_loop g junk to s = (case udwg_spbf_round g junk to ?p ?s of
        Abort \<Rightarrow> Some Abort | Fail e s1 \<Rightarrow> Some (Fail e s1)
      | Done again s1 \<Rightarrow> if again then udwg_spbf_loop g junk to s1 else Some (Done True s1))"
      using False pop(1) by (subst udwg_spbf_loop.simps) (simp add: heap_empty_def)
    have "us_found g from to ?s \<and> udwg_spbf_round g junk to ?p ?s = Done False ?s
      \<or> (\<exists>s' V' H'. udwg_spbf_round g junk to ?p ?s = Done True s' \<and> us_ok g from to s' V' H' \<and> us_dangling s'
        \<and> (V' = V \<and> us_pq s' = us_pq ?s \<or> card (udwg_nodes g - V') < card (udwg_nodes g - V)))"
      by (rule spbf_round [OF g, of ?s "set (heap_list pq')" V H])
        (use ok pop pq p min H inv in \<open>simp_all add: us_ok_def pq_ok_def\<close>)
    then consider "us_found g from to ?s" "udwg_spbf_round g junk to ?p ?s = Done False ?s"
      | s' V' H' where "udwg_spbf_round g junk to ?p ?s = Done True s'" "us_ok g from to s' V' H'" "us_dangling s'"
        "V' = V \<and> us_pq s' = us_pq ?s \<or> card (udwg_nodes g - V') < card (udwg_nodes g - V)" by blast
    then show ?thesis
    proof cases
      case 1
      with step show ?thesis by (intro exI [of _ True] exI [of _ ?s]) simp
    next
      case r: (2 s' V' H')
      from r(4) shorter have "((card (udwg_nodes g - V'), length (heap_list (us_pq s'))),
          (card (udwg_nodes g - V), length (heap_list (us_pq s)))) \<in> less_than <*lex*> less_than" by auto
      from 1(1) [OF this r(2)] obtain found s2 where
        "udwg_spbf_loop g junk to s' = Some (Done found s2)"
        "if found then us_found g from to s2 else us_dangling s2 \<or> H' = {} \<and> s2 = s'" by blast
      with step r(1,3) show ?thesis
        by (intro exI [of _ found] exI [of _ s2]) (auto split: if_splits)
    qed
  qed
qed

lemma spbf_inv_start:
  assumes g: "udwg_wf g" "from \<in> udwg_nodes g" and p: "upath_ok g from p from" "ll_root p = []"
    and look: "looked_at to p (set (udwg_adj g from)) {} None H best" and b: "best_ok g from to best"
  shows "spbf_inv g from to {} H best"
    and "H = {} \<Longrightarrow> \<forall>e\<in>set (udwg_adj g from). e_adj e = to"
    and "\<forall>e\<in>set (udwg_adj g from). e_adj e = to \<Longrightarrow> H = {}"
proof -
  note L = look [unfolded looked_at_def]
  have "explored g to {} H best from 0"
    unfolding explored_def
  proof
    fix e assume "e \<in> set (udwg_adj g from)"
    then consider "e_adj e = to" "beats best (0 + sint (e_weight e))" | "ext p e \<in> H"
      using L p(2) by auto
    then show "e_adj e \<in> {} \<or> e_adj e = to \<and> beats best (0 + sint (e_weight e))
        \<or> (\<exists>q\<in>H. pend q = e_adj e \<and> plen q \<le> 0 + sint (e_weight e))"
      using p(2) by cases (auto intro: bexI [of _ "ext p e"])
  qed
  moreover have "heap_paths g from to {} H"
    unfolding heap_paths_def
  proof
    fix q assume "q \<in> H"
    then obtain e where e: "e \<in> set (udwg_adj g from)" "q = ext p e" "e_adj e \<notin> pnodes p" "e_adj e \<noteq> to"
      using L by blast
    from upath_ext [OF g p(1) e(1,3)] e p(2)
    show "upath_ok g from q (pend q) \<and> ll_root q \<noteq> [] \<and> pend q \<noteq> to \<and> pnodes q \<subseteq> insert (pend q) {}" by simp
  qed
  ultimately show "spbf_inv g from to {} H best" using b by (simp add: spbf_inv_def)
  show "\<forall>e\<in>set (udwg_adj g from). e_adj e = to" if "H = {}" using L that p(2) by auto
  show "H = {}" if "\<forall>e\<in>set (udwg_adj g from). e_adj e = to" using L that by auto
qed

lemma udwg_shortest_path_bf_result:
  fixes g :: "('a, 'w) udw_graph"
  assumes g: "udwg_wf g" "weights_ok g" "from \<in> udwg_nodes g" "to \<in> udwg_nodes g" and m: "never_fails m"
  shows "if \<forall>e\<in>set (udwg_adj g from). e_adj e = to
    then \<exists>m'. udwg_shortest_path_bf g junk from to m = Some (Fail ENOENT m')
    else udwg_shortest_path_bf g junk from to m = Some Abort
      \<or> (\<exists>b m'. udwg_shortest_path_bf g junk from to m = Some (Done (Some b) m') \<and> ll_root b \<noteq> []
           \<and> wwalk g from (ll_root b) to \<and> nearest g from to (plen b))"
proof -
  obtain m1 where m1: "malloc m = (True, m1)" "never_fails m1" using malloc_ok [OF m] by blast
  obtain m2 where m2: "malloc m1 = (True, m2)" "never_fails m2" using malloc_ok [OF m1(2)] by blast
  let ?pq = "\<lparr>h_size = HEAP_START_SIZE, h_ops = spbf_pq_ops, h_heap = replicate HEAP_START_SIZE None, h_nelements = 0\<rparr>
    :: 'a path_heap"
  have pq: "heap_create spbf_pq_ops m = (Some ?pq, m2)" using m1 m2 by (simp add: heap_create_def)
  have "pq_ok ?pq {}"
    using heap_create_inv [OF _ pq] total_compare_paths by (simp add: pq_ok_def spbf_pq_ops_def)
  let ?V = "\<lparr>at_root = Null, at_ops = udwg_visited_ops (g_ops g), at_nnodes = 0\<rparr> :: ('a udwg_node, unit) avl_tree"
  obtain m3 where m3: "at_create (udwg_visited_ops (g_ops g)) m2 = (Some ?V, m3)" "never_fails m3"
    using at_create_result [OF m2(2)] by blast
  let ?p = "\<lparr>ll_root = [], ll_ops = spbf_ll_ops (g_ops g), ll_nnodes = 0\<rparr> :: 'a upath"
  obtain m4 where m4: "ll_create (Some (spbf_ll_ops (g_ops g))) m3 = (Some ?p, m4)" "never_fails m4"
    using ll_create_result [OF m3(2)] by blast
  have cmp: "ll_cmp ?p = (\<lambda>e f. udwg_compare_nodes (g_ops g) (e_adj e) (e_adj f))"
    by (intro ext) (simp add: spbf_cmp)
  have "equiv_cmp (ll_cmp ?p)"
    unfolding cmp using total_cmp_equiv [OF udwg_wfD(8) [OF g(1)]] unfolding equiv_cmp_def by blast
  then have p: "upath_ok g from ?p from"
    by (simp add: upath_ok_def ll_inv_def ll_check_def) (simp add: spbf_ll_ops_def)
  from spbf_cb_edges [OF g p order_refl \<open>pq_ok ?pq {}\<close> _ m4(2), of None junk] obtain pq' H best m5 where
    i: "iterate_list (udwg_spbf_cb (g_ops g) junk to ?p) (udwg_adj g from) (?pq, None, m4) = Done False (pq', best, m5)"
      "pq_ok pq' H" "best_ok g from to best" "never_fails m5"
      "looked_at to ?p (set (udwg_adj g from)) {} None H best" by (auto simp: best_ok_def)
  note S = spbf_inv_start [OF g(1,3) p _ i(5,3), simplified]
  let ?s = "\<lparr>us_pq = pq', us_visited = ?V, us_best = best, us_mem = m5, us_dangling = False\<rparr>"
  have "at_inv ?V" using udwg_wfD(8) [OF g(1)] by (simp add: at_inv_def at_list_def udwg_visited_ops_def)
  then have "us_ok g from to ?s {} H" using i(2,4) S(1) by (simp add: us_ok_def at_list_def)
  from udwg_spbf_loop_correct [OF g this, of junk] obtain found s' where
    loop: "udwg_spbf_loop g junk to ?s = Some (Done found s')"
      "if found then us_found g from to s' else us_dangling s' \<or> H = {} \<and> s' = ?s" by blast
  have run: "udwg_shortest_path_bf g junk from to m = Some (if found then Done (us_best s') (us_mem s')
      else if us_dangling s' then Abort else Fail ENOENT (us_mem s'))"
    unfolding udwg_shortest_path_bf_def using pq m3(1) m4(1) i(1) loop(1)
    by (simp add: at_iterate_list flip: udwg_adj_def)
  show ?thesis
  proof (cases "\<forall>e\<in>set (udwg_adj g from). e_adj e = to")
    case True
    then have "H = {}" using S(3) by blast
    then have "heap_empty pq'" using i(2) heap_list_empty [of pq'] by (simp add: pq_ok_def heap_empty_def)
    then have "udwg_spbf_loop g junk to ?s = Some (Done False ?s)" by (subst udwg_spbf_loop.simps) simp
    with loop(1) have "\<not> found" "s' = ?s" by simp_all
    with run True show ?thesis by simp
  next
    case False
    then have "H \<noteq> {}" using S(2) by blast
    with loop(2) run False show ?thesis
      by (cases found) (auto simp: us_found_def upath_ok_def)
  qed
qed

end
