(* ===== verification/UdwSpec.thy ===== *)
theory UdwSpec
  imports UdwShortest
begin

text \<open>
  What a weighted graph (\<^verbatim>\<open>graphs/udw_graph/udw_graph.c\<close>) guarantees, over its nodes and edges alone.
\<close>

section \<open>A concrete graph\<close>

text \<open>Four nodes with the data 2 to 5; edges 2-3 and 3-4 of weight 1, 2-4 of weight 7.\<close>

definition tri_gops :: "(int, unit) udw_graph_ops" where
  "tri_gops = \<lparr>go_compare_fn = (\<lambda>x y. x - y), go_destroy_data_fn = None\<rparr>"

definition tri_node :: "nat \<Rightarrow> int udwg_node" where
  "tri_node i = \<lparr>n_id = i, n_data = int i\<rparr>"

definition tri_edge :: "nat \<Rightarrow> 64 word \<Rightarrow> int udwg_edge" where
  "tri_edge i w = \<lparr>e_adj = tri_node i, e_weight = w\<rparr>"

definition tri_adjs :: "int udwg_edge atn \<Rightarrow> nat \<Rightarrow> int edge_tree" where
  "tri_adjs r k = \<lparr>at_root = r, at_ops = udwg_node_aops tri_gops, at_nnodes = k\<rparr>"

definition tri :: "(int, unit) udw_graph" where
  "tri = \<lparr>g_nodes = \<lparr>at_root = Atn 1 (tri_node 3) (Atn 0 (tri_node 2) Null Null)
         (Atn 1 (tri_node 4) Null (Atn 0 (tri_node 5) Null Null)), at_ops = udwg_aops tri_gops, at_nnodes = 4\<rparr>,
     g_ops = tri_gops,
     g_adjs = (\<lambda>i. if i = 2 then tri_adjs (Atn 1 (tri_edge 3 1) Null (Atn 0 (tri_edge 4 7) Null Null)) 2
                   else if i = 3 then tri_adjs (Atn 1 (tri_edge 2 1) Null (Atn 0 (tri_edge 4 1) Null Null)) 2
                   else if i = 4 then tri_adjs (Atn 1 (tri_edge 2 7) Null (Atn 0 (tri_edge 3 1) Null Null)) 2
                   else tri_adjs Null 0),
     g_next = 6\<rparr>"

lemma tri_node_simps [simp]:
  "n_id (tri_node i) = i" "n_data (tri_node i) = int i" "tri_node i = tri_node j \<longleftrightarrow> i = j"
  "e_adj (tri_edge i w) = tri_node i" "e_weight (tri_edge i w) = w"
  by (simp_all add: tri_node_def tri_edge_def)

lemma tri_fields [simp]:
  "g_ops tri = tri_gops" "g_next tri = 6"
  "udwg_nodes tri = {tri_node 2, tri_node 3, tri_node 4, tri_node 5}"
  "udwg_adj tri (tri_node 2) = [tri_edge 3 1, tri_edge 4 7]" "udwg_adj tri (tri_node 3) = [tri_edge 2 1, tri_edge 4 1]"
  "udwg_adj tri (tri_node 4) = [tri_edge 2 7, tri_edge 3 1]" "udwg_adj tri (tri_node 5) = []"
  by (auto simp: tri_def udwg_nodes_def udwg_adj_def at_list_def tri_adjs_def)

lemma tri_edges:
  "udwg_edges tri = {(tri_node 2, 1, tri_node 3), (tri_node 3, 1, tri_node 2), (tri_node 3, 1, tri_node 4),
     (tri_node 4, 1, tri_node 3), (tri_node 2, 7, tri_node 4), (tri_node 4, 7, tri_node 2)}"
  unfolding udwg_edges_image by (simp add: insert_commute)

lemma tri_cmp [simp]:
  "udwg_compare_nodes tri_gops x y = n_data x - n_data y" "total_cmp (udwg_compare_nodes tri_gops)"
  by (auto simp: udwg_compare_nodes_def tri_gops_def total_cmp_def)

lemma tri_inv [simp]: "udwg_inv tri"
proof -
  have "total_cmp (udwg_compare_node_adjs tri_gops)" by (auto simp: total_cmp_def)
  then have "at_inv (g_adjs tri i)" "at_ops (g_adjs tri i) = udwg_node_aops tri_gops" for i
    by (simp_all add: tri_def tri_adjs_def at_inv_def at_list_def)
  moreover have "at_inv (g_nodes tri)" "at_ops (g_nodes tri) = udwg_aops (g_ops tri)"
    by (simp_all add: tri_def at_inv_def at_list_def)
  ultimately have "udwg_wf tri" unfolding udwg_wf_def by auto
  moreover have "wsym (udwg_edges tri)" "\<forall>x w. (x, w, x) \<notin> udwg_edges tri"
    unfolding tri_edges wsym_def by auto
  ultimately show ?thesis by (simp add: udwg_inv_def)
qed

lemma tri_weights [simp]: "weights_ok tri"
  unfolding weights_ok_def by (rule exI [of _ 7]) simp

section \<open>Building\<close>

text \<open>
  C20: \<^verbatim>\<open>udwg_add_edge\<close> adds an edge with its weight in both directions, or refuses an edge that
  exists with \<^verbatim>\<open>EEXIST\<close>. But where only the second half is refused (an edge from a node to itself,
  or no memory for the tree node) the first half is freed by its removal and then once more, which
  stops the program: an edge from a node to itself always does.
\<close>

theorem udwg_add_edge_both_or_double_free:
  assumes "udwg_inv g" "x \<in> udwg_nodes g" "y \<in> udwg_nodes g"
  shows "case udwg_add_edge x y c (g, m, w) of
      Done _ (g', m', w') \<Rightarrow> udwg_inv g' \<and> udwg_nodes g' = udwg_nodes g \<and> x \<noteq> y \<and> w' = w
        \<and> (\<forall>k. (x, k, y) \<notin> udwg_edges g) \<and> udwg_edges g' = udwg_edges g \<union> {(x, c, y), (y, c, x)}
    | Fail e (g', m', w') \<Rightarrow> udwg_inv g' \<and> udwg_nodes g' = udwg_nodes g \<and> udwg_edges g' = udwg_edges g \<and> w' = w
        \<and> (never_fails m \<longrightarrow> e = EEXIST \<and> x \<noteq> y \<and> (\<exists>k. (x, k, y) \<in> udwg_edges g))
    | Abort \<Rightarrow> x = y \<or> \<not> never_fails m"
  using udwg_add_edge_result [OF assms, of c m w] udwg_invD(3) [OF assms(1)] by fastforce

theorem udwg_add_edge_both_or_double_free_witness:
  "udwg_add_edge (tri_node 5) (tri_node 5) 1 (tri, [], ()) = Abort
   \<and> (\<exists>g' m'. udwg_add_edge (tri_node 2) (tri_node 5) 3 (tri, [], ()) = Done () (g', m', ()) \<and> udwg_inv g'
        \<and> (tri_node 5, 3, tri_node 2) \<in> udwg_edges g')"
proof -
  note E = udwg_add_edge_both_or_double_free [OF tri_inv]
  note F = E [where x = "tri_node 2" and y = "tri_node 5" and c = 3 and m = "[]" and w = "()"]
  have 1: "udwg_add_edge (tri_node 5) (tri_node 5) 1 (tri, [], ()) = Abort"
    using E [where x = "tri_node 5" and y = "tri_node 5" and c = 1 and m = "[]" and w = "()"] by (auto split: outcome.splits)
  have "udwg_add_edge (tri_node 2) (tri_node 5) 3 (tri, [], ()) \<noteq> Abort"
    "(tri_node 2, k, tri_node 5) \<notin> udwg_edges tri" for k
    using F by (auto split: outcome.splits simp: tri_edges)
  then show ?thesis
    using 1 F by (auto split: outcome.splits)
qed

text \<open>
  C40: Adding a node to a weighted graph gives exactly one node more, with the data and without an
  edge; data that compares equal to a node's, or a failing allocation, leaves the graph as it was.
\<close>

theorem udwg_add_node_correct:
  assumes "udwg_inv g"
  shows "case udwg_add_node d (g, m, w) of
      Done n (g', m', w') \<Rightarrow> udwg_inv g' \<and> n_data n = d \<and> n \<notin> udwg_nodes g \<and> w' = w
        \<and> (\<forall>x\<in>udwg_nodes g. go_compare_fn (g_ops g) d (n_data x) \<noteq> 0)
        \<and> udwg_nodes g' = insert n (udwg_nodes g) \<and> udwg_edges g' = udwg_edges g
    | Fail e (g', m', w') \<Rightarrow> g' = g \<and> w' = w
        \<and> (never_fails m \<longrightarrow> e = EEXIST \<and> (\<exists>x\<in>udwg_nodes g. go_compare_fn (g_ops g) d (n_data x) = 0))
    | Abort \<Rightarrow> False"
  using udwg_add_node_result [OF assms, of d m w] by fastforce

theorem udwg_add_node_correct_witness:
  "\<exists>n g' m'. udwg_add_node 9 (tri, [], ()) = Done n (g', m', ()) \<and> udwg_inv g' \<and> n_data n = 9"
  using udwg_add_node_correct [OF tri_inv, where d = 9 and m = "[]" and w = "()"] by (auto split: outcome.splits simp: tri_gops_def)

section \<open>Checking\<close>

text \<open>
  C27: \<^verbatim>\<open>udwg_check\<close> runs through exactly when every edge is there in both directions with the
  same weight.
\<close>

theorem udwg_check_exact:
  assumes "udwg_wf g"
  shows "udwg_check g \<longleftrightarrow> wsym (udwg_edges g)"
  using assms by (rule udwg_check_result)

theorem udwg_check_exact_witness: "udwg_check tri"
  using udwg_check_exact [OF udwg_invD(1) [OF tri_inv]] udwg_invD(2) [OF tri_inv] by blast

section \<open>Searching\<close>

text \<open>
  C15: \<^verbatim>\<open>udwg_shortest_path_bf\<close> always comes to an end, and a path it returns leads along edges of
  the graph from the start to the destination and is no longer than any other walk. The weights
  are non-negative and so small that a path through all nodes does not overflow 64 bits.
\<close>

theorem udwg_shortest_path_bf_shortest:
  assumes "udwg_wf g" "weights_ok g" "from \<in> udwg_nodes g" "to \<in> udwg_nodes g" "never_fails m"
  shows "\<exists>res. udwg_shortest_path_bf g junk from to m = Some res
    \<and> (\<forall>p m'. res = Done p m' \<longrightarrow> (\<exists>b. p = Some b \<and> ll_root b \<noteq> [] \<and> wwalk g from (ll_root b) to
         \<and> (\<forall>es. es \<noteq> [] \<longrightarrow> wwalk g from es to \<longrightarrow> wlen (ll_root b) \<le> wlen es)))"
  using udwg_shortest_path_bf_result [OF assms, of junk] unfolding nearest_def by (auto split: if_splits)

definition path_of :: "('a upath option, allocator) outcome option \<Rightarrow> 'a udwg_edge list option" where
  "path_of res = (case res of Some (Done (Some p) _) \<Rightarrow> Some (ll_root p) | _ \<Rightarrow> None)"

lemma tri_run:
  "path_of (udwg_shortest_path_bf tri (\<lambda>i. None) (tri_node 2) (tri_node 4) []) = Some [tri_edge 3 1, tri_edge 4 1]"
  by code_simp

theorem udwg_shortest_path_bf_shortest_witness:
  "\<exists>b m'. udwg_shortest_path_bf tri (\<lambda>i. None) (tri_node 2) (tri_node 4) [] = Some (Done (Some b) m')
     \<and> ll_root b = [tri_edge 3 1, tri_edge 4 1]
     \<and> (\<forall>es. es \<noteq> [] \<longrightarrow> wwalk tri (tri_node 2) es (tri_node 4) \<longrightarrow> 2 \<le> wlen es)"
proof -
  obtain b m' where b: "udwg_shortest_path_bf tri (\<lambda>i. None) (tri_node 2) (tri_node 4) [] = Some (Done (Some b) m')"
    "ll_root b = [tri_edge 3 1, tri_edge 4 1]"
    using tri_run by (auto simp: path_of_def split: option.splits outcome.splits)
  have "wlen (ll_root b) = 2" using b(2) by simp
  with b udwg_shortest_path_bf_shortest [OF udwg_invD(1) [OF tri_inv] tri_weights, of "tri_node 2" "tri_node 4" "[]" "\<lambda>i. None"]
  show ?thesis by (intro exI [of _ b] exI [of _ m']) auto
qed

text \<open>
  C21: The search loses paths it has found: where every edge of the start leads to the destination
  it returns \<^verbatim>\<open>ENOENT\<close>, and where it runs out of paths after exploring one its error path destroys
  that path a second time. So a destination that is not connected stops the program unless the
  start has no edge at all.
\<close>

theorem udwg_shortest_path_bf_drained:
  assumes "udwg_wf g" "weights_ok g" "from \<in> udwg_nodes g" "to \<in> udwg_nodes g" "never_fails m"
  shows "if \<forall>e\<in>set (udwg_adj g from). e_adj e = to
    then \<exists>m'. udwg_shortest_path_bf g junk from to m = Some (Fail ENOENT m')
    else (\<nexists>es. es \<noteq> [] \<and> wwalk g from es to) \<longrightarrow> udwg_shortest_path_bf g junk from to m = Some Abort"
  using udwg_shortest_path_bf_result [OF assms, of junk] by (auto split: if_splits)

lemma tri_walk_apart: "wwalk tri u es v \<Longrightarrow> u \<in> {tri_node 2, tri_node 3, tri_node 4} \<Longrightarrow> v \<noteq> tri_node 5"
proof (induction es arbitrary: u)
  case (Cons e es)
  then have "wwalk tri (e_adj e) es v" "e_adj e \<in> {tri_node 2, tri_node 3, tri_node 4}" by auto
  then show ?case by (rule Cons.IH)
qed auto

theorem udwg_shortest_path_bf_drained_witness:
  "\<forall>junk. udwg_shortest_path_bf tri junk (tri_node 2) (tri_node 5) [] = Some Abort
   \<and> (\<exists>m'. udwg_shortest_path_bf tri junk (tri_node 5) (tri_node 2) [] = Some (Fail ENOENT m'))"
proof
  fix junk
  show "udwg_shortest_path_bf tri junk (tri_node 2) (tri_node 5) [] = Some Abort
    \<and> (\<exists>m'. udwg_shortest_path_bf tri junk (tri_node 5) (tri_node 2) [] = Some (Fail ENOENT m'))"
    using udwg_shortest_path_bf_drained [OF udwg_invD(1) [OF tri_inv] tri_weights, of "tri_node 2" "tri_node 5" "[]" junk]
      udwg_shortest_path_bf_drained [OF udwg_invD(1) [OF tri_inv] tri_weights, of "tri_node 5" "tri_node 2" "[]" junk]
      tri_walk_apart [of "tri_node 2" _ "tri_node 5"] by auto
qed

end
