(* ===== verification/Bcache.thy ===== *)
theory Bcache
  imports CPrelude
begin

text \<open>
  \<^verbatim>\<open>bcache/bcache.c\<close>: a write-back cache for the blocks of a file. A \<^verbatim>\<open>blk_t\<close> is looked up by its
  address in \<open>bc_blocks\<close>; the hash lists, the dirty list and the free list of the cache are lists
  of addresses. Each function holds the cache's lock from start to end, so it is one step. The
  file is a function from block numbers to contents (block numbers are small enough for the byte
  offset \<^verbatim>\<open>blkno * bc_blksz\<close> not to overflow 64 bits), and the results of the I/O calls to come
  are a list, like those of \<^verbatim>\<open>malloc\<close>. The sizes are 32-bit words that wrap around; block numbers
  (\<^verbatim>\<open>uint64_t\<close>) and reference counts (\<^verbatim>\<open>int\<close>) are natural numbers.
\<close>

section \<open>The file\<close>

text \<open>
  An I/O call transfers all it was asked to, or fails with a code and leaves the contents of its
  target (the buffer of a read, the block of the file of a write) unspecified: the first argument.
\<close>

datatype 'd io = IoOk | IoErr 'd errno

record ('d, 'w) bc_env =
  env_disk :: "nat \<Rightarrow> 'd"
  env_io :: "'d io list"
  env_mem :: allocator
  env_world :: 'w

fun io_next :: "'d io list \<Rightarrow> 'd io \<times> 'd io list" where
  "io_next [] = (IoOk, [])"
| "io_next (x # xs) = (x, xs)"

definition env_pread :: "nat \<Rightarrow> ('d, 'w) bc_env \<Rightarrow> bool \<times> 'd \<times> ('d, 'w) bc_env" where
  "env_pread n env =
     (case io_next (env_io env) of
        (IoOk, rest) \<Rightarrow> (True, env_disk env n, env\<lparr>env_io := rest\<rparr>)
      | (IoErr d e, rest) \<Rightarrow> (False, d, env\<lparr>env_io := rest\<rparr>))"

definition env_pwrite :: "nat \<Rightarrow> 'd \<Rightarrow> ('d, 'w) bc_env \<Rightarrow> bool \<times> ('d, 'w) bc_env" where
  "env_pwrite n d env =
     (case io_next (env_io env) of
        (IoOk, rest) \<Rightarrow> (True, env\<lparr>env_io := rest, env_disk := (env_disk env)(n := d)\<rparr>)
      | (IoErr d' e, rest) \<Rightarrow> (False, env\<lparr>env_io := rest, env_disk := (env_disk env)(n := d')\<rparr>))"

definition env_fsync :: "('d, 'w) bc_env \<Rightarrow> errno option \<times> ('d, 'w) bc_env" where
  "env_fsync env =
     (case io_next (env_io env) of
        (IoOk, rest) \<Rightarrow> (None, env\<lparr>env_io := rest\<rparr>)
      | (IoErr d e, rest) \<Rightarrow> (Some e, env\<lparr>env_io := rest\<rparr>))"

section \<open>State\<close>

text \<open>
  The client's object for a block. \<^verbatim>\<open>bco_init\<close> gets the block's address, number and contents; it
  leaves the pointer alone when it fails.
\<close>

record ('d, 'o, 'w) bco_ops =
  bco_init :: "nat \<Rightarrow> nat \<Rightarrow> 'd \<Rightarrow> (allocator \<times> 'w, 'o) prog"
  bco_destroy :: "'o option \<Rightarrow> 'w \<Rightarrow> 'w"
  bco_check :: "('o option \<Rightarrow> 'd \<Rightarrow> bool) option"

record ('d, 'o, 'w) block =
  bl_blkno :: nat
  bl_refcnt :: nat
  bl_dirty :: bool
  bl_bco :: "'o option"
  bl_bco_ops :: "('d, 'o, 'w) bco_ops"
  bl_phys :: 'd

record bc_stats =
  bcs_hits :: "64 word"
  bcs_misses :: "64 word"
  bcs_writes :: "64 word"
  bcs_flushes :: "64 word"

record ('d, 'o, 'w) bcache =
  bc_ht :: "nat list list"
  bc_dl :: "nat list"
  bc_fl :: "nat list"
  bc_blksz :: "32 word"
  bc_currsz :: "32 word"
  bc_maxsz :: "32 word"
  bc_stats :: bc_stats
  bc_blocks :: "nat \<Rightarrow> ('d, 'o, 'w) block"
  bc_next :: nat

type_synonym ('d, 'o, 'w) bc_state = "('d, 'o, 'w) bcache \<times> ('d, 'w) bc_env"

definition bc_nbuckets :: "('d, 'o, 'w) bcache \<Rightarrow> nat" where
  "bc_nbuckets bc = unat ((bc_maxsz bc div bc_blksz bc) * 2)"

definition bc_upd :: "nat \<Rightarrow> (('d, 'o, 'w) block \<Rightarrow> ('d, 'o, 'w) block) \<Rightarrow> ('d, 'o, 'w) bcache \<Rightarrow> ('d, 'o, 'w) bcache" where
  "bc_upd b f bc = bc\<lparr>bc_blocks := (bc_blocks bc)(b := f (bc_blocks bc b))\<rparr>"

definition bc_stat :: "(bc_stats \<Rightarrow> bc_stats) \<Rightarrow> ('d, 'o, 'w) bcache \<Rightarrow> ('d, 'o, 'w) bcache" where
  "bc_stat f bc = bc\<lparr>bc_stats := f (bc_stats bc)\<rparr>"

text \<open>
  \<open>opened\<close>: whether \<^verbatim>\<open>open\<close> succeeds; \<open>mem\<close>: what the memory for the blocks to come holds. A block
  size of 0 is a division by zero.
\<close>

definition bc_create :: "(nat \<Rightarrow> ('d, 'o, 'w) block) \<Rightarrow> bool \<Rightarrow> 32 word \<Rightarrow> 32 word \<Rightarrow> allocator
    \<Rightarrow> (('d, 'o, 'w) bcache option, allocator) outcome" where
  "bc_create mem opened blksz maxsz m =
     (let (ok, m1) = malloc m in
      if \<not> ok then Done None m1
      else let (ok, m2) = malloc m1 in
        if \<not> ok then Done None m2
        else if \<not> opened then Done None m2
        else if blksz = 0 then Abort
        else let (ok, m3) = malloc m2 in
          if \<not> ok then Done None m3
          else Done (Some \<lparr>bc_ht = replicate (unat ((maxsz div blksz) * 2)) [], bc_dl = [], bc_fl = [],
                 bc_blksz = blksz, bc_currsz = 0, bc_maxsz = maxsz,
                 bc_stats = \<lparr>bcs_hits = 0, bcs_misses = 0, bcs_writes = 0, bcs_flushes = 0\<rparr>,
                 bc_blocks = mem, bc_next = 0\<rparr>) m3)"

section \<open>Getting a block\<close>

definition bc_found :: "nat \<Rightarrow> (('d, 'o, 'w) bc_state, nat \<times> 'o option) prog" where
  "bc_found b st =
     (let (bc, env) = st;
          bc1 = (if bl_refcnt (bc_blocks bc b) = 0 then bc\<lparr>bc_fl := remove1 b (bc_fl bc)\<rparr> else bc);
          bc2 = bc_upd b (\<lambda>x. x\<lparr>bl_refcnt := bl_refcnt x + 1\<rparr>) bc1
      in Done (b, bl_bco (bc_blocks bc2 b)) (bc2, env))"

text \<open>Write a dirty block out: in \<^verbatim>\<open>bc_get\<close> for the block to evict, and in \<^verbatim>\<open>bc_flush\<close>.\<close>

definition bc_write_out :: "nat \<Rightarrow> (('d, 'o, 'w) bc_state, unit) prog" where
  "bc_write_out b st =
     (let (bc, env) = st;
          (ok, env1) = env_pwrite (bl_blkno (bc_blocks bc b)) (bl_phys (bc_blocks bc b)) env in
      if \<not> ok then Fail EIO (bc, env1)
      else Done () (bc_stat (\<lambda>s. s\<lparr>bcs_writes := bcs_writes s + 1\<rparr>)
                     (bc_upd b (\<lambda>x. x\<lparr>bl_dirty := False\<rparr>) bc)\<lparr>bc_dl := remove1 b (bc_dl bc)\<rparr>, env1))"

definition env_init :: "(allocator \<times> 'w, 'o) prog \<Rightarrow> (('d, 'w) bc_env, 'o) prog" where
  "env_init init env =
     (case init (env_mem env, env_world env) of
        Abort \<Rightarrow> Abort
      | Fail e (m, w) \<Rightarrow> Fail e (env\<lparr>env_mem := m, env_world := w\<rparr>)
      | Done bco (m, w) \<Rightarrow> Done bco (env\<lparr>env_mem := m, env_world := w\<rparr>))"

text \<open>The cache is full: \<open>b\<close> is the head of the free list and is clean now.\<close>

definition bc_reuse :: "nat \<Rightarrow> ('d, 'o, 'w) bco_ops \<Rightarrow> nat \<Rightarrow> (('d, 'o, 'w) bc_state, nat \<times> 'o option) prog" where
  "bc_reuse blkno ops b st =
     (let (bc, env) = st; (ok, d, env1) = env_pread blkno env;
          bc1 = bc_upd b (\<lambda>x. x\<lparr>bl_phys := d\<rparr>) bc in
      if \<not> ok then Fail EIO (bc1, env1)
      else
        let x = bc_blocks bc1 b;
            env2 = env1\<lparr>env_world := bco_destroy (bl_bco_ops x) (bl_bco x) (env_world env1)\<rparr>;
            bc2 = bc_upd b (\<lambda>x. x\<lparr>bl_blkno := blkno, bl_bco := None, bl_bco_ops := ops\<rparr>) bc1 in
        case env_init (bco_init ops b blkno d) env2 of
          Abort \<Rightarrow> Abort
        | Fail e env3 \<Rightarrow> Fail e (bc2, env3)
        | Done bco env3 \<Rightarrow>
            let bc3 = bc_upd b (\<lambda>x. x\<lparr>bl_bco := Some bco\<rparr>) bc2;
                ht = map (remove1 b) (bc_ht bc3); i = blkno mod bc_nbuckets bc3 in
            bc_found b (bc3\<lparr>bc_ht := ht[i := b # ht ! i]\<rparr>, env3))"

definition bc_evict :: "nat \<Rightarrow> ('d, 'o, 'w) bco_ops \<Rightarrow> (('d, 'o, 'w) bc_state, nat \<times> 'o option) prog" where
  "bc_evict blkno ops st =
     (let (bc, env) = st in
      case bc_fl bc of
        [] \<Rightarrow> Fail ENOMEM st
      | b # _ \<Rightarrow>
          (case (if bl_dirty (bc_blocks bc b) then bc_write_out b st else Done () st) of
             Abort \<Rightarrow> Abort
           | Fail e st1 \<Rightarrow> Fail e st1
           | Done _ st1 \<Rightarrow> bc_reuse blkno ops b st1))"

text \<open>
  The cache has room: four allocations (the block, its lock, the operations, the buffer), then
  the read. The error path frees what was allocated.
\<close>

definition bc_alloc :: "nat \<Rightarrow> ('d, 'o, 'w) bco_ops \<Rightarrow> (('d, 'o, 'w) bc_state, nat \<times> 'o option) prog" where
  "bc_alloc blkno ops st =
     (let (bc, env) = st;
          (ok1, m1) = malloc (env_mem env) in
      if \<not> ok1 then Fail ENOMEM (bc, env\<lparr>env_mem := m1\<rparr>)
      else let (ok2, m2) = malloc m1 in
        if \<not> ok2 then Fail ENOMEM (bc, env\<lparr>env_mem := m2\<rparr>)
        else let (ok3, m3) = malloc m2 in
          if \<not> ok3 then Fail ENOMEM (bc, env\<lparr>env_mem := m3\<rparr>)
          else let (ok4, m4) = malloc m3 in
            if \<not> ok4 then Fail ENOMEM (bc, env\<lparr>env_mem := m4\<rparr>)
            else let (ok, d, env1) = env_pread blkno (env\<lparr>env_mem := m4\<rparr>) in
              if \<not> ok then Fail EIO (bc, env1)
              else
                let b = bc_next bc in
                case env_init (bco_init ops b blkno d) env1 of
                  Abort \<Rightarrow> Abort
                | Fail e env2 \<Rightarrow> Fail e (bc, env2)
                | Done bco env2 \<Rightarrow>
                    let i = blkno mod bc_nbuckets bc;
                        x = \<lparr>bl_blkno = blkno, bl_refcnt = 0, bl_dirty = False, bl_bco = Some bco,
                             bl_bco_ops = ops, bl_phys = d\<rparr>;
                        bc1 = bc\<lparr>bc_blocks := (bc_blocks bc)(b := x), bc_next := b + 1,
                                 bc_ht := (bc_ht bc)[i := b # bc_ht bc ! i], bc_fl := bc_fl bc @ [b],
                                 bc_currsz := bc_currsz bc + bc_blksz bc\<rparr> in
                    bc_found b (bc1, env2))"

text \<open>
  The result is the block's address with the client's object: the objects point to their block.
  \<open>Abort\<close>: with no hash list at all, \<^verbatim>\<open>blkno % 0\<close>.
\<close>

definition bc_get :: "nat \<Rightarrow> ('d, 'o, 'w) bco_ops \<Rightarrow> (('d, 'o, 'w) bc_state, nat \<times> 'o option) prog" where
  "bc_get blkno ops st =
     (let (bc, env) = st in
      if bc_nbuckets bc = 0 then Abort
      else case List.find (\<lambda>b. bl_blkno (bc_blocks bc b) = blkno) (bc_ht bc ! (blkno mod bc_nbuckets bc)) of
        Some b \<Rightarrow> bc_found b (bc_stat (\<lambda>s. s\<lparr>bcs_hits := bcs_hits s + 1\<rparr>) bc, env)
      | None \<Rightarrow>
          let bc1 = bc_stat (\<lambda>s. s\<lparr>bcs_misses := bcs_misses s + 1\<rparr>) bc in
          if bc_currsz bc1 + bc_blksz bc1 > bc_maxsz bc1 then bc_evict blkno ops (bc1, env)
          else bc_alloc blkno ops (bc1, env))"

section \<open>The other operations\<close>

definition bc_dirty :: "nat \<Rightarrow> ('d, 'o, 'w) bc_state \<Rightarrow> ('d, 'o, 'w) bc_state" where
  "bc_dirty b st =
     (let (bc, env) = st in
      if \<not> bl_dirty (bc_blocks bc b)
      then (bc_upd b (\<lambda>x. x\<lparr>bl_dirty := True\<rparr>) bc\<lparr>bc_dl := b # bc_dl bc\<rparr>, env)
      else st)"

definition bc_release :: "nat \<Rightarrow> (('d, 'o, 'w) bc_state, unit) prog" where
  "bc_release b st =
     (let (bc, env) = st in
      if bl_refcnt (bc_blocks bc b) = 0 then Abort
      else
        let bc1 = bc_upd b (\<lambda>x. x\<lparr>bl_refcnt := bl_refcnt x - 1\<rparr>) bc in
        Done () (if bl_refcnt (bc_blocks bc1 b) = 0 then bc1\<lparr>bc_fl := bc_fl bc1 @ [b]\<rparr> else bc1, env))"

definition bc_cached :: "('d, 'o, 'w) bcache \<Rightarrow> nat list" where
  "bc_cached bc = concat (take (bc_nbuckets bc) (bc_ht bc))"

definition bc_iterate :: "('d, 'o, 'w) bcache \<Rightarrow> (('d, 'o, 'w) block, 'c) callback \<Rightarrow> ('c, unit) prog" where
  "bc_iterate bc callback c =
     (case iterate_list callback (map (bc_blocks bc) (bc_cached bc)) c of
        Abort \<Rightarrow> Abort
      | Fail e c' \<Rightarrow> Fail e c'
      | Done stop c' \<Rightarrow> Done () c')"

fun bc_flush_loop :: "nat list \<Rightarrow> (('d, 'o, 'w) bc_state, unit) prog" where
  "bc_flush_loop [] st = Done () st"
| "bc_flush_loop (b # bs) st =
     (if \<not> bl_dirty (bc_blocks (fst st) b) then Abort
      else case bc_write_out b st of
        Abort \<Rightarrow> Abort
      | Fail e st1 \<Rightarrow> Fail e st1
      | Done _ st1 \<Rightarrow> bc_flush_loop bs st1)"

definition bc_flush :: "(('d, 'o, 'w) bc_state, unit) prog" where
  "bc_flush st =
     (case bc_flush_loop (bc_dl (fst st)) st of
        Abort \<Rightarrow> Abort
      | Fail e st1 \<Rightarrow> Fail e st1
      | Done _ (bc, env) \<Rightarrow>
          (case env_fsync env of
             (Some e, env1) \<Rightarrow> Fail e (bc, env1)
           | (None, env1) \<Rightarrow> Done () (bc_stat (\<lambda>s. s\<lparr>bcs_flushes := bcs_flushes s + 1\<rparr>) bc, env1)))"

text \<open>Destroying: the objects in table order; a block still referenced stops the program.\<close>

fun bc_destroy_loop :: "('d, 'o, 'w) block list \<Rightarrow> 'w \<Rightarrow> 'w option" where
  "bc_destroy_loop [] w = Some w"
| "bc_destroy_loop (x # xs) w =
     (if bl_refcnt x = 0 then bc_destroy_loop xs (bco_destroy (bl_bco_ops x) (bl_bco x) w) else None)"

definition bc_destroy :: "('d, 'o, 'w) bcache \<Rightarrow> 'w \<Rightarrow> 'w option" where
  "bc_destroy bc w = bc_destroy_loop (map (bc_blocks bc) (bc_cached bc)) w"

definition bc_check_block :: "('d, 'o, 'w) bcache \<Rightarrow> nat \<Rightarrow> bool" where
  "bc_check_block bc b \<longleftrightarrow>
     (let x = bc_blocks bc b; ndirty = count_list (bc_dl bc) b; nfree = count_list (bc_fl bc) b in
      ndirty \<le> 1 \<and> nfree \<le> 1
      \<and> (nfree = 1 \<and> bl_refcnt x = 0 \<or> bl_refcnt x > 0)
      \<and> (ndirty = 1 \<and> bl_dirty x \<or> \<not> bl_dirty x)
      \<and> (case bco_check (bl_bco_ops x) of None \<Rightarrow> True | Some f \<Rightarrow> f (bl_bco x) (bl_phys x)))"

definition bc_check :: "('d, 'o, 'w) bcache \<Rightarrow> bool" where
  "bc_check bc \<longleftrightarrow> list_all (bc_check_block bc) (bc_cached bc)
     \<and> bc_currsz bc = of_nat (length (bc_cached bc)) * bc_blksz bc
     \<and> bc_currsz bc \<le> bc_maxsz bc"

end
