(* ===== verification/BcacheCorrect.thy ===== *)
theory BcacheCorrect
  imports Bcache "HOL-Library.Multiset"
begin

text \<open>
  Correctness of the block cache: the lists of the cache stay consistent, what a client reads
  through the cache is what was last stored under that number, a block that is referenced is
  never taken away, and a flush brings the file up to date.
\<close>

section \<open>The hash lists\<close>

definition ht_ok :: "nat list list \<Rightarrow> (nat \<Rightarrow> nat) \<Rightarrow> bool" where
  "ht_ok ht key \<longleftrightarrow> ht \<noteq> [] \<and> distinct (concat ht) \<and> inj_on key (set (concat ht))
     \<and> (\<forall>i<length ht. \<forall>b\<in>set (ht ! i). key b mod length ht = i)"

lemma in_buckets: "b \<in> set (concat ht) \<longleftrightarrow> (\<exists>i<length ht. b \<in> set (ht ! i))"
  by (simp add: set_conv_nth [of ht]) blast

lemma bucket_subset: "i < length ht \<Longrightarrow> set (ht ! i) \<subseteq> set (concat ht)"
  by (rule subsetI, subst in_buckets) blast

lemma ht_ok_bucket:
  assumes "ht_ok ht key" "b \<in> set (concat ht)" shows "b \<in> set (ht ! (key b mod length ht))"
proof -
  obtain i where "i < length ht" "b \<in> set (ht ! i)" using assms(2) unfolding in_buckets by blast
  with assms(1) show ?thesis by (auto simp: ht_ok_def)
qed

lemma ht_ok_index: "ht_ok ht key \<Longrightarrow> n mod length ht < length ht"
  by (simp add: ht_ok_def)

lemma find_unique:
  "b \<in> set xs \<Longrightarrow> \<forall>x\<in>set xs. key x = key b \<longrightarrow> x = b \<Longrightarrow> List.find (\<lambda>x. key x = key b) xs = Some b"
  by (induction xs) auto

lemma ht_find_Some:
  assumes "ht_ok ht key" "b \<in> set (concat ht)"
  shows "List.find (\<lambda>x. key x = key b) (ht ! (key b mod length ht)) = Some b"
proof -
  let ?xs = "ht ! (key b mod length ht)"
  have "set ?xs \<subseteq> set (concat ht)" by (rule bucket_subset [OF ht_ok_index [OF assms(1)]])
  then have "x = b" if "x \<in> set ?xs" "key x = key b" for x
    using assms that by (auto simp: ht_ok_def inj_on_def)
  moreover have "b \<in> set ?xs" by (rule ht_ok_bucket [OF assms])
  ultimately show ?thesis by (intro find_unique) auto
qed

lemma ht_find_None:
  assumes "ht_ok ht key" "n \<notin> key ` set (concat ht)"
  shows "List.find (\<lambda>x. key x = n) (ht ! (n mod length ht)) = None"
proof -
  have "set (ht ! (n mod length ht)) \<subseteq> set (concat ht)" by (rule bucket_subset [OF ht_ok_index [OF assms(1)]])
  with assms(2) show ?thesis by (auto simp: find_None_iff)
qed

lemma concat_add:
  "i < length ht \<Longrightarrow> mset (concat (ht[i := b # ht ! i])) = add_mset b (mset (concat ht))"
proof (induction ht arbitrary: i)
  case (Cons x ht)
  then show ?case by (cases i) auto
qed simp

lemma ht_ok_add:
  assumes ok: "ht_ok ht key" and b: "b \<notin> set (concat ht)" "key b \<notin> key ` set (concat ht)"
  defines "ht' \<equiv> ht[key b mod length ht := b # ht ! (key b mod length ht)]"
  shows "ht_ok ht' key" "set (concat ht') = insert b (set (concat ht))"
    "length (concat ht') = Suc (length (concat ht))" "length ht' = length ht"
proof -
  have i: "key b mod length ht < length ht" by (rule ht_ok_index [OF ok])
  note m = concat_add [OF i, of b]
  show s: "set (concat ht') = insert b (set (concat ht))"
    using arg_cong [OF m, of set_mset] by (simp add: ht'_def)
  show l: "length (concat ht') = Suc (length (concat ht))"
    using arg_cong [OF m, of size] by (simp add: ht'_def)
  show "length ht' = length ht" by (simp add: ht'_def)
  have "distinct (concat ht')"
    using m b(1) ok mset_eq_imp_distinct_iff [of "concat ht'" "b # concat ht"]
    by (simp add: ht'_def ht_ok_def)
  then show "ht_ok ht' key" using ok b(2) s
    by (auto simp: ht_ok_def ht'_def nth_list_update simp del: set_concat)
qed

lemma ht_ok_del:
  assumes ok: "ht_ok ht key"
  shows "ht_ok (map (remove1 b) ht) key" "set (concat (map (remove1 b) ht)) = set (concat ht) - {b}"
    "b \<in> set (concat ht) \<Longrightarrow> Suc (length (concat (map (remove1 b) ht))) = length (concat ht)"
proof -
  have del: "remove1 b xs = filter (\<lambda>x. x \<noteq> b) xs" if "distinct xs" for xs
    using that by (induction xs) (auto intro: filter_True [symmetric])
  have "distinct xs" if "xs \<in> set ht" for xs using ok that by (auto simp: ht_ok_def distinct_concat_iff)
  then have "map (remove1 b) ht = map (filter (\<lambda>x. x \<noteq> b)) ht" using del by simp
  then have eq: "concat (map (remove1 b) ht) = filter (\<lambda>x. x \<noteq> b) (concat ht)" by (simp only: filter_concat)
  show s: "set (concat (map (remove1 b) ht)) = set (concat ht) - {b}" unfolding eq by auto
  show "ht_ok (map (remove1 b) ht) key" unfolding ht_ok_def eq
  proof (intro conjI allI impI ballI)
    fix i c assume "i < length (map (remove1 b) ht)" "c \<in> set (map (remove1 b) ht ! i)"
    then have "i < length ht" "c \<in> set (ht ! i)" using notin_set_remove1 [of c "ht ! i" b] by auto
    then show "key c mod length (map (remove1 b) ht) = i" using ok by (simp add: ht_ok_def)
  qed (use ok in \<open>auto simp: ht_ok_def inj_on_def\<close>)
  have "remove1 b (concat ht) = concat (map (remove1 b) ht)"
    using ok unfolding eq by (simp add: ht_ok_def del)
  then show "b \<in> set (concat ht) \<Longrightarrow> Suc (length (concat (map (remove1 b) ht))) = length (concat ht)"
    using length_remove1 [of b "concat ht"] by (cases "concat ht") auto
qed

lemma ht_ok_cong:
  "ht_ok ht key \<Longrightarrow> (\<And>b. b \<in> set (concat ht) \<Longrightarrow> key' b = key b) \<Longrightarrow> ht_ok ht key'"
  unfolding ht_ok_def inj_on_def by (metis in_buckets)

section \<open>The invariant and the contents\<close>

definition bc_ids :: "('d, 'o, 'w) bcache \<Rightarrow> nat set" where
  "bc_ids bc = set (concat (bc_ht bc))"

definition bc_lists_ok :: "('d, 'o, 'w) bcache \<Rightarrow> bool" where
  "bc_lists_ok bc \<longleftrightarrow> ht_ok (bc_ht bc) (\<lambda>b. bl_blkno (bc_blocks bc b)) \<and> length (bc_ht bc) = bc_nbuckets bc
     \<and> (\<forall>b\<in>bc_ids bc. b < bc_next bc \<and> bl_bco (bc_blocks bc b) \<noteq> None)
     \<and> distinct (bc_fl bc) \<and> set (bc_fl bc) = {b \<in> bc_ids bc. bl_refcnt (bc_blocks bc b) = 0}
     \<and> distinct (bc_dl bc) \<and> set (bc_dl bc) = {b \<in> bc_ids bc. bl_dirty (bc_blocks bc b)}
     \<and> unat (bc_currsz bc) = length (concat (bc_ht bc)) * unat (bc_blksz bc) \<and> bc_currsz bc \<le> bc_maxsz bc"

text \<open>
  A block that is not dirty holds what the file holds. Blocks of \<open>U\<close> that a client holds are exempt:
  the client has written to them and not marked them dirty yet.
\<close>

definition bc_clean :: "nat set \<Rightarrow> ('d, 'o, 'w) bcache \<Rightarrow> (nat \<Rightarrow> 'd) \<Rightarrow> bool" where
  "bc_clean U bc disk \<longleftrightarrow>
     (\<forall>b\<in>bc_ids bc. \<not> bl_dirty (bc_blocks bc b) \<longrightarrow>
        b \<in> U \<and> bl_refcnt (bc_blocks bc b) > 0 \<or> bl_phys (bc_blocks bc b) = disk (bl_blkno (bc_blocks bc b)))"

text \<open>How often a block is held; a block that is not cached is not held.\<close>

definition bc_refs :: "('d, 'o, 'w) bcache \<Rightarrow> nat \<Rightarrow> nat" where
  "bc_refs bc b = (if b \<in> bc_ids bc then bl_refcnt (bc_blocks bc b) else 0)"

text \<open>What the cache and the file together hold: the cached contents where there are any.\<close>

definition bc_view :: "('d, 'o, 'w) bcache \<Rightarrow> (nat \<Rightarrow> 'd) \<Rightarrow> nat \<Rightarrow> 'd" where
  "bc_view bc disk n =
     (case List.find (\<lambda>b. bl_blkno (bc_blocks bc b) = n) (concat (bc_ht bc)) of
        Some b \<Rightarrow> bl_phys (bc_blocks bc b)
      | None \<Rightarrow> disk n)"

lemma bc_upd_fields [simp]:
  "bc_ht (bc_upd b f bc) = bc_ht bc" "bc_dl (bc_upd b f bc) = bc_dl bc" "bc_fl (bc_upd b f bc) = bc_fl bc"
  "bc_blksz (bc_upd b f bc) = bc_blksz bc" "bc_currsz (bc_upd b f bc) = bc_currsz bc"
  "bc_maxsz (bc_upd b f bc) = bc_maxsz bc" "bc_next (bc_upd b f bc) = bc_next bc"
  "bc_blocks (bc_upd b f bc) = (bc_blocks bc)(b := f (bc_blocks bc b))"
  "bc_ids (bc_upd b f bc) = bc_ids bc" "bc_nbuckets (bc_upd b f bc) = bc_nbuckets bc"
  by (simp_all add: bc_upd_def bc_ids_def bc_nbuckets_def)

lemma bc_stat_fields [simp]:
  "bc_ht (bc_stat f bc) = bc_ht bc" "bc_dl (bc_stat f bc) = bc_dl bc" "bc_fl (bc_stat f bc) = bc_fl bc"
  "bc_blksz (bc_stat f bc) = bc_blksz bc" "bc_currsz (bc_stat f bc) = bc_currsz bc"
  "bc_maxsz (bc_stat f bc) = bc_maxsz bc" "bc_next (bc_stat f bc) = bc_next bc"
  "bc_blocks (bc_stat f bc) = bc_blocks bc" "bc_ids (bc_stat f bc) = bc_ids bc"
  "bc_nbuckets (bc_stat f bc) = bc_nbuckets bc"
  by (simp_all add: bc_stat_def bc_ids_def bc_nbuckets_def)

lemma bc_update_fields [simp]:
  "bc_ids (bc\<lparr>bc_dl := l\<rparr>) = bc_ids bc" "bc_ids (bc\<lparr>bc_fl := l\<rparr>) = bc_ids bc"
  "bc_nbuckets (bc\<lparr>bc_dl := l\<rparr>) = bc_nbuckets bc" "bc_nbuckets (bc\<lparr>bc_fl := l\<rparr>) = bc_nbuckets bc"
  "bc_nbuckets (bc\<lparr>bc_ht := h\<rparr>) = bc_nbuckets bc" "bc_ids (bc\<lparr>bc_ht := h\<rparr>) = set (concat h)"
  by (simp_all add: bc_ids_def bc_nbuckets_def)

lemma bc_lists_okD:
  assumes "bc_lists_ok bc"
  shows "ht_ok (bc_ht bc) (\<lambda>b. bl_blkno (bc_blocks bc b))" "length (bc_ht bc) = bc_nbuckets bc"
    "\<And>b. b \<in> bc_ids bc \<Longrightarrow> b < bc_next bc" "\<And>b. b \<in> bc_ids bc \<Longrightarrow> bl_bco (bc_blocks bc b) \<noteq> None"
    "distinct (bc_fl bc)" "set (bc_fl bc) = {b \<in> bc_ids bc. bl_refcnt (bc_blocks bc b) = 0}"
    "distinct (bc_dl bc)" "set (bc_dl bc) = {b \<in> bc_ids bc. bl_dirty (bc_blocks bc b)}"
    "unat (bc_currsz bc) = length (concat (bc_ht bc)) * unat (bc_blksz bc)" "bc_currsz bc \<le> bc_maxsz bc"
    "inj_on (\<lambda>b. bl_blkno (bc_blocks bc b)) (bc_ids bc)"
proof -
  show ht: "ht_ok (bc_ht bc) (\<lambda>b. bl_blkno (bc_blocks bc b))" using assms by (simp add: bc_lists_ok_def)
  then show "inj_on (\<lambda>b. bl_blkno (bc_blocks bc b)) (bc_ids bc)" by (simp add: ht_ok_def bc_ids_def)
qed (use assms in \<open>simp_all add: bc_lists_ok_def\<close>)

text \<open>A change that leaves the hash lists, the numbers and the objects alone.\<close>

lemma bc_lists_ok_update:
  assumes "bc_lists_ok bc" "bc_ht bc' = bc_ht bc" "bc_maxsz bc' = bc_maxsz bc" "bc_blksz bc' = bc_blksz bc"
    "bc_currsz bc' = bc_currsz bc" "bc_next bc' = bc_next bc"
    and key: "\<And>x. bl_blkno (bc_blocks bc' x) = bl_blkno (bc_blocks bc x)"
    and "\<And>x. bl_bco (bc_blocks bc' x) = bl_bco (bc_blocks bc x)"
    and "distinct (bc_fl bc')" "set (bc_fl bc') = {b \<in> bc_ids bc. bl_refcnt (bc_blocks bc' b) = 0}"
    and "distinct (bc_dl bc')" "set (bc_dl bc') = {b \<in> bc_ids bc. bl_dirty (bc_blocks bc' b)}"
  shows "bc_lists_ok bc'"
proof -
  have ids: "bc_ids bc' = bc_ids bc" by (simp add: bc_ids_def assms(2))
  show ?thesis using assms unfolding bc_lists_ok_def ids by (simp add: bc_nbuckets_def)
qed

lemma bc_view_in:
  assumes "bc_lists_ok bc" "b \<in> bc_ids bc" "bl_blkno (bc_blocks bc b) = n"
  shows "bc_view bc disk n = bl_phys (bc_blocks bc b)"
proof -
  have "List.find (\<lambda>x. bl_blkno (bc_blocks bc x) = bl_blkno (bc_blocks bc b)) (concat (bc_ht bc)) = Some b"
    by (rule find_unique)
      (use assms(2) bc_lists_okD(11) [OF assms(1)] in \<open>auto simp: bc_ids_def inj_on_def simp del: set_concat\<close>)
  with assms(3) show ?thesis by (simp add: bc_view_def)
qed

lemma bc_view_out:
  assumes "n \<notin> (\<lambda>b. bl_blkno (bc_blocks bc b)) ` bc_ids bc"
  shows "bc_view bc disk n = disk n"
  using assms unfolding bc_view_def bc_ids_def
  by (auto simp: find_None_iff find_Some_iff split: option.split simp del: set_concat)

lemma bc_view_same:
  assumes "bc_ht bc' = bc_ht bc" "\<And>x. bl_blkno (bc_blocks bc' x) = bl_blkno (bc_blocks bc x)"
    and "\<And>b. b \<in> bc_ids bc \<Longrightarrow> bl_phys (bc_blocks bc' b) = bl_phys (bc_blocks bc b)"
    and "\<And>n. n \<notin> (\<lambda>b. bl_blkno (bc_blocks bc b)) ` bc_ids bc \<Longrightarrow> disk' n = disk n"
  shows "bc_view bc' disk' = bc_view bc disk"
proof
  fix n
  let ?f = "List.find (\<lambda>b. bl_blkno (bc_blocks bc b) = n) (concat (bc_ht bc))"
  have f: "List.find (\<lambda>b. bl_blkno (bc_blocks bc' b) = n) (concat (bc_ht bc')) = ?f"
    by (simp add: assms(1,2))
  show "bc_view bc' disk' n = bc_view bc disk n"
  proof (cases ?f)
    case None
    then have "n \<notin> (\<lambda>b. bl_blkno (bc_blocks bc b)) ` bc_ids bc"
      by (auto simp: find_None_iff bc_ids_def simp del: set_concat)
    with assms(4) None f show ?thesis by (simp add: bc_view_def)
  next
    case (Some b)
    then have "b \<in> set (concat (bc_ht bc))" by (auto simp: find_Some_iff simp del: set_concat)
    with assms(3) [of b] Some f show ?thesis by (simp add: bc_view_def bc_ids_def)
  qed
qed

lemma bc_view_eqI:
  assumes "bc_lists_ok bc" "\<And>b. b \<in> bc_ids bc \<Longrightarrow> f (bl_blkno (bc_blocks bc b)) = bl_phys (bc_blocks bc b)"
    and "\<And>n. n \<notin> (\<lambda>b. bl_blkno (bc_blocks bc b)) ` bc_ids bc \<Longrightarrow> f n = disk n"
  shows "bc_view bc disk = f"
proof
  fix n show "bc_view bc disk n = f n"
  proof (cases "n \<in> (\<lambda>b. bl_blkno (bc_blocks bc b)) ` bc_ids bc")
    case True
    then obtain b where "b \<in> bc_ids bc" "bl_blkno (bc_blocks bc b) = n" by blast
    with assms(1,2) bc_view_in show ?thesis by metis
  next
    case False
    with bc_view_out assms(3) show ?thesis by metis
  qed
qed

text \<open>A change of the cache that leaves numbers, contents and dirty marks alone.\<close>

lemma bc_same_data:
  assumes "bc_ht bc' = bc_ht bc"
    and "\<And>b. bl_blkno (bc_blocks bc' b) = bl_blkno (bc_blocks bc b)
      \<and> bl_phys (bc_blocks bc' b) = bl_phys (bc_blocks bc b)"
    and "\<And>b. bl_dirty (bc_blocks bc b) \<Longrightarrow> bl_dirty (bc_blocks bc' b)"
    and "\<And>b. bl_refcnt (bc_blocks bc b) \<le> bl_refcnt (bc_blocks bc' b)"
  shows "bc_view bc' disk = bc_view bc disk" "bc_clean U bc disk \<Longrightarrow> bc_clean U bc' disk" "bc_ids bc' = bc_ids bc"
proof -
  show ids: "bc_ids bc' = bc_ids bc" using assms(1) by (simp add: bc_ids_def)
  show "bc_view bc' disk = bc_view bc disk" using assms(1,2) unfolding bc_view_def by (auto split: option.split)
  assume c: "bc_clean U bc disk"
  show "bc_clean U bc' disk"
    unfolding bc_clean_def ids
  proof (intro ballI impI)
    fix b assume b: "b \<in> bc_ids bc" "\<not> bl_dirty (bc_blocks bc' b)"
    with c assms(3) have "b \<in> U \<and> bl_refcnt (bc_blocks bc b) > 0 \<or> bl_phys (bc_blocks bc b) = disk (bl_blkno (bc_blocks bc b))"
      unfolding bc_clean_def by blast
    with assms(2) [of b] assms(4) [of b]
    show "b \<in> U \<and> bl_refcnt (bc_blocks bc' b) > 0 \<or> bl_phys (bc_blocks bc' b) = disk (bl_blkno (bc_blocks bc' b))"
      by auto
  qed
qed

section \<open>What the operations do\<close>

text \<open>Blocks a client holds stay where they are, with the same number, contents and object.\<close>

definition bc_kept :: "('d, 'o, 'w) bcache \<Rightarrow> ('d, 'o, 'w) bcache \<Rightarrow> bool" where
  "bc_kept bc bc' \<longleftrightarrow> (\<forall>x\<in>bc_ids bc. bl_refcnt (bc_blocks bc x) > 0 \<longrightarrow>
     x \<in> bc_ids bc' \<and> (\<exists>r\<ge>bl_refcnt (bc_blocks bc x). \<exists>d.
        bc_blocks bc' x = (bc_blocks bc x)\<lparr>bl_refcnt := r, bl_dirty := d\<rparr>))"

definition got :: "nat \<Rightarrow> nat \<Rightarrow> 'o option \<Rightarrow> ('d, 'o, 'w) bcache \<Rightarrow> bool" where
  "got n b bco bc \<longleftrightarrow> b \<in> bc_ids bc \<and> bl_blkno (bc_blocks bc b) = n \<and> bl_bco (bc_blocks bc b) = bco
     \<and> bco \<noteq> None \<and> bl_refcnt (bc_blocks bc b) > 0"

lemma bc_found_correct:
  assumes ok: "bc_lists_ok bc" and b: "b \<in> bc_ids bc"
  shows "\<exists>bco bc'. bc_found b (bc, env) = Done (b, bco) (bc', env) \<and> bc_lists_ok bc'
    \<and> (\<forall>disk. bc_view bc' disk = bc_view bc disk \<and> (bc_clean U bc disk \<longrightarrow> bc_clean U bc' disk))
    \<and> got (bl_blkno (bc_blocks bc b)) b bco bc' \<and> bc_ids bc' = bc_ids bc
    \<and> bc_maxsz bc' = bc_maxsz bc \<and> bc_blksz bc' = bc_blksz bc
    \<and> (\<forall>x. bc_blocks bc' x = (bc_blocks bc x)\<lparr>bl_refcnt := bl_refcnt (bc_blocks bc x) + (if x = b then 1 else 0)\<rparr>)"
proof -
  let ?bc1 = "if bl_refcnt (bc_blocks bc b) = 0 then bc\<lparr>bc_fl := remove1 b (bc_fl bc)\<rparr> else bc"
  let ?bc2 = "bc_upd b (\<lambda>x. x\<lparr>bl_refcnt := bl_refcnt x + 1\<rparr>) ?bc1"
  note D = bc_lists_okD [OF ok]
  have ids: "bc_ids ?bc2 = bc_ids bc" by (simp add: bc_ids_def)
  have "bc_lists_ok ?bc2"
    by (rule bc_lists_ok_update [OF ok]) (use D(5-8) b in \<open>auto simp: set_remove1_eq\<close>)
  moreover have "bc_view ?bc2 disk = bc_view bc disk" "bc_clean U bc disk \<Longrightarrow> bc_clean U ?bc2 disk" for disk
    by (rule bc_same_data; auto)+
  moreover have "got (bl_blkno (bc_blocks bc b)) b (bl_bco (bc_blocks bc b)) ?bc2"
    using b D(4) [OF b] by (simp add: got_def ids)
  ultimately show ?thesis using ids
    by (intro exI [of _ "bl_bco (bc_blocks bc b)"] exI [of _ ?bc2]) (auto simp: bc_found_def Let_def)
qed

lemma bc_write_out_correct:
  assumes ok: "bc_lists_ok bc" and b: "b \<in> bc_ids bc" "bl_dirty (bc_blocks bc b)"
  shows "\<exists>bc' env'. bc_lists_ok bc' \<and> bc_view bc' (env_disk env') = bc_view bc (env_disk env)
    \<and> (bc_clean U bc (env_disk env) \<longrightarrow> bc_clean U bc' (env_disk env')) \<and> bc_ht bc' = bc_ht bc
    \<and> (bc_write_out b (bc, env) = Fail EIO (bc', env') \<and> bc' = bc
       \<or> bc_write_out b (bc, env) = Done () (bc', env') \<and> bc_dl bc' = remove1 b (bc_dl bc)
           \<and> bc_fl bc' = bc_fl bc \<and> bc_maxsz bc' = bc_maxsz bc \<and> bc_blksz bc' = bc_blksz bc
           \<and> bc_currsz bc' = bc_currsz bc
           \<and> (\<forall>x. bc_blocks bc' x = (if x = b then (bc_blocks bc x)\<lparr>bl_dirty := False\<rparr> else bc_blocks bc x)))"
proof -
  note D = bc_lists_okD [OF ok]
  let ?n = "bl_blkno (bc_blocks bc b)"
  have other: "bl_blkno (bc_blocks bc x) \<noteq> ?n" if "x \<in> bc_ids bc" "x \<noteq> b" for x
    using D(11) b(1) that by (auto simp: inj_on_def)
  show ?thesis
  proof (cases "io_next (env_io env)")
    case (Pair r rest)
    show ?thesis
    proof (cases r)
      case (IoErr d e)
      let ?env = "env\<lparr>env_io := rest, env_disk := (env_disk env)(?n := d)\<rparr>"
      have "bc_view bc ((env_disk env)(?n := d)) = bc_view bc (env_disk env)"
        by (rule bc_view_same) (use b(1) in auto)
      moreover have "bc_clean U bc ((env_disk env)(?n := d))" if "bc_clean U bc (env_disk env)"
        using that other b(2) unfolding bc_clean_def by fastforce
      moreover have "bc_write_out b (bc, env) = Fail EIO (bc, ?env)"
        using Pair IoErr by (simp add: bc_write_out_def env_pwrite_def Let_def)
      ultimately show ?thesis using ok by (intro exI [of _ bc] exI [of _ ?env]) simp
    next
      case IoOk
      let ?disk = "(env_disk env)(?n := bl_phys (bc_blocks bc b))"
      let ?env = "env\<lparr>env_io := rest, env_disk := ?disk\<rparr>"
      let ?bc = "bc_stat (\<lambda>s. s\<lparr>bcs_writes := bcs_writes s + 1\<rparr>)
                     (bc_upd b (\<lambda>x. x\<lparr>bl_dirty := False\<rparr>) bc)\<lparr>bc_dl := remove1 b (bc_dl bc)\<rparr>"
      have ids: "bc_ids ?bc = bc_ids bc" by (simp add: bc_ids_def)
      have ok': "bc_lists_ok ?bc"
        by (rule bc_lists_ok_update [OF ok]) (use D(5-8) b in \<open>auto simp: set_remove1_eq\<close>)
      moreover have "bc_view ?bc ?disk = bc_view bc (env_disk env)"
        by (rule bc_view_same) (use b(1) in auto)
      moreover have "bc_clean U ?bc ?disk" if "bc_clean U bc (env_disk env)"
        using that other unfolding bc_clean_def ids by auto
      moreover have "bc_write_out b (bc, env) = Done () (?bc, ?env)"
        using Pair IoOk by (simp add: bc_write_out_def env_pwrite_def Let_def)
      ultimately show ?thesis by (intro exI [of _ ?bc] exI [of _ ?env]) auto
    qed
  qed
qed

lemma env_pread_disk: "env_pread n env = (ok, d, env') \<Longrightarrow> env_disk env' = env_disk env \<and> (ok \<longrightarrow> d = env_disk env n)"
  by (auto simp: env_pread_def split: prod.splits io.splits)

lemma env_init_disk:
  "env_init f env = Done bco env' \<Longrightarrow> env_disk env' = env_disk env"
  "env_init f env = Fail e env' \<Longrightarrow> env_disk env' = env_disk env"
  by (auto simp: env_init_def split: outcome.splits prod.splits)

lemma bc_keptI:
  assumes "\<And>x. x \<in> bc_ids bc \<Longrightarrow> bl_refcnt (bc_blocks bc x) > 0 \<Longrightarrow> x \<in> bc_ids bc1 \<and> bc_blocks bc1 x = bc_blocks bc x"
    and "\<And>x. bc_blocks bc2 x = (bc_blocks bc1 x)\<lparr>bl_refcnt := bl_refcnt (bc_blocks bc1 x) + r x\<rparr>"
    and "bc_ids bc2 = bc_ids bc1"
  shows "bc_kept bc bc2"
  unfolding bc_kept_def
proof (intro ballI impI)
  fix x assume x: "x \<in> bc_ids bc" "bl_refcnt (bc_blocks bc x) > 0"
  note y = assms(1) [OF x]
  have "bc_blocks bc2 x = (bc_blocks bc x)\<lparr>bl_refcnt := bl_refcnt (bc_blocks bc x) + r x, bl_dirty := bl_dirty (bc_blocks bc x)\<rparr>"
    using y assms(2) [of x] by simp
  with y assms(3) show "x \<in> bc_ids bc2 \<and> (\<exists>r\<ge>bl_refcnt (bc_blocks bc x). \<exists>d.
      bc_blocks bc2 x = (bc_blocks bc x)\<lparr>bl_refcnt := r, bl_dirty := d\<rparr>)"
    using le_add1 by blast
qed

text \<open>The parts of the success of \<^verbatim>\<open>bc_get\<close>: the new cache shows the old contents.\<close>

definition get_post :: "nat set \<Rightarrow> nat \<Rightarrow> nat \<Rightarrow> 'o option \<Rightarrow> ('d, 'o, 'w) bc_state \<Rightarrow> ('d, 'o, 'w) bc_state \<Rightarrow> bool" where
  "get_post U n b bco st st' \<longleftrightarrow>
     bc_lists_ok (fst st') \<and> bc_clean U (fst st') (env_disk (snd st'))
     \<and> bc_view (fst st') (env_disk (snd st')) = bc_view (fst st) (env_disk (snd st))
     \<and> got n b bco (fst st') \<and> bc_kept (fst st) (fst st')
     \<and> bc_refs (fst st') = (bc_refs (fst st))(b := bc_refs (fst st) b + 1)
     \<and> bc_maxsz (fst st') = bc_maxsz (fst st) \<and> bc_blksz (fst st') = bc_blksz (fst st)"

lemma bc_found_post:
  assumes ok: "bc_lists_ok bc1" "bc_clean U bc1 (env_disk env1)" "b \<in> bc_ids bc1" "bl_blkno (bc_blocks bc1 b) = n"
    and view: "bc_view bc1 (env_disk env1) = bc_view bc (env_disk env)"
    and kept: "\<And>x. x \<in> bc_ids bc \<Longrightarrow> bl_refcnt (bc_blocks bc x) > 0 \<Longrightarrow> x \<in> bc_ids bc1 \<and> bc_blocks bc1 x = bc_blocks bc x"
    and sizes: "bc_maxsz bc1 = bc_maxsz bc" "bc_blksz bc1 = bc_blksz bc" and refs: "bc_refs bc1 = bc_refs bc"
  shows "\<exists>bco bc'. bc_found b (bc1, env1) = Done (b, bco) (bc', env1) \<and> get_post U n b bco (bc, env) (bc', env1)"
proof -
  from bc_found_correct [OF ok(1,3), of env1] obtain bco bc' where
    f: "bc_found b (bc1, env1) = Done (b, bco) (bc', env1)" "bc_lists_ok bc'"
      "\<forall>disk. bc_view bc' disk = bc_view bc1 disk \<and> (bc_clean U bc1 disk \<longrightarrow> bc_clean U bc' disk)"
      "got n b bco bc'" "bc_ids bc' = bc_ids bc1" "bc_maxsz bc' = bc_maxsz bc1" "bc_blksz bc' = bc_blksz bc1"
      "\<forall>x. bc_blocks bc' x = (bc_blocks bc1 x)\<lparr>bl_refcnt := bl_refcnt (bc_blocks bc1 x) + (if x = b then 1 else 0)\<rparr>"
    unfolding ok(4) by blast
  have "bc_kept bc bc'" by (rule bc_keptI [where r = "\<lambda>x. if x = b then 1 else 0", OF kept]) (use f in auto)
  moreover have "bc_refs bc' = (bc_refs bc)(b := bc_refs bc b + 1)"
    unfolding refs [symmetric] using f(5,8) ok(3) by (auto simp: bc_refs_def)
  ultimately show ?thesis using f ok(2) view sizes
    by (intro exI [of _ bco] exI [of _ bc']) (simp add: get_post_def)
qed

lemma bc_reuse_post:
  assumes ok: "bc_lists_ok bc" "bc_clean U bc (env_disk env)"
    and b: "b \<in> bc_ids bc" "bl_refcnt (bc_blocks bc b) = 0" "\<not> bl_dirty (bc_blocks bc b)"
    and n: "n \<notin> (\<lambda>x. bl_blkno (bc_blocks bc x)) ` bc_ids bc"
    and run: "bc_reuse n ops b (bc, env) = Done (b', bco) st'"
  shows "b' = b \<and> get_post U n b bco (bc, env) st'"
proof -
  note D = bc_lists_okD [OF ok(1)]
  let ?d = "env_disk env n"
  obtain okr d env1 where p: "env_pread n env = (okr, d, env1)" by (cases "env_pread n env") auto
  have okr: okr using run p by (cases okr) (simp_all add: bc_reuse_def)
  then have d: "d = ?d" using env_pread_disk [OF p] by simp
  let ?x = "(bc_blocks bc b)\<lparr>bl_phys := ?d\<rparr>"
  define env2 where "env2 = env1\<lparr>env_world := bco_destroy (bl_bco_ops ?x) (bl_bco ?x) (env_world env1)\<rparr>"
  obtain bco' env3 where i: "env_init (bco_init ops b n ?d) env2 = Done bco' env3"
    using run p okr d
    by (cases "env_init (bco_init ops b n ?d) env2") (simp_all add: bc_reuse_def Let_def env2_def)
  have f: "bc_found b (bc_upd b (\<lambda>x. x\<lparr>bl_bco := Some bco'\<rparr>)
          (bc_upd b (\<lambda>x. x\<lparr>bl_blkno := n, bl_bco := None, bl_bco_ops := ops\<rparr>)
            (bc_upd b (\<lambda>x. x\<lparr>bl_phys := ?d\<rparr>) bc))
          \<lparr>bc_ht := (map (remove1 b) (bc_ht bc))[n mod bc_nbuckets bc := b # map (remove1 b) (bc_ht bc) ! (n mod bc_nbuckets bc)]\<rparr>, env3)
        = Done (b', bco) st'"
    using run p okr d i by (simp add: bc_reuse_def Let_def env2_def)
  define bc4 where "bc4 = bc_upd b (\<lambda>x. x\<lparr>bl_bco := Some bco'\<rparr>)
          (bc_upd b (\<lambda>x. x\<lparr>bl_blkno := n, bl_bco := None, bl_bco_ops := ops\<rparr>)
            (bc_upd b (\<lambda>x. x\<lparr>bl_phys := ?d\<rparr>) bc))
          \<lparr>bc_ht := (map (remove1 b) (bc_ht bc))[n mod bc_nbuckets bc := b # map (remove1 b) (bc_ht bc) ! (n mod bc_nbuckets bc)]\<rparr>"
  have disk: "env_disk env3 = env_disk env"
    using env_init_disk(1) [OF i] env_pread_disk [OF p] by (simp add: env2_def)
  let ?key = "\<lambda>x. bl_blkno (bc_blocks bc4 x)" and ?ht1 = "map (remove1 b) (bc_ht bc)"
  have key: "?key x = (if x = b then n else bl_blkno (bc_blocks bc x))" for x by (simp add: bc4_def)
  note del = ht_ok_del [OF D(1), of b]
  have ok1: "ht_ok ?ht1 ?key" by (rule ht_ok_cong [OF del(1)]) (use del(2) key in auto)
  have fresh: "b \<notin> set (concat ?ht1)" "?key b \<notin> ?key ` set (concat ?ht1)"
    unfolding del(2) using n key by (auto simp: bc_ids_def simp del: set_concat)
  note add = ht_ok_add [OF ok1 fresh]
  have ht4: "bc_ht bc4 = ?ht1[?key b mod length ?ht1 := b # ?ht1 ! (?key b mod length ?ht1)]"
    by (simp add: bc4_def D(2))
  have ids: "bc_ids bc4 = bc_ids bc"
    using add(2) del(2) b(1) unfolding ht4 bc_ids_def by auto
  have len: "length (concat (bc_ht bc4)) = length (concat (bc_ht bc))"
    using add(3) del(3) b(1) unfolding ht4 bc_ids_def by simp
  have ok4: "bc_lists_ok bc4"
    unfolding bc_lists_ok_def ids len
  proof (intro conjI)
    show "ht_ok (bc_ht bc4) ?key" unfolding ht4 by (rule add(1))
  qed (use D ht4 b in \<open>auto simp: bc4_def bc_nbuckets_def bc_upd_def\<close>)
  have view: "bc_view bc4 (env_disk env3) = bc_view bc (env_disk env)"
    unfolding disk
  proof (rule bc_view_eqI [OF ok4], unfold ids)
    fix x assume "x \<in> bc_ids bc"
    then show "bc_view bc (env_disk env) (?key x) = bl_phys (bc_blocks bc4 x)"
      using bc_view_in [OF ok(1)] bc_view_out [OF n] by (auto simp: bc4_def)
  next
    fix k assume k: "k \<notin> ?key ` bc_ids bc"
    show "bc_view bc (env_disk env) k = env_disk env k"
    proof (cases "k = bl_blkno (bc_blocks bc b)")
      case True
      with bc_view_in [OF ok(1) b(1)] ok(2) b show ?thesis by (auto simp: bc_clean_def)
    next
      case False
      with k key have "k \<notin> (\<lambda>x. bl_blkno (bc_blocks bc x)) ` bc_ids bc" by (auto simp: image_iff split: if_splits)
      then show ?thesis by (rule bc_view_out)
    qed
  qed
  have clean: "bc_clean U bc4 (env_disk env3)"
    using ok(2) unfolding bc_clean_def ids disk by (auto simp: bc4_def)
  have "\<exists>bco bc'. bc_found b (bc4, env3) = Done (b, bco) (bc', env3) \<and> get_post U n b bco (bc, env) (bc', env3)"
    by (rule bc_found_post [OF ok4 clean _ _ view]) (use b ids in \<open>auto simp: bc4_def bc_refs_def\<close>)
  with f show ?thesis unfolding bc4_def [symmetric] by auto
qed

lemma bc_alloc_post:
  assumes ok: "bc_lists_ok bc" "bc_clean U bc (env_disk env)"
    and n: "n \<notin> (\<lambda>x. bl_blkno (bc_blocks bc x)) ` bc_ids bc"
    and room: "bc_currsz bc + bc_blksz bc \<le> bc_maxsz bc" "unat (bc_maxsz bc) + unat (bc_blksz bc) < 2 ^ 32"
    and run: "bc_alloc n ops (bc, env) = Done (b', bco) st'"
  shows "get_post U n b' bco (bc, env) st'"
proof -
  note D = bc_lists_okD [OF ok(1)]
  let ?d = "env_disk env n" and ?b = "bc_next bc"
  obtain ok1 m1 where m1: "malloc (env_mem env) = (ok1, m1)" by (cases "malloc (env_mem env)") auto
  obtain ok2 m2 where m2: "malloc m1 = (ok2, m2)" by (cases "malloc m1") auto
  obtain ok3 m3 where m3: "malloc m2 = (ok3, m3)" by (cases "malloc m2") auto
  obtain ok4 m4 where m4: "malloc m3 = (ok4, m4)" by (cases "malloc m3") auto
  obtain okr d env1 where p: "env_pread n (env\<lparr>env_mem := m4\<rparr>) = (okr, d, env1)"
    by (cases "env_pread n (env\<lparr>env_mem := m4\<rparr>)") auto
  have oks: "ok1" "ok2" "ok3" "ok4" "okr"
    using run m1 m2 m3 m4 p by (simp_all add: bc_alloc_def Let_def split: if_splits)
  have d: "d = ?d" using env_pread_disk [OF p] oks(5) by simp
  obtain bco' env2 where i: "env_init (bco_init ops ?b n ?d) env1 = Done bco' env2"
    using run m1 m2 m3 m4 p oks d
    by (cases "env_init (bco_init ops ?b n ?d) env1") (simp_all add: bc_alloc_def Let_def)
  have f: "bc_found ?b (bc\<lparr>bc_blocks := (bc_blocks bc)(?b := \<lparr>bl_blkno = n, bl_refcnt = 0, bl_dirty = False,
             bl_bco = Some bco', bl_bco_ops = ops, bl_phys = ?d\<rparr>), bc_next := ?b + 1,
             bc_ht := (bc_ht bc)[n mod bc_nbuckets bc := ?b # bc_ht bc ! (n mod bc_nbuckets bc)], bc_fl := bc_fl bc @ [?b],
             bc_currsz := bc_currsz bc + bc_blksz bc\<rparr>, env2) = Done (b', bco) st'"
    using run m1 m2 m3 m4 p oks d i by (simp add: bc_alloc_def Let_def)
  define bc1 where "bc1 = bc\<lparr>bc_blocks := (bc_blocks bc)(?b := \<lparr>bl_blkno = n, bl_refcnt = 0, bl_dirty = False,
             bl_bco = Some bco', bl_bco_ops = ops, bl_phys = ?d\<rparr>), bc_next := ?b + 1,
             bc_ht := (bc_ht bc)[n mod bc_nbuckets bc := ?b # bc_ht bc ! (n mod bc_nbuckets bc)], bc_fl := bc_fl bc @ [?b],
             bc_currsz := bc_currsz bc + bc_blksz bc\<rparr>"
  have disk: "env_disk env2 = env_disk env"
    using env_init_disk(1) [OF i] env_pread_disk [OF p] by simp
  let ?key = "\<lambda>x. bl_blkno (bc_blocks bc1 x)"
  have fresh: "?b \<notin> bc_ids bc" using D(3) by blast
  have key: "?key x = (if x = ?b then n else bl_blkno (bc_blocks bc x))" for x by (simp add: bc1_def)
  have ok1: "ht_ok (bc_ht bc) ?key" by (rule ht_ok_cong [OF D(1)]) (use fresh key in \<open>auto simp: bc_ids_def\<close>)
  have new: "?b \<notin> set (concat (bc_ht bc))" "?key ?b \<notin> ?key ` set (concat (bc_ht bc))"
    using n fresh key by (auto simp: bc_ids_def simp del: set_concat)
  note add = ht_ok_add [OF ok1 new]
  have ht: "bc_ht bc1 = (bc_ht bc)[?key ?b mod length (bc_ht bc) := ?b # bc_ht bc ! (?key ?b mod length (bc_ht bc))]"
    by (simp add: bc1_def D(2))
  have ids: "bc_ids bc1 = insert ?b (bc_ids bc)" using add(2) unfolding ht bc_ids_def by simp
  have len: "length (concat (bc_ht bc1)) = Suc (length (concat (bc_ht bc)))" using add(3) unfolding ht by simp
  have size: "unat (bc_currsz bc + bc_blksz bc) = unat (bc_currsz bc) + unat (bc_blksz bc)"
    using room(2) D(10) by (simp add: unat_word_ariths word_le_nat_alt)
  have fl: "?b \<notin> set (bc_fl bc)" using fresh D(6) by blast
  have ok': "bc_lists_ok bc1"
    unfolding bc_lists_ok_def ids len
  proof (intro conjI)
    show "ht_ok (bc_ht bc1) ?key" unfolding ht by (rule add(1))
    show "unat (bc_currsz bc1) = Suc (length (concat (bc_ht bc))) * unat (bc_blksz bc1)"
      using size D(9) by (simp add: bc1_def)
    show "set (bc_fl bc1) = {b \<in> insert ?b (bc_ids bc). bl_refcnt (bc_blocks bc1 b) = 0}"
      using D(6) fresh by (auto simp: bc1_def)
    show "set (bc_dl bc1) = {b \<in> insert ?b (bc_ids bc). bl_dirty (bc_blocks bc1 b)}"
      using D(8) fresh by (auto simp: bc1_def)
    show "\<forall>b\<in>insert ?b (bc_ids bc). b < bc_next bc1 \<and> bl_bco (bc_blocks bc1 b) \<noteq> None"
      using D(3,4) by (auto simp: bc1_def less_Suc_eq)
  qed (use D(2,5,7) room fl in \<open>auto simp: bc1_def bc_nbuckets_def\<close>)
  have view: "bc_view bc1 (env_disk env2) = bc_view bc (env_disk env)"
    unfolding disk
  proof (rule bc_view_eqI [OF ok'], unfold ids)
    fix x assume "x \<in> insert ?b (bc_ids bc)"
    then show "bc_view bc (env_disk env) (?key x) = bl_phys (bc_blocks bc1 x)"
      using bc_view_in [OF ok(1)] bc_view_out [OF n] fresh by (auto simp: bc1_def)
  next
    fix k assume "k \<notin> ?key ` insert ?b (bc_ids bc)"
    then have "k \<notin> (\<lambda>x. bl_blkno (bc_blocks bc x)) ` bc_ids bc" using key fresh by (auto simp: image_iff split: if_splits)
    then show "bc_view bc (env_disk env) k = env_disk env k" by (rule bc_view_out)
  qed
  have clean: "bc_clean U bc1 (env_disk env2)"
    using ok(2) unfolding bc_clean_def ids disk by (auto simp: bc1_def)
  have "\<exists>bco bc'. bc_found ?b (bc1, env2) = Done (?b, bco) (bc', env2) \<and> get_post U n ?b bco (bc, env) (bc', env2)"
    by (rule bc_found_post [OF ok' clean _ _ view]) (use ids fresh in \<open>auto simp: bc1_def bc_refs_def\<close>)
  with f show ?thesis unfolding bc1_def [symmetric] by auto
qed

text \<open>Counting hits and misses changes nothing else.\<close>

lemma bc_stat_ok [simp]:
  "bc_lists_ok (bc_stat f bc) = bc_lists_ok bc" "bc_clean U (bc_stat f bc) disk = bc_clean U bc disk"
  "bc_view (bc_stat f bc) disk = bc_view bc disk" "bc_kept (bc_stat f bc) bc' = bc_kept bc bc'" "bc_refs (bc_stat f bc) = bc_refs bc"
  by (auto simp: bc_refs_def fun_eq_iff bc_lists_ok_def bc_clean_def bc_view_def bc_kept_def split: option.split)

lemma get_post_stat: "get_post U n b bco (bc_stat f bc, env) st' = get_post U n b bco (bc, env) st'"
  by (simp add: get_post_def)

lemma bc_evict_post:
  assumes ok: "bc_lists_ok bc" "bc_clean U bc (env_disk env)"
    and n: "n \<notin> (\<lambda>x. bl_blkno (bc_blocks bc x)) ` bc_ids bc"
    and run: "bc_evict n ops (bc, env) = Done (b', bco) st'"
  shows "get_post U n b' bco (bc, env) st'"
proof -
  obtain b bs where fl: "bc_fl bc = b # bs" using run by (cases "bc_fl bc") (simp_all add: bc_evict_def)
  with bc_lists_okD(6) [OF ok(1)] have b: "b \<in> bc_ids bc" "bl_refcnt (bc_blocks bc b) = 0" by auto
  show ?thesis
  proof (cases "bl_dirty (bc_blocks bc b)")
    case False
    with run fl have "bc_reuse n ops b (bc, env) = Done (b', bco) st'" by (simp add: bc_evict_def)
    from bc_reuse_post [OF ok b False n this] show ?thesis by simp
  next
    case True
    from bc_write_out_correct [OF ok(1) b(1) True, of env] obtain bc1 env1 where
      w: "bc_lists_ok bc1" "bc_view bc1 (env_disk env1) = bc_view bc (env_disk env)"
        "bc_clean U bc (env_disk env) \<longrightarrow> bc_clean U bc1 (env_disk env1)" "bc_ht bc1 = bc_ht bc" and
      c: "bc_write_out b (bc, env) = Fail EIO (bc1, env1)
        \<or> bc_write_out b (bc, env) = Done () (bc1, env1) \<and> bc_maxsz bc1 = bc_maxsz bc \<and> bc_blksz bc1 = bc_blksz bc
          \<and> (\<forall>x. bc_blocks bc1 x = (if x = b then (bc_blocks bc x)\<lparr>bl_dirty := False\<rparr> else bc_blocks bc x))"
      by blast
    have d: "bc_write_out b (bc, env) = Done () (bc1, env1)" "bc_maxsz bc1 = bc_maxsz bc" "bc_blksz bc1 = bc_blksz bc"
      "\<And>x. bc_blocks bc1 x = (if x = b then (bc_blocks bc x)\<lparr>bl_dirty := False\<rparr> else bc_blocks bc x)"
      and r: "bc_reuse n ops b (bc1, env1) = Done (b', bco) st'"
      using c run fl True by (auto simp: bc_evict_def)
    have ids: "bc_ids bc1 = bc_ids bc" by (simp add: bc_ids_def w(4))
    have key: "bl_blkno (bc_blocks bc1 x) = bl_blkno (bc_blocks bc x)" for x by (simp add: d(4))
    have p: "b' = b \<and> get_post U n b bco (bc1, env1) st'"
      by (rule bc_reuse_post [OF w(1) _ _ _ _ _ r]) (use w(3) ok(2) b n d(4) in \<open>auto simp: ids key\<close>)
    have "bc_kept bc1 (fst st')" using p by (simp add: get_post_def)
    note kept = this [unfolded bc_kept_def ids, rule_format]
    have "bc_kept bc (fst st')"
      unfolding bc_kept_def
    proof (intro ballI impI)
      fix x assume x: "x \<in> bc_ids bc" "bl_refcnt (bc_blocks bc x) > 0"
      then have "bc_blocks bc1 x = bc_blocks bc x" using b(2) d(4) by auto
      with kept [of x] x show "x \<in> bc_ids (fst st') \<and> (\<exists>r\<ge>bl_refcnt (bc_blocks bc x). \<exists>d.
        bc_blocks (fst st') x = (bc_blocks bc x)\<lparr>bl_refcnt := r, bl_dirty := d\<rparr>)" by simp
    qed
    moreover have "bc_refs bc1 = bc_refs bc" unfolding bc_refs_def ids by (auto simp: d(4))
    ultimately show ?thesis using p w(2) d(2,3) by (simp add: get_post_def)
  qed
qed

definition bc_fits :: "('d, 'o, 'w) bcache \<Rightarrow> bool" where
  "bc_fits bc \<longleftrightarrow> unat (bc_maxsz bc) + unat (bc_blksz bc) < 2 ^ 32"

definition bc_ok :: "('d, 'o, 'w) bc_state \<Rightarrow> bool" where
  "bc_ok st \<longleftrightarrow> bc_lists_ok (fst st) \<and> bc_clean {} (fst st) (env_disk (snd st)) \<and> bc_fits (fst st)"

lemma bc_find_cases:
  assumes "bc_lists_ok bc"
  shows "\<exists>r. List.find (\<lambda>b. bl_blkno (bc_blocks bc b) = n) (bc_ht bc ! (n mod bc_nbuckets bc)) = r
    \<and> (case r of None \<Rightarrow> n \<notin> (\<lambda>x. bl_blkno (bc_blocks bc x)) ` bc_ids bc
       | Some b \<Rightarrow> b \<in> bc_ids bc \<and> bl_blkno (bc_blocks bc b) = n)"
proof (cases "n \<in> (\<lambda>x. bl_blkno (bc_blocks bc x)) ` bc_ids bc")
  case True
  then obtain b where b: "b \<in> bc_ids bc" "n = bl_blkno (bc_blocks bc b)" by blast
  with ht_find_Some [OF bc_lists_okD(1) [OF assms], of b] bc_lists_okD(2) [OF assms]
  show ?thesis by (simp add: bc_ids_def)
next
  case False
  with ht_find_None [OF bc_lists_okD(1) [OF assms], of n] bc_lists_okD(2) [OF assms]
  show ?thesis by (simp add: bc_ids_def)
qed

lemma bc_nbuckets_pos: "bc_lists_ok bc \<Longrightarrow> 0 < bc_nbuckets bc"
  using bc_lists_okD(1,2) [of bc] by (metis ht_ok_def length_greater_0_conv)

lemma bc_get_post:
  assumes l: "bc_lists_ok bc" and c: "bc_clean U bc (env_disk env)" and f: "bc_fits bc"
    and run: "bc_get n ops (bc, env) = Done (b, bco) st'"
  shows "get_post U n b bco (bc, env) st'"
proof -
  let ?hit = "bc_stat (\<lambda>s. s\<lparr>bcs_hits := bcs_hits s + 1\<rparr>) bc"
  let ?miss = "bc_stat (\<lambda>s. s\<lparr>bcs_misses := bcs_misses s + 1\<rparr>) bc"
  from bc_find_cases [OF l, of n] obtain r where
    r: "List.find (\<lambda>b. bl_blkno (bc_blocks bc b) = n) (bc_ht bc ! (n mod bc_nbuckets bc)) = r" and
    rc: "case r of None \<Rightarrow> n \<notin> (\<lambda>x. bl_blkno (bc_blocks bc x)) ` bc_ids bc
       | Some b \<Rightarrow> b \<in> bc_ids bc \<and> bl_blkno (bc_blocks bc b) = n" by blast
  note pos = bc_nbuckets_pos [OF l]
  show ?thesis
  proof (cases r)
    case (Some x)
    have "\<exists>bco bc'. bc_found x (?hit, env) = Done (x, bco) (bc', env) \<and> get_post U n x bco (bc, env) (bc', env)"
      by (rule bc_found_post) (use l c rc Some in \<open>auto simp: bc_refs_def\<close>)
    with run r Some pos show ?thesis by (auto simp: bc_get_def)
  next
    case None
    then have n: "n \<notin> (\<lambda>x. bl_blkno (bc_blocks bc x)) ` bc_ids bc" using rc by simp
    have "get_post U n b bco (?miss, env) st'"
    proof (cases "bc_currsz bc + bc_blksz bc > bc_maxsz bc")
      case True
      with run r None pos have "bc_evict n ops (?miss, env) = Done (b, bco) st'" by (simp add: bc_get_def Let_def)
      from bc_evict_post [OF _ _ _ this] l c n show ?thesis by simp
    next
      case False
      with run r None pos have "bc_alloc n ops (?miss, env) = Done (b, bco) st'" by (simp add: bc_get_def Let_def)
      from bc_alloc_post [OF _ _ _ _ _ this] l c n False f show ?thesis by (simp add: bc_fits_def)
    qed
    then show ?thesis by (simp add: get_post_stat)
  qed
qed

end
