(* ===== verification/BcacheSpec.thy ===== *)
theory BcacheSpec
  imports BcacheCorrect
begin

text \<open>
  The block cache (\<^verbatim>\<open>bcache/bcache.c\<close>) as its clients see it: any sequence of gets, stores,
  releases and flushes behaves like a plain map from block numbers to contents, and a flush makes
  the file equal to that map. The error paths of \<^verbatim>\<open>bc_get\<close> that break this are properties too.
\<close>

section \<open>Storing, releasing, flushing\<close>

lemma bc_okD:
  assumes "bc_ok (bc, env)"
  shows "bc_lists_ok bc" "bc_clean {} bc (env_disk env)" "bc_fits bc"
  using assms by (simp_all add: bc_ok_def)

definition st_view :: "('d, 'o, 'w) bc_state \<Rightarrow> nat \<Rightarrow> 'd" where
  "st_view st = bc_view (fst st) (env_disk (snd st))"

text \<open>What a client that holds a block does to change it: write to the buffer, then \<^verbatim>\<open>bc_dirty\<close>.\<close>

definition bc_store :: "nat \<Rightarrow> 'd \<Rightarrow> ('d, 'o, 'w) bc_state \<Rightarrow> ('d, 'o, 'w) bc_state" where
  "bc_store b d st = bc_dirty b (bc_upd b (\<lambda>x. x\<lparr>bl_phys := d\<rparr>) (fst st), snd st)"

lemma bc_store_correct:
  assumes ok: "bc_ok (bc, env)" and b: "b \<in> bc_ids bc"
  shows "bc_ok (bc_store b d (bc, env))"
    "st_view (bc_store b d (bc, env)) = (st_view (bc, env))(bl_blkno (bc_blocks bc b) := d)"
proof -
  note O = bc_okD [OF ok] and D = bc_lists_okD [OF bc_okD(1) [OF ok]]
  let ?bc = "if bl_dirty (bc_blocks bc b) then bc_upd b (\<lambda>x. x\<lparr>bl_phys := d\<rparr>) bc
    else bc_upd b (\<lambda>x. x\<lparr>bl_dirty := True\<rparr>) (bc_upd b (\<lambda>x. x\<lparr>bl_phys := d\<rparr>) bc\<lparr>bc_dl := b # bc_dl bc\<rparr>)"
  have st: "bc_store b d (bc, env) = (?bc, env)"
    by (simp add: bc_store_def bc_dirty_def bc_upd_def)
  have ids: "bc_ids ?bc = bc_ids bc" by simp
  have ok': "bc_lists_ok ?bc"
    by (rule bc_lists_ok_update [OF O(1)]) (use D(5-8) b in auto)
  have other: "bl_blkno (bc_blocks bc x) \<noteq> bl_blkno (bc_blocks bc b)" if "x \<in> bc_ids bc" "x \<noteq> b" for x
    using D(11) b that by (auto simp: inj_on_def)
  have "bc_clean {} ?bc (env_disk env)" using O(2) unfolding bc_clean_def ids by auto
  with ok' O(3) show "bc_ok (bc_store b d (bc, env))" by (simp add: st bc_ok_def bc_fits_def)
  have key: "bl_blkno (bc_blocks ?bc x) = bl_blkno (bc_blocks bc x)" for x by simp
  show "st_view (bc_store b d (bc, env)) = (st_view (bc, env))(bl_blkno (bc_blocks bc b) := d)"
    unfolding st st_view_def fst_conv snd_conv
  proof (rule bc_view_eqI [OF ok'], unfold ids key)
    fix x assume "x \<in> bc_ids bc"
    then show "((bc_view bc (env_disk env))(bl_blkno (bc_blocks bc b) := d)) (bl_blkno (bc_blocks bc x)) =
        bl_phys (bc_blocks ?bc x)"
      using other [of x] bc_view_in [OF O(1)] by auto
  next
    fix n assume n: "n \<notin> (\<lambda>x. bl_blkno (bc_blocks bc x)) ` bc_ids bc"
    then show "((bc_view bc (env_disk env))(bl_blkno (bc_blocks bc b) := d)) n = env_disk env n"
      using b bc_view_out [OF n] by auto
  qed
qed

lemma bc_release_correct:
  assumes ok: "bc_ok (bc, env)" and b: "b \<in> bc_ids bc" and run: "bc_release b (bc, env) = Done () st'"
  shows "bc_ok st'" "st_view st' = st_view (bc, env)"
proof -
  note O = bc_okD [OF ok] and D = bc_lists_okD [OF bc_okD(1) [OF ok]]
  have r: "bl_refcnt (bc_blocks bc b) \<noteq> 0" using run by (auto simp: bc_release_def split: if_splits)
  let ?bc1 = "bc_upd b (\<lambda>x. x\<lparr>bl_refcnt := bl_refcnt x - 1\<rparr>) bc"
  let ?bc = "if bl_refcnt (bc_blocks ?bc1 b) = 0 then ?bc1\<lparr>bc_fl := bc_fl ?bc1 @ [b]\<rparr> else ?bc1"
  have st: "st' = (?bc, env)" using run r by (auto simp: bc_release_def Let_def)
  have ids: "bc_ids ?bc = bc_ids bc" by simp
  have fl: "set (bc_fl bc) = {x \<in> bc_ids bc. bl_refcnt (bc_blocks bc x) = 0}" by (rule D(6))
  have ok': "bc_lists_ok ?bc"
    by (rule bc_lists_ok_update [OF O(1)]) (use D(5,7,8) fl r b in auto)
  have "bc_view ?bc (env_disk env) = bc_view bc (env_disk env)" by (rule bc_view_same) auto
  then show "st_view st' = st_view (bc, env)" by (simp add: st st_view_def)
  have "bc_clean {} ?bc (env_disk env)" using O(2) unfolding bc_clean_def ids by auto
  with ok' O(3) show "bc_ok st'" by (simp add: st bc_ok_def bc_fits_def)
qed

lemma bc_flush_loop_correct:
  assumes "bc_ok st" "bc_dl (fst st) = bs"
  shows "\<exists>st'. bc_ok st' \<and> st_view st' = st_view st
    \<and> (bc_flush_loop bs st = Done () st' \<and> bc_dl (fst st') = []
       \<or> (\<exists>e. bc_flush_loop bs st = Fail e st'))"
  using assms
proof (induction bs arbitrary: st)
  case (Cons b bs)
  obtain bc env where st: "st = (bc, env)" by (cases st)
  note O = bc_okD [OF Cons.prems(1) [unfolded st]]
  have b: "b \<in> bc_ids bc" "bl_dirty (bc_blocks bc b)"
    using bc_lists_okD(8) [OF O(1)] Cons.prems(2) st by auto
  from bc_write_out_correct [OF O(1) b, of env] obtain bc1 env1 where
    w: "bc_lists_ok bc1" "bc_view bc1 (env_disk env1) = bc_view bc (env_disk env)"
      "bc_clean {} bc (env_disk env) \<longrightarrow> bc_clean {} bc1 (env_disk env1)" and
    c: "bc_write_out b (bc, env) = Fail EIO (bc1, env1) \<and> bc1 = bc
      \<or> bc_write_out b (bc, env) = Done () (bc1, env1) \<and> bc_dl bc1 = remove1 b (bc_dl bc)
        \<and> bc_maxsz bc1 = bc_maxsz bc \<and> bc_blksz bc1 = bc_blksz bc" by blast
  have ok1: "bc_ok (bc1, env1)" "st_view (bc1, env1) = st_view st"
    using w c O(2,3) by (auto simp: bc_ok_def bc_fits_def st_view_def st)
  from c show ?case
  proof (elim disjE conjE)
    assume f: "bc_write_out b (bc, env) = Fail EIO (bc1, env1)"
    with b(2) have "bc_flush_loop (b # bs) st = Fail EIO (bc1, env1)" by (simp add: st)
    with ok1 show ?thesis by blast
  next
    assume d: "bc_write_out b (bc, env) = Done () (bc1, env1)" "bc_dl bc1 = remove1 b (bc_dl bc)"
    have "bc_dl (fst (bc1, env1)) = bs" using d(2) Cons.prems(2) st by simp
    from Cons.IH [OF ok1(1) this] ok1(2) d(1) b(2) show ?thesis by (simp add: st)
  qed
qed auto

lemma bc_flush_correct:
  assumes "bc_ok st"
  shows "\<exists>st'. bc_ok st' \<and> st_view st' = st_view st
    \<and> (bc_flush st = Done () st' \<and> bc_dl (fst st') = [] \<or> (\<exists>e. bc_flush st = Fail e st'))"
proof -
  from bc_flush_loop_correct [OF assms refl] obtain bc env where
    o: "bc_ok (bc, env)" "st_view (bc, env) = st_view st"
      "bc_flush_loop (bc_dl (fst st)) st = Done () (bc, env) \<and> bc_dl bc = []
       \<or> (\<exists>e. bc_flush_loop (bc_dl (fst st)) st = Fail e (bc, env))" by auto
  from o(3) show ?thesis
  proof (elim disjE exE conjE)
    fix e assume "bc_flush_loop (bc_dl (fst st)) st = Fail e (bc, env)"
    with o(1,2) show ?thesis by (intro exI [of _ "(bc, env)"]) (simp add: bc_flush_def)
  next
    assume d: "bc_flush_loop (bc_dl (fst st)) st = Done () (bc, env)" "bc_dl bc = []"
    obtain r env1 where f: "env_fsync env = (r, env1)" by fastforce
    then have disk: "env_disk env1 = env_disk env" by (auto simp: env_fsync_def split: prod.splits io.splits)
    show ?thesis
    proof (cases r)
      case (Some e)
      with d f o disk show ?thesis
        by (intro exI [of _ "(bc, env1)"]) (simp add: bc_flush_def bc_ok_def st_view_def)
    next
      case None
      with d f o disk show ?thesis
        by (intro exI [of _ "(bc_stat (\<lambda>s. s\<lparr>bcs_flushes := bcs_flushes s + 1\<rparr>) bc, env1)"])
          (simp add: bc_flush_def bc_ok_def bc_fits_def st_view_def)
    qed
  qed
qed

text \<open>With no dirty block the file holds everything.\<close>

lemma bc_no_dirty:
  assumes "bc_ok st" "bc_dl (fst st) = []" shows "env_disk (snd st) = st_view st"
proof -
  obtain bc env where st: "st = (bc, env)" by (cases st)
  note O = bc_okD [OF assms(1) [unfolded st]]
  have "\<not> bl_dirty (bc_blocks bc b)" if "b \<in> bc_ids bc" for b
    using bc_lists_okD(8) [OF O(1)] assms(2) that by (auto simp: st)
  then have "bc_view bc (env_disk env) = env_disk env"
    using O(2) by (intro bc_view_eqI [OF O(1)]) (auto simp: bc_clean_def)
  then show ?thesis by (simp add: st st_view_def)
qed

section \<open>Errors that change nothing\<close>

lemma bc_alloc_error:
  "bc_alloc n ops (bc, env) = Fail e (bc', env') \<Longrightarrow> bc' = bc \<and> env_disk env' = env_disk env"
proof -
  assume run: "bc_alloc n ops (bc, env) = Fail e (bc', env')"
  obtain ok1 m1 where m1: "malloc (env_mem env) = (ok1, m1)" by (cases "malloc (env_mem env)") auto
  obtain ok2 m2 where m2: "malloc m1 = (ok2, m2)" by (cases "malloc m1") auto
  obtain ok3 m3 where m3: "malloc m2 = (ok3, m3)" by (cases "malloc m2") auto
  obtain ok4 m4 where m4: "malloc m3 = (ok4, m4)" by (cases "malloc m3") auto
  obtain okr d env1 where p: "env_pread n (env\<lparr>env_mem := m4\<rparr>) = (okr, d, env1)"
    by (cases "env_pread n (env\<lparr>env_mem := m4\<rparr>)") auto
  have disk: "env_disk env1 = env_disk env" using env_pread_disk [OF p] by simp
  show ?thesis
  proof (cases "ok1 \<and> ok2 \<and> ok3 \<and> ok4 \<and> okr")
    case False
    with run m1 m2 m3 m4 p disk show ?thesis by (auto simp: bc_alloc_def Let_def split: if_splits)
  next
    case True
    with run m1 m2 m3 m4 p disk show ?thesis
      by (cases "env_init (bco_init ops (bc_next bc) n d) env1")
        (auto simp: bc_alloc_def bc_found_def Let_def dest: env_init_disk(2))
  qed
qed

lemma bc_get_error:
  assumes ok: "bc_ok (bc, env)" and run: "bc_get n ops (bc, env) = Fail e (bc', env')"
    and c: "bc_currsz bc + bc_blksz bc \<le> bc_maxsz bc \<or> bc_fl bc = []"
  shows "bc' = bc_stat (\<lambda>s. s\<lparr>bcs_misses := bcs_misses s + 1\<rparr>) bc \<and> env_disk env' = env_disk env"
proof -
  let ?miss = "bc_stat (\<lambda>s. s\<lparr>bcs_misses := bcs_misses s + 1\<rparr>) bc"
  note pos = bc_nbuckets_pos [OF bc_okD(1) [OF ok]]
  have none: "List.find (\<lambda>b. bl_blkno (bc_blocks bc b) = n) (bc_ht bc ! (n mod bc_nbuckets bc)) = None"
    using run pos by (auto simp: bc_get_def bc_found_def Let_def split: option.splits)
  show ?thesis
  proof (cases "bc_currsz bc + bc_blksz bc > bc_maxsz bc")
    case True
    then have "bc_fl bc = []" using c by (meson linorder_not_le)
    with run none pos True show ?thesis by (auto simp: bc_get_def bc_evict_def Let_def)
  next
    case False
    with run none pos have "bc_alloc n ops (?miss, env) = Fail e (bc', env')" by (simp add: bc_get_def Let_def)
    from bc_alloc_error [OF this] show ?thesis by simp
  qed
qed

section \<open>The cache as a map\<close>

text \<open>The events a client sees: what a get returned, what was stored, a completed flush.\<close>

datatype 'd bc_event = Got nat 'd | Stored nat 'd | Flushed | Internal

inductive bc_step :: "('d, 'o, 'w) bc_state \<Rightarrow> 'd bc_event \<Rightarrow> ('d, 'o, 'w) bc_state \<Rightarrow> bool" where
  step_get: "bc_get n ops st = Done (b, bco) st' \<Longrightarrow> bc_step st (Got n (bl_phys (bc_blocks (fst st') b))) st'"
| step_get_error: "bc_get n ops st = Fail e st' \<Longrightarrow>
    bc_currsz (fst st) + bc_blksz (fst st) \<le> bc_maxsz (fst st) \<or> bc_fl (fst st) = [] \<Longrightarrow> bc_step st Internal st'"
| step_store: "b \<in> bc_ids (fst st) \<Longrightarrow> bl_refcnt (bc_blocks (fst st) b) > 0 \<Longrightarrow>
    bc_step st (Stored (bl_blkno (bc_blocks (fst st) b)) d) (bc_store b d st)"
| step_release: "b \<in> bc_ids (fst st) \<Longrightarrow> bc_release b st = Done () st' \<Longrightarrow> bc_step st Internal st'"
| step_flush: "bc_flush st = Done () st' \<Longrightarrow> bc_step st Flushed st'"
| step_flush_error: "bc_flush st = Fail e st' \<Longrightarrow> bc_step st Internal st'"

inductive bc_run :: "('d, 'o, 'w) bc_state \<Rightarrow> 'd bc_event list \<Rightarrow> ('d, 'o, 'w) bc_state \<Rightarrow> bool" where
  run_start: "bc_run st [] st"
| run_step: "bc_run st es st1 \<Longrightarrow> bc_step st1 e st2 \<Longrightarrow> bc_run st (es @ [e]) st2"

inductive_cases bc_step_GotE: "bc_step st (Got n d) st'"

text \<open>The specification: a map; a get returns what the map holds.\<close>

fun map_event :: "'d bc_event \<Rightarrow> (nat \<Rightarrow> 'd) \<Rightarrow> (nat \<Rightarrow> 'd) option" where
  "map_event (Got n d) f = (if f n = d then Some f else None)"
| "map_event (Stored n d) f = Some (f(n := d))"
| "map_event Flushed f = Some f"
| "map_event Internal f = Some f"

fun map_events :: "'d bc_event list \<Rightarrow> (nat \<Rightarrow> 'd) \<Rightarrow> (nat \<Rightarrow> 'd) option" where
  "map_events [] f = Some f"
| "map_events (e # es) f = Option.bind (map_event e f) (map_events es)"

lemma map_events_snoc:
  "map_events (es @ [e]) f = Option.bind (map_events es f) (map_event e)"
  by (induction es arbitrary: f) (auto split: bind_splits)

lemma bc_step_refines:
  assumes "bc_step st e st'" "bc_ok st"
  shows "bc_ok st' \<and> map_event e (st_view st) = Some (st_view st')
    \<and> (e = Flushed \<longrightarrow> env_disk (snd st') = st_view st')"
  using assms
proof (induction rule: bc_step.induct)
  case (step_get n ops st b bco st')
  obtain bc env where st: "st = (bc, env)" by (cases st)
  obtain bc' env' where st': "st' = (bc', env')" by (cases st')
  note O = bc_okD [OF step_get(2) [unfolded st]]
  from bc_get_post [OF O, of n ops b bco st'] step_get
  have p: "get_post {} n b bco (bc, env) (bc', env')" by (simp add: st st')
  then have ok: "bc_ok st'" using step_get(2) by (simp add: bc_ok_def st st' get_post_def bc_fits_def)
  have "st_view st n = bl_phys (bc_blocks bc' b)"
    using p bc_view_in [of bc' b n "env_disk env'"] by (simp add: get_post_def got_def st_view_def st)
  with p ok show ?case by (simp add: st_view_def st st' get_post_def)
next
  case (step_get_error n ops st e st')
  obtain bc env where st: "st = (bc, env)" by (cases st)
  obtain bc' env' where st': "st' = (bc', env')" by (cases st')
  from bc_get_error [of bc env n ops e bc' env'] step_get_error
  have "bc' = bc_stat (\<lambda>s. s\<lparr>bcs_misses := bcs_misses s + 1\<rparr>) bc" "env_disk env' = env_disk env"
    by (simp_all add: st st')
  with step_get_error(3) show ?case by (simp add: st st' bc_ok_def bc_fits_def st_view_def)
next
  case (step_store b st d)
  obtain bc env where st: "st = (bc, env)" by (cases st)
  from bc_store_correct [of bc env b d] step_store show ?case by (simp add: st fun_upd_def)
next
  case (step_release b st st')
  obtain bc env where st: "st = (bc, env)" by (cases st)
  from bc_release_correct [of bc env b st'] step_release show ?case by (simp add: st)
next
  case (step_flush st st')
  from bc_flush_correct [OF step_flush(2)] step_flush(1) have "bc_ok st'" "st_view st' = st_view st" "bc_dl (fst st') = []"
    by auto
  with bc_no_dirty [of st'] show ?case by simp
next
  case (step_flush_error st e st')
  from bc_flush_correct [OF step_flush_error(2)] step_flush_error(1) have "bc_ok st'" "st_view st' = st_view st"
    by auto
  then show ?case by simp
qed

lemma bc_create_ok:
  assumes "bc_create mem True blksz maxsz m = Done (Some bc) m'"
    and "0 < bc_nbuckets bc" "unat maxsz + unat blksz < 2 ^ 32"
  shows "bc_ok (bc, env)" "st_view (bc, env) = env_disk env"
proof -
  have bc: "bc_ht bc = replicate (bc_nbuckets bc) []" "bc_dl bc = []" "bc_fl bc = []" "bc_currsz bc = 0"
    "bc_maxsz bc = maxsz" "bc_blksz bc = blksz"
    using assms(1) by (auto simp: bc_create_def Let_def bc_nbuckets_def split: prod.splits if_splits)
  have "set (concat (bc_ht bc)) = {}" using bc(1) by auto
  then have e: "concat (bc_ht bc) = []" by simp
  have "ht_ok (bc_ht bc) (\<lambda>b. bl_blkno (bc_blocks bc b))"
    using assms(2) e unfolding ht_ok_def by (auto simp: bc(1))
  then show "bc_ok (bc, env)" using bc e assms(3)
    by (simp add: bc_ok_def bc_lists_ok_def bc_clean_def bc_fits_def bc_ids_def del: concat_eq_Nil_conv)
  show "st_view (bc, env) = env_disk env" using e by (simp add: st_view_def bc_view_def fun_eq_iff del: concat_eq_Nil_conv)
qed

text \<open>
  C5: From a cache that was just created, any sequence of gets, stores, releases and flushes, with
  evictions, with failing I/O and failing allocations, behaves like a map from block numbers to
  contents that starts as the file: every get returns what was last stored under that number. A
  get that fails while the cache was full and a block was free is not covered: see below.
\<close>

theorem bc_refines_map:
  assumes "bc_create mem True blksz maxsz m = Done (Some bc) m'" "0 < bc_nbuckets bc"
    and "unat maxsz + unat blksz < 2 ^ 32" "bc_run (bc, env) es st"
  shows "map_events es (env_disk env) = Some (st_view st) \<and> bc_ok st"
proof -
  note c = bc_create_ok [OF assms(1-3), of env]
  have "map_events es (st_view (bc, env)) = Some (st_view st) \<and> bc_ok st"
    using assms(4) c(1)
  proof (induction "(bc, env)" es st)
    case (run_step es st1 e st2)
    with bc_step_refines [OF run_step(3)] show ?case by (simp add: map_events_snoc)
  qed simp
  with c(2) show ?thesis by simp
qed

text \<open>A cache for one block of the contents 5, and operations whose objects are the unit value.\<close>

definition unit_ops :: "(int, unit, nat) bco_ops" where
  "unit_ops = \<lparr>bco_init = (\<lambda>b n d st. Done () st), bco_destroy = (\<lambda>bco w. w + 1), bco_check = None\<rparr>"

definition one_block :: "nat \<Rightarrow> bool \<Rightarrow> int \<Rightarrow> (int, unit, nat) bcache" where
  "one_block refs dirty d =
     \<lparr>bc_ht = [[0], []], bc_dl = (if dirty then [0] else []), bc_fl = (if refs = 0 then [0] else []),
      bc_blksz = 1, bc_currsz = 1, bc_maxsz = 1,
      bc_stats = \<lparr>bcs_hits = 0, bcs_misses = 0, bcs_writes = 0, bcs_flushes = 0\<rparr>,
      bc_blocks = (\<lambda>b. \<lparr>bl_blkno = 0, bl_refcnt = refs, bl_dirty = dirty, bl_bco = Some (),
                        bl_bco_ops = unit_ops, bl_phys = d\<rparr>), bc_next = 1\<rparr>"

definition file5 :: "int io list \<Rightarrow> (int, nat) bc_env" where
  "file5 io = \<lparr>env_disk = (\<lambda>n. 5), env_io = io, env_mem = [], env_world = 0\<rparr>"

lemma one_block_ok: "dirty \<or> d = 5 \<Longrightarrow> bc_ok (one_block refs dirty d, file5 io)"
  by (auto simp: one_block_def file5_def bc_ok_def bc_lists_ok_def bc_clean_def bc_fits_def bc_ids_def
      ht_ok_def bc_nbuckets_def less_Suc_eq)

lemmas bc_eval = one_block_def file5_def unit_ops_def bc_get_def bc_found_def bc_evict_def bc_reuse_def
  bc_alloc_def bc_write_out_def bc_flush_def env_init_def env_pread_def env_pwrite_def env_fsync_def
  bc_upd_def bc_stat_def bc_nbuckets_def bc_release_def bc_dirty_def bc_store_def bc_ids_def

theorem bc_refines_map_witness:
  "\<exists>bc m st. bc_create (\<lambda>b. bc_blocks (one_block 0 False 5) b) True 1 1 [] = Done (Some bc) m
     \<and> bc_run (bc, file5 []) [Got 3 5] st \<and> map_events [Got 3 5] (\<lambda>n. 5) = Some (st_view st) \<and> bc_ok st"
proof -
  let ?mem = "\<lambda>b. bc_blocks (one_block 0 False 5) b"
  have two: "replicate 2 ([] :: nat list) = [[], []]" by (simp add: numeral_2_eq_2)
  obtain bc where bc: "bc_create ?mem True 1 1 [] = Done (Some bc) []"
    "bc = \<lparr>bc_ht = [[], []], bc_dl = [], bc_fl = [], bc_blksz = 1, bc_currsz = 0, bc_maxsz = 1,
      bc_stats = \<lparr>bcs_hits = 0, bcs_misses = 0, bcs_writes = 0, bcs_flushes = 0\<rparr>, bc_blocks = ?mem, bc_next = 0\<rparr>"
    by (simp add: bc_create_def two)
  obtain bco st where g: "bc_get 3 unit_ops (bc, file5 []) = Done (0, bco) st" "bl_phys (bc_blocks (fst st) 0) = 5"
    by (simp add: bc(2) bc_eval Let_def)
  from bc_run.run_step [OF run_start bc_step.step_get [OF g(1)]] g(2)
  have run: "bc_run (bc, file5 []) [Got 3 5] st" by simp
  have "0 < bc_nbuckets bc" by (simp add: bc(2) bc_nbuckets_def)
  note * = bc_refines_map [OF bc(1) this _ run]
  have disk: "env_disk (file5 []) = (\<lambda>n. 5)" by (simp add: file5_def)
  have "map_events [Got 3 5] (\<lambda>n. 5) = Some (st_view st) \<and> bc_ok st"
    by (rule * [unfolded disk]) simp
  with bc(1) run show ?thesis by blast
qed

text \<open>
  C7: After a flush that succeeds no block is dirty and the file holds what the cache showed; a
  flush that fails, in a write or in \<^verbatim>\<open>fsync\<close>, loses nothing. It never stops in an assertion.
\<close>

theorem bc_flush_persists:
  assumes "bc_ok st"
  shows "case bc_flush st of
      Done _ st' \<Rightarrow> env_disk (snd st') = st_view st \<and> bc_dl (fst st') = [] \<and> bc_ok st'
    | Fail e st' \<Rightarrow> st_view st' = st_view st \<and> bc_ok st'
    | Abort \<Rightarrow> False"
proof -
  from bc_flush_correct [OF assms] obtain st' where s: "bc_ok st'" "st_view st' = st_view st"
    "bc_flush st = Done () st' \<and> bc_dl (fst st') = [] \<or> (\<exists>e. bc_flush st = Fail e st')" by blast
  with bc_no_dirty [OF s(1)] show ?thesis by auto
qed

theorem bc_flush_persists_witness:
  "\<exists>st. bc_flush (one_block 0 True 7, file5 []) = Done () st \<and> env_disk (snd st) 0 = 7 \<and> env_disk (snd st) 1 = 5"
proof -
  have ok: "bc_ok (one_block 0 True 7, file5 [])" by (rule one_block_ok) simp
  have v: "st_view (one_block 0 True 7, file5 []) 0 = 7" "st_view (one_block 0 True 7, file5 []) 1 = 5"
    by (simp_all add: st_view_def bc_view_def one_block_def file5_def)
  have "\<exists>st. bc_flush (one_block 0 True 7, file5 []) = Done () st" by (simp add: bc_eval Let_def)
  then show ?thesis using bc_flush_persists [OF ok] v by auto
qed

text \<open>
  C8: \<^verbatim>\<open>bc_get\<close> hands out a block with the number asked for, an object, and the contents last
  stored under that number; its reference keeps it: no block with a reference is evicted or
  changed, in the number, the contents or the object, by getting another.
\<close>

theorem bc_get_keeps_referenced:
  assumes "bc_ok (bc, env)" "bc_get n ops (bc, env) = Done (b, bco) (bc', env')"
  shows "bl_blkno (bc_blocks bc' b) = n \<and> bl_phys (bc_blocks bc' b) = st_view (bc, env) n
    \<and> bco \<noteq> None \<and> bl_refcnt (bc_blocks bc' b) > 0 \<and> bc_kept bc bc'"
proof -
  have p: "get_post {} n b bco (bc, env) (bc', env')" by (rule bc_get_post [OF bc_okD [OF assms(1)] assms(2)])
  then show ?thesis using bc_view_in [of bc' b n "env_disk env'"]
    by (simp add: get_post_def got_def st_view_def)
qed

theorem bc_get_keeps_referenced_witness:
  "\<exists>bc env. bc_get 0 unit_ops (one_block 1 False 5, file5 []) = Done (0, Some ()) (bc, env)
     \<and> bl_phys (bc_blocks bc 0) = 5 \<and> bc_kept (one_block 1 False 5) bc"
proof -
  have ok: "bc_ok (one_block 1 False 5, file5 [])" by (rule one_block_ok) simp
  have v: "st_view (one_block 1 False 5, file5 []) 0 = 5"
    by (simp add: st_view_def bc_view_def one_block_def file5_def)
  obtain bc env where g: "bc_get 0 unit_ops (one_block 1 False 5, file5 []) = Done (0, Some ()) (bc, env)"
    by (simp add: bc_eval Let_def)
  with bc_get_keeps_referenced [OF ok g] v show ?thesis by auto
qed

text \<open>
  \<^verbatim>\<open>bc_check\<close> accepts every cache that satisfies the invariant, when the clients' checks of
  their objects pass.
\<close>

theorem bc_check_accepts:
  assumes "bc_ok (bc, env)"
    and "\<forall>b\<in>bc_ids bc. case bco_check (bl_bco_ops (bc_blocks bc b)) of None \<Rightarrow> True
      | Some f \<Rightarrow> f (bl_bco (bc_blocks bc b)) (bl_phys (bc_blocks bc b))"
  shows "bc_check bc"
proof -
  note D = bc_lists_okD [OF bc_okD(1) [OF assms(1)]]
  have cached: "bc_cached bc = concat (bc_ht bc)" by (simp add: bc_cached_def D(2) [symmetric])
  have one: "count_list xs b = (if b \<in> set xs then 1 else 0)" if "distinct xs" for xs :: "nat list" and b
    using that by (induction xs) auto
  have "bc_check_block bc b" if "b \<in> bc_ids bc" for b
    using that D(6,8) assms(2) unfolding bc_check_block_def Let_def one [OF D(5)] one [OF D(7)] by auto
  moreover have "bc_currsz bc = of_nat (length (bc_cached bc)) * bc_blksz bc"
  proof -
    have "of_nat (unat (bc_currsz bc)) = (of_nat (length (bc_cached bc)) * of_nat (unat (bc_blksz bc)) :: 32 word)"
      unfolding D(9) cached by simp
    then show ?thesis by simp
  qed
  ultimately show ?thesis using D(10) by (simp add: bc_check_def list_all_iff cached bc_ids_def)
qed

theorem bc_check_accepts_witness: "bc_check (one_block 0 True 7)"
proof -
  have ok: "bc_ok (one_block 0 True 7, file5 [])" by (rule one_block_ok) simp
  show ?thesis by (rule bc_check_accepts [OF ok]) (simp add: one_block_def unit_ops_def)
qed

section \<open>Errors while a block is being reused\<close>

text \<open>
  C34: When the cache is full and the read of the new block fails, \<^verbatim>\<open>bc_get\<close> reports the error but
  has let the read overwrite the buffer of the block it was going to evict, which stays in the
  cache under its old number: the next get of that number is a hit on whatever the read left.
\<close>

theorem bc_get_read_error_corrupts:
  assumes "bc_ok (bc, env)" "bc_currsz bc + bc_blksz bc > bc_maxsz bc" "bc_fl bc = b # bs"
    and "\<not> bl_dirty (bc_blocks bc b)" "env_io env = IoErr d e # io"
    and "n \<notin> (\<lambda>x. bl_blkno (bc_blocks bc x)) ` bc_ids bc"
  shows "\<exists>st'. bc_get n ops (bc, env) = Fail EIO st'
    \<and> (\<exists>bco st''. bc_get (bl_blkno (bc_blocks bc b)) ops' st' = Done (b, bco) st''
         \<and> bl_phys (bc_blocks (fst st'') b) = d)"
proof -
  note O = bc_okD [OF assms(1)]
  note D = bc_lists_okD [OF O(1)]
  have b: "b \<in> bc_ids bc" using D(6) assms(3) by auto
  have none: "List.find (\<lambda>x. bl_blkno (bc_blocks bc x) = n) (bc_ht bc ! (n mod bc_nbuckets bc)) = None"
    using ht_find_None [OF D(1)] assms(6) D(2) by (simp add: bc_ids_def)
  let ?k = "bl_blkno (bc_blocks bc b)"
  have hit: "List.find (\<lambda>x. bl_blkno (bc_blocks bc x) = ?k) (bc_ht bc ! (?k mod bc_nbuckets bc)) = Some b"
    using ht_find_Some [OF D(1), of b] b D(2) by (simp add: bc_ids_def)
  let ?bc1 = "bc_upd b (\<lambda>x. x\<lparr>bl_phys := d\<rparr>) (bc_stat (\<lambda>s. s\<lparr>bcs_misses := bcs_misses s + 1\<rparr>) bc)"
  note pos = bc_nbuckets_pos [OF O(1)]
  have get: "bc_get n ops (bc, env) = Fail EIO (?bc1, env\<lparr>env_io := io\<rparr>)"
    using none pos assms(2-5) by (simp add: bc_get_def bc_evict_def bc_reuse_def env_pread_def Let_def)
  have key: "(\<lambda>x. bl_blkno (bc_blocks ?bc1 x)) = (\<lambda>x. bl_blkno (bc_blocks bc x))" by auto
  have "List.find (\<lambda>x. bl_blkno (bc_blocks ?bc1 x) = ?k) (bc_ht ?bc1 ! (?k mod bc_nbuckets ?bc1)) = Some b"
    unfolding fun_cong [OF key] using hit by (simp only: bc_upd_fields bc_stat_fields)
  then have "\<exists>bco st''. bc_get ?k ops' (?bc1, env\<lparr>env_io := io\<rparr>) = Done (b, bco) st''
      \<and> bl_phys (bc_blocks (fst st'') b) = d"
    using pos by (auto simp: bc_get_def bc_found_def Let_def simp del: fun_upd_apply) auto
  with get show ?thesis by blast
qed

theorem bc_get_read_error_corrupts_witness:
  "\<exists>st. bc_get 3 unit_ops (one_block 0 False 5, file5 [IoErr 9 EIO]) = Fail EIO st
     \<and> (\<exists>bco st'. bc_get 0 unit_ops st = Done (0, bco) st' \<and> bl_phys (bc_blocks (fst st') 0) = 9)"
proof -
  have ok: "bc_ok (one_block 0 False 5, file5 [IoErr 9 EIO])" by (rule one_block_ok) simp
  show ?thesis
    using bc_get_read_error_corrupts [OF ok, of 0 "[]" 9 EIO "[]" 3 unit_ops unit_ops]
    by (simp add: one_block_def file5_def bc_ids_def)
qed

end
