(* ===== verification/BtreePhys.thy ===== *)
theory BtreePhys
  imports CPrelude
begin

text \<open>
  The blocks of a B-tree file (\<^verbatim>\<open>btrees/btree.c\<close>, \<^verbatim>\<open>include/btree.h\<close>): the space manager, bitmaps,
  nodes with their records, and the functions that read them or lay them out. A record area is the
  list of its records; sizes are 16-bit words as in the file. The bytes of a record are its key and
  its value; an index record's value is a block number in eight bytes.
\<close>

unbundle bit_operations_syntax

section \<open>Records\<close>

record btr_phys =
  btrp_key :: "8 word list"
  btrp_val :: "8 word list"

definition btr_phys_size :: "btr_phys \<Rightarrow> 16 word" where
  "btr_phys_size r = 4 + word_of_nat (length (btrp_key r)) + word_of_nat (length (btrp_val r))"

definition btr_phys_index_size :: "btr_phys \<Rightarrow> 16 word" where
  "btr_phys_index_size r = 4 + word_of_nat (length (btrp_key r)) + 8"

text \<open>A block number as the machine stores it: eight bytes, the lowest first.\<close>

fun ptr_bytes :: "nat \<Rightarrow> nat \<Rightarrow> 8 word list" where
  "ptr_bytes 0 n = []"
| "ptr_bytes (Suc k) n = word_of_nat (n mod 256) # ptr_bytes k (n div 256)"

fun bytes_ptr :: "8 word list \<Rightarrow> nat" where
  "bytes_ptr [] = 0"
| "bytes_ptr (b # bs) = unat b + 256 * bytes_ptr bs"

definition btr_phys_index_ptr :: "btr_phys \<Rightarrow> nat" where
  "btr_phys_index_ptr r = bytes_ptr (take 8 (btrp_val r))"

definition index_record :: "btr_phys \<Rightarrow> nat \<Rightarrow> btr_phys" where
  "index_record r blkno = \<lparr>btrp_key = btrp_key r, btrp_val = ptr_bytes 8 blkno\<rparr>"

definition btr_phys_build_index_record :: "btr_phys \<Rightarrow> nat \<Rightarrow> (allocator, btr_phys) prog" where
  "btr_phys_build_index_record r blkno m =
     (let (ok, m1) = malloc m in if \<not> ok then Fail ENOMEM m1 else Done (index_record r blkno) m1)"

definition recs_size :: "btr_phys list \<Rightarrow> 16 word" where
  "recs_size rs = sum_list (map btr_phys_size rs)"

section \<open>Blocks\<close>

definition BTN_PHYS_FLG_IS_ROOT :: "16 word" where
  "BTN_PHYS_FLG_IS_ROOT = 1"

definition BTN_PHYS_FLG_IS_LEAF :: "16 word" where
  "BTN_PHYS_FLG_IS_LEAF = 2"

text \<open>
  \<open>btnp_ptr0\<close>: the index pointer in front of the first record of an index node. \<open>btnp_info\<close>: the
  node count at the end of the root's block. \<^verbatim>\<open>btnp_nrecords\<close> is the length of \<open>btnp_records\<close>.
\<close>

record btn_phys =
  btnp_flags :: "16 word"
  btnp_freespace :: "16 word"
  btnp_ptr0 :: nat
  btnp_records :: "btr_phys list"
  btnp_info :: "32 word"

record sm_phys =
  smp_bsz :: "16 word"
  smp_nblocks :: nat
  smp_rblkno :: nat
  smp_map :: "nat list"

record bm_phys =
  bmp_nfree :: "32 word"
  bmp_bm :: "bool list"

text \<open>A block with another type in its header is \<open>OtherBlk\<close>.\<close>

datatype bt_block = SmBlk sm_phys | BmBlk bm_phys | NodeBlk btn_phys | OtherBlk "32 word"

text \<open>Eight bytes of header in a bitmap block, ten in a node.\<close>

definition blks_per_bm :: "16 word \<Rightarrow> nat" where
  "blks_per_bm bsz = unat ((ucast bsz - 8) * 8 :: 32 word)"

definition round_up_div :: "nat \<Rightarrow> nat \<Rightarrow> nat" where
  "round_up_div n s = ((n + s - 1) div s) * s div s"

definition num_bm_blks :: "nat \<Rightarrow> nat \<Rightarrow> nat" where
  "num_bm_blks nblocks bpb = round_up_div nblocks bpb mod 2 ^ 16"

section \<open>Nodes\<close>

definition btn_phys_is_leaf :: "btn_phys \<Rightarrow> bool" where
  "btn_phys_is_leaf n \<longleftrightarrow> btnp_flags n AND BTN_PHYS_FLG_IS_LEAF \<noteq> 0"

definition btn_phys_is_root :: "btn_phys \<Rightarrow> bool" where
  "btn_phys_is_root n \<longleftrightarrow> btnp_flags n AND BTN_PHYS_FLG_IS_ROOT \<noteq> 0"

definition btn_phys_is_empty :: "btn_phys \<Rightarrow> bool" where
  "btn_phys_is_empty n \<longleftrightarrow> length (btnp_records n) = 0"

definition btn_phys_iterate_records :: "btn_phys \<Rightarrow> (btr_phys, 'c) callback \<Rightarrow> ('c, unit) prog" where
  "btn_phys_iterate_records n callback c =
     (case iterate_list callback (btnp_records n) c of
        Abort \<Rightarrow> Abort
      | Fail e c' \<Rightarrow> Fail e c'
      | Done stop c' \<Rightarrow> Done () c')"

definition btn_phys_first_index_record_ptr :: "btn_phys \<Rightarrow> nat" where
  "btn_phys_first_index_record_ptr n = btnp_ptr0 n"

definition btn_init :: "16 word \<Rightarrow> 16 word \<Rightarrow> btn_phys" where
  "btn_init bsz flags =
     \<lparr>btnp_flags = flags,
      btnp_freespace = (if flags AND BTN_PHYS_FLG_IS_ROOT \<noteq> 0 then bsz - 10 - 4 else bsz - 10),
      btnp_ptr0 = 0, btnp_records = [], btnp_info = 0\<rparr>"

definition max_inline :: "16 word \<Rightarrow> 16 word" where
  "max_inline bsz = bsz - 10"

text \<open>
  The search of an index node: the pointer to follow, and how many records lie before it. The
  pointer sits in front of the record at that position.
\<close>

fun bt_route :: "(btr_phys \<Rightarrow> btr_phys \<Rightarrow> int) \<Rightarrow> btr_phys \<Rightarrow> nat \<Rightarrow> nat \<Rightarrow> btr_phys list \<Rightarrow> nat \<times> nat" where
  "bt_route cmp x ptr i [] = (ptr, i)"
| "bt_route cmp x ptr i (r # rs) =
     (if cmp x r < 0 then (ptr, i) else bt_route cmp x (btr_phys_index_ptr r) (Suc i) rs)"

definition btn_route :: "(btr_phys \<Rightarrow> btr_phys \<Rightarrow> int) \<Rightarrow> btr_phys \<Rightarrow> btn_phys \<Rightarrow> nat \<times> nat" where
  "btn_route cmp x n = bt_route cmp x (btn_phys_first_index_record_ptr n) 0 (btnp_records n)"

text \<open>Overwrite the eight bytes in front of the record at position \<open>i\<close>.\<close>

definition btn_set_ptr :: "nat \<Rightarrow> nat \<Rightarrow> btn_phys \<Rightarrow> btn_phys" where
  "btn_set_ptr i p n =
     (case i of
        0 \<Rightarrow> n\<lparr>btnp_ptr0 := p\<rparr>
      | Suc j \<Rightarrow>
          let r = btnp_records n ! j; v = btrp_val r in
          n\<lparr>btnp_records := (btnp_records n)[j := r\<lparr>btrp_val := take (length v - 8) v @ ptr_bytes 8 p\<rparr>]\<rparr>)"

text \<open>The place of a new record: the records before it and after it, or nothing for a duplicate.\<close>

fun rec_place :: "(btr_phys \<Rightarrow> btr_phys \<Rightarrow> int) \<Rightarrow> btr_phys \<Rightarrow> btr_phys list \<Rightarrow> (btr_phys list \<times> btr_phys list) option" where
  "rec_place cmp x [] = Some ([], [])"
| "rec_place cmp x (r # rs) =
     (let comp = cmp x r in
      if comp = 0 then None
      else if comp < 0 then Some ([], r # rs)
      else map_option (\<lambda>(before, after). (r # before, after)) (rec_place cmp x rs))"

text \<open>The record to remove: the records before and after it, and itself.\<close>

fun rec_remove :: "(btr_phys \<Rightarrow> btr_phys \<Rightarrow> int) \<Rightarrow> btr_phys \<Rightarrow> btr_phys list
    \<Rightarrow> (btr_phys list \<times> btr_phys \<times> btr_phys list) option" where
  "rec_remove cmp x [] = None"
| "rec_remove cmp x (r # rs) =
     (let comp = cmp x r in
      if comp < 0 then None
      else if comp = 0 then Some ([], r, rs)
      else map_option (\<lambda>(before, y, after). (r # before, y, after)) (rec_remove cmp x rs))"

section \<open>Where to split a node\<close>

text \<open>The variables of the loop of \<^verbatim>\<open>btn_insert_split\<close> that looks for the split and insertion points.\<close>

record split_scan =
  ss_split :: "nat option"
  ss_insertion :: "nat option"
  ss_headsz :: "16 word"
  ss_tailsz :: "16 word"
  ss_itailsz :: "16 word"

definition scan_split :: "16 word \<Rightarrow> 16 word \<Rightarrow> nat \<Rightarrow> btr_phys list \<Rightarrow> split_scan \<Rightarrow> split_scan" where
  "scan_split maxsz nrecsz i rest s =
     (if ss_split s = None \<and> ss_headsz s \<ge> maxsz div 2
      then s\<lparr>ss_split := Some i,
             ss_tailsz := ss_tailsz s + recs_size rest + (if ss_insertion s = None then nrecsz else 0)\<rparr>
      else s)"

definition scan_insertion :: "(btr_phys \<Rightarrow> btr_phys \<Rightarrow> int) \<Rightarrow> btr_phys \<Rightarrow> 16 word \<Rightarrow> 16 word \<Rightarrow> nat \<Rightarrow> btr_phys list
    \<Rightarrow> split_scan \<Rightarrow> split_scan option" where
  "scan_insertion cmp x maxsz nrecsz i rest s =
     (if ss_insertion s \<noteq> None then Some s
      else
        let comp = cmp x (hd rest) in
        if comp = 0 then None
        else if comp < 0 then
          let s1 = s\<lparr>ss_insertion := Some i, ss_itailsz := ss_itailsz s + recs_size rest,
                     ss_headsz := ss_headsz s + nrecsz\<rparr> in
          Some (if ss_split s1 = None \<and> ss_headsz s1 \<ge> maxsz div 2
                then s1\<lparr>ss_split := Some i, ss_tailsz := ss_itailsz s1\<rparr> else s1)
        else Some s)"

fun scan_records :: "(btr_phys \<Rightarrow> btr_phys \<Rightarrow> int) \<Rightarrow> btr_phys \<Rightarrow> 16 word \<Rightarrow> 16 word \<Rightarrow> nat \<Rightarrow> btr_phys list
    \<Rightarrow> split_scan \<Rightarrow> split_scan option" where
  "scan_records cmp x maxsz nrecsz i [] s = Some s"
| "scan_records cmp x maxsz nrecsz i (r # rs) s =
     (case scan_insertion cmp x maxsz nrecsz i (r # rs) (scan_split maxsz nrecsz i (r # rs) s) of
        None \<Rightarrow> None
      | Some s1 \<Rightarrow>
          scan_records cmp x maxsz nrecsz (Suc i) rs
            (if ss_split s1 = None then s1\<lparr>ss_headsz := ss_headsz s1 + btr_phys_size r\<rparr> else s1))"

text \<open>A NULL pointer is less than every other; \<open>ss_before\<close>: the insertion point is before the split point.\<close>

definition ss_before :: "split_scan \<Rightarrow> bool" where
  "ss_before s \<longleftrightarrow> (case (ss_insertion s, ss_split s) of (Some i, Some j) \<Rightarrow> i < j | _ \<Rightarrow> False)"

text \<open>
  Where the tail with the new record does not fit a node, the split moves to the insertion point.
  \<open>None\<close>: one of the two assertions fails.
\<close>

definition split_adjust :: "16 word \<Rightarrow> 16 word \<Rightarrow> split_scan \<Rightarrow> split_scan option" where
  "split_adjust maxsz nrecsz s =
     (if \<not> ss_before s \<and> ss_tailsz s > maxsz then
        if nrecsz > maxsz div 2 \<and> unat (ss_headsz s) + unat nrecsz > unat maxsz
        then Some (s\<lparr>ss_split := ss_insertion s, ss_tailsz := ss_itailsz s\<rparr>)
        else None
      else Some s)"

end
