(* ===== verification/Btree.thy ===== *)
theory Btree
  imports BtreePhys BcacheSpec
begin

text \<open>
  The B-tree of \<^verbatim>\<open>btrees/btree.c\<close> over the block cache: space manager, node operations, insertion,
  lookup and removal. A \<^verbatim>\<open>btn_t\<close>, \<^verbatim>\<open>bm_t\<close> or \<^verbatim>\<open>sm_t\<close> is the address of its block in the cache. The
  state is the \<^verbatim>\<open>btree_t\<close> with the cache and its environment; the tree's lock is held from start to
  end of each entry point. Reading a block of another kind than expected stops the program in the
  model; the code checks the kind when it gets a block.
\<close>

section \<open>State\<close>

datatype bt_obj = SmObj | BmObj | BtnObj

record btree =
  bt_cmp :: "btr_phys \<Rightarrow> btr_phys \<Rightarrow> int"
  bt_bc :: "(bt_block, bt_obj, unit) bc_state"
  bt_root :: nat
  bt_sm :: nat

definition bt_phys :: "btree \<Rightarrow> nat \<Rightarrow> bt_block" where
  "bt_phys bt b = bl_phys (bc_blocks (fst (bt_bc bt)) b)"

definition bt_blkno :: "btree \<Rightarrow> nat \<Rightarrow> nat" where
  "bt_blkno bt b = bl_blkno (bc_blocks (fst (bt_bc bt)) b)"

definition bt_cache_op :: "((bt_block, bt_obj, unit) bc_state, 'r) prog \<Rightarrow> (btree, 'r) prog" where
  "bt_cache_op f bt =
     (case f (bt_bc bt) of
        Abort \<Rightarrow> Abort
      | Fail e c \<Rightarrow> Fail e (bt\<lparr>bt_bc := c\<rparr>)
      | Done r c \<Rightarrow> Done r (bt\<lparr>bt_bc := c\<rparr>))"

text \<open>Write to a block's buffer; mark a block dirty; do both.\<close>

definition bt_poke :: "nat \<Rightarrow> bt_block \<Rightarrow> btree \<Rightarrow> btree" where
  "bt_poke b d bt = bt\<lparr>bt_bc := (bc_upd b (\<lambda>x. x\<lparr>bl_phys := d\<rparr>) (fst (bt_bc bt)), snd (bt_bc bt))\<rparr>"

definition bt_dirty :: "nat \<Rightarrow> btree \<Rightarrow> btree" where
  "bt_dirty b bt = bt\<lparr>bt_bc := bc_dirty b (bt_bc bt)\<rparr>"

definition bt_store :: "nat \<Rightarrow> bt_block \<Rightarrow> btree \<Rightarrow> btree" where
  "bt_store b d bt = bt_dirty b (bt_poke b d bt)"

definition bt_release :: "nat \<Rightarrow> (btree, unit) prog" where
  "bt_release b = bt_cache_op (bc_release b)"

text \<open>The end of an error path that gives a block back.\<close>

definition release_fail :: "errno \<Rightarrow> nat \<Rightarrow> btree \<Rightarrow> ('r, btree) outcome" where
  "release_fail e b bt = (case bt_release b bt of Done _ bt1 \<Rightarrow> Fail e bt1 | _ \<Rightarrow> Abort)"

definition bt_alloc_with :: "(allocator, 'r) prog \<Rightarrow> (btree, 'r) prog" where
  "bt_alloc_with f bt =
     (let (bc, env) = bt_bc bt in
      case f (env_mem env) of
        Abort \<Rightarrow> Abort
      | Fail e m \<Rightarrow> Fail e (bt\<lparr>bt_bc := (bc, env\<lparr>env_mem := m\<rparr>)\<rparr>)
      | Done r m \<Rightarrow> Done r (bt\<lparr>bt_bc := (bc, env\<lparr>env_mem := m\<rparr>)\<rparr>))"

definition malloc_or_enomem :: "(allocator, unit) prog" where
  "malloc_or_enomem m = (let (ok, m1) = malloc m in if ok then Done () m1 else Fail ENOMEM m1)"

section \<open>The kinds of block\<close>

definition bm_bco_init :: "nat \<Rightarrow> nat \<Rightarrow> bt_block \<Rightarrow> (allocator \<times> unit, bt_obj) prog" where
  "bm_bco_init b n d st =
     (let (m, w) = st; (ok, m1) = malloc m in if \<not> ok then Fail ENOMEM (m1, w) else Done BmObj (m1, w))"

definition sm_bco_init :: "nat \<Rightarrow> nat \<Rightarrow> bt_block \<Rightarrow> (allocator \<times> unit, bt_obj) prog" where
  "sm_bco_init b n d st =
     (let (m, w) = st; (ok, m1) = malloc m in if \<not> ok then Fail ENOMEM (m1, w) else Done SmObj (m1, w))"

definition btn_bco_init :: "nat \<Rightarrow> nat \<Rightarrow> bt_block \<Rightarrow> (allocator \<times> unit, bt_obj) prog" where
  "btn_bco_init b n d st =
     (let (m, w) = st; (ok, m1) = malloc m in if \<not> ok then Fail ENOMEM (m1, w) else Done BtnObj (m1, w))"

text \<open>
  The checks of the three kinds need the tree (its block size, its root), which a block's operations do
  not get here: they are \<open>bm_bco_check\<close>, \<open>sm_bco_check\<close> and \<open>btn_bco_check\<close> in \<open>BtreeFile\<close>, and \<open>bt_check\<close>
  makes the calls of \<^verbatim>\<open>bco_check\<close> that \<^verbatim>\<open>bc_check\<close> makes in the code.
\<close>

definition bm_bco_ops :: "(bt_block, bt_obj, unit) bco_ops" where
  "bm_bco_ops = \<lparr>bco_init = bm_bco_init, bco_destroy = (\<lambda>bco w. w), bco_check = None\<rparr>"

definition sm_bco_ops :: "(bt_block, bt_obj, unit) bco_ops" where
  "sm_bco_ops = \<lparr>bco_init = sm_bco_init, bco_destroy = (\<lambda>bco w. w), bco_check = None\<rparr>"

definition btn_bco_ops :: "(bt_block, bt_obj, unit) bco_ops" where
  "btn_bco_ops = \<lparr>bco_init = btn_bco_init, bco_destroy = (\<lambda>bco w. w), bco_check = None\<rparr>"

section \<open>Bitmaps\<close>

definition bm_get :: "nat \<Rightarrow> (btree, nat) prog" where
  "bm_get blkno bt =
     andthen (bt_cache_op (bc_get blkno bm_bco_ops) bt) (\<lambda>(b, _) bt1.
       case bt_phys bt1 b of BmBlk _ \<Rightarrow> Done b bt1 | _ \<Rightarrow> release_fail EILSEQ b bt1)"

text \<open>The first free bit, set; where there is none, the index past the last bit.\<close>

fun bm_take_bit :: "nat \<Rightarrow> bool list \<Rightarrow> nat \<times> bool list" where
  "bm_take_bit 0 bits = (0, bits)"
| "bm_take_bit (Suc k) [] = (Suc k, [])"
| "bm_take_bit (Suc k) (b # bits) =
     (if \<not> b then (0, True # bits) else let (i, bits1) = bm_take_bit k bits in (Suc i, b # bits1))"

definition bm_balloc :: "16 word \<Rightarrow> nat \<Rightarrow> (btree, nat) prog" where
  "bm_balloc bsz b bt =
     (case bt_phys bt b of
        BmBlk bm \<Rightarrow>
          if bmp_nfree bm = 0 then Fail ENOENT bt
          else
            let (i, bits) = bm_take_bit (blks_per_bm bsz) (bmp_bm bm) in
            Done i (if i < blks_per_bm bsz
                    then bt_store b (BmBlk \<lparr>bmp_nfree = bmp_nfree bm - 1, bmp_bm = bits\<rparr>) bt else bt)
      | _ \<Rightarrow> Abort)"

definition bm_bfree :: "16 word \<Rightarrow> nat \<Rightarrow> nat \<Rightarrow> (btree, unit) prog" where
  "bm_bfree bsz b bmind bt =
     (case bt_phys bt b of
        BmBlk bm \<Rightarrow>
          if bmp_nfree bm \<noteq> 0 \<and> bmind < blks_per_bm bsz \<and> bmind < length (bmp_bm bm) \<and> bmp_bm bm ! bmind
          then Done () (bt_store b (BmBlk \<lparr>bmp_nfree = bmp_nfree bm + 1,
                                          bmp_bm = (bmp_bm bm)[bmind := False]\<rparr>) bt)
          else Abort
      | _ \<Rightarrow> Abort)"

section \<open>The space manager\<close>

definition BT_PHYS_SM_OFFSET :: nat where
  "BT_PHYS_SM_OFFSET = 0"

definition sm_get :: "(btree, nat) prog" where
  "sm_get bt =
     andthen (bt_cache_op (bc_get BT_PHYS_SM_OFFSET sm_bco_ops) bt) (\<lambda>(b, _) bt1.
       case bt_phys bt1 b of SmBlk _ \<Rightarrow> Done b bt1 | _ \<Rightarrow> release_fail EILSEQ b bt1)"

text \<open>The first bitmap with a free block, held, and the number of its first block.\<close>

fun sm_balloc_loop :: "sm_phys \<Rightarrow> nat \<Rightarrow> nat \<Rightarrow> (btree, (nat \<times> nat) option) prog" where
  "sm_balloc_loop smp i 0 bt = Done None bt"
| "sm_balloc_loop smp i (Suc k) bt =
     (if \<not> i < length (smp_map smp) then Abort
      else andthen (bm_get (smp_map smp ! i) bt) (\<lambda>b bt1.
        case bt_phys bt1 b of
          BmBlk bm \<Rightarrow>
            if bmp_nfree bm \<noteq> 0 then Done (Some (b, blks_per_bm (smp_bsz smp) * i mod 2 ^ 32)) bt1
            else andthen (bt_release b bt1) (\<lambda>_ bt2. sm_balloc_loop smp (Suc i) k bt2)
        | _ \<Rightarrow> Abort))"

definition sm_balloc :: "(btree, nat) prog" where
  "sm_balloc bt =
     (case bt_phys bt (bt_sm bt) of
        SmBlk smp \<Rightarrow>
          if blks_per_bm (smp_bsz smp) = 0 then Abort
          else andthen (sm_balloc_loop smp 0 (num_bm_blks (smp_nblocks smp) (blks_per_bm (smp_bsz smp))) bt) (\<lambda>r bt1.
            case r of
              None \<Rightarrow> Fail ENOSPC bt1
            | Some (b, base) \<Rightarrow>
                (case bm_balloc (smp_bsz smp) b bt1 of
                   Abort \<Rightarrow> Abort
                 | Fail e bt2 \<Rightarrow> release_fail e b bt2
                 | Done bmind bt2 \<Rightarrow> andthen (bt_release b bt2) (\<lambda>_ bt3. Done (base + bmind) bt3)))
      | _ \<Rightarrow> Abort)"

definition sm_bfree :: "nat \<Rightarrow> (btree, unit) prog" where
  "sm_bfree blkno bt =
     (case bt_phys bt (bt_sm bt) of
        SmBlk smp \<Rightarrow>
          let bpb = blks_per_bm (smp_bsz smp); mind = blkno div bpb mod 2 ^ 32 in
          if \<not> blkno < smp_nblocks smp \<or> bpb = 0 \<or> \<not> mind < length (smp_map smp) then Abort
          else andthen (bm_get (smp_map smp ! mind) bt) (\<lambda>b bt1.
            andthen (bm_bfree (smp_bsz smp) b (blkno mod bpb) bt1) (\<lambda>_ bt2. bt_release b bt2))
      | _ \<Rightarrow> Abort)"

section \<open>Getting nodes\<close>

text \<open>\<open>Some flags\<close>: a new node is laid out in the block, whatever it held.\<close>

definition btn_init_phys :: "nat \<Rightarrow> 16 word \<Rightarrow> (btree, unit) prog" where
  "btn_init_phys b flags bt =
     (case bt_phys bt (bt_sm bt) of
        SmBlk smp \<Rightarrow> Done () (bt_store b (NodeBlk (btn_init (smp_bsz smp) flags)) bt)
      | _ \<Rightarrow> Abort)"

definition btn_get :: "nat \<Rightarrow> 16 word option \<Rightarrow> (btree, nat) prog" where
  "btn_get blkno init bt =
     andthen (bt_cache_op (bc_get blkno btn_bco_ops) bt) (\<lambda>(b, _) bt1.
       case init of
         Some flags \<Rightarrow> andthen (btn_init_phys b flags bt1) (\<lambda>_ bt2. Done b bt2)
       | None \<Rightarrow> (case bt_phys bt1 b of NodeBlk _ \<Rightarrow> Done b bt1 | _ \<Rightarrow> release_fail EILSEQ b bt1))"

definition btn_alloc :: "16 word \<Rightarrow> (btree, nat) prog" where
  "btn_alloc flags bt = andthen (sm_balloc bt) (\<lambda>blkno bt1. btn_get blkno (Some flags) bt1)"

definition bt_max_inline_record_size :: "btree \<Rightarrow> 16 word" where
  "bt_max_inline_record_size bt = (case bt_phys bt (bt_sm bt) of SmBlk smp \<Rightarrow> max_inline (smp_bsz smp) | _ \<Rightarrow> 0)"

text \<open>The node count in the root's block; \<open>None\<close> when the block is not a root.\<close>

definition btn_root_info :: "btree \<Rightarrow> nat \<Rightarrow> 32 word option" where
  "btn_root_info bt b =
     (case bt_phys bt b of NodeBlk n \<Rightarrow> if btn_phys_is_root n then Some (btnp_info n) else None | _ \<Rightarrow> None)"

definition bt_info :: "btree \<Rightarrow> 32 word option" where
  "bt_info bt = btn_root_info bt (bt_root bt)"

text \<open>Add to the node count in the root's block, without marking it dirty.\<close>

definition root_info_add :: "32 word \<Rightarrow> (btree, unit) prog" where
  "root_info_add k bt =
     (case bt_phys bt (bt_root bt) of
        NodeBlk n \<Rightarrow>
          if btn_phys_is_root n then Done () (bt_poke (bt_root bt) (NodeBlk (n\<lparr>btnp_info := btnp_info n + k\<rparr>)) bt)
          else Abort
      | _ \<Rightarrow> Abort)"

definition btn_free :: "nat \<Rightarrow> (btree, unit) prog" where
  "btn_free b bt =
     andthen (sm_bfree (bt_blkno bt b) bt) (\<lambda>_ bt1.
       andthen (root_info_add (-1) bt1) (\<lambda>_ bt2. Done () (bt_dirty (bt_root bt2) bt2)))"

end
