(* ===== verification/BtreeOps.thy ===== *)
theory BtreeOps
  imports Btree
begin

text \<open>
  Insertion, lookup and removal in the B-tree of \<^verbatim>\<open>btrees/btree.c\<close>. The recursive functions get a
  stack depth; running out of it is a stack overflow (\<open>Abort\<close>).
\<close>

section \<open>Inserting into a node\<close>

text \<open>What a split hands up: the index records of the new nodes, the root's node count.\<close>

record btn_split_info =
  bsi_split_index1 :: "btr_phys option"
  bsi_split_index2 :: "btr_phys option"
  bsi_bip :: "32 word"

definition no_split :: btn_split_info where
  "no_split = \<lparr>bsi_split_index1 = None, bsi_split_index2 = None, bsi_bip = 0\<rparr>"

definition bsi_did_split :: "btn_split_info \<Rightarrow> bool" where
  "bsi_did_split bsi \<longleftrightarrow> bsi_split_index1 bsi \<noteq> None"

definition with_node :: "nat \<Rightarrow> (btn_phys \<Rightarrow> (btree, 'r) prog) \<Rightarrow> (btree, 'r) prog" where
  "with_node b f bt = (case bt_phys bt b of NodeBlk n \<Rightarrow> f n bt | _ \<Rightarrow> Abort)"

definition btn_insert_first_index_record :: "nat \<Rightarrow> nat \<Rightarrow> btr_phys \<Rightarrow> (btree, unit) prog" where
  "btn_insert_first_index_record b ptr x = with_node b (\<lambda>n bt.
     let recsz = btr_phys_size x + 8 in
     if recsz \<le> btnp_freespace n \<and> \<not> btn_phys_is_leaf n \<and> btnp_records n = []
     then Done () (bt_store b (NodeBlk (n\<lparr>btnp_ptr0 := ptr, btnp_records := [x],
                                         btnp_freespace := btnp_freespace n - recsz\<rparr>)) bt)
     else Abort)"

text \<open>The plain insertion, where the record fits.\<close>

definition btn_insert_record :: "nat \<Rightarrow> btr_phys \<Rightarrow> (btree, unit) prog" where
  "btn_insert_record b x = with_node b (\<lambda>n bt.
     case rec_place (bt_cmp bt) x (btnp_records n) of
       None \<Rightarrow> Fail EEXIST bt
     | Some (before, after) \<Rightarrow>
         Done () (bt_store b (NodeBlk (n\<lparr>btnp_records := before @ x # after,
                                         btnp_freespace := btnp_freespace n - btr_phys_size x\<rparr>)) bt))"

text \<open>
  The parts of \<^verbatim>\<open>btn_insert_split\<close>. A root is no root any more, and its node count goes up; the
  block is not marked dirty for that.
\<close>

definition split_unroot :: "nat \<Rightarrow> (btree, 32 word) prog" where
  "split_unroot b = with_node b (\<lambda>n bt.
     if btn_phys_is_root n
     then Done (btnp_info n)
       (bt_poke b (NodeBlk (n\<lparr>btnp_flags := btnp_flags n AND NOT BTN_PHYS_FLG_IS_ROOT,
                              btnp_freespace := btnp_freespace n + 4\<rparr>)) bt)
     else Done 0 bt)"

text \<open>Move the records from the split point on to the new node.\<close>

definition split_move :: "nat \<Rightarrow> nat \<Rightarrow> 16 word \<Rightarrow> split_scan \<Rightarrow> (btree, unit) prog" where
  "split_move b nb nrecsz s = with_node b (\<lambda>n. with_node nb (\<lambda>nn bt.
     case ss_split s of
       None \<Rightarrow> Done () bt
     | Some k \<Rightarrow>
         let movesz = (if ss_before s then ss_tailsz s else ss_tailsz s - nrecsz);
             n1 = n\<lparr>btnp_records := take k (btnp_records n), btnp_freespace := btnp_freespace n + movesz\<rparr>;
             nn1 = nn\<lparr>btnp_records := drop k (btnp_records n),
                      btnp_freespace := (if btn_phys_is_leaf nn then btnp_freespace nn - movesz
                                         else btnp_freespace nn - movesz - 8)\<rparr> in
         Done () (bt_store nb (NodeBlk nn1) (bt_store b (NodeBlk n1) bt))))"

text \<open>Put the new record into one of the two nodes; the new one may split once more.\<close>

definition split_place :: "(nat \<Rightarrow> btr_phys \<Rightarrow> (btree, btn_split_info) prog) \<Rightarrow> nat \<Rightarrow> nat \<Rightarrow> btr_phys \<Rightarrow> 16 word
    \<Rightarrow> 16 word \<Rightarrow> split_scan \<Rightarrow> (btree, btr_phys option) prog" where
  "split_place ins b nb x nrecsz maxsz s = with_node b (\<lambda>n bt.
     if ss_before s \<or> ss_tailsz s > maxsz \<and> nrecsz \<le> btnp_freespace n then
       andthen (ins b x bt) (\<lambda>rbsi bt1. if bsi_did_split rbsi then Abort else Done None bt1)
     else
       andthen (ins nb x bt) (\<lambda>rbsi. with_node b (\<lambda>n1 bt1.
         if \<not> bsi_did_split rbsi then Done None bt1
         else if ss_tailsz s > maxsz \<and> nrecsz > btnp_freespace n1
                 \<and> bsi_split_index2 rbsi = None \<and> bsi_bip rbsi = 0
         then Done (bsi_split_index1 rbsi) bt1
         else Abort)))"

text \<open>
  The index record for the new node is built from its first record; an empty record area reads as
  zeros, a record without key and value.
\<close>

definition split_index :: "nat \<Rightarrow> (btree, btr_phys) prog" where
  "split_index nb = with_node nb (\<lambda>nn bt.
     bt_alloc_with (btr_phys_build_index_record
       (case btnp_records nn of [] \<Rightarrow> \<lparr>btrp_key = [], btrp_val = []\<rparr> | r # _ \<Rightarrow> r) (bt_blkno bt nb)) bt)"

definition split_steps :: "(nat \<Rightarrow> btr_phys \<Rightarrow> (btree, btn_split_info) prog) \<Rightarrow> nat \<Rightarrow> nat \<Rightarrow> btr_phys
    \<Rightarrow> (btree, btn_split_info) prog" where
  "split_steps ins b nb x = with_node b (\<lambda>n bt.
     let nrecsz = btr_phys_size x; maxsz = bt_max_inline_record_size bt in
     case scan_records (bt_cmp bt) x maxsz nrecsz 0 (btnp_records n)
            \<lparr>ss_split = None, ss_insertion = None, ss_headsz = 0, ss_tailsz = 0, ss_itailsz = nrecsz\<rparr> of
       None \<Rightarrow> Fail EEXIST bt
     | Some s \<Rightarrow>
         andthen (split_unroot b bt) (\<lambda>bip bt1.
           case split_adjust maxsz nrecsz s of
             None \<Rightarrow> Abort
           | Some s1 \<Rightarrow>
               andthen (split_move b nb nrecsz s1 bt1) (\<lambda>_ bt2.
               andthen (split_place ins b nb x nrecsz maxsz s1 bt2) (\<lambda>index2 bt3.
               andthen (split_index nb bt3) (\<lambda>index1 bt4.
                 Done \<lparr>bsi_split_index1 = Some index1, bsi_split_index2 = index2, bsi_bip = bip\<rparr> bt4)))))"

text \<open>
  The error path only gives the new node's block back to the cache: the block stays allocated, and
  what was moved stays moved.
\<close>

definition btn_insert_split :: "(nat \<Rightarrow> btr_phys \<Rightarrow> (btree, btn_split_info) prog) \<Rightarrow> nat \<Rightarrow> btr_phys
    \<Rightarrow> (btree, btn_split_info) prog" where
  "btn_insert_split ins b x = with_node b (\<lambda>n bt.
     if \<not> btr_phys_size x > btnp_freespace n then Abort
     else
       andthen (bt_alloc_with malloc_or_enomem bt) (\<lambda>_ bt1.
       andthen (btn_alloc (if btn_phys_is_leaf n then BTN_PHYS_FLG_IS_LEAF else 0) bt1) (\<lambda>nb bt2.
         case split_steps ins b nb x bt2 of
           Abort \<Rightarrow> Abort
         | Fail e bt3 \<Rightarrow> release_fail e nb bt3
         | Done bsi bt3 \<Rightarrow> andthen (bt_release nb bt3) (\<lambda>_ bt4. Done bsi bt4))))"

fun btn_insert :: "nat \<Rightarrow> nat \<Rightarrow> btr_phys \<Rightarrow> (btree, btn_split_info) prog" where
  "btn_insert 0 b x bt = Abort"
| "btn_insert (Suc depth) b x bt = with_node b (\<lambda>n bt.
     if \<not> btn_phys_is_leaf n \<and> btnp_records n = [] then
       andthen (btn_insert_first_index_record b 0 x bt) (\<lambda>_ bt1. Done no_split bt1)
     else if btr_phys_size x > btnp_freespace n then btn_insert_split (btn_insert depth) b x bt
     else andthen (btn_insert_record b x bt) (\<lambda>_ bt1. Done no_split bt1)) bt"

definition btn_remove :: "nat \<Rightarrow> btr_phys \<Rightarrow> (btree, unit) prog" where
  "btn_remove b x = with_node b (\<lambda>n bt.
     case rec_remove (bt_cmp bt) x (btnp_records n) of
       None \<Rightarrow> Fail ENOENT bt
     | Some (before, r, after) \<Rightarrow>
         Done () (bt_store b (NodeBlk (n\<lparr>btnp_records := before @ after,
                                         btnp_freespace := btnp_freespace n + btr_phys_size r\<rparr>)) bt))"

section \<open>Inserting into the tree\<close>

text \<open>
  The child an index node sends a record to. Where the pointer is 0 the child was freed: a new leaf
  takes its place.
\<close>

definition bt_insert_child :: "nat \<Rightarrow> btr_phys \<Rightarrow> (btree, nat) prog" where
  "bt_insert_child b x = with_node b (\<lambda>n bt.
     let (ptr, i) = btn_route (bt_cmp bt) x n in
     if ptr = 0 then
       andthen (btn_alloc BTN_PHYS_FLG_IS_LEAF bt) (\<lambda>child.
         with_node b (\<lambda>n1 bt1.
           andthen (root_info_add 1 (bt_store b (NodeBlk (btn_set_ptr i (bt_blkno bt1 child) n1)) bt1)) (\<lambda>_ bt2.
             Done child (bt_dirty (bt_root bt2) bt2))))
     else btn_get ptr None bt)"

text \<open>The child split: its index record goes into this node; a second one stops the program.\<close>

definition bt_insert_up :: "(nat \<Rightarrow> btr_phys \<Rightarrow> (btree, btn_split_info) prog) \<Rightarrow> nat \<Rightarrow> btn_split_info
    \<Rightarrow> (btree, btn_split_info) prog" where
  "bt_insert_up ins b cbsi bt =
     (case bsi_split_index1 cbsi of
        None \<Rightarrow> Done no_split bt
      | Some index1 \<Rightarrow>
          andthen (root_info_add 1 bt) (\<lambda>_ bt1.
            case ins b index1 bt1 of
              Done ibsi bt2 \<Rightarrow>
                if bsi_split_index2 cbsi \<noteq> None then Abort else Done ibsi (bt_dirty (bt_root bt2) bt2)
            | _ \<Rightarrow> Abort))"

fun bt_insert_node :: "nat \<Rightarrow> nat \<Rightarrow> btr_phys \<Rightarrow> (btree, btn_split_info) prog" where
  "bt_insert_node 0 b x bt = Abort"
| "bt_insert_node (Suc depth) b x bt = with_node b (\<lambda>n bt.
     if btn_phys_is_leaf n then btn_insert (Suc depth) b x bt
     else andthen (bt_insert_child b x bt) (\<lambda>child bt1.
       case bt_insert_node depth child x bt1 of
         Abort \<Rightarrow> Abort
       | Fail e bt2 \<Rightarrow> release_fail e child bt2
       | Done cbsi bt2 \<Rightarrow>
           andthen (bt_insert_up (btn_insert (Suc depth)) b cbsi bt2) (\<lambda>bsi bt3.
             andthen (bt_release child bt3) (\<lambda>_ bt4. Done bsi bt4)))) bt"

text \<open>The two checks on the size of a record; the first is in 64-bit arithmetic.\<close>

definition bt_too_big :: "btree \<Rightarrow> btr_phys \<Rightarrow> bool" where
  "bt_too_big bt x \<longleftrightarrow>
     (ucast (btr_phys_index_size x) :: 64 word) > ucast (bt_max_inline_record_size bt) - 4 - 8
     \<or> btr_phys_size x > bt_max_inline_record_size bt"

text \<open>A new root over the old one and the node that was split off.\<close>

definition bt_new_root :: "nat \<Rightarrow> btn_split_info \<Rightarrow> (btree, btn_split_info) prog" where
  "bt_new_root depth bsi bt =
     andthen (bt_release (bt_root bt) bt) (\<lambda>_ bt1.
       case bt_phys bt1 (bt_sm bt1) of
         SmBlk smp \<Rightarrow>
           (case btn_alloc BTN_PHYS_FLG_IS_ROOT bt1 of
              Done rb bt2 \<Rightarrow>
                let bt3 = bt_store (bt_sm bt2) (SmBlk (smp\<lparr>smp_rblkno := bt_blkno bt2 rb\<rparr>)) (bt2\<lparr>bt_root := rb\<rparr>) in
                (case (bsi_split_index1 bsi, bt_phys bt3 rb) of
                   (Some index1, NodeBlk n) \<Rightarrow>
                     if bsi_bip bsi = 0 then Abort
                     else andthen (btn_insert_first_index_record rb (smp_rblkno smp) index1
                           (bt_poke rb (NodeBlk (n\<lparr>btnp_info := bsi_bip bsi + 2\<rparr>)) bt3)) (\<lambda>_ bt4.
                       case bsi_split_index2 bsi of
                         None \<Rightarrow> Done no_split bt4
                       | Some index2 \<Rightarrow>
                           andthen (root_info_add 1 bt4) (\<lambda>_ bt5.
                             case btn_insert depth rb index2 bt5 of Done bsi2 bt6 \<Rightarrow> Done bsi2 bt6 | _ \<Rightarrow> Abort))
                 | _ \<Rightarrow> Abort)
            | _ \<Rightarrow> Abort)
       | _ \<Rightarrow> Abort)"

definition bt_insert :: "nat \<Rightarrow> btr_phys \<Rightarrow> (btree, unit) prog" where
  "bt_insert depth x bt =
     (if bt_too_big bt x then Fail E2BIG bt
      else andthen (bt_insert_node depth (bt_root bt) x bt) (\<lambda>bsi1 bt1.
        if \<not> bsi_did_split bsi1 then Done () bt1
        else andthen (bt_new_root depth bsi1 bt1) (\<lambda>bsi2 bt2.
          if \<not> bsi_did_split bsi2 then Done () bt2
          else if bsi_split_index2 bsi2 \<noteq> None then Abort
          else andthen (bt_new_root depth bsi2 bt2) (\<lambda>_ bt3. Done () bt3))))"

section \<open>Looking up and removing\<close>

fun rec_find :: "(btr_phys \<Rightarrow> btr_phys \<Rightarrow> int) \<Rightarrow> btr_phys \<Rightarrow> btr_phys list \<Rightarrow> btr_phys option" where
  "rec_find cmp x [] = None"
| "rec_find cmp x (r # rs) = (if cmp x r = 0 then Some r else rec_find cmp x rs)"

text \<open>An error below an index node leaves the child held.\<close>

fun bt_find_node :: "nat \<Rightarrow> nat \<Rightarrow> btr_phys \<Rightarrow> (btree, btr_phys) prog" where
  "bt_find_node 0 b x bt = Abort"
| "bt_find_node (Suc depth) b x bt = with_node b (\<lambda>n bt.
     if btn_phys_is_leaf n then
       (case rec_find (bt_cmp bt) x (btnp_records n) of
          None \<Rightarrow> Fail ENOENT bt
        | Some r \<Rightarrow> andthen (bt_alloc_with malloc_or_enomem bt) (\<lambda>_ bt1. Done r bt1))
     else
       let (ptr, i) = btn_route (bt_cmp bt) x n in
       if ptr = 0 then Fail ENOENT bt
       else andthen (btn_get ptr None bt) (\<lambda>child bt1.
         andthen (bt_find_node depth child x bt1) (\<lambda>r bt2.
           andthen (bt_release child bt2) (\<lambda>_ bt3. Done r bt3)))) bt"

definition bt_find :: "nat \<Rightarrow> btr_phys \<Rightarrow> (btree, btr_phys) prog" where
  "bt_find depth x bt = bt_find_node depth (bt_root bt) x bt"

definition bt_update :: "btr_phys \<Rightarrow> (btree, unit) prog" where
  "bt_update x bt = Abort"

text \<open>After the removal below: an empty leaf is freed and its pointer cleared.\<close>

definition bt_remove_empty :: "nat \<Rightarrow> nat \<Rightarrow> nat \<Rightarrow> (btree, unit) prog" where
  "bt_remove_empty b i child = with_node child (\<lambda>cn bt.
     if btn_phys_is_leaf cn \<and> btn_phys_is_empty cn
     then andthen (btn_free child bt) (\<lambda>_. with_node b (\<lambda>n1 bt1.
       Done () (bt_store b (NodeBlk (btn_set_ptr i 0 n1)) bt1)))
     else Done () bt)"

fun bt_remove_node :: "nat \<Rightarrow> nat \<Rightarrow> btr_phys \<Rightarrow> (btree, unit) prog" where
  "bt_remove_node 0 b x bt = Abort"
| "bt_remove_node (Suc depth) b x bt = with_node b (\<lambda>n bt.
     if btn_phys_is_leaf n then btn_remove b x bt
     else
       let (ptr, i) = btn_route (bt_cmp bt) x n in
       if ptr = 0 then Fail ENOENT bt
       else andthen (btn_get ptr None bt) (\<lambda>child bt1.
         case andthen (bt_remove_node depth child x bt1) (\<lambda>_. bt_remove_empty b i child) of
           Abort \<Rightarrow> Abort
         | Fail e bt2 \<Rightarrow> release_fail e child bt2
         | Done _ bt2 \<Rightarrow> bt_release child bt2)) bt"

definition bt_remove :: "nat \<Rightarrow> btr_phys \<Rightarrow> (btree, unit) prog" where
  "bt_remove depth x bt = bt_remove_node depth (bt_root bt) x bt"

end
