(* ===== verification/BtreeCache.thy ===== *)
theory BtreeCache
  imports BtreeOps
begin

text \<open>
  The B-tree's view of the block cache: what the cache and the file hold together (\<open>bt_view\<close>), how
  often each block is held (\<open>bt_refs\<close>), and what getting, writing, marking and releasing a block do
  to them when I/O and memory do not fail and the cache has room.
\<close>

section \<open>Getting a block succeeds\<close>

definition init_succeeds :: "('d, 'o, 'w) bco_ops \<Rightarrow> bool" where
  "init_succeeds ops \<longleftrightarrow> (\<forall>b n d m w. never_fails m \<longrightarrow>
     (\<exists>bco m' w'. bco_init ops b n d (m, w) = Done bco (m', w') \<and> never_fails m'))"

definition calm :: "('d, 'w) bc_env \<Rightarrow> bool" where
  "calm env \<longleftrightarrow> env_io env = [] \<and> never_fails (env_mem env)"

lemma calm_pread: "calm env \<Longrightarrow> \<exists>env'. env_pread n env = (True, env_disk env n, env') \<and> calm env'"
  by (simp add: env_pread_def calm_def)

lemma calm_init:
  assumes "calm env" "init_succeeds ops"
  obtains bco env' where "env_init (bco_init ops b n d) env = Done bco env'" "calm env'"
proof -
  obtain bco m' w' where "bco_init ops b n d (env_mem env, env_world env) = Done bco (m', w')" "never_fails m'"
    using assms unfolding init_succeeds_def calm_def by blast
  with assms(1) show thesis
    by (intro that [of bco "env\<lparr>env_mem := m', env_world := w'\<rparr>"]) (simp_all add: env_init_def calm_def)
qed

lemma calm_reuse:
  assumes c: "calm env" and i: "init_succeeds ops"
  shows "\<exists>b' bco bc' env'. bc_reuse n ops b (bc, env) = Done (b', bco) (bc', env') \<and> calm env'"
proof -
  obtain env1 where p: "env_pread n env = (True, env_disk env n, env1)" "calm env1" using calm_pread [OF c] by blast
  let ?x = "(bc_blocks bc b)\<lparr>bl_phys := env_disk env n\<rparr>"
  let ?env2 = "env1\<lparr>env_world := bco_destroy (bl_bco_ops ?x) (bl_bco ?x) (env_world env1)\<rparr>"
  have "calm ?env2" using p(2) by (simp add: calm_def)
  then obtain bco env3 where e: "env_init (bco_init ops b n (env_disk env n)) ?env2 = Done bco env3" "calm env3"
    using i by (rule calm_init)
  then show ?thesis using p(1) by (simp add: bc_reuse_def Let_def bc_found_def)
qed

lemma calm_alloc:
  assumes c: "calm env" and i: "init_succeeds ops"
  shows "\<exists>b' bco bc' env'. bc_alloc n ops (bc, env) = Done (b', bco) (bc', env') \<and> calm env'"
proof -
  have m: "never_fails (env_mem env)" using c by (simp add: calm_def)
  obtain m1 where 1: "malloc (env_mem env) = (True, m1)" "never_fails m1" using malloc_ok [OF m] by blast
  obtain m2 where 2: "malloc m1 = (True, m2)" "never_fails m2" using malloc_ok [OF 1(2)] by blast
  obtain m3 where 3: "malloc m2 = (True, m3)" "never_fails m3" using malloc_ok [OF 2(2)] by blast
  obtain m4 where 4: "malloc m3 = (True, m4)" "never_fails m4" using malloc_ok [OF 3(2)] by blast
  have "calm (env\<lparr>env_mem := m4\<rparr>)" using c 4(2) by (simp add: calm_def)
  then obtain env1 where p: "env_pread n (env\<lparr>env_mem := m4\<rparr>) = (True, env_disk env n, env1)" "calm env1"
    using calm_pread [of "env\<lparr>env_mem := m4\<rparr>" n] by auto
  obtain bco env3 where e: "env_init (bco_init ops (bc_next bc) n (env_disk env n)) env1 = Done bco env3" "calm env3"
    by (rule calm_init [OF p(2) i])
  show ?thesis using 1 2 3 4 p e by (simp add: bc_alloc_def Let_def bc_found_def)
qed

lemma calm_write_out:
  assumes "calm env"
  shows "\<exists>bc' env'. bc_write_out b (bc, env) = Done () (bc', env') \<and> calm env'"
  using assms by (simp add: bc_write_out_def env_pwrite_def calm_def)

lemma bc_get_total:
  assumes l: "bc_lists_ok bc" and c: "calm env" and i: "init_succeeds ops"
    and room: "bc_currsz bc + bc_blksz bc \<le> bc_maxsz bc \<or> bc_fl bc \<noteq> []"
  shows "\<exists>b bco bc' env'. bc_get n ops (bc, env) = Done (b, bco) (bc', env') \<and> calm env'"
proof -
  note pos = bc_nbuckets_pos [OF l]
  let ?miss = "bc_stat (\<lambda>s. s\<lparr>bcs_misses := bcs_misses s + 1\<rparr>) bc"
  show ?thesis
  proof (cases "List.find (\<lambda>b. bl_blkno (bc_blocks bc b) = n) (bc_ht bc ! (n mod bc_nbuckets bc))")
    case (Some b)
    with pos c show ?thesis by (simp add: bc_get_def bc_found_def Let_def)
  next
    case None
    show ?thesis
    proof (cases "bc_currsz bc + bc_blksz bc > bc_maxsz bc")
      case False
      with None pos calm_alloc [OF c i, of n ?miss] show ?thesis by (simp add: bc_get_def Let_def)
    next
      case True
      with room obtain b bs where fl: "bc_fl bc = b # bs" by (cases "bc_fl bc") auto
      obtain bc1 env1 where w: "bc_write_out b (?miss, env) = Done () (bc1, env1)" "calm env1"
        using calm_write_out [OF c] by blast
      have "\<exists>b' bco bc' env'. bc_evict n ops (?miss, env) = Done (b', bco) (bc', env') \<and> calm env'"
        using fl w calm_reuse [OF w(2) i, of n b bc1] calm_reuse [OF c i, of n b ?miss] by (simp add: bc_evict_def)
      with None pos True show ?thesis by (simp add: bc_get_def Let_def)
    qed
  qed
qed

section \<open>The state of the tree over the cache\<close>

definition bt_view :: "btree \<Rightarrow> nat \<Rightarrow> bt_block" where
  "bt_view bt = st_view (bt_bc bt)"

definition bt_refs :: "btree \<Rightarrow> nat \<Rightarrow> nat" where
  "bt_refs bt = bc_refs (fst (bt_bc bt))"

definition bt_good :: "nat set \<Rightarrow> btree \<Rightarrow> bool" where
  "bt_good U bt \<longleftrightarrow> bc_lists_ok (fst (bt_bc bt)) \<and> bc_clean U (fst (bt_bc bt)) (env_disk (snd (bt_bc bt)))
     \<and> bc_fits (fst (bt_bc bt)) \<and> calm (snd (bt_bc bt)) \<and> (\<forall>b\<in>U. 0 < bt_refs bt b)"

definition bt_cap :: "btree \<Rightarrow> nat" where
  "bt_cap bt = unat (bc_maxsz (fst (bt_bc bt))) div unat (bc_blksz (fst (bt_bc bt)))"

definition bt_room :: "nat \<Rightarrow> btree \<Rightarrow> bool" where
  "bt_room k bt \<longleftrightarrow> card {b. 0 < bt_refs bt b} + k \<le> bt_cap bt"

definition held :: "btree \<Rightarrow> nat \<Rightarrow> nat \<Rightarrow> bool" where
  "held bt b n \<longleftrightarrow> 0 < bt_refs bt b \<and> bt_blkno bt b = n"

text \<open>What stays of a state: the blocks held, and the fields of the tree.\<close>

definition bt_frame :: "btree \<Rightarrow> btree \<Rightarrow> bool" where
  "bt_frame bt bt' \<longleftrightarrow> (\<forall>b. 0 < bt_refs bt b \<longrightarrow> 0 < bt_refs bt' b \<and> bt_blkno bt' b = bt_blkno bt b)
     \<and> bt_cmp bt' = bt_cmp bt \<and> bt_root bt' = bt_root bt \<and> bt_sm bt' = bt_sm bt \<and> bt_cap bt' = bt_cap bt"

lemma bt_frame_refl [simp]: "bt_frame bt bt"
  by (simp add: bt_frame_def)

lemma bt_frame_trans: "bt_frame bt bt1 \<Longrightarrow> bt_frame bt1 bt2 \<Longrightarrow> bt_frame bt bt2"
  by (simp add: bt_frame_def)

lemma bt_frameD:
  assumes "bt_frame bt bt'"
  shows "bt_cmp bt' = bt_cmp bt" "bt_root bt' = bt_root bt" "bt_sm bt' = bt_sm bt" "bt_cap bt' = bt_cap bt"
    "held bt b n \<Longrightarrow> held bt' b n"
  using assms by (auto simp: bt_frame_def held_def)

lemma finite_held: "finite {b. 0 < bt_refs bt b}"
proof (rule finite_subset)
  show "{b. 0 < bt_refs bt b} \<subseteq> bc_ids (fst (bt_bc bt))" by (auto simp: bt_refs_def bc_refs_def split: if_splits)
qed (simp add: bc_ids_def)

lemma bt_room_mono: "bt_room k bt \<Longrightarrow> j \<le> k \<Longrightarrow> bt_room j bt"
  by (simp add: bt_room_def)

lemma bt_room_refs: "bt_refs bt' = bt_refs bt \<Longrightarrow> bt_cap bt' = bt_cap bt \<Longrightarrow> bt_room k bt' = bt_room k bt"
  by (simp add: bt_room_def)

lemma bt_room_get:
  assumes "bt_room (Suc k) bt" "bt_refs bt' = (bt_refs bt)(b := bt_refs bt b + 1)" "bt_cap bt' = bt_cap bt"
  shows "bt_room k bt'"
proof -
  have "{x. 0 < bt_refs bt' x} = insert b {x. 0 < bt_refs bt x}" unfolding assms(2) by auto
  then have "card {x. 0 < bt_refs bt' x} \<le> Suc (card {x. 0 < bt_refs bt x})"
    using finite_held [of bt] by (simp add: card_insert_if)
  with assms(1,3) show ?thesis by (simp add: bt_room_def)
qed

lemma bt_goodD:
  assumes "bt_good U bt" "bt_bc bt = (bc, env)"
  shows "bc_lists_ok bc" "bc_clean U bc (env_disk env)" "bc_fits bc" "calm env" "b \<in> U \<Longrightarrow> 0 < bt_refs bt b"
  using assms by (simp_all add: bt_good_def)

lemma held_ids: "held bt b n \<Longrightarrow> b \<in> bc_ids (fst (bt_bc bt))"
  by (auto simp: held_def bt_refs_def bc_refs_def split: if_splits)

lemma held_phys:
  assumes "bt_good U bt" "held bt b n"
  shows "bt_phys bt b = bt_view bt n"
  using bc_view_in [of "fst (bt_bc bt)" b n] assms held_ids [OF assms(2)]
  by (simp add: bt_good_def bt_phys_def bt_view_def st_view_def held_def bt_blkno_def)

lemma held_unique:
  assumes "bt_good U bt" "held bt b n" "held bt b' n"
  shows "b = b'"
proof -
  have "inj_on (\<lambda>b. bl_blkno (bc_blocks (fst (bt_bc bt)) b)) (bc_ids (fst (bt_bc bt)))"
    using assms(1) bc_lists_okD(11) by (auto simp: bt_good_def)
  with held_ids [OF assms(2)] held_ids [OF assms(3)] assms(2,3) show ?thesis
    by (auto simp: inj_on_def held_def bt_blkno_def)
qed

section \<open>Getting, releasing, writing\<close>

lemma room_evict:
  assumes "bc_lists_ok bc" "bc_fits bc" "card {b. 0 < bc_refs bc b} < unat (bc_maxsz bc) div unat (bc_blksz bc)"
  shows "bc_currsz bc + bc_blksz bc \<le> bc_maxsz bc \<or> bc_fl bc \<noteq> []"
proof (rule disjCI)
  note D = bc_lists_okD [OF assms(1)]
  assume "\<not> bc_fl bc \<noteq> []"
  then have "bl_refcnt (bc_blocks bc b) \<noteq> 0" if "b \<in> bc_ids bc" for b using D(6) that by auto
  then have "{b. 0 < bc_refs bc b} = bc_ids bc" by (auto simp: bc_refs_def)
  moreover have "card (bc_ids bc) = length (concat (bc_ht bc))"
    unfolding bc_ids_def using D(1) by (intro distinct_card) (simp add: ht_ok_def)
  ultimately have "Suc (length (concat (bc_ht bc))) \<le> unat (bc_maxsz bc) div unat (bc_blksz bc)" using assms(3) by simp
  then have "Suc (length (concat (bc_ht bc))) * unat (bc_blksz bc) \<le> unat (bc_maxsz bc)"
    by (metis div_times_less_eq_dividend dual_order.trans mult_le_mono1)
  then have "unat (bc_currsz bc) + unat (bc_blksz bc) \<le> unat (bc_maxsz bc)" using D(9) by simp
  moreover have "unat (bc_currsz bc) + unat (bc_blksz bc) < 2 ^ 32"
    using calculation assms(2) by (simp add: bc_fits_def)
  ultimately show "bc_currsz bc + bc_blksz bc \<le> bc_maxsz bc"
    by (simp add: word_le_nat_alt unat_word_ariths)
qed

lemma bt_get_ok:
  assumes good: "bt_good U bt" and room: "bt_room (Suc k) bt" and ops: "init_succeeds ops"
  obtains b bco bt' where "bt_cache_op (bc_get n ops) bt = Done (b, bco) bt'" "bt_good U bt'"
    "bt_view bt' = bt_view bt" "bt_refs bt' = (bt_refs bt)(b := bt_refs bt b + 1)" "held bt' b n"
    "bt_frame bt bt'" "bt_room k bt'"
proof -
  obtain bc env where st: "bt_bc bt = (bc, env)" by (cases "bt_bc bt")
  note G = bt_goodD [OF good st]
  have "bc_currsz bc + bc_blksz bc \<le> bc_maxsz bc \<or> bc_fl bc \<noteq> []"
    using room_evict [OF G(1,3)] room st by (simp add: bt_room_def bt_refs_def bt_cap_def)
  then obtain b bco bc' env' where g: "bc_get n ops (bc, env) = Done (b, bco) (bc', env')" "calm env'"
    using bc_get_total [OF G(1,4) ops] by blast
  have p: "get_post U n b bco (bc, env) (bc', env')" by (rule bc_get_post [OF G(1-3) g(1)])
  let ?bt = "bt\<lparr>bt_bc := (bc', env')\<rparr>"
  have refs: "bt_refs ?bt = (bt_refs bt)(b := bt_refs bt b + 1)" using p st by (simp add: get_post_def bt_refs_def)
  have kept: "0 < bt_refs ?bt x \<and> bt_blkno ?bt x = bt_blkno bt x" if "0 < bt_refs bt x" for x
  proof -
    have x: "x \<in> bc_ids bc" "bl_refcnt (bc_blocks bc x) > 0"
      using that by (auto simp: bt_refs_def bc_refs_def st split: if_splits)
    have "bc_kept bc bc'" using p by (simp add: get_post_def)
    with x obtain r d where "bc_blocks bc' x = (bc_blocks bc x)\<lparr>bl_refcnt := r, bl_dirty := d\<rparr>"
      unfolding bc_kept_def by blast
    then have "bt_blkno ?bt x = bt_blkno bt x" by (simp add: bt_blkno_def st)
    moreover have "0 < bt_refs ?bt x" using refs that by simp
    ultimately show ?thesis by simp
  qed
  have cap: "bt_cap ?bt = bt_cap bt" using p st by (simp add: get_post_def bt_cap_def)
  show thesis
  proof (rule that [of b bco ?bt])
    show "bt_cache_op (bc_get n ops) bt = Done (b, bco) ?bt" by (simp add: bt_cache_op_def st g(1))
    show "bt_good U ?bt" using p g(2) G(3) refs G(5) by (simp add: bt_good_def get_post_def bc_fits_def)
    show "bt_view ?bt = bt_view bt" using p by (simp add: bt_view_def st_view_def get_post_def st)
    show "bt_refs ?bt = (bt_refs bt)(b := bt_refs bt b + 1)" by (rule refs)
    show "held ?bt b n" using p refs by (simp add: held_def get_post_def got_def bt_blkno_def)
    show "bt_frame bt ?bt" using kept cap by (simp add: bt_frame_def)
    show "bt_room k ?bt" by (rule bt_room_get [OF room refs cap])
  qed
qed

lemma bt_release_ok:
  assumes good: "bt_good U bt" and b: "0 < bt_refs bt b" "b \<notin> U \<or> 1 < bt_refs bt b"
  obtains bt' where "bt_release b bt = Done () bt'" "bt_good U bt'" "bt_view bt' = bt_view bt"
    "bt_refs bt' = (bt_refs bt)(b := bt_refs bt b - 1)" "bt_blkno bt' = bt_blkno bt" "bt_cmp bt' = bt_cmp bt"
    "bt_root bt' = bt_root bt" "bt_sm bt' = bt_sm bt" "bt_cap bt' = bt_cap bt"
proof -
  obtain bc env where st: "bt_bc bt = (bc, env)" by (cases "bt_bc bt")
  note G = bt_goodD [OF good st] and D = bc_lists_okD [OF bt_goodD(1) [OF good st]]
  have ids: "b \<in> bc_ids bc" and r: "bl_refcnt (bc_blocks bc b) \<noteq> 0" "bt_refs bt b = bl_refcnt (bc_blocks bc b)"
    using b by (auto simp: bt_refs_def bc_refs_def st split: if_splits)
  let ?bc1 = "bc_upd b (\<lambda>x. x\<lparr>bl_refcnt := bl_refcnt x - 1\<rparr>) bc"
  let ?bc = "if bl_refcnt (bc_blocks ?bc1 b) = 0 then ?bc1\<lparr>bc_fl := bc_fl ?bc1 @ [b]\<rparr> else ?bc1"
  let ?bt = "bt\<lparr>bt_bc := (?bc, env)\<rparr>"
  have run: "bc_release b (bc, env) = Done () (?bc, env)" using r(1) by (simp add: bc_release_def Let_def)
  have ids': "bc_ids ?bc = bc_ids bc" by simp
  have ok: "bc_lists_ok ?bc"
    by (rule bc_lists_ok_update [OF G(1)]) (use D(5,6,7,8) r(1) ids in auto)
  have view: "bc_view ?bc (env_disk env) = bc_view bc (env_disk env)" by (rule bc_view_same) auto
  have "bc_clean U ?bc (env_disk env)" using G(2) b(2) r(2) unfolding bc_clean_def ids' by auto
  moreover have refs: "bt_refs ?bt = (bt_refs bt)(b := bt_refs bt b - 1)"
    unfolding bt_refs_def bc_refs_def using ids by (auto simp: st)
  moreover have "\<forall>u\<in>U. 0 < bt_refs ?bt u" unfolding refs using G(5) b(2) by auto
  ultimately have "bt_good U ?bt" using ok G(3,4) by (simp add: bt_good_def bc_fits_def)
  moreover note refs
  moreover have "bt_blkno ?bt = bt_blkno bt" by (auto simp: bt_blkno_def st fun_eq_iff)
  moreover have "bt_cap ?bt = bt_cap bt" by (simp add: bt_cap_def st)
  moreover have "bt_release b bt = Done () ?bt" using run by (simp add: bt_release_def bt_cache_op_def st)
  moreover have "bt_view ?bt = bt_view bt" using view by (simp add: bt_view_def st_view_def st)
  ultimately show thesis by (intro that [of ?bt]) simp_all
qed

text \<open>Giving back what was got in between.\<close>

lemma bt_release_got:
  assumes good: "bt_good U bt1" and frame: "bt_frame bt bt1"
    and refs: "bt_refs bt1 = (bt_refs bt)(b := bt_refs bt b + 1)" and U: "\<forall>u\<in>U. 0 < bt_refs bt u"
  obtains bt' where "bt_release b bt1 = Done () bt'" "bt_good U bt'" "bt_view bt' = bt_view bt1"
    "bt_refs bt' = bt_refs bt" "bt_frame bt bt'"
proof -
  obtain bt' where r: "bt_release b bt1 = Done () bt'" "bt_good U bt'" "bt_view bt' = bt_view bt1"
    "bt_refs bt' = (bt_refs bt1)(b := bt_refs bt1 b - 1)" "bt_blkno bt' = bt_blkno bt1" "bt_cmp bt' = bt_cmp bt1"
    "bt_root bt' = bt_root bt1" "bt_sm bt' = bt_sm bt1" "bt_cap bt' = bt_cap bt1"
    by (rule bt_release_ok [OF good, of b]) (use refs U in auto)
  have refs': "bt_refs bt' = bt_refs bt" unfolding r(4) refs by simp
  have "bt_frame bt bt'" using frame r(5-9) refs' by (simp add: bt_frame_def)
  with r refs' show thesis by (intro that)
qed

lemma bc_upd_dirty:
  assumes l: "bc_lists_ok bc" and c: "bc_clean U bc disk" and b: "b \<in> bc_ids bc" "0 < bl_refcnt (bc_blocks bc b)"
  shows "bc_lists_ok (bc_upd b (\<lambda>x. x\<lparr>bl_phys := d\<rparr>) bc)" "bc_clean (insert b U) (bc_upd b (\<lambda>x. x\<lparr>bl_phys := d\<rparr>) bc) disk"
    "bc_view (bc_upd b (\<lambda>x. x\<lparr>bl_phys := d\<rparr>) bc) disk = (bc_view bc disk)(bl_blkno (bc_blocks bc b) := d)"
proof -
  note D = bc_lists_okD [OF l]
  let ?bc = "bc_upd b (\<lambda>x. x\<lparr>bl_phys := d\<rparr>) bc"
  show ok: "bc_lists_ok ?bc" by (rule bc_lists_ok_update [OF l]) (use D(5-8) in auto)
  show "bc_clean (insert b U) ?bc disk" using c b unfolding bc_clean_def by auto
  have key: "bl_blkno (bc_blocks ?bc x) = bl_blkno (bc_blocks bc x)" for x by simp
  have ids: "bc_ids ?bc = bc_ids bc" by simp
  have other: "bl_blkno (bc_blocks bc x) \<noteq> bl_blkno (bc_blocks bc b)" if "x \<in> bc_ids bc" "x \<noteq> b" for x
    using D(11) b(1) that by (auto simp: inj_on_def)
  show "bc_view ?bc disk = (bc_view bc disk)(bl_blkno (bc_blocks bc b) := d)"
  proof (rule bc_view_eqI [OF ok], unfold ids key)
    fix x assume "x \<in> bc_ids bc"
    then show "((bc_view bc disk)(bl_blkno (bc_blocks bc b) := d)) (bl_blkno (bc_blocks bc x)) = bl_phys (bc_blocks ?bc x)"
      using other [of x] bc_view_in [OF l] by auto
  next
    fix n assume n: "n \<notin> (\<lambda>x. bl_blkno (bc_blocks bc x)) ` bc_ids bc"
    then show "((bc_view bc disk)(bl_blkno (bc_blocks bc b) := d)) n = disk n"
      using b bc_view_out [OF n] by auto
  qed
qed

lemma bt_poke_ok:
  assumes good: "bt_good U bt" and b: "held bt b n"
  shows "bt_good (insert b U) (bt_poke b d bt)" "bt_view (bt_poke b d bt) = (bt_view bt)(n := d)"
    "bt_refs (bt_poke b d bt) = bt_refs bt" "bt_frame bt (bt_poke b d bt)" "bt_blkno (bt_poke b d bt) = bt_blkno bt"
proof -
  obtain bc env where st: "bt_bc bt = (bc, env)" by (cases "bt_bc bt")
  note G = bt_goodD [OF good st]
  have ids: "b \<in> bc_ids bc" "0 < bl_refcnt (bc_blocks bc b)" and n: "n = bl_blkno (bc_blocks bc b)"
    using b by (auto simp: held_def bt_refs_def bc_refs_def bt_blkno_def st split: if_splits)
  note P = bc_upd_dirty [OF G(1,2) ids, of d]
  show "bt_view (bt_poke b d bt) = (bt_view bt)(n := d)" using P(3) by (simp add: bt_view_def st_view_def bt_poke_def st n)
  show refs: "bt_refs (bt_poke b d bt) = bt_refs bt" by (auto simp: bt_refs_def bc_refs_def bt_poke_def st)
  have "\<forall>u\<in>insert b U. 0 < bt_refs (bt_poke b d bt) u" unfolding refs using G(5) b by (auto simp: held_def)
  then show "bt_good (insert b U) (bt_poke b d bt)" using P(1,2) G(3,4) by (simp add: bt_good_def bt_poke_def st bc_fits_def)
  show blk: "bt_blkno (bt_poke b d bt) = bt_blkno bt" by (auto simp: bt_blkno_def bt_poke_def st fun_eq_iff)
  show "bt_frame bt (bt_poke b d bt)" using refs blk by (simp add: bt_frame_def) (simp add: bt_poke_def bt_cap_def st)
qed

lemma bt_dirty_ok:
  assumes good: "bt_good U bt" and b: "0 < bt_refs bt b"
  shows "bt_good (U - {b}) (bt_dirty b bt)" "bt_view (bt_dirty b bt) = bt_view bt"
    "bt_refs (bt_dirty b bt) = bt_refs bt" "bt_frame bt (bt_dirty b bt)" "bt_blkno (bt_dirty b bt) = bt_blkno bt"
proof -
  obtain bc env where st: "bt_bc bt = (bc, env)" by (cases "bt_bc bt")
  note G = bt_goodD [OF good st] and D = bc_lists_okD [OF bt_goodD(1) [OF good st]]
  have ids: "b \<in> bc_ids bc" using b by (auto simp: bt_refs_def bc_refs_def st split: if_splits)
  let ?bc = "if bl_dirty (bc_blocks bc b) then bc
    else bc_upd b (\<lambda>x. x\<lparr>bl_dirty := True\<rparr>) bc\<lparr>bc_dl := b # bc_dl bc\<rparr>"
  have bt: "bt_dirty b bt = bt\<lparr>bt_bc := (?bc, env)\<rparr>" by (simp add: bt_dirty_def bc_dirty_def st)
  have ids': "bc_ids ?bc = bc_ids bc" by simp
  have ok: "bc_lists_ok ?bc"
    by (rule bc_lists_ok_update [OF G(1)]) (use D(5-8) ids in auto)
  have "bc_clean (U - {b}) ?bc (env_disk env)" using G(2) unfolding bc_clean_def ids' by auto
  note clean = this
  have "bc_view ?bc (env_disk env) = bc_view bc (env_disk env)" by (rule bc_view_same) auto
  then show "bt_view (bt_dirty b bt) = bt_view bt" by (simp add: bt bt_view_def st_view_def st)
  show refs: "bt_refs (bt_dirty b bt) = bt_refs bt" unfolding bt bt_refs_def bc_refs_def by (auto simp: st)
  have "\<forall>u\<in>U - {b}. 0 < bt_refs (bt_dirty b bt) u" unfolding refs using G(5) by blast
  with ok G(3,4) clean show "bt_good (U - {b}) (bt_dirty b bt)" by (simp add: bt bt_good_def bc_fits_def)
  show blk: "bt_blkno (bt_dirty b bt) = bt_blkno bt" by (auto simp: bt_blkno_def bt st fun_eq_iff)
  show "bt_frame bt (bt_dirty b bt)" using refs blk by (simp add: bt_frame_def) (simp add: bt bt_cap_def st)
qed

lemma bt_store_ok:
  assumes good: "bt_good U bt" and b: "held bt b n"
  shows "bt_good (U - {b}) (bt_store b d bt)" "bt_view (bt_store b d bt) = (bt_view bt)(n := d)"
    "bt_refs (bt_store b d bt) = bt_refs bt" "bt_frame bt (bt_store b d bt)" "bt_blkno (bt_store b d bt) = bt_blkno bt"
proof -
  note P = bt_poke_ok [OF good b, of d]
  have "0 < bt_refs (bt_poke b d bt) b" using P(3) b by (simp add: held_def)
  note D = bt_dirty_ok [OF P(1) this]
  have "insert b U - {b} = U - {b}" by blast
  then show "bt_good (U - {b}) (bt_store b d bt)" using D(1) by (simp add: bt_store_def)
  show "bt_view (bt_store b d bt) = (bt_view bt)(n := d)" using D(2) P(2) by (simp add: bt_store_def)
  show "bt_refs (bt_store b d bt) = bt_refs bt" using D(3) P(3) by (simp add: bt_store_def)
  show "bt_frame bt (bt_store b d bt)" using bt_frame_trans [OF P(4) D(4)] by (simp add: bt_store_def)
  show "bt_blkno (bt_store b d bt) = bt_blkno bt" using D(5) P(5) by (simp add: bt_store_def)
qed

text \<open>Memory for a record or a node's copy.\<close>

lemma bt_alloc_ok:
  assumes good: "bt_good U bt" and f: "\<And>m. never_fails m \<Longrightarrow> \<exists>m'. f m = Done r m' \<and> never_fails m'"
  obtains bt' where "bt_alloc_with f bt = Done r bt'" "bt_good U bt'" "bt_view bt' = bt_view bt"
    "bt_refs bt' = bt_refs bt" "bt_frame bt bt'" "bt_blkno bt' = bt_blkno bt"
proof -
  obtain bc env where st: "bt_bc bt = (bc, env)" by (cases "bt_bc bt")
  note G = bt_goodD [OF good st]
  obtain m' where m: "f (env_mem env) = Done r m'" "never_fails m'" using f G(4) unfolding calm_def by blast
  let ?bt = "bt\<lparr>bt_bc := (bc, env\<lparr>env_mem := m'\<rparr>)\<rparr>"
  have refs: "bt_refs ?bt = bt_refs bt" and blk: "bt_blkno ?bt = bt_blkno bt"
    by (simp_all add: bt_refs_def bt_blkno_def st fun_eq_iff)
  show thesis
  proof (rule that [of ?bt])
    show "bt_alloc_with f bt = Done r ?bt" by (simp add: bt_alloc_with_def st m(1))
    show "bt_good U ?bt" using G m(2) refs by (simp add: bt_good_def calm_def)
    show "bt_view ?bt = bt_view bt" by (simp add: bt_view_def st_view_def st)
    show "bt_frame bt ?bt" using refs blk by (simp add: bt_frame_def) (simp add: bt_cap_def st)
  qed (rule refs, rule blk)
qed

lemma malloc_or_enomem_ok: "never_fails m \<Longrightarrow> \<exists>m'. malloc_or_enomem m = Done () m' \<and> never_fails m'"
  using malloc_ok [of m] by (auto simp: malloc_or_enomem_def)

lemma build_index_ok: "never_fails m \<Longrightarrow> \<exists>m'. btr_phys_build_index_record r q m = Done (index_record r q) m' \<and> never_fails m'"
  using malloc_ok [of m] by (auto simp: btr_phys_build_index_record_def)

lemma bco_ops_succeed [simp]: "init_succeeds bm_bco_ops" "init_succeeds sm_bco_ops" "init_succeeds btn_bco_ops"
proof -
  have "\<exists>m'. malloc m = (True, m') \<and> never_fails m'" if "never_fails m" for m using malloc_ok [OF that] .
  then show "init_succeeds bm_bco_ops" "init_succeeds sm_bco_ops" "init_succeeds btn_bco_ops"
    unfolding init_succeeds_def bm_bco_ops_def sm_bco_ops_def btn_bco_ops_def
    by (fastforce simp: bm_bco_init_def sm_bco_init_def btn_bco_init_def)+
qed

end
