(* ===== verification/BtreeSpace.thy ===== *)
theory BtreeSpace
  imports BtreeCache
begin

text \<open>
  The space manager of the B-tree: the bitmaps say which blocks are allocated. Allocating a block
  gives one that was free, freeing gives it back, and nothing but the bitmaps changes.
\<close>

section \<open>Bitmaps\<close>

definition nfree_bits :: "bool list \<Rightarrow> nat" where
  "nfree_bits bits = length (filter Not bits)"

lemma bm_take_bit_correct:
  "False \<in> set bits \<Longrightarrow>
     \<exists>i<length bits. \<not> bits ! i \<and> bm_take_bit (length bits) bits = (i, bits[i := True])"
proof (induction bits)
  case (Cons b bits)
  show ?case
  proof (cases b)
    case True
    with Cons obtain i where "i < length bits" "\<not> bits ! i" "bm_take_bit (length bits) bits = (i, bits[i := True])" by auto
    with True show ?thesis by (intro exI [of _ "Suc i"]) simp
  qed auto
qed simp

lemma nfree_bits_set: "i < length bits \<Longrightarrow> \<not> bits ! i \<Longrightarrow> Suc (nfree_bits (bits[i := True])) = nfree_bits bits"
proof (induction bits arbitrary: i)
  case (Cons b bits)
  then show ?case by (cases i) (auto simp: nfree_bits_def)
qed simp

lemma nfree_bits_clear: "i < length bits \<Longrightarrow> bits ! i \<Longrightarrow> nfree_bits (bits[i := False]) = Suc (nfree_bits bits)"
proof (induction bits arbitrary: i)
  case (Cons b bits)
  then show ?case by (cases i) (auto simp: nfree_bits_def)
qed simp

definition bm_ok :: "nat \<Rightarrow> bt_block \<Rightarrow> bool" where
  "bm_ok bpb d \<longleftrightarrow> (case d of
     BmBlk bm \<Rightarrow> length (bmp_bm bm) = bpb \<and> unat (bmp_nfree bm) = nfree_bits (bmp_bm bm)
   | _ \<Rightarrow> False)"

lemma bm_okE:
  assumes "bm_ok bpb d"
  obtains bm where "d = BmBlk bm" "length (bmp_bm bm) = bpb" "unat (bmp_nfree bm) = nfree_bits (bmp_bm bm)"
  using assms by (auto simp: bm_ok_def split: bt_block.splits)

section \<open>The map of allocated blocks\<close>

definition sm_bpb :: "sm_phys \<Rightarrow> nat" where
  "sm_bpb smp = blks_per_bm (smp_bsz smp)"

definition sm_maps :: "sm_phys \<Rightarrow> nat list" where
  "sm_maps smp = take (num_bm_blks (smp_nblocks smp) (sm_bpb smp)) (smp_map smp)"

definition blk_bits :: "bt_block \<Rightarrow> bool list" where
  "blk_bits d = (case d of BmBlk bm \<Rightarrow> bmp_bm bm | _ \<Rightarrow> [])"

definition allocated :: "sm_phys \<Rightarrow> (nat \<Rightarrow> bt_block) \<Rightarrow> nat \<Rightarrow> bool" where
  "allocated smp V n \<longleftrightarrow> n div sm_bpb smp < length (sm_maps smp)
     \<and> blk_bits (V (sm_maps smp ! (n div sm_bpb smp))) ! (n mod sm_bpb smp)"

definition free_blocks :: "sm_phys \<Rightarrow> (nat \<Rightarrow> bt_block) \<Rightarrow> nat" where
  "free_blocks smp V = (\<Sum>m\<leftarrow>sm_maps smp. nfree_bits (blk_bits (V m)))"

text \<open>A block of the file that is none of the space manager's.\<close>

definition data_block :: "sm_phys \<Rightarrow> nat \<Rightarrow> bool" where
  "data_block smp n \<longleftrightarrow> n \<noteq> 0 \<and> n \<notin> set (sm_maps smp) \<and> n < smp_nblocks smp"

text \<open>The bits of a last bitmap that stand for no block are set.\<close>

definition space_ok :: "sm_phys \<Rightarrow> (nat \<Rightarrow> bt_block) \<Rightarrow> bool" where
  "space_ok smp V \<longleftrightarrow> V 0 = SmBlk smp \<and> 0 < sm_bpb smp
     \<and> length (sm_maps smp) = num_bm_blks (smp_nblocks smp) (sm_bpb smp)
     \<and> sm_bpb smp * length (sm_maps smp) \<le> 2 ^ 32 \<and> distinct (sm_maps smp) \<and> 0 \<notin> set (sm_maps smp)
     \<and> (\<forall>m\<in>set (sm_maps smp). bm_ok (sm_bpb smp) (V m) \<and> allocated smp V m) \<and> allocated smp V 0
     \<and> (\<forall>n\<ge>smp_nblocks smp. n < sm_bpb smp * length (sm_maps smp) \<longrightarrow> allocated smp V n)
     \<and> smp_nblocks smp \<le> sm_bpb smp * length (sm_maps smp)"

lemma space_okD:
  assumes "space_ok smp V"
  shows "V 0 = SmBlk smp" "0 < sm_bpb smp" "length (sm_maps smp) = num_bm_blks (smp_nblocks smp) (sm_bpb smp)"
    "sm_bpb smp * length (sm_maps smp) \<le> 2 ^ 32" "distinct (sm_maps smp)" "0 \<notin> set (sm_maps smp)"
    "m \<in> set (sm_maps smp) \<Longrightarrow> bm_ok (sm_bpb smp) (V m)" "m \<in> set (sm_maps smp) \<Longrightarrow> allocated smp V m"
    "allocated smp V 0" "smp_nblocks smp \<le> n \<Longrightarrow> n < sm_bpb smp * length (sm_maps smp) \<Longrightarrow> allocated smp V n"
    "smp_nblocks smp \<le> sm_bpb smp * length (sm_maps smp)"
  using assms by (auto simp: space_ok_def)

lemma free_is_data:
  assumes "space_ok smp V" "\<not> allocated smp V n" "n div sm_bpb smp < length (sm_maps smp)"
  shows "data_block smp n"
proof -
  note S = space_okD [OF assms(1)]
  have "n < length (sm_maps smp) * sm_bpb smp" using assms(3) S(2) by (simp add: div_less_iff_less_mult)
  then have "n < smp_nblocks smp" using S(10) [of n] assms(2) by (simp add: mult.commute) (metis not_le)
  with assms(2) S(8,9) show ?thesis unfolding data_block_def by metis
qed

lemma nth_map_in: "allocated smp V n \<Longrightarrow> sm_maps smp ! (n div sm_bpb smp) \<in> set (sm_maps smp)"
  by (auto simp: allocated_def)

lemma data_block_upd:
  assumes "data_block smp n"
  shows "allocated smp (V(n := d)) k = allocated smp V k" "free_blocks smp (V(n := d)) = free_blocks smp V"
proof -
  have "sm_maps smp ! i \<noteq> n" if "i < length (sm_maps smp)" for i using assms nth_mem [OF that] by (auto simp: data_block_def)
  then show "allocated smp (V(n := d)) k = allocated smp V k" by (auto simp: allocated_def)
  have "map (\<lambda>m. nfree_bits (blk_bits ((V(n := d)) m))) (sm_maps smp) = map (\<lambda>m. nfree_bits (blk_bits (V m))) (sm_maps smp)"
    using assms by (auto simp: data_block_def)
  then show "free_blocks smp (V(n := d)) = free_blocks smp V" unfolding free_blocks_def by (rule arg_cong)
qed

lemma space_ok_upd: "space_ok smp V \<Longrightarrow> data_block smp n \<Longrightarrow> space_ok smp (V(n := d))"
  by (auto simp: space_ok_def data_block_upd) (auto simp: data_block_def)

text \<open>Only the root's number in the space manager changes.\<close>

lemma rblkno_upd [simp]:
  "sm_bpb (smp\<lparr>smp_rblkno := r\<rparr>) = sm_bpb smp" "sm_maps (smp\<lparr>smp_rblkno := r\<rparr>) = sm_maps smp"
  "allocated (smp\<lparr>smp_rblkno := r\<rparr>) = allocated smp" "free_blocks (smp\<lparr>smp_rblkno := r\<rparr>) = free_blocks smp"
  "data_block (smp\<lparr>smp_rblkno := r\<rparr>) = data_block smp"
  by (simp_all add: sm_bpb_def sm_maps_def allocated_def free_blocks_def data_block_def fun_eq_iff)

lemma space_ok_rblkno:
  assumes "space_ok smp V"
  shows "space_ok (smp\<lparr>smp_rblkno := r\<rparr>) (V(0 := SmBlk (smp\<lparr>smp_rblkno := r\<rparr>)))"
    "allocated smp (V(0 := SmBlk d)) k = allocated smp V k" "free_blocks smp (V(0 := SmBlk d)) = free_blocks smp V"
proof -
  note S = space_okD [OF assms]
  have ne: "sm_maps smp ! i \<noteq> 0" if "i < length (sm_maps smp)" for i using S(6) nth_mem [OF that] by metis
  then show a: "allocated smp (V(0 := SmBlk d)) k = allocated smp V k" for k d
  proof (cases "k div sm_bpb smp < length (sm_maps smp)")
    case True
    from ne [OF this] show ?thesis by (simp add: allocated_def)
  qed (simp add: allocated_def)
  have "map (\<lambda>m. nfree_bits (blk_bits ((V(0 := SmBlk d)) m))) (sm_maps smp) = map (\<lambda>m. nfree_bits (blk_bits (V m))) (sm_maps smp)"
    using S(6) by auto
  then show "free_blocks smp (V(0 := SmBlk d)) = free_blocks smp V" unfolding free_blocks_def by (rule arg_cong)
  show "space_ok (smp\<lparr>smp_rblkno := r\<rparr>) (V(0 := SmBlk (smp\<lparr>smp_rblkno := r\<rparr>)))"
    using assms by (auto simp: space_ok_def a)
qed

text \<open>A bitmap block changes in one bit.\<close>

definition bit_step :: "sm_phys \<Rightarrow> nat \<Rightarrow> bool \<Rightarrow> (nat \<Rightarrow> bt_block) \<Rightarrow> (nat \<Rightarrow> bt_block) \<Rightarrow> bool" where
  "bit_step smp n v V V' \<longleftrightarrow> space_ok smp V' \<and> (\<forall>k. k \<notin> set (sm_maps smp) \<longrightarrow> V' k = V k)
     \<and> (\<forall>k. allocated smp V' k \<longleftrightarrow> (if k = n then v else allocated smp V k))
     \<and> (if v then Suc (free_blocks smp V') = free_blocks smp V else free_blocks smp V' = Suc (free_blocks smp V))"

lemma bit_stepI:
  assumes space: "space_ok smp V" and n: "n div sm_bpb smp < length (sm_maps smp)"
    and m: "m = sm_maps smp ! (n div sm_bpb smp)" "V m = BmBlk bm" and old: "bmp_bm bm ! (n mod sm_bpb smp) = (\<not> v)"
    and nfree: "unat nf = nfree_bits ((bmp_bm bm)[n mod sm_bpb smp := v])" and keep: "v \<or> data_block smp n"
  shows "bit_step smp n v V (V(m := BmBlk \<lparr>bmp_nfree = nf, bmp_bm = (bmp_bm bm)[n mod sm_bpb smp := v]\<rparr>))"
proof -
  note S = space_okD [OF space]
  let ?i = "n mod sm_bpb smp" and ?V = "V(m := BmBlk \<lparr>bmp_nfree = nf, bmp_bm = (bmp_bm bm)[n mod sm_bpb smp := v]\<rparr>)"
  have mem: "m \<in> set (sm_maps smp)" using n m(1) by simp
  have len: "length (bmp_bm bm) = sm_bpb smp" using S(7) [OF mem] m(2) by (simp add: bm_ok_def)
  have i: "?i < length (bmp_bm bm)" using S(2) len by simp
  have bit: "blk_bits (?V (sm_maps smp ! (k div sm_bpb smp))) ! (k mod sm_bpb smp) \<longleftrightarrow>
      (if k = n then v else blk_bits (V (sm_maps smp ! (k div sm_bpb smp))) ! (k mod sm_bpb smp))"
    if k: "k div sm_bpb smp < length (sm_maps smp)" for k
  proof (cases "sm_maps smp ! (k div sm_bpb smp) = m")
    case True
    then have d: "k div sm_bpb smp = n div sm_bpb smp" using m(1) S(5) k n by (simp add: nth_eq_iff_index_eq)
    have "k = n \<longleftrightarrow> k mod sm_bpb smp = ?i"
      using d by (metis div_mult_mod_eq)
    with True i m(2) show ?thesis by (auto simp: blk_bits_def)
  qed (use m(1) in auto)
  have alloc: "allocated smp ?V k \<longleftrightarrow> (if k = n then v else allocated smp V k)" for k
    using bit [of k] n by (cases "k = n") (auto simp: allocated_def)
  have other: "V k = ?V k" if "k \<notin> set (sm_maps smp)" for k using mem that by auto
  have "m \<noteq> 0" using mem S(6) by metis
  then have "space_ok smp ?V"
    unfolding space_ok_def
  proof (intro conjI ballI)
    fix k assume k: "k \<in> set (sm_maps smp)"
    show "bm_ok (sm_bpb smp) (?V k)" using S(7) [OF k] len nfree by (auto simp: bm_ok_def)
    show "allocated smp ?V k" using alloc [of k] S(8) [OF k] keep k by (auto simp: data_block_def)
  next
    show "allocated smp ?V 0" using alloc [of 0] S(9) keep by (auto simp: data_block_def)
    show "smp_nblocks smp \<le> sm_bpb smp * length (sm_maps smp)" by (rule S(11))
    show "\<forall>k\<ge>smp_nblocks smp. k < sm_bpb smp * length (sm_maps smp) \<longrightarrow> allocated smp ?V k"
      using alloc S(10) keep by (auto simp: data_block_def)
  qed (use S in auto)
  moreover have "if v then Suc (free_blocks smp ?V) = free_blocks smp V else free_blocks smp ?V = Suc (free_blocks smp V)"
  proof -
    obtain xs ys where split: "sm_maps smp = xs @ m # ys" using mem by (meson split_list)
    have "m \<notin> set xs \<union> set ys" using S(5) unfolding split by auto
    then have f: "map (\<lambda>k. nfree_bits (blk_bits (?V k))) xs = map (\<lambda>k. nfree_bits (blk_bits (V k))) xs"
      "map (\<lambda>k. nfree_bits (blk_bits (?V k))) ys = map (\<lambda>k. nfree_bits (blk_bits (V k))) ys" by auto
    have "if v then Suc (nfree_bits ((bmp_bm bm)[?i := v])) = nfree_bits (bmp_bm bm)
        else nfree_bits ((bmp_bm bm)[?i := v]) = Suc (nfree_bits (bmp_bm bm))"
      using nfree_bits_set [OF i] nfree_bits_clear [OF i] old by (cases v) auto
    then show ?thesis unfolding free_blocks_def split map_append list.map f
      by (cases v) (auto simp: blk_bits_def m(2))
  qed
  ultimately show ?thesis using alloc other unfolding bit_step_def by auto
qed

section \<open>Allocating and freeing blocks\<close>

lemma bm_get_ok:
  assumes good: "bt_good U bt" and room: "bt_room (Suc k) bt" and bm: "bt_view bt m = BmBlk bm"
  obtains b bt' where "bm_get m bt = Done b bt'" "bt_good U bt'" "bt_view bt' = bt_view bt"
    "bt_refs bt' = (bt_refs bt)(b := bt_refs bt b + 1)" "held bt' b m" "bt_frame bt bt'" "bt_room k bt'"
proof -
  obtain b bco bt' where g: "bt_cache_op (bc_get m bm_bco_ops) bt = Done (b, bco) bt'" "bt_good U bt'"
    "bt_view bt' = bt_view bt" "bt_refs bt' = (bt_refs bt)(b := bt_refs bt b + 1)" "held bt' b m"
    "bt_frame bt bt'" "bt_room k bt'"
    by (rule bt_get_ok [OF good room, of bm_bco_ops m]) simp_all
  have "bt_phys bt' b = BmBlk bm" using held_phys [OF g(2,5)] g(3) bm by simp
  with g show thesis by (intro that [of b bt']) (simp_all add: bm_get_def)
qed

lemma nfree_bits_0: "nfree_bits bits = 0 \<longleftrightarrow> False \<notin> set bits"
  by (induction bits) (auto simp: nfree_bits_def)

lemma nfree_pos:
  assumes "bm_ok bpb (BmBlk bm)"
  shows "bmp_nfree bm \<noteq> 0 \<longleftrightarrow> False \<in> set (bmp_bm bm)"
proof -
  have "bmp_nfree bm \<noteq> 0 \<longleftrightarrow> unat (bmp_nfree bm) \<noteq> 0" by (simp add: unat_eq_zero)
  also have "\<dots> \<longleftrightarrow> nfree_bits (bmp_bm bm) \<noteq> 0" using assms by (simp add: bm_ok_def)
  finally show ?thesis by (simp add: nfree_bits_0)
qed

text \<open>The search for a bitmap with a free block.\<close>

lemma sm_balloc_loop_ok:
  assumes "bt_good U bt" "bt_room (Suc k) bt" "space_ok smp (bt_view bt)"
    and "i + cnt = length (sm_maps smp)" "\<exists>j. i \<le> j \<and> j < i + cnt \<and> False \<in> set (blk_bits (bt_view bt (sm_maps smp ! j)))"
  shows "\<exists>j b bt'. sm_balloc_loop smp i cnt bt = Done (Some (b, sm_bpb smp * j mod 2 ^ 32)) bt'
    \<and> j < length (sm_maps smp) \<and> False \<in> set (blk_bits (bt_view bt (sm_maps smp ! j)))
    \<and> bt_good U bt' \<and> bt_view bt' = bt_view bt \<and> bt_refs bt' = (bt_refs bt)(b := bt_refs bt b + 1)
    \<and> held bt' b (sm_maps smp ! j) \<and> bt_frame bt bt' \<and> bt_room k bt'"
  using assms
proof (induction cnt arbitrary: i bt)
  case (Suc cnt)
  note S = space_okD [OF Suc.prems(3)]
  have i: "i < length (sm_maps smp)" using Suc.prems(4) by simp
  then have m: "smp_map smp ! i = sm_maps smp ! i" "i < length (smp_map smp)" by (simp_all add: sm_maps_def)
  obtain bm where bm: "bt_view bt (sm_maps smp ! i) = BmBlk bm" "bm_ok (sm_bpb smp) (BmBlk bm)"
    using S(7) [OF nth_mem [OF i]] by (auto simp: bm_ok_def split: bt_block.splits)
  obtain b bt1 where g: "bm_get (sm_maps smp ! i) bt = Done b bt1" "bt_good U bt1" "bt_view bt1 = bt_view bt"
    "bt_refs bt1 = (bt_refs bt)(b := bt_refs bt b + 1)" "held bt1 b (sm_maps smp ! i)" "bt_frame bt bt1" "bt_room k bt1"
    by (rule bm_get_ok [OF Suc.prems(1,2) bm(1)])
  have phys: "bt_phys bt1 b = BmBlk bm" using held_phys [OF g(2,5)] g(3) bm(1) by simp
  show ?case
  proof (cases "bmp_nfree bm = 0")
    case False
    with bm(2) have "False \<in> set (blk_bits (bt_view bt (sm_maps smp ! i)))" by (simp add: nfree_pos blk_bits_def bm(1))
    with False g i m phys show ?thesis
      by (intro exI [of _ i] exI [of _ b] exI [of _ bt1]) (simp add: sm_bpb_def)
  next
    case True
    then have none: "False \<notin> set (blk_bits (bt_view bt (sm_maps smp ! i)))" using nfree_pos [OF bm(2)] by (simp add: blk_bits_def bm(1))
    have U: "\<forall>u\<in>U. 0 < bt_refs bt u" using Suc.prems(1) by (simp add: bt_good_def)
    obtain bt2 where r: "bt_release b bt1 = Done () bt2" "bt_good U bt2" "bt_view bt2 = bt_view bt"
      "bt_refs bt2 = bt_refs bt" "bt_frame bt bt2"
      using bt_release_got [OF g(2,6,4) U] g(3) by metis
    have room2: "bt_room (Suc k) bt2" using Suc.prems(2) bt_room_refs [OF r(4) bt_frameD(4) [OF r(5)]] by simp
    have "\<exists>j. Suc i \<le> j \<and> j < Suc i + cnt \<and> False \<in> set (blk_bits (bt_view bt2 (sm_maps smp ! j)))"
    proof -
      obtain j where j: "i \<le> j" "j < i + Suc cnt" "False \<in> set (blk_bits (bt_view bt (sm_maps smp ! j)))"
        using Suc.prems(5) by blast
      with none have "j \<noteq> i" by auto
      with j r(3) show ?thesis by (intro exI [of _ j]) simp
    qed
    then obtain j b' bt' where IH: "sm_balloc_loop smp (Suc i) cnt bt2 = Done (Some (b', sm_bpb smp * j mod 2 ^ 32)) bt'"
      "j < length (sm_maps smp)" "False \<in> set (blk_bits (bt_view bt (sm_maps smp ! j)))"
      "bt_good U bt'" "bt_view bt' = bt_view bt" "bt_refs bt' = (bt_refs bt)(b' := bt_refs bt b' + 1)"
      "held bt' b' (sm_maps smp ! j)" "bt_frame bt2 bt'" "bt_room k bt'"
      using Suc.IH [of bt2 "Suc i"] r(2-4) room2 Suc.prems(3,4) by (metis add_Suc_right add_Suc_shift)
    have "bt_frame bt bt'" using bt_frame_trans [OF r(5) IH(8)] .
    moreover have "sm_balloc_loop smp i (Suc cnt) bt = Done (Some (b', sm_bpb smp * j mod 2 ^ 32)) bt'"
      using IH(1) g(1) m phys True r(1) by simp
    ultimately show ?thesis using IH by blast
  qed
qed auto

lemma sm_balloc_ok:
  assumes good: "bt_good U bt" and room: "bt_room (Suc k) bt" and space: "space_ok smp (bt_view bt)"
    and sm: "held bt (bt_sm bt) 0" and free: "0 < free_blocks smp (bt_view bt)"
  obtains n bt' where "sm_balloc bt = Done n bt'" "bt_good U bt'" "bit_step smp n True (bt_view bt) (bt_view bt')"
    "\<not> allocated smp (bt_view bt) n" "bt_refs bt' = bt_refs bt" "bt_frame bt bt'"
proof -
  note S = space_okD [OF space]
  have phys: "bt_phys bt (bt_sm bt) = SmBlk smp" using held_phys [OF good sm] S(1) by simp
  have ex: "\<exists>j. 0 \<le> j \<and> j < 0 + length (sm_maps smp) \<and> False \<in> set (blk_bits (bt_view bt (sm_maps smp ! j)))"
  proof -
    obtain m where m: "m \<in> set (sm_maps smp)" "nfree_bits (blk_bits (bt_view bt m)) \<noteq> 0"
    proof (rule ccontr)
      assume "\<not> thesis"
      with that have "\<forall>m\<in>set (sm_maps smp). nfree_bits (blk_bits (bt_view bt m)) = 0" by blast
      then have "free_blocks smp (bt_view bt) = 0" by (auto simp: free_blocks_def sum_list_eq_0_iff)
      with free show False by simp
    qed
    then have "False \<in> set (blk_bits (bt_view bt m))" by (auto simp: nfree_bits_def filter_empty_conv)
    with m(1) show ?thesis by (auto simp: in_set_conv_nth)
  qed
  obtain j b bt1 where l: "sm_balloc_loop smp 0 (length (sm_maps smp)) bt = Done (Some (b, sm_bpb smp * j mod 2 ^ 32)) bt1"
    and j: "j < length (sm_maps smp)" "False \<in> set (blk_bits (bt_view bt (sm_maps smp ! j)))"
    and g: "bt_good U bt1" "bt_view bt1 = bt_view bt" "bt_refs bt1 = (bt_refs bt)(b := bt_refs bt b + 1)"
      "held bt1 b (sm_maps smp ! j)" "bt_frame bt bt1" "bt_room k bt1"
    using sm_balloc_loop_ok [OF good room space _ ex] by auto
  let ?m = "sm_maps smp ! j"
  obtain bm where bm: "bt_view bt ?m = BmBlk bm" "bm_ok (sm_bpb smp) (BmBlk bm)"
    using S(7) [OF nth_mem [OF j(1)]] by (auto simp: bm_ok_def split: bt_block.splits)
  have len: "length (bmp_bm bm) = sm_bpb smp" using bm(2) by (simp add: bm_ok_def)
  have F: "False \<in> set (bmp_bm bm)" using j(2) by (simp add: bm(1) blk_bits_def)
  from bm_take_bit_correct [OF this] obtain i where i: "i < sm_bpb smp" "\<not> bmp_bm bm ! i"
    "bm_take_bit (sm_bpb smp) (bmp_bm bm) = (i, (bmp_bm bm)[i := True])" unfolding len by blast
  have phys1: "bt_phys bt1 b = BmBlk bm" using held_phys [OF g(1,4)] g(2) bm(1) by simp
  have nz: "bmp_nfree bm \<noteq> 0" using nfree_pos [OF bm(2)] F by simp
  let ?d = "BmBlk \<lparr>bmp_nfree = bmp_nfree bm - 1, bmp_bm = (bmp_bm bm)[i := True]\<rparr>"
  let ?bt2 = "bt_store b ?d bt1"
  have ba: "bm_balloc (smp_bsz smp) b bt1 = Done i ?bt2"
    using phys1 nz i by (simp add: bm_balloc_def sm_bpb_def)
  note st = bt_store_ok [OF g(1,4), of ?d]
  have U: "\<forall>u\<in>U - {b}. 0 < bt_refs bt u" using good by (auto simp: bt_good_def)
  have refs2: "bt_refs ?bt2 = (bt_refs bt)(b := bt_refs bt b + 1)" using st(3) g(3) by simp
  obtain bt3 where r: "bt_release b ?bt2 = Done () bt3" "bt_good (U - {b}) bt3" "bt_view bt3 = bt_view ?bt2"
    "bt_refs bt3 = bt_refs bt" "bt_frame bt bt3"
    using bt_release_got [OF st(1) bt_frame_trans [OF g(5) st(4)] refs2 U] by metis
  have good3: "bt_good U bt3"
    using r(2) good r(4) by (auto simp: bt_good_def bc_clean_def)
  define n where "n = sm_bpb smp * j + i"
  have n: "n div sm_bpb smp = j" "n mod sm_bpb smp = i" using i(1) by (simp_all add: n_def)
  have "sm_bpb smp * j < sm_bpb smp * length (sm_maps smp)" using j(1) S(2) by simp
  from less_le_trans [OF this S(4)] have small: "sm_bpb smp * j mod 2 ^ 32 = sm_bpb smp * j" by (rule mod_less)
  have run: "sm_balloc bt = Done n bt3"
    using phys l S(2,3) ba r(1) small by (simp add: sm_balloc_def sm_bpb_def n_def)
  have nf: "unat (bmp_nfree bm - 1) = nfree_bits ((bmp_bm bm)[i := True])"
  proof -
    have "Suc (nfree_bits ((bmp_bm bm)[i := True])) = unat (bmp_nfree bm)"
      using nfree_bits_set [of i "bmp_bm bm"] i len bm(2) by (simp add: bm_ok_def)
    with nz show ?thesis by (simp add: unat_minus_one)
  qed
  have "bit_step smp n True (bt_view bt) ((bt_view bt)(?m := ?d))"
    using bit_stepI [OF space, of n ?m bm True "bmp_nfree bm - 1"] n j(1) bm(1) i(2) nf by simp
  moreover have "bt_view bt3 = (bt_view bt)(?m := ?d)" using r(3) st(2) g(2) by simp
  ultimately have step: "bit_step smp n True (bt_view bt) (bt_view bt3)" by simp
  have "\<not> allocated smp (bt_view bt) n" using n i(2) bm(1) by (simp add: allocated_def blk_bits_def)
  with run good3 step r(4,5) show thesis by (intro that)
qed

lemma sm_bfree_ok:
  assumes good: "bt_good U bt" and room: "bt_room (Suc k) bt" and space: "space_ok smp (bt_view bt)"
    and sm: "held bt (bt_sm bt) 0" and n: "allocated smp (bt_view bt) n" "data_block smp n"
    and free: "False \<in> set (blk_bits (bt_view bt (sm_maps smp ! (n div sm_bpb smp))))"
  obtains bt' where "sm_bfree n bt = Done () bt'" "bt_good U bt'" "bit_step smp n False (bt_view bt) (bt_view bt')"
    "bt_refs bt' = bt_refs bt" "bt_frame bt bt'"
proof -
  note S = space_okD [OF space]
  have phys: "bt_phys bt (bt_sm bt) = SmBlk smp" using held_phys [OF good sm] S(1) by simp
  let ?j = "n div sm_bpb smp" and ?i = "n mod sm_bpb smp"
  let ?m = "sm_maps smp ! ?j"
  have j: "?j < length (sm_maps smp)" using n(1) by (simp add: allocated_def)
  have m: "smp_map smp ! ?j = ?m" "?j < length (smp_map smp)" using j by (simp_all add: sm_maps_def)
  obtain bm where bm: "bt_view bt ?m = BmBlk bm" "bm_ok (sm_bpb smp) (BmBlk bm)"
    using S(7) [OF nth_mem [OF j]] by (auto simp: bm_ok_def split: bt_block.splits)
  have len: "length (bmp_bm bm) = sm_bpb smp" using bm(2) by (simp add: bm_ok_def)
  have i: "?i < sm_bpb smp" using S(2) by simp
  have bit: "bmp_bm bm ! ?i" using n(1) bm(1) by (simp add: allocated_def blk_bits_def)
  have nz: "bmp_nfree bm \<noteq> 0" using nfree_pos [OF bm(2)] free by (simp add: blk_bits_def bm(1))
  obtain b bt1 where g: "bm_get ?m bt = Done b bt1" "bt_good U bt1" "bt_view bt1 = bt_view bt"
    "bt_refs bt1 = (bt_refs bt)(b := bt_refs bt b + 1)" "held bt1 b ?m" "bt_frame bt bt1" "bt_room k bt1"
    by (rule bm_get_ok [OF good room bm(1)])
  have phys1: "bt_phys bt1 b = BmBlk bm" using held_phys [OF g(2,5)] g(3) bm(1) by simp
  let ?d = "BmBlk \<lparr>bmp_nfree = bmp_nfree bm + 1, bmp_bm = (bmp_bm bm)[?i := False]\<rparr>"
  let ?bt2 = "bt_store b ?d bt1"
  have bf: "bm_bfree (smp_bsz smp) b ?i bt1 = Done () ?bt2"
    using phys1 nz i bit len by (simp add: bm_bfree_def sm_bpb_def)
  note st = bt_store_ok [OF g(2,5), of ?d]
  have U: "\<forall>u\<in>U - {b}. 0 < bt_refs bt u" using good by (auto simp: bt_good_def)
  have refs2: "bt_refs ?bt2 = (bt_refs bt)(b := bt_refs bt b + 1)" using st(3) g(4) by simp
  obtain bt3 where r: "bt_release b ?bt2 = Done () bt3" "bt_good (U - {b}) bt3" "bt_view bt3 = bt_view ?bt2"
    "bt_refs bt3 = bt_refs bt" "bt_frame bt bt3"
    using bt_release_got [OF st(1) bt_frame_trans [OF g(6) st(4)] refs2 U] by metis
  have good3: "bt_good U bt3"
    using r(2) good r(4) by (auto simp: bt_good_def bc_clean_def)
  have lt: "sm_bpb smp * ?j < sm_bpb smp * length (sm_maps smp)" using j S(2) by simp
  have "?j \<le> sm_bpb smp * ?j" using S(2) by simp
  then have "?j < 2 ^ 32" using less_le_trans [OF lt S(4)] by (rule le_less_trans)
  then have small: "?j mod 2 ^ 32 = ?j" by simp
  have run: "sm_bfree n bt = Done () bt3"
    using phys n(2) S(2) m g(1) bf r(1) small by (simp add: sm_bfree_def sm_bpb_def Let_def data_block_def)
  have nf: "unat (bmp_nfree bm + 1) = nfree_bits ((bmp_bm bm)[?i := False])"
  proof -
    have 1: "nfree_bits ((bmp_bm bm)[?i := False]) = Suc (unat (bmp_nfree bm))"
      using nfree_bits_clear [of ?i "bmp_bm bm"] i bit len bm(2) by (simp add: bm_ok_def)
    have "nfree_bits ((bmp_bm bm)[?i := False]) \<le> sm_bpb smp"
      using length_filter_le [of Not "(bmp_bm bm)[?i := False]"] len by (simp add: nfree_bits_def)
    moreover have "sm_bpb smp < 2 ^ LENGTH(32)" unfolding sm_bpb_def blks_per_bm_def by (rule unsigned_less)
    ultimately show ?thesis using 1 by (simp add: unat_word_ariths)
  qed
  have "bit_step smp n False (bt_view bt) ((bt_view bt)(?m := ?d))"
    using bit_stepI [OF space j refl bm(1), of False "bmp_nfree bm + 1"] bit nf n(2) by simp
  moreover have "bt_view bt3 = (bt_view bt)(?m := ?d)" using r(3) st(2) g(3) by simp
  ultimately have "bit_step smp n False (bt_view bt) (bt_view bt3)" by simp
  with run good3 r(4,5) show thesis by (intro that)
qed

lemma bit_stepD:
  assumes "bit_step smp n v V V'"
  shows "space_ok smp V'" "data_block smp k \<Longrightarrow> V' k = V k" "allocated smp V' k \<longleftrightarrow> (if k = n then v else allocated smp V k)"
    "v \<Longrightarrow> Suc (free_blocks smp V') = free_blocks smp V" "\<not> v \<Longrightarrow> free_blocks smp V' = Suc (free_blocks smp V)"
  using assms by (auto simp: bit_step_def data_block_def)

section \<open>Getting and allocating nodes\<close>

lemma btn_get_ok:
  assumes good: "bt_good U bt" and room: "bt_room (Suc k) bt" and n: "bt_view bt p = NodeBlk n"
  obtains b bt' where "btn_get p None bt = Done b bt'" "bt_good U bt'" "bt_view bt' = bt_view bt"
    "bt_refs bt' = (bt_refs bt)(b := bt_refs bt b + 1)" "held bt' b p" "bt_frame bt bt'" "bt_room k bt'"
proof -
  obtain b bco bt' where g: "bt_cache_op (bc_get p btn_bco_ops) bt = Done (b, bco) bt'" "bt_good U bt'"
    "bt_view bt' = bt_view bt" "bt_refs bt' = (bt_refs bt)(b := bt_refs bt b + 1)" "held bt' b p"
    "bt_frame bt bt'" "bt_room k bt'"
    by (rule bt_get_ok [OF good room, of btn_bco_ops p]) simp_all
  have "bt_phys bt' b = NodeBlk n" using held_phys [OF g(2,5)] g(3) n by simp
  with g show thesis by (intro that [of b bt']) (simp_all add: btn_get_def)
qed

lemma btn_alloc_ok:
  assumes good: "bt_good U bt" and room: "bt_room (Suc k) bt" and space: "space_ok smp (bt_view bt)"
    and sm: "held bt (bt_sm bt) 0" and free: "0 < free_blocks smp (bt_view bt)"
    and held: "\<forall>u\<in>U. allocated smp (bt_view bt) (bt_blkno bt u)"
  obtains q b V bt' where "btn_alloc flags bt = Done b bt'" "bt_good U bt'" "bit_step smp q True (bt_view bt) V"
    "bt_view bt' = V(q := NodeBlk (btn_init (smp_bsz smp) flags))"
    "data_block smp q" "\<not> allocated smp (bt_view bt) q" "bt_refs bt' = (bt_refs bt)(b := bt_refs bt b + 1)"
    "held bt' b q" "bt_frame bt bt'" "bt_room k bt'"
proof -
  obtain q bt1 where a: "sm_balloc bt = Done q bt1" "bt_good U bt1" "bit_step smp q True (bt_view bt) (bt_view bt1)"
    "\<not> allocated smp (bt_view bt) q" "bt_refs bt1 = bt_refs bt" "bt_frame bt bt1"
    by (rule sm_balloc_ok [OF good room space sm free])
  have room1: "bt_room (Suc k) bt1" using room bt_room_refs [OF a(5) bt_frameD(4) [OF a(6)]] by simp
  obtain b bco bt2 where g: "bt_cache_op (bc_get q btn_bco_ops) bt1 = Done (b, bco) bt2" "bt_good U bt2"
    "bt_view bt2 = bt_view bt1" "bt_refs bt2 = (bt_refs bt1)(b := bt_refs bt1 b + 1)" "held bt2 b q"
    "bt_frame bt1 bt2" "bt_room k bt2"
    by (rule bt_get_ok [OF a(2) room1, of btn_bco_ops q]) simp_all
  let ?bt = "bt_store b (NodeBlk (btn_init (smp_bsz smp) flags)) bt2"
  note st = bt_store_ok [OF g(2,5), of "NodeBlk (btn_init (smp_bsz smp) flags)"]
  note frame = bt_frame_trans [OF a(6) g(6)]
  have sm2: "held bt2 (bt_sm bt2) 0" using sm bt_frameD(3,5) [OF frame] by simp
  have "bt_view bt2 0 = SmBlk smp" using g(3) space_okD(1) [OF bit_stepD(1) [OF a(3)]] by simp
  then have phys: "bt_phys bt2 (bt_sm bt2) = SmBlk smp" using held_phys [OF g(2) sm2] by simp
  have "b \<notin> U"
  proof
    assume b: "b \<in> U"
    then have "0 < bt_refs bt b" using good by (simp add: bt_good_def)
    then have "bt_blkno bt2 b = bt_blkno bt b" using frame by (simp add: bt_frame_def)
    with g(5) bspec [OF held b] a(4) show False by (simp add: held_def)
  qed
  then have "U - {b} = U" by blast
  with st(1) have good': "bt_good U ?bt" by simp
  show thesis
  proof (rule that [of b ?bt q "bt_view bt1"])
    show "btn_alloc flags bt = Done b ?bt"
      using a(1) g(1) phys by (simp add: btn_alloc_def btn_get_def btn_init_phys_def)
    show "bt_view ?bt = (bt_view bt1)(q := NodeBlk (btn_init (smp_bsz smp) flags))" using st(2) g(3) by simp
    have "allocated smp (bt_view bt1) q" using a(3) by (simp add: bit_step_def)
    then show "data_block smp q" by (intro free_is_data [OF space a(4)]) (simp add: allocated_def)
    show "bt_refs ?bt = (bt_refs bt)(b := bt_refs bt b + 1)" using st(3) g(4) a(5) by simp
    show "held ?bt b q" by (rule bt_frameD(5) [OF st(4) g(5)])
    show "bt_frame bt ?bt" by (rule bt_frame_trans [OF frame st(4)])
    show "bt_room k ?bt" using g(7) bt_room_refs [OF st(3) bt_frameD(4) [OF st(4)]] by simp
  qed (use a(3,4) good' in simp_all)
qed

end
