(* ===== verification/BtreeNode.thy ===== *)
theory BtreeNode
  imports BtreeSpace
begin

text \<open>
  Nodes of the B-tree: sizes as natural numbers, the place of a record, where an overfull node is
  split, and insertion into one node. The records are taken to be small, at most about a quarter of
  a block: then one split is enough and the points the code picks are good ones.
\<close>

section \<open>Sizes\<close>

definition rsz :: "btr_phys \<Rightarrow> nat" where
  "rsz r = 4 + length (btrp_key r) + length (btrp_val r)"

definition rszs :: "btr_phys list \<Rightarrow> nat" where
  "rszs rs = sum_list (map rsz rs)"

lemma rszs_simps [simp]: "rszs [] = 0" "rszs (r # rs) = rsz r + rszs rs" "rszs (xs @ ys) = rszs xs + rszs ys"
  by (simp_all add: rszs_def)

lemma rszs_take_drop: "rszs (take k rs) + rszs (drop k rs) = rszs rs"
  by (metis append_take_drop_id rszs_simps(3))

lemma rszs_take_Suc: "i < length rs \<Longrightarrow> rszs (take (Suc i) rs) = rszs (take i rs) + rsz (rs ! i)"
  by (simp add: take_Suc_conv_app_nth)

lemma unat_add16: "unat (a :: 16 word) + unat b < 65536 \<Longrightarrow> unat (a + b) = unat a + unat b"
  by (simp add: unat_word_ariths)

lemma unat_sub16: "unat (b :: 16 word) \<le> unat a \<Longrightarrow> unat (a - b) = unat a - unat b"
  by (simp add: unat_sub word_le_nat_alt)

lemma size_word: "rsz r < 65536 \<Longrightarrow> unat (btr_phys_size r) = rsz r"
  by (simp add: btr_phys_size_def rsz_def unat_word_ariths unat_of_nat mod_add_left_eq mod_add_right_eq)

lemma sizes_word: "rszs rs < 65536 \<Longrightarrow> unat (recs_size rs) = rszs rs"
proof (induction rs)
  case (Cons r rs)
  then have "unat (btr_phys_size r) = rsz r" "unat (recs_size rs) = rszs rs" using size_word [of r] by simp_all
  with Cons.prems show ?case by (simp add: recs_size_def unat_add16)
qed (simp add: recs_size_def)

definition max_rec :: "16 word \<Rightarrow> nat" where
  "max_rec bsz = (unat bsz - 34) div 4"

text \<open>A record and the index record built from it.\<close>

definition small_rec :: "16 word \<Rightarrow> btr_phys \<Rightarrow> bool" where
  "small_rec bsz r \<longleftrightarrow> rsz r \<le> max_rec bsz \<and> 12 + length (btrp_key r) \<le> max_rec bsz"

definition bsz_ok :: "16 word \<Rightarrow> bool" where
  "bsz_ok bsz \<longleftrightarrow> 82 \<le> unat bsz \<and> unat bsz \<le> 32768"

lemma max_rec_bounds:
  assumes "bsz_ok bsz"
  shows "4 * max_rec bsz + 24 \<le> unat (max_inline bsz)" "unat (max_inline bsz) + 10 = unat bsz" "12 \<le> max_rec bsz"
    "unat (max_inline bsz div 2) = unat (max_inline bsz) div 2"
proof -
  have "unat (10 :: 16 word) \<le> unat bsz" using assms by (simp add: bsz_ok_def)
  then have m: "unat (max_inline bsz) = unat bsz - 10" by (simp add: max_inline_def unat_sub16)
  with assms show "4 * max_rec bsz + 24 \<le> unat (max_inline bsz)" "unat (max_inline bsz) + 10 = unat bsz" "12 \<le> max_rec bsz"
    by (auto simp: max_rec_def bsz_ok_def)
  show "unat (max_inline bsz div 2) = unat (max_inline bsz) div 2" by (simp add: unat_div)
qed

section \<open>The split point\<close>

definition scan_inv :: "(btr_phys \<Rightarrow> btr_phys \<Rightarrow> int) \<Rightarrow> btr_phys \<Rightarrow> nat \<Rightarrow> nat \<Rightarrow> btr_phys list \<Rightarrow> nat \<Rightarrow> split_scan \<Rightarrow> bool" where
  "scan_inv cmp x W M recs i st \<longleftrightarrow>
     (case ss_insertion st of
        None \<Rightarrow> (\<forall>j<i. 0 < cmp x (recs ! j)) \<and> unat (ss_itailsz st) = rsz x
      | Some j \<Rightarrow> j < i \<and> (\<forall>l<j. 0 < cmp x (recs ! l)) \<and> cmp x (recs ! j) < 0)
     \<and> (case ss_split st of
        None \<Rightarrow> unat (ss_headsz st) = rszs (take i recs) + (if ss_insertion st = None then 0 else rsz x)
          \<and> unat (ss_headsz st) < W div 2 + M \<and> ss_tailsz st = 0
      | Some k \<Rightarrow> 0 < k \<and> k < i \<and> k < length recs
          \<and> unat (ss_tailsz st) = rszs (drop k recs) + (if ss_before st then 0 else rsz x)
          \<and> rszs (take k recs) + (if ss_before st then rsz x else 0) < W div 2 + M \<and> W div 2 \<le> rszs (take k recs) + rsz x)"

text \<open>The middle of an iteration: like \<open>scan_inv\<close>, but the split may be at this very record.\<close>

definition scan_mid :: "(btr_phys \<Rightarrow> btr_phys \<Rightarrow> int) \<Rightarrow> btr_phys \<Rightarrow> nat \<Rightarrow> nat \<Rightarrow> btr_phys list \<Rightarrow> nat \<Rightarrow> nat \<Rightarrow> split_scan \<Rightarrow> bool" where
  "scan_mid cmp x W M recs i j st \<longleftrightarrow>
     (case ss_insertion st of
        None \<Rightarrow> (\<forall>l<j. 0 < cmp x (recs ! l)) \<and> unat (ss_itailsz st) = rsz x
      | Some l \<Rightarrow> l < j \<and> (\<forall>m<l. 0 < cmp x (recs ! m)) \<and> cmp x (recs ! l) < 0)
     \<and> (case ss_split st of
        None \<Rightarrow> unat (ss_headsz st) = rszs (take i recs) + (if ss_insertion st = None then 0 else rsz x)
          \<and> unat (ss_headsz st) < W div 2 \<and> ss_tailsz st = 0
      | Some k \<Rightarrow> 0 < k \<and> k \<le> i \<and> k < length recs
          \<and> unat (ss_tailsz st) = rszs (drop k recs) + (if ss_before st then 0 else rsz x)
          \<and> rszs (take k recs) + (if ss_before st then rsz x else 0) < W div 2 + M \<and> W div 2 \<le> rszs (take k recs) + rsz x)"

lemma scan_split_ok:
  assumes inv: "scan_inv cmp x W M recs i st" and i: "i < length recs" and W: "W = unat maxsz" "0 < W div 2"
    and s: "unat nrecsz = rsz x" "rszs recs + rsz x < 65536"
  shows "scan_mid cmp x W M recs i i (scan_split maxsz nrecsz i (drop i recs) st)"
proof (cases "ss_split st = None \<and> ss_headsz st \<ge> maxsz div 2")
  case False
  with inv show ?thesis
    by (auto simp: scan_inv_def scan_mid_def scan_split_def W(1) word_le_nat_alt unat_div split: option.splits)
next
  case True
  then have none: "ss_split st = None" and big: "W div 2 \<le> unat (ss_headsz st)"
    by (simp_all add: word_le_nat_alt W(1) unat_div)
  have inv': "unat (ss_headsz st) = rszs (take i recs) + (if ss_insertion st = None then 0 else rsz x)"
    "unat (ss_headsz st) < W div 2 + M" "ss_tailsz st = 0"
    using inv none by (simp_all add: scan_inv_def)
  have i0: "0 < i"
  proof (rule ccontr)
    assume "\<not> 0 < i"
    then have "ss_insertion st = None" using inv by (auto simp: scan_inv_def split: option.splits)
    with \<open>\<not> 0 < i\<close> inv'(1) big W(2) show False by simp
  qed
  have tail: "rszs (drop i recs) + rsz x < 65536" using s(2) rszs_take_drop [of i recs] by linarith
  then have "unat (recs_size (drop i recs)) = rszs (drop i recs)" by (intro sizes_word) simp
  with tail have tails: "unat (recs_size (drop i recs)) = rszs (drop i recs)"
    "unat (recs_size (drop i recs) + nrecsz) = rszs (drop i recs) + rsz x"
    using unat_add16 [of "recs_size (drop i recs)" nrecsz] s(1) by simp_all
  have before: "ss_before (st\<lparr>ss_split := Some i, ss_tailsz := t\<rparr>) \<longleftrightarrow> ss_insertion st \<noteq> None" for t
    using inv by (auto simp: ss_before_def scan_inv_def split: option.splits)
  have "scan_split maxsz nrecsz i (drop i recs) st = st\<lparr>ss_split := Some i,
      ss_tailsz := recs_size (drop i recs) + (if ss_insertion st = None then nrecsz else 0)\<rparr>"
    using True inv'(3) by (simp add: scan_split_def)
  then show ?thesis using inv inv' i i0 big tails before
    by (cases "ss_insertion st") (auto simp: scan_inv_def scan_mid_def)
qed

lemma scan_insertion_ok:
  assumes mid: "scan_mid cmp x W M recs i i st" and i: "i < length recs" and W: "W = unat maxsz" "0 < W div 2"
    and s: "unat nrecsz = rsz x" "rszs recs + rsz x < 65536" "rsz x < W div 2" and ne: "cmp x (recs ! i) \<noteq> 0"
  shows "\<exists>st'. scan_insertion cmp x maxsz nrecsz i (drop i recs) st = Some st' \<and> scan_mid cmp x W M recs i (Suc i) st'"
proof -
  have hd: "hd (drop i recs) = recs ! i" using i by (simp add: hd_drop_conv_nth)
  show ?thesis
  proof (cases "ss_insertion st = None \<and> cmp x (recs ! i) < 0")
    case False
    then have "scan_insertion cmp x maxsz nrecsz i (drop i recs) st = Some st"
      using ne hd by (auto simp: scan_insertion_def Let_def)
    moreover have "scan_mid cmp x W M recs i (Suc i) st"
      using mid False ne by (cases "ss_insertion st") (auto simp: scan_mid_def less_Suc_eq)
    ultimately show ?thesis by blast
  next
    case True
    then have none: "ss_insertion st = None" and lt: "cmp x (recs ! i) < 0" by simp_all
    have prev: "\<forall>l<i. 0 < cmp x (recs ! l)" and it: "unat (ss_itailsz st) = rsz x" using mid none by (simp_all add: scan_mid_def)
    let ?s1 = "st\<lparr>ss_insertion := Some i, ss_itailsz := ss_itailsz st + recs_size (drop i recs), ss_headsz := ss_headsz st + nrecsz\<rparr>"
    have tail: "rszs (drop i recs) + rsz x < 65536" using s(2) rszs_take_drop [of i recs] by linarith
    then have "unat (recs_size (drop i recs)) = rszs (drop i recs)" by (intro sizes_word) simp
    with tail it have itail: "unat (ss_itailsz st + recs_size (drop i recs)) = rszs (drop i recs) + rsz x"
      using unat_add16 [of "ss_itailsz st" "recs_size (drop i recs)"] by simp
    show ?thesis
    proof (cases "ss_split st")
      case (Some k)
      then have "scan_insertion cmp x maxsz nrecsz i (drop i recs) st = Some ?s1"
        using True hd by (simp add: scan_insertion_def Let_def)
      moreover have "\<not> ss_before ?s1" "\<not> ss_before st" using Some mid none by (auto simp: ss_before_def scan_mid_def)
      ultimately show ?thesis using mid Some none lt prev by (simp add: scan_mid_def)
    next
      case None
      then have h: "unat (ss_headsz st) = rszs (take i recs)" "rszs (take i recs) < W div 2" "ss_tailsz st = 0"
        using mid none by (auto simp: scan_mid_def)
      have "rszs (take i recs) + rsz x < 65536" using s(2) rszs_take_drop [of i recs] by linarith
      with h s(1) have h1: "unat (ss_headsz st + nrecsz) = rszs (take i recs) + rsz x"
        using unat_add16 [of "ss_headsz st" nrecsz] by simp
      show ?thesis
      proof (cases "maxsz div 2 \<le> ss_headsz st + nrecsz")
        case False
        then have "scan_insertion cmp x maxsz nrecsz i (drop i recs) st = Some ?s1"
          using True hd None by (simp add: scan_insertion_def Let_def)
        moreover have "unat (ss_headsz st + nrecsz) < W div 2" using False by (simp add: word_le_nat_alt W(1) unat_div)
        ultimately show ?thesis using h h1 None lt prev by (simp add: scan_mid_def)
      next
        case big: True
        then have "scan_insertion cmp x maxsz nrecsz i (drop i recs) st
            = Some (?s1\<lparr>ss_split := Some i, ss_tailsz := ss_itailsz ?s1\<rparr>)"
          using True hd None by (simp add: scan_insertion_def Let_def)
        moreover have "W div 2 \<le> rszs (take i recs) + rsz x" using big h1 by (simp add: word_le_nat_alt W(1) unat_div)
        moreover from this have "0 < i" using s(3) by (cases i) auto
        moreover have "\<not> ss_before (?s1\<lparr>ss_split := Some i, ss_tailsz := ss_itailsz ?s1\<rparr>)" by (simp add: ss_before_def)
        ultimately show ?thesis using h itail lt prev i by (simp add: scan_mid_def)
      qed
    qed
  qed
qed

lemma scan_records_ok:
  assumes inv: "scan_inv cmp x W M recs i st" and W: "W = unat maxsz" "0 < W div 2"
    and s: "unat nrecsz = rsz x" "rszs recs + rsz x < 65536" "rsz x < W div 2" and M: "\<forall>r\<in>set recs. rsz r \<le> M"
    and ne: "\<forall>y\<in>set recs. cmp x y \<noteq> 0" and i: "i \<le> length recs"
  shows "\<exists>st'. scan_records cmp x maxsz nrecsz i (drop i recs) st = Some st' \<and> scan_inv cmp x W M recs (length recs) st'"
  using inv i
proof (induction "length recs - i" arbitrary: i st)
  case 0
  then show ?case by simp
next
  case (Suc n)
  then have i: "i < length recs" by simp
  have d: "drop i recs = recs ! i # drop (Suc i) recs" using i by (simp add: Cons_nth_drop_Suc)
  have mem: "recs ! i \<in> set recs" using i by simp
  note mid = scan_split_ok [OF Suc.prems(1) i W s(1,2)]
  obtain s1 where s1: "scan_insertion cmp x maxsz nrecsz i (drop i recs) (scan_split maxsz nrecsz i (drop i recs) st) = Some s1"
    "scan_mid cmp x W M recs i (Suc i) s1"
    using scan_insertion_ok [OF mid i W s] ne mem by blast
  let ?s2 = "if ss_split s1 = None then s1\<lparr>ss_headsz := ss_headsz s1 + btr_phys_size (recs ! i)\<rparr> else s1"
  have inv2: "scan_inv cmp x W M recs (Suc i) ?s2"
  proof (cases "ss_split s1")
    case None
    have sz: "rsz (recs ! i) \<le> M" using M mem by blast
    have h: "unat (ss_headsz s1) = rszs (take i recs) + (if ss_insertion s1 = None then 0 else rsz x)"
      "unat (ss_headsz s1) < W div 2" using s1(2) None by (auto simp: scan_mid_def)
    have "rszs (take (Suc i) recs) + rszs (drop (Suc i) recs) = rszs recs" by (rule rszs_take_drop)
    then have total: "rszs (take i recs) + rsz (recs ! i) + rsz x < 65536"
      using s(2) rszs_take_Suc [OF i] by linarith
    then have "unat (btr_phys_size (recs ! i)) = rsz (recs ! i)" by (intro size_word) simp
    with h total have "unat (ss_headsz s1 + btr_phys_size (recs ! i)) = unat (ss_headsz s1) + rsz (recs ! i)"
      using unat_add16 [of "ss_headsz s1" "btr_phys_size (recs ! i)"] by (simp split: if_splits)
    with s1(2) None h sz show ?thesis
      by (auto simp: scan_inv_def scan_mid_def rszs_take_Suc [OF i] split: option.splits)
  next
    case (Some k)
    with s1(2) show ?thesis by (auto simp: scan_inv_def scan_mid_def split: option.splits)
  qed
  have "scan_records cmp x maxsz nrecsz i (drop i recs) st
      = scan_records cmp x maxsz nrecsz (Suc i) (drop (Suc i) recs) ?s2"
    using s1(1) unfolding d by simp
  with Suc.hyps(1) [OF _ inv2] Suc.hyps(2) i show ?case by simp
qed

text \<open>Where a small record goes: a split point that leaves records on both sides, with room in both nodes.\<close>

lemma scan_result:
  assumes bsz: "bsz_ok bsz" and small: "small_rec bsz x" "\<forall>r\<in>set recs. small_rec bsz r"
    and ne: "\<forall>y\<in>set recs. cmp x y \<noteq> 0"
    and full: "rszs recs \<le> unat (max_inline bsz)" "unat (max_inline bsz) < rszs recs + rsz x + 12"
  obtains st k where "scan_records cmp x (max_inline bsz) (btr_phys_size x) 0 recs
        \<lparr>ss_split = None, ss_insertion = None, ss_headsz = 0, ss_tailsz = 0, ss_itailsz = btr_phys_size x\<rparr> = Some st"
    "ss_split st = Some k" "0 < k" "k < length recs"
    "unat (ss_tailsz st) = rszs (drop k recs) + (if ss_before st then 0 else rsz x)"
    "rszs (take k recs) + (if ss_before st then rsz x else 0) + 8 \<le> unat (max_inline bsz)"
    "rszs (drop k recs) + (if ss_before st then 0 else rsz x) \<le> rszs recs"
    "ss_before st \<longrightarrow> (\<exists>j<k. (\<forall>l<j. 0 < cmp x (recs ! l)) \<and> cmp x (recs ! j) < 0)"
    "\<not> ss_before st \<longrightarrow> (\<forall>l<k. 0 < cmp x (recs ! l))"
proof -
  let ?W = "unat (max_inline bsz)" and ?M = "max_rec bsz"
  let ?s0 = "\<lparr>ss_split = None, ss_insertion = None, ss_headsz = 0, ss_tailsz = 0, ss_itailsz = btr_phys_size x\<rparr>"
  note B = max_rec_bounds [OF bsz]
  have "unat bsz \<le> 32768" using bsz by (simp add: bsz_ok_def)
  with B(2) have W: "?W < 32768" by linarith
  have x: "rsz x \<le> ?M" "12 \<le> ?M" using small(1) B(3) by (simp_all add: small_rec_def)
  have M: "\<forall>r\<in>set recs. rsz r \<le> ?M" using small(2) by (simp add: small_rec_def)
  have xs: "unat (btr_phys_size x) = rsz x" using size_word [of x] x(1) B(1) W by simp
  have half: "0 < ?W div 2" "rsz x < ?W div 2" using B(1) x by linarith+
  have total: "rszs recs + rsz x < 65536" using full(1) W x(1) B(1) by linarith
  have "scan_inv cmp x ?W ?M recs 0 ?s0" using xs half by (simp add: scan_inv_def)
  then obtain st where st: "scan_records cmp x (max_inline bsz) (btr_phys_size x) 0 (drop 0 recs) ?s0 = Some st"
    and inv: "scan_inv cmp x ?W ?M recs (length recs) st"
    using scan_records_ok [where maxsz = "max_inline bsz" and nrecsz = "btr_phys_size x" and i = 0 and st = ?s0
          and W = ?W and cmp = cmp and recs = recs and x = x and M = ?M,
        OF _ refl half(1) xs total half(2) M ne] by blast
  show thesis
  proof (cases "ss_split st")
    case None
    then have "unat (ss_headsz st) = rszs recs + (if ss_insertion st = None then 0 else rsz x)"
      "unat (ss_headsz st) < ?W div 2 + ?M" using inv by (auto simp: scan_inv_def)
    then have False using full(2) x B(1) by (auto split: if_splits)
    then show thesis ..
  next
    case (Some k)
    let ?b = "ss_before st"
    from inv Some have k: "0 < k" "k < length recs" "unat (ss_tailsz st) = rszs (drop k recs) + (if ?b then 0 else rsz x)"
      "rszs (take k recs) + (if ?b then rsz x else 0) < ?W div 2 + ?M" "?W div 2 \<le> rszs (take k recs) + rsz x"
      by (simp_all add: scan_inv_def)
    note td = rszs_take_drop [of k recs]
    show thesis
    proof (rule that [of st k])
      show "rszs (take k recs) + (if ?b then rsz x else 0) + 8 \<le> ?W" using k(4) B(1) by linarith
      show "rszs (drop k recs) + (if ?b then 0 else rsz x) \<le> rszs recs" using td k(5) x B(1) by (auto split: if_splits)
    next
      show "?b \<longrightarrow> (\<exists>j<k. (\<forall>l<j. 0 < cmp x (recs ! l)) \<and> cmp x (recs ! j) < 0)"
      proof
        assume ?b
        then obtain j where "ss_insertion st = Some j" "j < k" using Some by (auto simp: ss_before_def split: option.splits)
        with inv show "\<exists>j<k. (\<forall>l<j. 0 < cmp x (recs ! l)) \<and> cmp x (recs ! j) < 0" by (auto simp: scan_inv_def)
      qed
      show "\<not> ?b \<longrightarrow> (\<forall>l<k. 0 < cmp x (recs ! l))"
        using Some k(2) inv by (auto simp: scan_inv_def ss_before_def split: option.splits)
    qed (use st Some k in simp_all)
  qed
qed

section \<open>The place of a record\<close>

lemma rec_place_None:
  assumes "total_cmp cmp" "csorted cmp rs"
  shows "rec_place cmp x rs = None \<longleftrightarrow> (\<exists>y\<in>set rs. cmp x y = 0)"
  using assms(2)
proof (induction rs)
  case (Cons r rs)
  have "cmp x y \<noteq> 0" if "cmp x r < 0" "y \<in> set rs" for y
    using csorted_all_greater [OF assms(1), of "[]" r rs x y] Cons.prems that by simp
  with Cons show ?case by (auto simp: Let_def)
qed simp

lemma rec_place_Some: "rec_place cmp x rs = Some (B, A) \<Longrightarrow> rs = B @ A \<and> B @ x # A = ins_by cmp x rs"
proof (induction rs arbitrary: B A)
  case (Cons r rs)
  then show ?case by (auto simp: Let_def split: if_splits)
qed simp

lemma rec_remove_None:
  assumes "total_cmp cmp" "csorted cmp rs"
  shows "rec_remove cmp x rs = None \<longleftrightarrow> (\<forall>y\<in>set rs. cmp x y \<noteq> 0)"
  using assms(2)
proof (induction rs)
  case (Cons r rs)
  have "cmp x y \<noteq> 0" if "cmp x r < 0" "y \<in> set rs" for y
    using csorted_all_greater [OF assms(1), of "[]" r rs x y] Cons.prems that by simp
  with Cons show ?case by (auto simp: Let_def)
qed simp

lemma rec_remove_Some:
  "rec_remove cmp x rs = Some (B, r, A) \<Longrightarrow> rs = B @ r # A \<and> cmp x r = 0 \<and> B @ A = del_by cmp x rs"
proof (induction rs arbitrary: B r A)
  case (Cons y rs)
  then show ?case by (auto simp: Let_def split: if_splits)
qed simp

text \<open>A duplicate stops the search for the split point as well.\<close>

lemma scan_duplicate:
  assumes "total_cmp cmp" "csorted cmp rs" "\<exists>y\<in>set rs. cmp x y = 0" "ss_insertion s = None"
  shows "scan_records cmp x maxsz nrecsz i rs s = None"
  using assms(2-4)
proof (induction rs arbitrary: i s)
  case (Cons r rs)
  let ?s = "scan_split maxsz nrecsz i (r # rs) s"
  have none: "ss_insertion ?s = None" using Cons.prems(3) by (simp add: scan_split_def)
  show ?case
  proof (cases "cmp x r = 0")
    case True
    with none show ?thesis by (simp add: scan_insertion_def)
  next
    case False
    then obtain y where y: "y \<in> set rs" "cmp x y = 0" using Cons.prems(2) by auto
    have "\<not> cmp x r < 0" using csorted_all_greater [OF assms(1), of "[]" r rs x y] Cons.prems(1) y by auto
    with none False have "scan_insertion cmp x maxsz nrecsz i (r # rs) ?s = Some ?s" by (simp add: scan_insertion_def)
    moreover have "scan_records cmp x maxsz nrecsz (Suc i) rs
        (if ss_split ?s = None then ?s\<lparr>ss_headsz := ss_headsz ?s + btr_phys_size r\<rparr> else ?s) = None"
      using Cons.prems(1) y none by (intro Cons.IH) auto
    ultimately show ?thesis by simp
  qed
qed simp

lemma ins_by_take:
  assumes "j < k" "k \<le> length rs" "cmp x (rs ! j) < 0"
  shows "ins_by cmp x (take k rs) @ drop k rs = ins_by cmp x rs"
  using assms
proof (induction rs arbitrary: j k)
  case (Cons r rs)
  then show ?case
  proof (cases j)
    case (Suc i)
    with Cons.prems obtain m where "k = Suc m" by (cases k) auto
    with Suc Cons.prems Cons.IH [of i m] show ?thesis by auto
  qed (cases k; auto)
qed simp

lemma ins_by_drop:
  assumes "\<forall>l<k. \<not> cmp x (rs ! l) < 0" "k \<le> length rs"
  shows "take k rs @ ins_by cmp x (drop k rs) = ins_by cmp x rs"
  using assms
proof (induction rs arbitrary: k)
  case (Cons r rs)
  then show ?case
  proof (cases k)
    case (Suc m)
    from Cons.prems(1) Suc have "\<not> cmp x r < 0" by force
    moreover have "\<forall>l<m. \<not> cmp x (rs ! l) < 0" using Cons.prems(1) Suc by force
    ultimately show ?thesis using Cons.IH [of m] Cons.prems(2) Suc by simp
  qed simp
qed simp

lemma rszs_ins_by [simp]: "rszs (ins_by cmp x rs) = rsz x + rszs rs"
  by (induction rs) auto

lemma rszs_del_by: "y \<in> set rs \<Longrightarrow> cmp x y = 0 \<Longrightarrow> \<exists>r\<in>set rs. cmp x r = 0 \<and> rszs (del_by cmp x rs) + rsz r = rszs rs"
proof (induction rs)
  case (Cons r rs)
  then show ?case by (cases "cmp x r = 0") auto
qed simp

section \<open>Well-formed nodes\<close>

definition node_wf :: "16 word \<Rightarrow> btn_phys \<Rightarrow> bool" where
  "node_wf bsz n \<longleftrightarrow> unat (btnp_freespace n) + rszs (btnp_records n) + (if btn_phys_is_root n then 4 else 0)
       + (if btn_phys_is_leaf n then 0 else 8) = unat (max_inline bsz)
     \<and> (\<forall>r\<in>set (btnp_records n). small_rec bsz r) \<and> (btn_phys_is_leaf n \<or> btnp_records n \<noteq> [])"

lemma flag_simps [simp]:
  "btn_phys_is_root (n\<lparr>btnp_records := rs\<rparr>) = btn_phys_is_root n" "btn_phys_is_leaf (n\<lparr>btnp_records := rs\<rparr>) = btn_phys_is_leaf n"
  "btn_phys_is_root (n\<lparr>btnp_freespace := f\<rparr>) = btn_phys_is_root n" "btn_phys_is_leaf (n\<lparr>btnp_freespace := f\<rparr>) = btn_phys_is_leaf n"
  "btn_phys_is_root (n\<lparr>btnp_ptr0 := p\<rparr>) = btn_phys_is_root n" "btn_phys_is_leaf (n\<lparr>btnp_ptr0 := p\<rparr>) = btn_phys_is_leaf n"
  "btn_phys_is_root (n\<lparr>btnp_info := i\<rparr>) = btn_phys_is_root n" "btn_phys_is_leaf (n\<lparr>btnp_info := i\<rparr>) = btn_phys_is_leaf n"
  by (simp_all add: btn_phys_is_root_def btn_phys_is_leaf_def)

lemma node_wf_info [simp]: "node_wf bsz (n\<lparr>btnp_info := i\<rparr>) = node_wf bsz n"
  by (simp add: node_wf_def)

definition btn_unroot :: "btn_phys \<Rightarrow> btn_phys" where
  "btn_unroot n = (if btn_phys_is_root n
     then n\<lparr>btnp_flags := btnp_flags n AND NOT BTN_PHYS_FLG_IS_ROOT, btnp_freespace := btnp_freespace n + 4\<rparr> else n)"

lemma btn_unroot_flags [simp]:
  "\<not> btn_phys_is_root (btn_unroot n)" "btn_phys_is_leaf (btn_unroot n) = btn_phys_is_leaf n"
  "btnp_records (btn_unroot n) = btnp_records n" "btnp_ptr0 (btn_unroot n) = btnp_ptr0 n"
proof -
  have 1: "(NOT 1 :: 16 word) AND 1 = 0" "(NOT 1 :: 16 word) AND 2 = 2" by simp_all
  have 2: "(f AND NOT 1) AND 1 = (0 :: 16 word)" "(f AND NOT 1) AND 2 = f AND (2 :: 16 word)" for f
    by (simp_all only: and.assoc 1) simp
  from 2 show "\<not> btn_phys_is_root (btn_unroot n)" "btn_phys_is_leaf (btn_unroot n) = btn_phys_is_leaf n"
    by (simp_all add: btn_unroot_def btn_phys_is_root_def btn_phys_is_leaf_def BTN_PHYS_FLG_IS_ROOT_def BTN_PHYS_FLG_IS_LEAF_def)
  show "btnp_records (btn_unroot n) = btnp_records n" "btnp_ptr0 (btn_unroot n) = btnp_ptr0 n"
    by (simp_all add: btn_unroot_def)
qed

lemma node_wf_bound:
  assumes "node_wf bsz n"
  shows "unat (btnp_freespace n) + rszs (btnp_records n) \<le> unat (max_inline bsz)" "r \<in> set (btnp_records n) \<Longrightarrow> small_rec bsz r"
  using assms by (auto simp: node_wf_def)

lemma btn_unroot_wf:
  assumes "bsz_ok bsz" "node_wf bsz n"
  shows "node_wf bsz (btn_unroot n)"
proof (cases "btn_phys_is_root n")
  case True
  note u = btn_unroot_flags [of n]
  have "unat (btnp_freespace n) + 4 \<le> unat (max_inline bsz)" using assms(2) True by (simp add: node_wf_def)
  then have "unat (btnp_freespace n + 4) = unat (btnp_freespace n) + 4"
    using max_rec_bounds(2) [OF assms(1)] assms(1) by (simp add: unat_word_ariths bsz_ok_def)
  then have "unat (btnp_freespace (btn_unroot n)) = unat (btnp_freespace n) + 4" using True by (simp add: btn_unroot_def)
  with assms(2) True show ?thesis by (simp add: node_wf_def)
qed (use assms in \<open>simp add: btn_unroot_def\<close>)

lemma btn_init_flags:
  "btn_phys_is_root (btn_init bsz flags) \<longleftrightarrow> flags AND BTN_PHYS_FLG_IS_ROOT \<noteq> 0"
  "btn_phys_is_leaf (btn_init bsz flags) \<longleftrightarrow> flags AND BTN_PHYS_FLG_IS_LEAF \<noteq> 0"
  by (simp_all add: btn_init_def btn_phys_is_root_def btn_phys_is_leaf_def)

lemma flag_consts [simp]:
  "BTN_PHYS_FLG_IS_LEAF AND BTN_PHYS_FLG_IS_ROOT = 0" "BTN_PHYS_FLG_IS_LEAF \<noteq> 0"
  "BTN_PHYS_FLG_IS_ROOT AND BTN_PHYS_FLG_IS_LEAF = 0" "BTN_PHYS_FLG_IS_ROOT \<noteq> 0"
  by (simp_all add: BTN_PHYS_FLG_IS_ROOT_def BTN_PHYS_FLG_IS_LEAF_def)

section \<open>Inserting where there is room\<close>

lemma bt_good_weaken: "bt_good (U - {b}) bt \<Longrightarrow> \<forall>u\<in>U. 0 < bt_refs bt u \<Longrightarrow> bt_good U bt"
  by (auto simp: bt_good_def bc_clean_def)

lemma with_node_held: "bt_good U bt \<Longrightarrow> held bt b p \<Longrightarrow> bt_view bt p = NodeBlk n \<Longrightarrow> with_node b f bt = f n bt"
  by (simp add: with_node_def held_phys)

definition add_rec :: "(btr_phys \<Rightarrow> btr_phys \<Rightarrow> int) \<Rightarrow> btr_phys \<Rightarrow> btn_phys \<Rightarrow> btn_phys" where
  "add_rec cmp x n = n\<lparr>btnp_records := ins_by cmp x (btnp_records n), btnp_freespace := btnp_freespace n - btr_phys_size x\<rparr>"

lemma add_rec_simps [simp]:
  "btnp_records (add_rec cmp x n) = ins_by cmp x (btnp_records n)" "btn_phys_is_root (add_rec cmp x n) = btn_phys_is_root n"
  "btn_phys_is_leaf (add_rec cmp x n) = btn_phys_is_leaf n" "btnp_ptr0 (add_rec cmp x n) = btnp_ptr0 n"
  "btnp_info (add_rec cmp x n) = btnp_info n"
  by (simp_all add: add_rec_def)

lemma small_word:
  assumes "bsz_ok bsz" "small_rec bsz x"
  shows "unat (btr_phys_size x) = rsz x"
proof (rule size_word)
  have "rsz x \<le> max_rec bsz" using assms(2) by (simp add: small_rec_def)
  with max_rec_bounds [OF assms(1)] assms(1) show "rsz x < 65536" unfolding bsz_ok_def by linarith
qed

lemma add_rec_wf:
  assumes "bsz_ok bsz" "node_wf bsz n" "small_rec bsz x" "btr_phys_size x \<le> btnp_freespace n"
  shows "node_wf bsz (add_rec cmp x n)"
proof -
  note x = small_word [OF assms(1,3)]
  have le: "rsz x \<le> unat (btnp_freespace n)" using assms(4) x by (simp add: word_le_nat_alt)
  then have "unat (btnp_freespace n - btr_phys_size x) = unat (btnp_freespace n) - rsz x"
    using unat_sub16 [of "btr_phys_size x" "btnp_freespace n"] x by simp
  then have "unat (btnp_freespace (add_rec cmp x n)) = unat (btnp_freespace n) - rsz x" by (simp add: add_rec_def)
  with assms(2,3) le show ?thesis by (auto simp: node_wf_def)
qed

lemma btn_insert_room:
  assumes good: "bt_good U bt" and b: "held bt b p" and n: "bt_view bt p = NodeBlk n"
    and idx: "btn_phys_is_leaf n \<or> btnp_records n \<noteq> []" and fits: "btr_phys_size x \<le> btnp_freespace n"
    and c: "total_cmp (bt_cmp bt)" "csorted (bt_cmp bt) (btnp_records n)"
  shows "btn_insert (Suc d) b x bt =
    (if \<exists>y\<in>set (btnp_records n). bt_cmp bt x y = 0 then Fail EEXIST bt
     else Done no_split (bt_store b (NodeBlk (add_rec (bt_cmp bt) x n)) bt))"
proof (cases "rec_place (bt_cmp bt) x (btnp_records n)")
  case None
  with rec_place_None [OF c] have "\<exists>y\<in>set (btnp_records n). bt_cmp bt x y = 0" by blast
  with None idx fits show ?thesis
    by (auto simp: with_node_held [OF good b n] btn_insert_record_def)
next
  case (Some BA)
  obtain B A where BA: "BA = (B, A)" by (cases BA)
  from rec_place_Some [of "bt_cmp bt" x "btnp_records n" B A] Some BA
  have "B @ x # A = ins_by (bt_cmp bt) x (btnp_records n)" by simp
  moreover have "\<not> (\<exists>y\<in>set (btnp_records n). bt_cmp bt x y = 0)" using rec_place_None [OF c, of x] Some by simp
  moreover have "(\<not> btn_phys_is_leaf n \<and> btnp_records n = []) = False" "(btnp_freespace n < btr_phys_size x) = False"
    using idx fits by auto
  ultimately show ?thesis using Some BA
    by (auto simp: with_node_held [OF good b n] btn_insert_record_def add_rec_def simp del: ins_by.simps)
qed

section \<open>Splitting\<close>

lemma split_unroot_ok:
  assumes good: "bt_good U bt" and b: "held bt b p" and n: "bt_view bt p = NodeBlk n"
  obtains bt' where "split_unroot b bt = Done (if btn_phys_is_root n then btnp_info n else 0) bt'"
    "bt_good (insert b U) bt'" "bt_view bt' = (bt_view bt)(p := NodeBlk (btn_unroot n))" "bt_refs bt' = bt_refs bt"
    "bt_frame bt bt'" "bt_blkno bt' = bt_blkno bt"
proof (cases "btn_phys_is_root n")
  case True
  note P = bt_poke_ok [OF good b, of "NodeBlk (btn_unroot n)"]
  have "split_unroot b bt = Done (btnp_info n) (bt_poke b (NodeBlk (btn_unroot n)) bt)"
    using True by (simp add: split_unroot_def with_node_held [OF good b n] btn_unroot_def)
  with True P show thesis by (intro that [of "bt_poke b (NodeBlk (btn_unroot n)) bt"]) simp_all
next
  case False
  have "bt_good (insert b U) bt" using good b by (auto simp: bt_good_def bc_clean_def held_def)
  moreover have "(bt_view bt)(p := NodeBlk (btn_unroot n)) = bt_view bt" using n False by (simp add: btn_unroot_def fun_upd_idem)
  ultimately show thesis using False
    by (intro that [of bt]) (simp_all add: split_unroot_def with_node_held [OF good b n])
qed

text \<open>What \<open>split_move\<close> makes of the two nodes.\<close>

definition split_head :: "nat \<Rightarrow> btn_phys \<Rightarrow> btn_phys" where
  "split_head k n = n\<lparr>btnp_records := take k (btnp_records n),
     btnp_freespace := btnp_freespace n + recs_size (drop k (btnp_records n))\<rparr>"

definition split_tail :: "nat \<Rightarrow> btr_phys list \<Rightarrow> btn_phys \<Rightarrow> btn_phys" where
  "split_tail k rs nn = nn\<lparr>btnp_records := drop k rs,
     btnp_freespace := (if btn_phys_is_leaf nn then btnp_freespace nn - recs_size (drop k rs)
                        else btnp_freespace nn - recs_size (drop k rs) - 8)\<rparr>"

lemma split_parts_simps [simp]:
  "btnp_records (split_head k n) = take k (btnp_records n)" "btn_phys_is_root (split_head k n) = btn_phys_is_root n"
  "btn_phys_is_leaf (split_head k n) = btn_phys_is_leaf n" "btnp_ptr0 (split_head k n) = btnp_ptr0 n"
  "btnp_records (split_tail k rs nn) = drop k rs" "btn_phys_is_root (split_tail k rs nn) = btn_phys_is_root nn"
  "btn_phys_is_leaf (split_tail k rs nn) = btn_phys_is_leaf nn" "btnp_ptr0 (split_tail k rs nn) = btnp_ptr0 nn"
  by (simp_all add: split_head_def split_tail_def)

lemma split_head_wf:
  assumes bsz: "bsz_ok bsz" and wf: "node_wf bsz n" "\<not> btn_phys_is_root n" and k: "0 < k" "k < length (btnp_records n)"
  shows "node_wf bsz (split_head k n)"
    "unat (btnp_freespace (split_head k n)) + rszs (take k (btnp_records n)) + (if btn_phys_is_leaf n then 0 else 8)
       = unat (max_inline bsz)"
proof -
  let ?rs = "btnp_records n"
  note td = rszs_take_drop [of k ?rs] and B = max_rec_bounds [OF bsz]
  have W: "unat (max_inline bsz) < 65536" using B(2) bsz by (simp add: bsz_ok_def)
  have w: "unat (btnp_freespace n) + rszs ?rs + (if btn_phys_is_leaf n then 0 else 8) = unat (max_inline bsz)"
    using wf by (simp add: node_wf_def)
  then have "unat (recs_size (drop k ?rs)) = rszs (drop k ?rs)" using W td by (intro sizes_word) linarith
  with w W td have f: "unat (btnp_freespace n + recs_size (drop k ?rs)) = unat (btnp_freespace n) + rszs (drop k ?rs)"
    using unat_add16 [of "btnp_freespace n" "recs_size (drop k ?rs)"] by linarith
  then show e: "unat (btnp_freespace (split_head k n)) + rszs (take k ?rs) + (if btn_phys_is_leaf n then 0 else 8)
       = unat (max_inline bsz)" using w td by (simp add: split_head_def)
  from wf(1) have "\<forall>r\<in>set ?rs. small_rec bsz r" by (simp add: node_wf_def)
  then have "\<forall>r\<in>set (take k ?rs). small_rec bsz r" using set_take_subset [of k ?rs] by blast
  moreover have "take k ?rs \<noteq> []" using k by auto
  ultimately show "node_wf bsz (split_head k n)" using e wf(2) by (simp add: node_wf_def)
qed

lemma split_tail_wf:
  assumes bsz: "bsz_ok bsz" and small: "\<forall>r\<in>set rs. small_rec bsz r" and k: "k < length rs"
    and nn: "nn = btn_init bsz (if leaf then BTN_PHYS_FLG_IS_LEAF else 0)"
    and fit: "rszs (drop k rs) + (if leaf then 0 else 8) \<le> unat (max_inline bsz)"
  shows "node_wf bsz (split_tail k rs nn)" "\<not> btn_phys_is_root nn" "btn_phys_is_leaf nn = leaf" "btnp_ptr0 nn = 0"
    "unat (btnp_freespace (split_tail k rs nn)) + rszs (drop k rs) + (if leaf then 0 else 8) = unat (max_inline bsz)"
proof -
  note B = max_rec_bounds [OF bsz]
  have W: "unat (max_inline bsz) < 65536" using B(2) bsz by (simp add: bsz_ok_def)
  show flags: "\<not> btn_phys_is_root nn" "btn_phys_is_leaf nn = leaf" "btnp_ptr0 nn = 0"
    unfolding nn by (simp_all add: btn_init_flags) (simp_all add: btn_init_def)
  have f0: "btnp_freespace nn = max_inline bsz" by (simp add: nn btn_init_def max_inline_def)
  have d: "unat (recs_size (drop k rs)) = rszs (drop k rs)" using W fit by (intro sizes_word) linarith
  then have s: "unat (max_inline bsz - recs_size (drop k rs)) = unat (max_inline bsz) - rszs (drop k rs)"
    using fit unat_sub16 [of "recs_size (drop k rs)" "max_inline bsz"] by simp
  have "unat (btnp_freespace (split_tail k rs nn)) = unat (max_inline bsz) - rszs (drop k rs) - (if leaf then 0 else 8)"
  proof (cases leaf)
    case True
    then show ?thesis using s f0 flags by (simp add: split_tail_def)
  next
    case False
    then have "unat (8 :: 16 word) \<le> unat (max_inline bsz - recs_size (drop k rs))" using s fit by simp
    from unat_sub16 [OF this] False show ?thesis using s f0 flags by (simp add: split_tail_def)
  qed
  with fit show e: "unat (btnp_freespace (split_tail k rs nn)) + rszs (drop k rs) + (if leaf then 0 else 8) = unat (max_inline bsz)"
    by (simp split: if_splits)
  have "\<forall>r\<in>set (drop k rs). small_rec bsz r" using small set_drop_subset [of k rs] by blast
  with e flags k show "node_wf bsz (split_tail k rs nn)" by (simp add: node_wf_def)
qed

lemma split_move_ok:
  assumes good: "bt_good U bt" and b: "held bt b p" and nb: "held bt nb q" and pq: "p \<noteq> q"
    and n: "bt_view bt p = NodeBlk n" "bt_view bt q = NodeBlk nn" and k: "ss_split s = Some k"
    and mv: "(if ss_before s then ss_tailsz s else ss_tailsz s - nrecsz) = recs_size (drop k (btnp_records n))"
  obtains bt' where "split_move b nb nrecsz s bt = Done () bt'" "bt_good (U - {b} - {nb}) bt'"
    "bt_view bt' = (bt_view bt)(p := NodeBlk (split_head k n), q := NodeBlk (split_tail k (btnp_records n) nn))"
    "bt_refs bt' = bt_refs bt" "bt_frame bt bt'" "bt_blkno bt' = bt_blkno bt"
proof -
  note S1 = bt_store_ok [OF good b, of "NodeBlk (split_head k n)"]
  have nb1: "held (bt_store b (NodeBlk (split_head k n)) bt) nb q" by (rule bt_frameD(5) [OF S1(4) nb])
  note S2 = bt_store_ok [OF S1(1) nb1, of "NodeBlk (split_tail k (btnp_records n) nn)"]
  have "split_move b nb nrecsz s bt
      = Done () (bt_store nb (NodeBlk (split_tail k (btnp_records n) nn)) (bt_store b (NodeBlk (split_head k n)) bt))"
    unfolding split_move_def Let_def mv
    using k by (simp add: with_node_held [OF good b n(1)] with_node_held [OF good nb n(2)] split_head_def split_tail_def)
  from that [OF this S2(1)] show thesis using S1 S2 bt_frame_trans [OF S1(4) S2(4)] by simp
qed

lemma csorted_take_drop: "csorted cmp rs \<Longrightarrow> csorted cmp (take k rs)" "csorted cmp rs \<Longrightarrow> csorted cmp (drop k rs)"
  by (metis append_take_drop_id sorted_wrt_append)+

lemma split_index_ok:
  assumes good: "bt_good U bt" and nb: "held bt nb q" and n: "bt_view bt q = NodeBlk n" "btnp_records n \<noteq> []"
  obtains bt' where "split_index nb bt = Done (index_record (hd (btnp_records n)) q) bt'" "bt_good U bt'"
    "bt_view bt' = bt_view bt" "bt_refs bt' = bt_refs bt" "bt_frame bt bt'" "bt_blkno bt' = bt_blkno bt"
proof -
  have blk: "bt_blkno bt nb = q" using nb by (simp add: held_def)
  have "(case btnp_records n of [] \<Rightarrow> \<lparr>btrp_key = [], btrp_val = []\<rparr> | r # _ \<Rightarrow> r) = hd (btnp_records n)"
    using n(2) by (cases "btnp_records n") simp_all
  then have e: "split_index nb bt = bt_alloc_with (btr_phys_build_index_record (hd (btnp_records n)) q) bt"
    by (simp add: split_index_def with_node_held [OF good nb n(1)] blk)
  show thesis
    by (rule bt_alloc_ok [OF good build_index_ok]) (assumption, rule that, unfold e, assumption+)
qed

text \<open>The record goes into the first node, or into the second one.\<close>

lemma split_place_ok:
  assumes good: "bt_good U bt" and b: "held bt b p" and nb: "held bt nb q" and pq: "p \<noteq> q"
    and n: "bt_view bt p = NodeBlk n1" "bt_view bt q = NodeBlk n2" "btnp_records n1 \<noteq> []" "btnp_records n2 \<noteq> []"
    and c: "total_cmp (bt_cmp bt)" "csorted (bt_cmp bt) (btnp_records n1)" "csorted (bt_cmp bt) (btnp_records n2)"
    and ne: "\<forall>y\<in>set (btnp_records n1) \<union> set (btnp_records n2). bt_cmp bt x y \<noteq> 0"
    and fit: "ss_before s \<Longrightarrow> btr_phys_size x \<le> btnp_freespace n1" "\<not> ss_before s \<Longrightarrow> btr_phys_size x \<le> btnp_freespace n2"
    and tail: "\<not> maxsz < ss_tailsz s" and U: "b \<notin> U" "nb \<notin> U"
  obtains bt' where "split_place (btn_insert (Suc d)) b nb x nrecsz maxsz s bt = Done None bt'" "bt_good U bt'"
    "bt_view bt' = (bt_view bt)(p := NodeBlk (if ss_before s then add_rec (bt_cmp bt) x n1 else n1),
                                q := NodeBlk (if ss_before s then n2 else add_rec (bt_cmp bt) x n2))"
    "bt_refs bt' = bt_refs bt" "bt_frame bt bt'" "bt_blkno bt' = bt_blkno bt"
proof (cases "ss_before s")
  case True
  let ?n = "NodeBlk (add_rec (bt_cmp bt) x n1)"
  have "btn_insert (Suc d) b x bt = Done no_split (bt_store b ?n bt)"
    using btn_insert_room [OF good b n(1) _ fit(1) c(1,2)] n(3) ne True by auto
  then have run: "split_place (btn_insert (Suc d)) b nb x nrecsz maxsz s bt = Done None (bt_store b ?n bt)"
    using True by (simp add: split_place_def with_node_held [OF good b n(1)] bsi_did_split_def no_split_def)
  note S = bt_store_ok [OF good b, of ?n]
  have "(bt_view bt)(p := ?n) = (bt_view bt)(p := ?n, q := NodeBlk n2)" using n(2) pq by auto
  moreover have "U - {b} = U" using U by blast
  ultimately show thesis using that [OF run] S True by simp
next
  case False
  let ?n = "NodeBlk (add_rec (bt_cmp bt) x n2)"
  note S = bt_store_ok [OF good nb, of ?n]
  have ins: "btn_insert (Suc d) nb x bt = Done no_split (bt_store nb ?n bt)"
    using btn_insert_room [OF good nb n(2) _ fit(2) c(1,3)] n(4) ne False by auto
  have b': "held (bt_store nb ?n bt) b p" "bt_view (bt_store nb ?n bt) p = NodeBlk n1"
    using bt_frameD(5) [OF S(4) b] S(2) n(1) pq by simp_all
  have run: "split_place (btn_insert (Suc d)) b nb x nrecsz maxsz s bt = Done None (bt_store nb ?n bt)"
    using False tail ins
    by (simp add: split_place_def with_node_held [OF good b n(1)] with_node_held [OF S(1) b'] bsi_did_split_def no_split_def)
  have "(bt_view bt)(q := ?n) = (bt_view bt)(p := NodeBlk n1, q := ?n)" using n(1) pq by (auto simp: fun_upd_idem)
  moreover have "U - {nb} = U" using U by blast
  ultimately show thesis using that [OF run] S False by simp
qed

definition split_bsi :: "btn_phys \<Rightarrow> btn_phys \<Rightarrow> nat \<Rightarrow> btn_split_info" where
  "split_bsi n n2 q = \<lparr>bsi_split_index1 = Some (index_record (hd (btnp_records n2)) q), bsi_split_index2 = None,
     bsi_bip = (if btn_phys_is_root n then btnp_info n else 0)\<rparr>"

text \<open>How a node and the two it is split into belong together.\<close>

definition split_into :: "(btr_phys \<Rightarrow> btr_phys \<Rightarrow> int) \<Rightarrow> 16 word \<Rightarrow> btr_phys \<Rightarrow> btn_phys \<Rightarrow> btn_phys \<Rightarrow> btn_phys \<Rightarrow> bool" where
  "split_into cmp bsz x n n1 n2 \<longleftrightarrow> node_wf bsz n1 \<and> node_wf bsz n2 \<and> \<not> btn_phys_is_root n1 \<and> \<not> btn_phys_is_root n2
     \<and> btn_phys_is_leaf n1 = btn_phys_is_leaf n \<and> btn_phys_is_leaf n2 = btn_phys_is_leaf n
     \<and> btnp_ptr0 n1 = btnp_ptr0 n \<and> btnp_ptr0 n2 = 0 \<and> btnp_records n1 \<noteq> [] \<and> btnp_records n2 \<noteq> []
     \<and> btnp_records n1 @ btnp_records n2 = ins_by cmp x (btnp_records n)"

lemma split_steps_ok:
  assumes good: "bt_good U bt" and b: "held bt b p" and nb: "held bt nb q" and pq: "p \<noteq> q"
    and sm: "held bt (bt_sm bt) 0" "bt_view bt 0 = SmBlk smp" and bsz: "bsz_ok (smp_bsz smp)"
    and n: "bt_view bt p = NodeBlk n" "node_wf (smp_bsz smp) n"
    and nn: "bt_view bt q = NodeBlk (btn_init (smp_bsz smp) (if btn_phys_is_leaf n then BTN_PHYS_FLG_IS_LEAF else 0))"
    and x: "small_rec (smp_bsz smp) x" "btnp_freespace n < btr_phys_size x"
    and c: "total_cmp (bt_cmp bt)" "csorted (bt_cmp bt) (btnp_records n)" "\<forall>y\<in>set (btnp_records n). bt_cmp bt x y \<noteq> 0"
  obtains bt' n1 n2 where "split_steps (btn_insert (Suc d)) b nb x bt = Done (split_bsi n n2 q) bt'" "bt_good U bt'"
    "bt_view bt' = (bt_view bt)(p := NodeBlk n1, q := NodeBlk n2)" "bt_refs bt' = bt_refs bt" "bt_frame bt bt'"
    "split_into (bt_cmp bt) (smp_bsz smp) x n n1 n2"
proof -
  let ?bsz = "smp_bsz smp" and ?rs = "btnp_records n" and ?cmp = "bt_cmp bt"
  let ?W = "unat (max_inline ?bsz)" and ?leaf = "btn_phys_is_leaf n"
  let ?nn = "btn_init ?bsz (if ?leaf then BTN_PHYS_FLG_IS_LEAF else 0)"
  note xs = small_word [OF bsz x(1)]
  have maxsz: "bt_max_inline_record_size bt = max_inline ?bsz"
    using held_phys [OF good sm(1)] sm(2) by (simp add: bt_max_inline_record_size_def)
  have small: "\<forall>r\<in>set ?rs. small_rec ?bsz r" using n(2) by (simp add: node_wf_def)
  have w: "unat (btnp_freespace n) + rszs ?rs + (if btn_phys_is_root n then 4 else 0) + (if ?leaf then 0 else 8) = ?W"
    using n(2) by (simp add: node_wf_def)
  have lt: "unat (btnp_freespace n) < rsz x" using x(2) xs by (simp add: word_less_nat_alt)
  have full: "rszs ?rs \<le> ?W" "?W < rszs ?rs + rsz x + 12" using w lt by (auto split: if_splits)
  obtain s k where scan: "scan_records ?cmp x (max_inline ?bsz) (btr_phys_size x) 0 ?rs
        \<lparr>ss_split = None, ss_insertion = None, ss_headsz = 0, ss_tailsz = 0, ss_itailsz = btr_phys_size x\<rparr> = Some s"
    and k: "ss_split s = Some k" "0 < k" "k < length ?rs"
    and tl: "unat (ss_tailsz s) = rszs (drop k ?rs) + (if ss_before s then 0 else rsz x)"
    and fit: "rszs (take k ?rs) + (if ss_before s then rsz x else 0) + 8 \<le> ?W"
      "rszs (drop k ?rs) + (if ss_before s then 0 else rsz x) \<le> rszs ?rs"
    and side: "ss_before s \<longrightarrow> (\<exists>j<k. (\<forall>l<j. 0 < ?cmp x (?rs ! l)) \<and> ?cmp x (?rs ! j) < 0)"
      "\<not> ss_before s \<longrightarrow> (\<forall>l<k. 0 < ?cmp x (?rs ! l))"
    by (rule scan_result [where cmp = ?cmp, OF bsz x(1) small c(3) full])
  have W16: "?W < 65536" using max_rec_bounds(2) [OF bsz] bsz by (simp add: bsz_ok_def)
  have "rszs (drop k ?rs) \<le> rszs ?rs" using rszs_take_drop [of k ?rs] by linarith
  then have dsz: "unat (recs_size (drop k ?rs)) = rszs (drop k ?rs)" using W16 full(1) by (intro sizes_word) linarith
  have mv: "(if ss_before s then ss_tailsz s else ss_tailsz s - btr_phys_size x) = recs_size (drop k ?rs)"
  proof (cases "ss_before s")
    case True
    with tl dsz have "unat (ss_tailsz s) = unat (recs_size (drop k ?rs))" by simp
    with True show ?thesis by (simp add: word_unat_eq_iff)
  next
    case False
    with tl xs have "unat (ss_tailsz s - btr_phys_size x) = rszs (drop k ?rs)"
      using unat_sub16 [of "btr_phys_size x" "ss_tailsz s"] by simp
    with False dsz show ?thesis by (simp add: word_unat_eq_iff)
  qed
  have tail: "\<not> max_inline ?bsz < ss_tailsz s"
    using tl fit(2) full(1) by (simp add: word_less_nat_alt)
  then have adjust: "split_adjust (max_inline ?bsz) (btr_phys_size x) s = Some s" by (simp add: split_adjust_def)
  obtain bt1 where u: "split_unroot b bt = Done (if btn_phys_is_root n then btnp_info n else 0) bt1"
    "bt_good (insert b U) bt1" "bt_view bt1 = (bt_view bt)(p := NodeBlk (btn_unroot n))" "bt_refs bt1 = bt_refs bt"
    "bt_frame bt bt1" "bt_blkno bt1 = bt_blkno bt"
    by (rule split_unroot_ok [OF good b n(1)])
  note h1 = bt_frameD(5) [OF u(5) b] bt_frameD(5) [OF u(5) nb]
  have v1: "bt_view bt1 p = NodeBlk (btn_unroot n)" "bt_view bt1 q = NodeBlk ?nn" using u(3) nn pq by simp_all
  have mv1: "(if ss_before s then ss_tailsz s else ss_tailsz s - btr_phys_size x) = recs_size (drop k (btnp_records (btn_unroot n)))"
    using mv by simp
  let ?n1 = "split_head k (btn_unroot n)" and ?n2 = "split_tail k ?rs ?nn"
  obtain bt2 where m: "split_move b nb (btr_phys_size x) s bt1 = Done () bt2" "bt_good (insert b U - {b} - {nb}) bt2"
    "bt_view bt2 = (bt_view bt1)(p := NodeBlk ?n1, q := NodeBlk ?n2)" "bt_refs bt2 = bt_refs bt1"
    "bt_frame bt1 bt2" "bt_blkno bt2 = bt_blkno bt1"
    using split_move_ok [OF u(2) h1 pq v1 k(1) mv1] by (auto simp: btn_unroot_flags)
  have wfu: "node_wf ?bsz (btn_unroot n)" by (rule btn_unroot_wf [OF bsz n(2)])
  have ku: "k < length (btnp_records (btn_unroot n))" using k by simp
  note H = split_head_wf [OF bsz wfu btn_unroot_flags(1) k(2) ku]
  have "rszs (drop k ?rs) + (if ?leaf then 0 else 8) \<le> ?W" using fit(2) w by (auto split: if_splits)
  note T = split_tail_wf [OF bsz small k(3) refl this]
  have room1: "btr_phys_size x \<le> btnp_freespace ?n1" if "ss_before s"
    using that H(2) fit(1) xs by (auto simp: word_le_nat_alt split: if_splits)
  have room2: "btr_phys_size x \<le> btnp_freespace ?n2" if "\<not> ss_before s"
    using that T(5) fit(2) xs w by (auto simp: word_le_nat_alt split: if_splits)
  have f2: "bt_frame bt bt2" by (rule bt_frame_trans [OF u(5) m(5)])
  have cmp2: "bt_cmp bt2 = ?cmp" by (rule bt_frameD(1) [OF f2])
  have v2: "bt_view bt2 p = NodeBlk ?n1" "bt_view bt2 q = NodeBlk ?n2" using m(3) pq by simp_all
  have ne1: "btnp_records ?n1 \<noteq> []" "btnp_records ?n2 \<noteq> []" using k by auto
  have keep: "\<forall>y\<in>set (btnp_records ?n1) \<union> set (btnp_records ?n2). bt_cmp bt2 x y \<noteq> 0"
    using c(3) cmp2 set_take_subset [of k ?rs] set_drop_subset [of k ?rs] by auto
  note sorted2 = csorted_take_drop [OF c(2), of k]
  obtain bt3 where pl: "split_place (btn_insert (Suc d)) b nb x (btr_phys_size x) (max_inline ?bsz) s bt2 = Done None bt3"
    "bt_good (insert b U - {b} - {nb}) bt3"
    "bt_view bt3 = (bt_view bt2)(p := NodeBlk (if ss_before s then add_rec ?cmp x ?n1 else ?n1),
                                 q := NodeBlk (if ss_before s then ?n2 else add_rec ?cmp x ?n2))"
    "bt_refs bt3 = bt_refs bt2" "bt_frame bt2 bt3"
  proof (rule split_place_ok [where d = d and nrecsz = "btr_phys_size x" and maxsz = "max_inline ?bsz" and s = s and x = x,
        OF m(2) bt_frameD(5) [OF f2 b] bt_frameD(5) [OF f2 nb] pq v2 ne1])
    show "total_cmp (bt_cmp bt2)" "csorted (bt_cmp bt2) (btnp_records ?n1)" "csorted (bt_cmp bt2) (btnp_records ?n2)"
      using c(1) sorted2 cmp2 by simp_all
  qed (use keep room1 room2 tail cmp2 that in auto)
  define n1 where "n1 = (if ss_before s then add_rec ?cmp x ?n1 else ?n1)"
  define n2 where "n2 = (if ss_before s then ?n2 else add_rec ?cmp x ?n2)"
  have into: "split_into ?cmp ?bsz x n n1 n2"
  proof (cases "ss_before s")
    case True
    then obtain j where j: "j < k" "?cmp x (?rs ! j) < 0" using side(1) by blast
    have "ins_by ?cmp x (take k ?rs) @ drop k ?rs = ins_by ?cmp x ?rs" using j k(3) by (intro ins_by_take) auto
    with True H(1) T ne1 add_rec_wf [OF bsz H(1) x(1) room1] show ?thesis
      by (simp add: split_into_def n1_def n2_def)
  next
    case False
    then have "\<forall>l<k. \<not> ?cmp x (?rs ! l) < 0" using side(2) by (metis less_asym)
    then have "take k ?rs @ ins_by ?cmp x (drop k ?rs) = ins_by ?cmp x ?rs" using k(3) by (intro ins_by_drop) auto
    with False H(1) T ne1 add_rec_wf [OF bsz T(1) x(1) room2] show ?thesis
      by (simp add: split_into_def n1_def n2_def)
  qed
  have f3: "bt_frame bt bt3" by (rule bt_frame_trans [OF f2 pl(5)])
  have v3: "bt_view bt3 = (bt_view bt)(p := NodeBlk n1, q := NodeBlk n2)"
    unfolding pl(3) m(3) u(3) n1_def n2_def using pq by (auto simp: fun_eq_iff)
  have "btnp_records n2 \<noteq> []" using into by (simp add: split_into_def)
  then obtain bt4 where ix: "split_index nb bt3 = Done (index_record (hd (btnp_records n2)) q) bt4"
    "bt_good (insert b U - {b} - {nb}) bt4" "bt_view bt4 = bt_view bt3" "bt_refs bt4 = bt_refs bt3" "bt_frame bt3 bt4"
    using split_index_ok [OF pl(2) bt_frameD(5) [OF f3 nb], of n2] v3 pq by auto
  have refs4: "bt_refs bt4 = bt_refs bt" using ix(4) pl(4) m(4) u(4) by simp
  have good4: "bt_good U bt4"
  proof -
    have U: "\<forall>u\<in>insert b U. 0 < bt_refs bt4 u" using good b refs4 by (auto simp: bt_good_def held_def)
    then have "\<forall>u\<in>insert b U - {b}. 0 < bt_refs bt4 u" by blast
    with ix(2) have "bt_good (insert b U - {b}) bt4" by (rule bt_good_weaken)
    moreover have "insert b U - {b} = U - {b}" by blast
    ultimately have "bt_good (U - {b}) bt4" by simp
    moreover have "\<forall>u\<in>U. 0 < bt_refs bt4 u" using U by blast
    ultimately show ?thesis by (rule bt_good_weaken)
  qed
  have run: "split_steps (btn_insert (Suc d)) b nb x bt = Done (split_bsi n n2 q) bt4"
    by (simp only: split_steps_def with_node_held [OF good b n(1)] Let_def maxsz scan option.case u(1) adjust m(1)
        pl(1) ix(1) andthen_simps split_bsi_def)
  show thesis by (rule that [OF run good4 _ refs4 bt_frame_trans [OF f3 ix(5)] into]) (simp only: ix(3) v3)
qed

section \<open>Inserting into a node\<close>

text \<open>What an insertion into a node relies on: the space manager, a free block, the node itself.\<close>

definition space_ready :: "nat set \<Rightarrow> btree \<Rightarrow> sm_phys \<Rightarrow> bool" where
  "space_ready U bt smp \<longleftrightarrow> bt_good U bt \<and> space_ok smp (bt_view bt) \<and> bsz_ok (smp_bsz smp) \<and> held bt (bt_sm bt) 0
     \<and> (\<forall>u\<in>U. allocated smp (bt_view bt) (bt_blkno bt u)) \<and> total_cmp (bt_cmp bt)"

lemma space_readyD:
  assumes "space_ready U bt smp"
  shows "bt_good U bt" "space_ok smp (bt_view bt)" "bsz_ok (smp_bsz smp)" "held bt (bt_sm bt) 0"
    "\<forall>u\<in>U. allocated smp (bt_view bt) (bt_blkno bt u)" "total_cmp (bt_cmp bt)"
  using assms by (simp_all add: space_ready_def)

lemma btn_insert_split_dup:
  assumes ready: "space_ready U bt smp" and room: "bt_room (Suc k) bt" and free: "0 < free_blocks smp (bt_view bt)"
    and b: "held bt b p" "allocated smp (bt_view bt) p" "data_block smp p" and n: "bt_view bt p = NodeBlk n"
    and x: "btnp_freespace n < btr_phys_size x"
    and c: "csorted (bt_cmp bt) (btnp_records n)" "\<exists>y\<in>set (btnp_records n). bt_cmp bt x y = 0"
  obtains bt' q V d where "btn_insert_split ins b x bt = Fail EEXIST bt'" "bt_good U bt'" "bit_step smp q True (bt_view bt) V"
    "\<not> allocated smp (bt_view bt) q" "bt_view bt' = V(q := d)" "bt_refs bt' = bt_refs bt" "bt_frame bt bt'"
proof -
  note R = space_readyD [OF ready]
  obtain bt1 where a: "bt_alloc_with malloc_or_enomem bt = Done () bt1" "bt_good U bt1" "bt_view bt1 = bt_view bt"
    "bt_refs bt1 = bt_refs bt" "bt_frame bt bt1" "bt_blkno bt1 = bt_blkno bt"
    by (rule bt_alloc_ok [OF R(1), of malloc_or_enomem "()"]) (rule malloc_or_enomem_ok)
  have room1: "bt_room (Suc k) bt1" using room bt_room_refs [OF a(4) bt_frameD(4) [OF a(5)]] by simp
  have sm1: "held bt1 (bt_sm bt1) 0" using bt_frameD(3,5) [OF a(5)] R(4) by simp
  let ?flags = "if btn_phys_is_leaf n then BTN_PHYS_FLG_IS_LEAF else 0"
  obtain q nb V bt2 where al: "btn_alloc ?flags bt1 = Done nb bt2" "bt_good U bt2" "bit_step smp q True (bt_view bt1) V"
    "bt_view bt2 = V(q := NodeBlk (btn_init (smp_bsz smp) ?flags))" "data_block smp q" "\<not> allocated smp (bt_view bt1) q"
    "bt_refs bt2 = (bt_refs bt1)(nb := bt_refs bt1 nb + 1)" "held bt2 nb q" "bt_frame bt1 bt2" "bt_room k bt2"
    by (rule btn_alloc_ok [OF a(2) room1, of smp ?flags]) (use R a(3,6) sm1 free in simp_all)
  note f2 = bt_frame_trans [OF a(5) al(9)]
  have pq: "p \<noteq> q" using b(2) al(6) a(3) by auto
  have v2: "bt_view bt2 p = NodeBlk n" using al(4) pq bit_stepD(2) [OF al(3) b(3)] a(3) n by simp
  have "scan_records (bt_cmp bt2) x (bt_max_inline_record_size bt2) (btr_phys_size x) 0 (btnp_records n)
      \<lparr>ss_split = None, ss_insertion = None, ss_headsz = 0, ss_tailsz = 0, ss_itailsz = btr_phys_size x\<rparr> = None"
    using scan_duplicate [OF R(6) c] bt_frameD(1) [OF f2] by simp
  then have st: "split_steps ins b nb x bt2 = Fail EEXIST bt2"
    by (simp add: split_steps_def with_node_held [OF al(2) bt_frameD(5) [OF f2 b(1)] v2] Let_def)
  have U: "\<forall>u\<in>U. 0 < bt_refs bt1 u" using a(2) by (simp add: bt_good_def)
  obtain bt3 where r: "bt_release nb bt2 = Done () bt3" "bt_good U bt3" "bt_view bt3 = bt_view bt2"
    "bt_refs bt3 = bt_refs bt1" "bt_frame bt1 bt3"
    by (rule bt_release_got [OF al(2,9,7) U])
  have "btn_insert_split ins b x bt = Fail EEXIST bt3"
    using x by (simp add: btn_insert_split_def with_node_held [OF R(1) b(1) n] a(1) al(1) st release_fail_def r(1))
  then show thesis
    by (rule that [OF _ r(2) al(3) [unfolded a(3)] al(6) [unfolded a(3)]])
      (use r(3,4) al(4) a(4) bt_frame_trans [OF a(5) r(5)] in simp_all)
qed

lemma btn_insert_split_ok:
  assumes ready: "space_ready U bt smp" and room: "bt_room (Suc k) bt" and free: "0 < free_blocks smp (bt_view bt)"
    and b: "held bt b p" "allocated smp (bt_view bt) p" "data_block smp p" and n: "bt_view bt p = NodeBlk n"
    and wf: "node_wf (smp_bsz smp) n" and x: "btnp_freespace n < btr_phys_size x" "small_rec (smp_bsz smp) x"
    and c: "csorted (bt_cmp bt) (btnp_records n)" "\<forall>y\<in>set (btnp_records n). bt_cmp bt x y \<noteq> 0"
  obtains bt' q V n1 n2 where "btn_insert_split (btn_insert (Suc d)) b x bt = Done (split_bsi n n2 q) bt'" "bt_good U bt'"
    "bit_step smp q True (bt_view bt) V" "\<not> allocated smp (bt_view bt) q"
    "bt_view bt' = V(p := NodeBlk n1, q := NodeBlk n2)" "split_into (bt_cmp bt) (smp_bsz smp) x n n1 n2"
    "bt_refs bt' = bt_refs bt" "bt_frame bt bt'"
proof -
  note R = space_readyD [OF ready]
  obtain bt1 where a: "bt_alloc_with malloc_or_enomem bt = Done () bt1" "bt_good U bt1" "bt_view bt1 = bt_view bt"
    "bt_refs bt1 = bt_refs bt" "bt_frame bt bt1" "bt_blkno bt1 = bt_blkno bt"
    by (rule bt_alloc_ok [OF R(1), of malloc_or_enomem "()"]) (rule malloc_or_enomem_ok)
  have room1: "bt_room (Suc k) bt1" using room bt_room_refs [OF a(4) bt_frameD(4) [OF a(5)]] by simp
  have sm1: "held bt1 (bt_sm bt1) 0" using bt_frameD(3,5) [OF a(5)] R(4) by simp
  let ?flags = "if btn_phys_is_leaf n then BTN_PHYS_FLG_IS_LEAF else 0"
  obtain q nb V bt2 where al: "btn_alloc ?flags bt1 = Done nb bt2" "bt_good U bt2" "bit_step smp q True (bt_view bt1) V"
    "bt_view bt2 = V(q := NodeBlk (btn_init (smp_bsz smp) ?flags))" "data_block smp q" "\<not> allocated smp (bt_view bt1) q"
    "bt_refs bt2 = (bt_refs bt1)(nb := bt_refs bt1 nb + 1)" "held bt2 nb q" "bt_frame bt1 bt2" "bt_room k bt2"
    by (rule btn_alloc_ok [OF a(2) room1, of smp ?flags]) (use R a(3,6) sm1 free in simp_all)
  note f2 = bt_frame_trans [OF a(5) al(9)]
  have pq: "p \<noteq> q" using b(2) al(6) a(3) by auto
  have v2: "bt_view bt2 p = NodeBlk n" using al(4) pq bit_stepD(2) [OF al(3) b(3)] a(3) n by simp
  have cmp2: "bt_cmp bt2 = bt_cmp bt" by (rule bt_frameD(1) [OF f2])
  have sm2: "held bt2 (bt_sm bt2) 0" "bt_view bt2 0 = SmBlk smp"
    using bt_frameD(3,5) [OF f2] R(4) al(4,5) space_okD(1) [OF bit_stepD(1) [OF al(3)]] by (simp_all add: data_block_def)
  obtain bt3 n1 n2 where st: "split_steps (btn_insert (Suc d)) b nb x bt2 = Done (split_bsi n n2 q) bt3" "bt_good U bt3"
    "bt_view bt3 = (bt_view bt2)(p := NodeBlk n1, q := NodeBlk n2)" "bt_refs bt3 = bt_refs bt2" "bt_frame bt2 bt3"
    "split_into (bt_cmp bt2) (smp_bsz smp) x n n1 n2"
    by (rule split_steps_ok [where d = d, OF al(2) bt_frameD(5) [OF f2 b(1)] al(8) pq sm2 R(3) v2 wf _ x(2,1)])
      (use al(4) R(6) c cmp2 in simp_all)
  have U: "\<forall>u\<in>U. 0 < bt_refs bt1 u" using a(2) by (simp add: bt_good_def)
  have refs3: "bt_refs bt3 = (bt_refs bt1)(nb := bt_refs bt1 nb + 1)" using st(4) al(7) by simp
  obtain bt4 where r: "bt_release nb bt3 = Done () bt4" "bt_good U bt4" "bt_view bt4 = bt_view bt3"
    "bt_refs bt4 = bt_refs bt1" "bt_frame bt1 bt4"
    by (rule bt_release_got [OF st(2) bt_frame_trans [OF al(9) st(5)] refs3 U])
  have run: "btn_insert_split (btn_insert (Suc d)) b x bt = Done (split_bsi n n2 q) bt4"
    using x by (simp add: btn_insert_split_def with_node_held [OF R(1) b(1) n] a(1) al(1) st(1) r(1))
  have view: "bt_view bt4 = V(p := NodeBlk n1, q := NodeBlk n2)" using r(3) st(3) al(4) pq by (auto simp: fun_eq_iff)
  show thesis
    by (rule that [OF run r(2) al(3) [unfolded a(3)] al(6) [unfolded a(3)] view st(6) [unfolded cmp2]])
      (use r(4) a(4) bt_frame_trans [OF a(5) r(5)] in simp_all)
qed

end
