(* ===== verification/BtreeTree.thy ===== *)
theory BtreeTree
  imports BtreeNode
begin

text \<open>
  The tree that the blocks of a B-tree file represent: its records in order, its blocks, and the
  bounds the separators of the index nodes put on the records below them. A child whose pointer is 0
  is \<open>Gone\<close>. The first child of an index node has no separator; its pair carries any record.
\<close>

section \<open>Trees\<close>

datatype btt = Gone | Leaf nat "btr_phys list" | Index nat "(btr_phys \<times> btt) list"

fun tptr :: "btt \<Rightarrow> nat" where
  "tptr Gone = 0"
| "tptr (Leaf p rs) = p"
| "tptr (Index p kids) = p"

fun trecs :: "btt \<Rightarrow> btr_phys list" where
  "trecs Gone = []"
| "trecs (Leaf p rs) = rs"
| "trecs (Index p kids) = concat (map (\<lambda>k. trecs (snd k)) kids)"

fun tblocks :: "btt \<Rightarrow> nat list" where
  "tblocks Gone = []"
| "tblocks (Leaf p rs) = [p]"
| "tblocks (Index p kids) = p # concat (map (\<lambda>k. tblocks (snd k)) kids)"

fun theight :: "btt \<Rightarrow> nat" where
  "theight Gone = 0"
| "theight (Leaf p rs) = 0"
| "theight (Index p kids) = Suc (Max (set (map (\<lambda>k. theight (snd k)) kids)))"

lemma theight_kid: "k \<in> set kids \<Longrightarrow> theight (snd k) < theight (Index p kids)"
  by (simp add: less_Suc_eq_le)

lemma theight_kids:
  assumes "kids \<noteq> []" "\<forall>k\<in>set kids. theight (snd k) \<le> h"
  shows "theight (Index p kids) \<le> Suc h"
  using assms by simp

section \<open>Order\<close>

text \<open>What the comparison may look at: the keys.\<close>

definition key_cmp :: "(btr_phys \<Rightarrow> btr_phys \<Rightarrow> int) \<Rightarrow> bool" where
  "key_cmp cmp \<longleftrightarrow> (\<forall>x x' y y'. btrp_key x = btrp_key x' \<longrightarrow> btrp_key y = btrp_key y' \<longrightarrow> cmp x y = cmp x' y')"

definition lob :: "(btr_phys \<Rightarrow> btr_phys \<Rightarrow> int) \<Rightarrow> btr_phys option \<Rightarrow> btr_phys \<Rightarrow> bool" where
  "lob cmp lo k \<longleftrightarrow> (case lo of None \<Rightarrow> True | Some l \<Rightarrow> cmp l k \<le> 0)"

definition hib :: "(btr_phys \<Rightarrow> btr_phys \<Rightarrow> int) \<Rightarrow> btr_phys option \<Rightarrow> btr_phys \<Rightarrow> bool" where
  "hib cmp hi k \<longleftrightarrow> (case hi of None \<Rightarrow> True | Some h \<Rightarrow> cmp k h < 0)"

lemma bound_simps [simp]:
  "lob cmp None k" "hib cmp None k" "lob cmp (Some l) k \<longleftrightarrow> cmp l k \<le> 0" "hib cmp (Some h) k \<longleftrightarrow> cmp k h < 0"
  by (simp_all add: lob_def hib_def)

definition kid_lo :: "btr_phys option \<Rightarrow> (btr_phys \<times> btt) list \<Rightarrow> btr_phys \<Rightarrow> btr_phys option" where
  "kid_lo lo A s = (if A = [] then lo else Some s)"

definition kid_hi :: "btr_phys option \<Rightarrow> (btr_phys \<times> btt) list \<Rightarrow> btr_phys option" where
  "kid_hi hi B = (case B of [] \<Rightarrow> hi | k # _ \<Rightarrow> Some (fst k))"

lemma kid_bounds [simp]:
  "kid_lo lo [] s = lo" "kid_lo lo (a # A) s = Some s" "kid_lo lo (A @ [a]) s = Some s"
  "kid_hi hi [] = hi" "kid_hi hi (k # B) = Some (fst k)"
  by (simp_all add: kid_lo_def kid_hi_def)

inductive tord :: "(btr_phys \<Rightarrow> btr_phys \<Rightarrow> int) \<Rightarrow> btr_phys option \<Rightarrow> btr_phys option \<Rightarrow> btt \<Rightarrow> bool"
  for cmp where
  ord_gone: "tord cmp lo hi Gone"
| ord_leaf: "csorted cmp rs \<Longrightarrow> \<forall>r\<in>set rs. lob cmp lo r \<and> hib cmp hi r \<Longrightarrow> tord cmp lo hi (Leaf p rs)"
| ord_index: "kids \<noteq> [] \<Longrightarrow> csorted cmp (map fst (tl kids)) \<Longrightarrow> \<forall>k\<in>set (tl kids). lob cmp lo (fst k) \<and> hib cmp hi (fst k)
    \<Longrightarrow> (\<And>A s c B. kids = A @ (s, c) # B \<Longrightarrow> tord cmp (kid_lo lo A s) (kid_hi hi B) c)
    \<Longrightarrow> tord cmp lo hi (Index p kids)"

inductive_simps tord_simps: "tord cmp lo hi Gone" "tord cmp lo hi (Leaf p rs)" "tord cmp lo hi (Index p kids)"

lemma tord_indexD:
  assumes "tord cmp lo hi (Index p kids)"
  shows "kids \<noteq> []" "csorted cmp (map fst (tl kids))" "k \<in> set (tl kids) \<Longrightarrow> lob cmp lo (fst k) \<and> hib cmp hi (fst k)"
    "kids = A @ (s, c) # B \<Longrightarrow> tord cmp (kid_lo lo A s) (kid_hi hi B) c"
  using assms by (auto simp: tord_simps)

lemma tord_weaken:
  assumes "tord cmp lo hi t" "\<And>k. lob cmp lo k \<Longrightarrow> lob cmp lo' k" "\<And>k. hib cmp hi k \<Longrightarrow> hib cmp hi' k"
  shows "tord cmp lo' hi' t"
  using assms
proof (induction arbitrary: lo' hi' rule: tord.induct)
  case (ord_index kids lo hi p)
  show ?case
  proof (rule tord.ord_index)
    fix A s c B assume k: "kids = A @ (s, c) # B"
    show "tord cmp (kid_lo lo' A s) (kid_hi hi' B) c"
      by (rule ord_index.IH [OF k]) (use ord_index.prems in \<open>auto simp: kid_lo_def kid_hi_def split: list.splits if_splits\<close>)
  qed (use ord_index in auto)
qed (auto simp: tord_simps)

lemma lob_trans: "total_cmp cmp \<Longrightarrow> lob cmp lo r \<Longrightarrow> cmp r k \<le> 0 \<Longrightarrow> lob cmp lo k"
  by (cases lo) (auto intro: total_cmp_trans)

lemma hib_trans: "total_cmp cmp \<Longrightarrow> hib cmp hi r \<Longrightarrow> cmp k r \<le> 0 \<Longrightarrow> hib cmp hi k"
  by (cases hi) (auto intro: total_cmp_less_trans2)

text \<open>A node's records lie within its bounds.\<close>

lemma kid_split: "k \<in> set kids \<Longrightarrow> \<exists>A s c B. kids = A @ (s, c) # B \<and> k = (s, c)"
  by (metis split_list surj_pair)

lemma in_kids:
  assumes "r \<in> set (concat (map (\<lambda>k. f (snd k)) kids))"
  shows "\<exists>A s c B. kids = A @ (s, c) # B \<and> r \<in> set (f c)"
proof -
  obtain k where "k \<in> set kids" "r \<in> set (f (snd k))" using assms by auto
  moreover obtain A s c B where "kids = A @ (s, c) # B" "k = (s, c)" using kid_split [OF calculation(1)] by blast
  ultimately show ?thesis by (intro exI [of _ A] exI [of _ s] exI [of _ c] exI [of _ B]) simp
qed

lemma tl_append_Cons: "A \<noteq> [] \<Longrightarrow> tl (A @ k # B) = tl A @ k # B"
  by (cases A) auto

lemma tord_bounds:
  assumes "tord cmp lo hi t" "total_cmp cmp" "r \<in> set (trecs t)"
  shows "lob cmp lo r \<and> hib cmp hi r"
  using assms(1,3)
proof (induction rule: tord.induct)
  case (ord_index kids lo hi p)
  then have "r \<in> set (concat (map (\<lambda>k. trecs (snd k)) kids))" by simp
  then obtain A s c B where k: "kids = A @ (s, c) # B" "r \<in> set (trecs c)" using in_kids by metis
  from ord_index.IH [OF k] have r: "lob cmp (kid_lo lo A s) r" "hib cmp (kid_hi hi B) r" by simp_all
  have "lob cmp lo r"
  proof (cases "A = []")
    case False
    then have "(s, c) \<in> set (tl kids)" by (simp add: k(1) tl_append_Cons)
    with ord_index.hyps(3) have "lob cmp lo s" by fastforce
    with r(1) False show ?thesis by (auto simp: kid_lo_def intro: lob_trans [OF assms(2)])
  qed (use r in simp)
  moreover have "hib cmp hi r"
  proof (cases B)
    case (Cons b B')
    then have "b \<in> set (tl kids)" by (cases A) (simp_all add: k(1))
    with ord_index.hyps(3) have "hib cmp hi (fst b)" by blast
    with r(2) Cons show ?thesis by (auto intro: hib_trans [OF assms(2)])
  qed (use r in simp)
  ultimately show ?case by simp
qed auto

section \<open>The child a key belongs to\<close>

lemma bt_route_kids:
  assumes "kids \<noteq> []" "\<forall>k\<in>set (tl kids). btr_phys_index_ptr (fst k) = tptr (snd k)"
  shows "\<exists>A s c B. kids = A @ (s, c) # B
    \<and> bt_route cmp x (tptr (snd (hd kids))) i (map fst (tl kids)) = (tptr c, i + length A)
    \<and> (A \<noteq> [] \<longrightarrow> 0 \<le> cmp x s) \<and> (\<forall>k B'. B = k # B' \<longrightarrow> cmp x (fst k) < 0)"
  using assms
proof (induction kids arbitrary: i)
  case (Cons k kids)
  obtain s c where k: "k = (s, c)" by (cases k)
  show ?case
  proof (cases kids)
    case Nil
    with k show ?thesis by (intro exI [of _ "[]"] exI [of _ s] exI [of _ c] exI [of _ "[]"]) simp
  next
    case (Cons k' kids')
    show ?thesis
    proof (cases "cmp x (fst k') < 0")
      case True
      with k Cons show ?thesis by (intro exI [of _ "[]"] exI [of _ s] exI [of _ c] exI [of _ kids]) simp
    next
      case False
      have p: "btr_phys_index_ptr (fst k') = tptr (snd k')" using Cons.prems(2) Cons by simp
      have "\<exists>A s c B. kids = A @ (s, c) # B
        \<and> bt_route cmp x (tptr (snd (hd kids))) (Suc i) (map fst (tl kids)) = (tptr c, Suc i + length A)
        \<and> (A \<noteq> [] \<longrightarrow> 0 \<le> cmp x s) \<and> (\<forall>k B'. B = k # B' \<longrightarrow> cmp x (fst k) < 0)"
        using Cons.prems(2) Cons by (intro Cons.IH) simp_all
      then obtain A s' c' B where
        IH: "kids = A @ (s', c') # B" "bt_route cmp x (tptr (snd (hd kids))) (Suc i) (map fst (tl kids)) = (tptr c', Suc i + length A)"
          "A \<noteq> [] \<longrightarrow> 0 \<le> cmp x s'" "\<forall>k B'. B = k # B' \<longrightarrow> cmp x (fst k) < 0" by blast
      have "0 \<le> cmp x s'" using IH(1,3) False Cons by (cases A) auto
      moreover have "k # kids = (k # A) @ (s', c') # B" using IH(1) by simp
      moreover have "bt_route cmp x (tptr (snd (hd (k # kids)))) i (map fst (tl (k # kids))) = (tptr c', i + length (k # A))"
        using IH(2) False p Cons by simp
      ultimately show ?thesis using IH(4) by blast
    qed
  qed
qed simp

text \<open>The child a key is routed to has the key within its bounds.\<close>

lemma route_bounds:
  assumes "total_cmp cmp" "A \<noteq> [] \<longrightarrow> 0 \<le> cmp x s" "\<forall>k B'. B = k # B' \<longrightarrow> cmp x (fst k) < 0" "lob cmp lo x" "hib cmp hi x"
  shows "lob cmp (kid_lo lo A s) x" "hib cmp (kid_hi hi B) x"
proof -
  show "lob cmp (kid_lo lo A s) x"
    using assms(2,4) total_cmp_gt [OF assms(1), of s x] by (cases "A = []") (auto simp: kid_lo_def)
  show "hib cmp (kid_hi hi B) x" using assms(3,5) by (cases B) auto
qed

text \<open>The records of the other children are below or above the bounds of this one.\<close>

lemma other_kids:
  assumes t: "tord cmp lo hi (Index p (A @ (s, c) # B))" and c: "total_cmp cmp"
    and x: "lob cmp (kid_lo lo A s) x" "hib cmp (kid_hi hi B) x"
  shows "r \<in> set (concat (map (\<lambda>k. trecs (snd k)) A)) \<Longrightarrow> 0 < cmp x r" "r \<in> set (concat (map (\<lambda>k. trecs (snd k)) B)) \<Longrightarrow> cmp x r < 0"
proof -
  note T = tord_indexD [OF t]
  assume "r \<in> set (concat (map (\<lambda>k. trecs (snd k)) A))"
  then obtain A1 s1 c1 A2 where A: "A = A1 @ (s1, c1) # A2" "r \<in> set (trecs c1)" using in_kids by metis
  have "tord cmp (kid_lo lo A1 s1) (kid_hi hi (A2 @ (s, c) # B)) c1" by (rule T(4)) (simp add: A)
  from tord_bounds [OF this c A(2)] have r: "hib cmp (kid_hi hi (A2 @ (s, c) # B)) r" by simp
  have s: "cmp s x \<le> 0" using x(1) A(1) by (simp add: kid_lo_def)
  have "cmp r s < 0"
  proof (cases A2)
    case (Cons a A3)
    then have "cmp (fst a) s < 0" using T(2) A(1) by (cases A1) (auto simp: sorted_wrt_append)
    moreover have "cmp r (fst a) < 0" using r Cons by simp
    ultimately show ?thesis using total_cmp_less_trans [OF c, of r "fst a" s] by simp
  qed (use r in simp)
  then have "cmp r x < 0" using s by (rule total_cmp_less_trans [OF c])
  then show "0 < cmp x r" using total_cmp_gt [OF c, of x r] by simp
next
  note T = tord_indexD [OF t]
  assume "r \<in> set (concat (map (\<lambda>k. trecs (snd k)) B))"
  then obtain B1 s1 c1 B2 where B: "B = B1 @ (s1, c1) # B2" "r \<in> set (trecs c1)" using in_kids by metis
  have "tord cmp (kid_lo lo (A @ (s, c) # B1) s1) (kid_hi hi B2) c1" by (rule T(4)) (simp add: B)
  from tord_bounds [OF this c B(2)] have r: "cmp s1 r \<le> 0" by (simp add: kid_lo_def)
  have "cmp x s1 < 0"
  proof (cases B1)
    case Nil
    then show ?thesis using x(2) B(1) by simp
  next
    case (Cons b B3)
    then have "cmp (fst b) s1 < 0" using T(2) B(1) by (cases A) (auto simp: sorted_wrt_append)
    moreover have "cmp x (fst b) < 0" using x(2) B(1) Cons by simp
    ultimately show ?thesis using total_cmp_less_trans [OF c, of x "fst b" s1] by simp
  qed
  then show "cmp x r < 0" using r by (rule total_cmp_less_trans [OF c])
qed

lemma trecs_Index: "trecs (Index p (A @ (s, c) # B)) = concat (map (\<lambda>k. trecs (snd k)) A) @ trecs c @ concat (map (\<lambda>k. trecs (snd k)) B)"
  by simp

section \<open>The blocks of a tree\<close>

text \<open>\<open>rt\<close>: the block of the node that is marked as the root, or 0.\<close>

fun trep :: "16 word \<Rightarrow> (nat \<Rightarrow> bt_block) \<Rightarrow> nat \<Rightarrow> btt \<Rightarrow> bool" where
  "trep bsz V rt Gone \<longleftrightarrow> True"
| "trep bsz V rt (Leaf p rs) \<longleftrightarrow> p \<noteq> 0 \<and> (\<exists>n. V p = NodeBlk n \<and> node_wf bsz n \<and> btn_phys_is_leaf n
     \<and> (btn_phys_is_root n \<longleftrightarrow> p = rt) \<and> btnp_records n = rs)"
| "trep bsz V rt (Index p kids) \<longleftrightarrow> p \<noteq> 0 \<and> tl kids \<noteq> [] \<and> (\<exists>n. V p = NodeBlk n \<and> node_wf bsz n \<and> \<not> btn_phys_is_leaf n
     \<and> (btn_phys_is_root n \<longleftrightarrow> p = rt) \<and> btnp_records n = map fst (tl kids) \<and> btnp_ptr0 n = tptr (snd (hd kids)))
     \<and> (\<forall>k\<in>set (tl kids). btr_phys_index_ptr (fst k) = tptr (snd k) \<and> length (btrp_val (fst k)) = 8)
     \<and> (\<forall>k\<in>set kids. trep bsz V rt (snd k))"

lemma trep_tptr: "trep bsz V rt t \<Longrightarrow> tptr t = 0 \<longleftrightarrow> t = Gone"
  by (cases t) auto

text \<open>The node count in a block does not matter for the tree.\<close>

definition no_info :: "bt_block \<Rightarrow> bt_block" where
  "no_info d = (case d of NodeBlk n \<Rightarrow> NodeBlk (n\<lparr>btnp_info := 0\<rparr>) | _ \<Rightarrow> d)"

lemma no_info_node:
  assumes "no_info d = no_info (NodeBlk n)"
  obtains i where "d = NodeBlk (n\<lparr>btnp_info := i\<rparr>)"
proof (cases d)
  case (NodeBlk m)
  with assms have "m\<lparr>btnp_info := 0\<rparr> = n\<lparr>btnp_info := 0\<rparr>" by (simp add: no_info_def)
  then have "m\<lparr>btnp_info := 0\<rparr>\<lparr>btnp_info := btnp_info m\<rparr> = n\<lparr>btnp_info := 0\<rparr>\<lparr>btnp_info := btnp_info m\<rparr>" by simp
  then have "m = n\<lparr>btnp_info := btnp_info m\<rparr>" by simp
  with NodeBlk show thesis by (intro that [of "btnp_info m"]) simp
qed (use assms in \<open>simp_all add: no_info_def\<close>)

lemma no_info_simp [simp]: "no_info (NodeBlk (n\<lparr>btnp_info := i\<rparr>)) = no_info (NodeBlk n)"
  by (simp add: no_info_def)

lemma trep_cong:
  assumes "trep bsz V rt t" "\<And>q. q \<in> set (tblocks t) \<Longrightarrow> no_info (V' q) = no_info (V q)"
  shows "trep bsz V' rt t"
  using assms
proof (induction t)
  case (Leaf p rs)
  then obtain n where n: "V p = NodeBlk n" "node_wf bsz n" "btn_phys_is_leaf n" "btn_phys_is_root n \<longleftrightarrow> p = rt"
    "btnp_records n = rs" "p \<noteq> 0" by auto
  have "no_info (V' p) = no_info (NodeBlk n)" using Leaf.prems(2) n(1) by simp
  then obtain i where "V' p = NodeBlk (n\<lparr>btnp_info := i\<rparr>)" by (rule no_info_node)
  with n show ?case by auto
next
  case (Index p kids)
  then obtain n where n: "V p = NodeBlk n" "node_wf bsz n" "\<not> btn_phys_is_leaf n" "btn_phys_is_root n \<longleftrightarrow> p = rt"
    "btnp_records n = map fst (tl kids)" "btnp_ptr0 n = tptr (snd (hd kids))" by auto
  have "no_info (V' p) = no_info (NodeBlk n)" using Index.prems(2) n(1) by simp
  then obtain i where i: "V' p = NodeBlk (n\<lparr>btnp_info := i\<rparr>)" by (rule no_info_node)
  have "trep bsz V' rt (snd k)" if k: "k \<in> set kids" for k
  proof -
    obtain s c where sc: "k = (s, c)" by (cases k)
    show ?thesis unfolding sc snd_conv
    proof (rule Index.IH [of k c])
      show "k \<in> set kids" "c \<in> Basic_BNFs.snds k" using k by (simp_all add: sc)
      show "trep bsz V rt c" using Index.prems(1) k sc by auto
      show "no_info (V' q) = no_info (V q)" if "q \<in> set (tblocks c)" for q
        using Index.prems(2) that k sc by force
    qed
  qed
  with Index.prems(1) n i show ?case by auto
qed simp

lemma trep_indexE:
  assumes "trep bsz V rt (Index p kids)"
  obtains n where "V p = NodeBlk n" "node_wf bsz n" "\<not> btn_phys_is_leaf n" "btn_phys_is_root n \<longleftrightarrow> p = rt"
    "btnp_records n = map fst (tl kids)" "btnp_ptr0 n = tptr (snd (hd kids))"
  using assms by auto

lemma trep_route:
  assumes t: "trep bsz V rt (Index p kids)" "V p = NodeBlk n"
  obtains A s c B where "kids = A @ (s, c) # B" "btn_route cmp x n = (tptr c, length A)" "trep bsz V rt c"
    "A \<noteq> [] \<longrightarrow> 0 \<le> cmp x s" "\<forall>k B'. B = k # B' \<longrightarrow> cmp x (fst k) < 0"
proof -
  have k: "kids \<noteq> []" "\<forall>k\<in>set (tl kids). btr_phys_index_ptr (fst k) = tptr (snd k)" using t(1) by (cases kids; auto)+
  have n: "btnp_records n = map fst (tl kids)" "btnp_ptr0 n = tptr (snd (hd kids))" using t by auto
  obtain A s c B where r: "kids = A @ (s, c) # B"
    "bt_route cmp x (tptr (snd (hd kids))) 0 (map fst (tl kids)) = (tptr c, 0 + length A)"
    "A \<noteq> [] \<longrightarrow> 0 \<le> cmp x s" "\<forall>k B'. B = k # B' \<longrightarrow> cmp x (fst k) < 0"
    using bt_route_kids [OF k] by blast
  moreover have "trep bsz V rt c" using t(1) r(1) by auto
  ultimately show thesis using n by (intro that [of A s c B]) (simp_all add: btn_route_def btn_phys_first_index_record_ptr_def)
qed

section \<open>Looking up\<close>

lemma rec_find_find: "rec_find cmp x rs = List.find (\<lambda>r. cmp x r = 0) rs"
  by (induction rs) auto

lemma find_kids:
  assumes "tord cmp lo hi (Index p (A @ (s, c) # B))" "total_cmp cmp" "lob cmp (kid_lo lo A s) x" "hib cmp (kid_hi hi B) x"
  shows "List.find (\<lambda>r. cmp x r = 0) (trecs (Index p (A @ (s, c) # B))) = List.find (\<lambda>r. cmp x r = 0) (trecs c)"
proof -
  have "List.find (\<lambda>r. cmp x r = 0) (concat (map (\<lambda>k. trecs (snd k)) A)) = None"
    unfolding find_None_iff using other_kids(1) [OF assms] by fastforce
  moreover have "List.find (\<lambda>r. cmp x r = 0) (concat (map (\<lambda>k. trecs (snd k)) B)) = None"
    unfolding find_None_iff using other_kids(2) [OF assms] by fastforce
  ultimately show ?thesis unfolding trecs_Index find_by_append by (simp split: option.splits)
qed

definition find_post :: "nat set \<Rightarrow> btt \<Rightarrow> btr_phys \<Rightarrow> btree \<Rightarrow> (btr_phys, btree) outcome \<Rightarrow> bool" where
  "find_post U t x bt res \<longleftrightarrow>
     (case List.find (\<lambda>r. bt_cmp bt x r = 0) (trecs t) of
        Some r \<Rightarrow> \<exists>bt'. res = Done r bt' \<and> bt_good U bt' \<and> bt_view bt' = bt_view bt \<and> bt_refs bt' = bt_refs bt \<and> bt_frame bt bt'
      | None \<Rightarrow> \<exists>bt'. res = Fail ENOENT bt' \<and> bt_good U bt' \<and> bt_view bt' = bt_view bt \<and> bt_frame bt bt'
          \<and> (\<forall>b. bt_refs bt b \<le> bt_refs bt' b)
          \<and> (\<forall>p kids. t = Index p kids \<and> (\<forall>k\<in>set kids. snd k \<noteq> Gone) \<longrightarrow> (\<exists>b. bt_refs bt b < bt_refs bt' b)))"

lemma bt_find_node_ok:
  assumes "bt_good U bt" "bt_room (theight t) bt" "held bt b (tptr t)" "t \<noteq> Gone" "trep bsz (bt_view bt) rt t"
    "tord (bt_cmp bt) lo hi t" "total_cmp (bt_cmp bt)" "lob (bt_cmp bt) lo x" "hib (bt_cmp bt) hi x" "theight t < depth"
  shows "find_post U t x bt (bt_find_node depth b x bt)"
  using assms
proof (induction depth arbitrary: b bt t lo hi)
  case (Suc depth)
  show ?case
  proof (cases t)
    case (Leaf p rs)
    then obtain n where n: "bt_view bt p = NodeBlk n" "btn_phys_is_leaf n" "btnp_records n = rs" using Suc.prems(5) by auto
    have h: "held bt b p" using Suc.prems(3) Leaf by simp
    obtain bt' where a: "bt_alloc_with malloc_or_enomem bt = Done () bt'" "bt_good U bt'" "bt_view bt' = bt_view bt"
      "bt_refs bt' = bt_refs bt" "bt_frame bt bt'"
      by (rule bt_alloc_ok [OF Suc.prems(1), of malloc_or_enomem "()"]) (rule malloc_or_enomem_ok)
    show ?thesis
      using a n Leaf Suc.prems(1)
      by (auto simp: find_post_def with_node_held [OF Suc.prems(1) h n(1)] rec_find_find split: option.split)
  next
    case (Index p kids)
    obtain n where n: "bt_view bt p = NodeBlk n" "\<not> btn_phys_is_leaf n"
      using Suc.prems(5) Index by (metis trep_indexE)
    have h: "held bt b p" using Suc.prems(3) Index by simp
    obtain A s c B where r: "kids = A @ (s, c) # B" "btn_route (bt_cmp bt) x n = (tptr c, length A)" "trep bsz (bt_view bt) rt c"
      "A \<noteq> [] \<longrightarrow> 0 \<le> bt_cmp bt x s" "\<forall>k B'. B = k # B' \<longrightarrow> bt_cmp bt x (fst k) < 0"
      by (rule trep_route [OF Suc.prems(5) [unfolded Index] n(1)])
    have bounds: "lob (bt_cmp bt) (kid_lo lo A s) x" "hib (bt_cmp bt) (kid_hi hi B) x"
      by (rule route_bounds [OF Suc.prems(7) r(4,5) Suc.prems(8,9)])+
    have ord: "tord (bt_cmp bt) lo hi (Index p (A @ (s, c) # B))" using Suc.prems(6) Index r(1) by simp
    note F = find_kids [OF ord Suc.prems(7) bounds]
    show ?thesis
    proof (cases "c = Gone")
      case True
      with F r(1) Index have "List.find (\<lambda>r. bt_cmp bt x r = 0) (trecs t) = None" by simp
      moreover have "bt_find_node (Suc depth) b x bt = Fail ENOENT bt"
        using True r(2) n(2) by (simp add: with_node_held [OF Suc.prems(1) h n(1)])
      moreover have "\<not> (\<forall>k\<in>set kids. snd k \<noteq> Gone)" using True r(1) by simp
      ultimately show ?thesis using Suc.prems(1) Index by (simp add: find_post_def)
    next
      case False
      have hc: "theight c < theight t" using theight_kid [of "(s, c)" kids p] r(1) Index by simp
      have kid: "bt_view bt (tptr c) = NodeBlk m \<Longrightarrow> bt_view bt (tptr c) = NodeBlk m" for m by simp
      obtain m where m: "bt_view bt (tptr c) = NodeBlk m" using r(3) False by (cases c) auto
      have room: "bt_room (Suc (theight c)) bt" using Suc.prems(2) hc by (auto intro: bt_room_mono)
      obtain child bt1 where g: "btn_get (tptr c) None bt = Done child bt1" "bt_good U bt1" "bt_view bt1 = bt_view bt"
        "bt_refs bt1 = (bt_refs bt)(child := bt_refs bt child + 1)" "held bt1 child (tptr c)" "bt_frame bt bt1"
        "bt_room (theight c) bt1"
        by (rule btn_get_ok [OF Suc.prems(1) room m])
      have cmp1: "bt_cmp bt1 = bt_cmp bt" by (rule bt_frameD(1) [OF g(6)])
      have kidord: "tord (bt_cmp bt) (kid_lo lo A s) (kid_hi hi B) c" by (rule tord_indexD(4) [OF ord refl])
      have IH: "find_post U c x bt1 (bt_find_node depth child x bt1)"
        by (rule Suc.IH [of bt1 c child "kid_lo lo A s" "kid_hi hi B"])
          (use g(2,3,5,7) False r(3) kidord cmp1 Suc.prems(7,10) bounds hc in simp_all)
      have ptr: "tptr c \<noteq> 0" using trep_tptr [OF r(3)] False by simp
      have run: "bt_find_node (Suc depth) b x bt = andthen (bt_find_node depth child x bt1) (\<lambda>r bt2.
          andthen (bt_release child bt2) (\<lambda>_ bt3. Done r bt3))"
        using ptr r(2) n(2) g(1) by (simp add: with_node_held [OF Suc.prems(1) h n(1)])
      show ?thesis
      proof (cases "List.find (\<lambda>r. bt_cmp bt x r = 0) (trecs c)")
        case None
        with IH cmp1 obtain bt2 where f: "bt_find_node depth child x bt1 = Fail ENOENT bt2" "bt_good U bt2"
          "bt_view bt2 = bt_view bt1" "bt_frame bt1 bt2" "\<forall>b. bt_refs bt1 b \<le> bt_refs bt2 b"
          by (auto simp: find_post_def)
        have le: "bt_refs bt b \<le> bt_refs bt2 b" for b using f(5) [rule_format, of b] g(4) by (auto split: if_splits)
        have lt: "bt_refs bt child < bt_refs bt2 child" using f(5) [rule_format, of child] g(4) by simp
        have "bt_find_node (Suc depth) b x bt = Fail ENOENT bt2" using run f(1) by simp
        with f(2,3) g(3) bt_frame_trans [OF g(6) f(4)] le lt None F Index r(1) show ?thesis
          unfolding find_post_def by (auto simp del: bt_find_node.simps)
      next
        case (Some y)
        with IH cmp1 obtain bt2 where f: "bt_find_node depth child x bt1 = Done y bt2" "bt_good U bt2"
          "bt_view bt2 = bt_view bt1" "bt_refs bt2 = bt_refs bt1" "bt_frame bt1 bt2"
          by (auto simp: find_post_def)
        have U: "\<forall>u\<in>U. 0 < bt_refs bt u" using Suc.prems(1) by (simp add: bt_good_def)
        have refs2: "bt_refs bt2 = (bt_refs bt)(child := bt_refs bt child + 1)" using f(4) g(4) by simp
        obtain bt3 where rl: "bt_release child bt2 = Done () bt3" "bt_good U bt3" "bt_view bt3 = bt_view bt2"
          "bt_refs bt3 = bt_refs bt" "bt_frame bt bt3"
          by (rule bt_release_got [OF f(2) bt_frame_trans [OF g(6) f(5)] refs2 U])
        have "bt_find_node (Suc depth) b x bt = Done y bt3" using run f(1) rl(1) by simp
        with rl f(3) g(3) Some F Index r(1) show ?thesis by (simp add: find_post_def del: bt_find_node.simps)
      qed
    qed
  qed (use Suc.prems(4) in simp)
qed simp

end
