(* ===== verification/BtreeUpdate.thy ===== *)
theory BtreeUpdate
  imports BtreeTree
begin

text \<open>
  How an update of the tree changes the file: which blocks it takes and gives back, that it leaves
  all other blocks alone but for the node count in the root's block, and what replacing one child of
  an index node does to the tree.
\<close>

section \<open>Steps on the blocks\<close>

definition owned :: "sm_phys \<Rightarrow> (nat \<Rightarrow> bt_block) \<Rightarrow> nat set" where
  "owned smp V = {k. data_block smp k \<and> allocated smp V k}"

text \<open>The blocks \<open>S\<close> become the blocks \<open>S'\<close>; whatever is new was free before.\<close>

definition blk_step :: "sm_phys \<Rightarrow> nat list \<Rightarrow> nat list \<Rightarrow> (nat \<Rightarrow> bt_block) \<Rightarrow> (nat \<Rightarrow> bt_block) \<Rightarrow> bool" where
  "blk_step smp S S' V V' \<longleftrightarrow> space_ok smp V' \<and> set S \<subseteq> owned smp V
     \<and> (\<forall>k. allocated smp V' k \<longleftrightarrow> allocated smp V k \<and> k \<notin> set S \<or> k \<in> set S')
     \<and> (\<forall>k\<in>set S'. data_block smp k \<and> (allocated smp V k \<longrightarrow> k \<in> set S))
     \<and> (\<forall>k\<in>owned smp V - set S. no_info (V' k) = no_info (V k))
     \<and> free_blocks smp V' + length S' = free_blocks smp V + length S"

lemma blk_stepD:
  assumes "blk_step smp S S' V V'"
  shows "space_ok smp V'" "set S \<subseteq> owned smp V" "set S' \<subseteq> owned smp V'"
    "k \<in> owned smp V \<Longrightarrow> k \<notin> set S \<Longrightarrow> k \<in> owned smp V' \<and> k \<notin> set S' \<and> no_info (V' k) = no_info (V k)"
    "free_blocks smp V' + length S' = free_blocks smp V + length S"
  using assms by (auto simp: blk_step_def owned_def)

lemma blk_step_refl: "space_ok smp V \<Longrightarrow> set S \<subseteq> owned smp V \<Longrightarrow> blk_step smp S S V V"
  by (auto simp: blk_step_def owned_def)

lemma blk_step_trans:
  assumes a: "blk_step smp S T V V1" and b: "blk_step smp T S' V1 V'"
  shows "blk_step smp S S' V V'"
proof -
  have al1: "allocated smp V1 k \<longleftrightarrow> allocated smp V k \<and> k \<notin> set S \<or> k \<in> set T" for k using a by (simp add: blk_step_def)
  have al2: "allocated smp V' k \<longleftrightarrow> allocated smp V1 k \<and> k \<notin> set T \<or> k \<in> set S'" for k using b by (simp add: blk_step_def)
  have T: "data_block smp k \<and> (allocated smp V k \<longrightarrow> k \<in> set S)" if "k \<in> set T" for k using a that by (simp add: blk_step_def)
  have S': "data_block smp k \<and> (allocated smp V1 k \<longrightarrow> k \<in> set T)" if "k \<in> set S'" for k using b that by (simp add: blk_step_def)
  show ?thesis
    unfolding blk_step_def
  proof (intro conjI ballI allI)
    show "space_ok smp V'" "set S \<subseteq> owned smp V" using a b by (simp_all add: blk_step_def)
    show "free_blocks smp V' + length S' = free_blocks smp V + length S" using a b by (simp add: blk_step_def)
    fix k
    show "allocated smp V' k \<longleftrightarrow> allocated smp V k \<and> k \<notin> set S \<or> k \<in> set S'" using al1 [of k] al2 [of k] T [of k] by blast
    show "data_block smp k" if "k \<in> set S'" using S' [OF that] by blast
    show "allocated smp V k \<longrightarrow> k \<in> set S" if "k \<in> set S'" using S' [OF that] T [of k] al1 [of k] by blast
    assume k: "k \<in> owned smp V - set S"
    then have "k \<notin> set T" "k \<in> owned smp V1" using T [of k] al1 [of k] by (auto simp: owned_def)
    then have "no_info (V' k) = no_info (V1 k)" using b by (simp add: blk_step_def)
    also have "\<dots> = no_info (V k)" using a k by (simp add: blk_step_def)
    finally show "no_info (V' k) = no_info (V k)" .
  qed
qed

lemma blk_step_frame:
  assumes "blk_step smp S S' V V'" "set X \<union> set Y \<subseteq> owned smp V - set S"
  shows "blk_step smp (X @ S @ Y) (X @ S' @ Y) V V'"
  using assms by (auto simp: blk_step_def owned_def)

lemma blk_step_perm:
  assumes "blk_step smp S S' V V'" "set S = set T" "length S = length T" "set S' = set T'" "length S' = length T'"
  shows "blk_step smp T T' V V'"
  using assms by (simp add: blk_step_def)

lemma blk_step_distinct:
  assumes "blk_step smp S S' V V'" "distinct (X @ S @ Y)" "set X \<union> set Y \<subseteq> owned smp V" "distinct S'"
  shows "distinct (X @ S' @ Y)"
proof -
  have "k \<notin> set X \<union> set Y" if "k \<in> set S'" for k
    using assms(1-3) that by (auto simp: blk_step_def owned_def)
  with assms(2,4) show ?thesis by auto
qed

lemma owned_upd: "data_block smp p \<Longrightarrow> owned smp (V(p := d)) = owned smp V"
  by (simp add: owned_def data_block_upd)

lemma blk_step_store:
  assumes "space_ok smp V" "set S \<subseteq> owned smp V" "p \<in> owned smp V" "p \<in> set S \<or> no_info d = no_info (V p)"
  shows "blk_step smp S S V (V(p := d))"
proof -
  have p: "data_block smp p" using assms(3) by (simp add: owned_def)
  show ?thesis
    unfolding blk_step_def data_block_upd [OF p]
    using assms space_ok_upd [OF assms(1) p] by (auto simp: owned_def)
qed

lemma blk_step_bit:
  assumes "bit_step smp q True V V'" "\<not> allocated smp V q" "data_block smp q" "set S \<subseteq> owned smp V"
  shows "blk_step smp S (S @ [q]) V V'"
proof -
  note B = bit_stepD [OF assms(1)]
  show ?thesis
    unfolding blk_step_def B(3) using assms B(1,2,4) by (auto simp: owned_def)
qed

lemma blk_step_alloc:
  assumes "bit_step smp q True V V1" "\<not> allocated smp V q" "data_block smp q" "set S \<subseteq> owned smp V"
  shows "blk_step smp S (S @ [q]) V (V1(q := d))"
proof (rule blk_step_trans [OF blk_step_bit [OF assms]])
  have "q \<in> owned smp V1" using bit_stepD(3) [OF assms(1)] assms(3) by (simp add: owned_def)
  then show "blk_step smp (S @ [q]) (S @ [q]) V1 (V1(q := d))"
    using blk_stepD(1,3) [OF blk_step_bit [OF assms]] by (intro blk_step_store) auto
qed

lemma blk_step_free:
  assumes "bit_step smp q False V V'" "set S \<subseteq> owned smp V" "set S = insert q (set S')" "q \<notin> set S'" "length S = Suc (length S')"
  shows "blk_step smp S S' V V'"
proof -
  note B = bit_stepD [OF assms(1)]
  show ?thesis
    unfolding blk_step_def B(3) using assms B(1,2,5) by (auto simp: owned_def)
qed

section \<open>The node count of the root\<close>

definition root_at :: "(nat \<Rightarrow> bt_block) \<Rightarrow> nat \<Rightarrow> 32 word \<Rightarrow> bool" where
  "root_at V r i \<longleftrightarrow> (\<exists>n. V r = NodeBlk n \<and> btn_phys_is_root n \<and> btnp_info n = i)"

lemma root_at_upd: "p \<noteq> r \<Longrightarrow> root_at (V(p := d)) r i = root_at V r i"
  by (simp add: root_at_def)

lemma root_info_add_ok:
  assumes good: "bt_good U bt" and r: "held bt (bt_root bt) r" and i: "root_at (bt_view bt) r i"
  obtains n bt' where "bt_view bt r = NodeBlk n" "root_info_add k bt = Done () bt'" "bt_good (insert (bt_root bt) U) bt'"
    "bt_view bt' = (bt_view bt)(r := NodeBlk (n\<lparr>btnp_info := i + k\<rparr>))" "root_at (bt_view bt') r (i + k)"
    "bt_refs bt' = bt_refs bt" "bt_frame bt bt'" "bt_blkno bt' = bt_blkno bt"
proof -
  obtain n where n: "bt_view bt r = NodeBlk n" "btn_phys_is_root n" "btnp_info n = i" using i by (auto simp: root_at_def)
  let ?d = "NodeBlk (n\<lparr>btnp_info := i + k\<rparr>)"
  note P = bt_poke_ok [OF good r, of ?d]
  have "root_info_add k bt = Done () (bt_poke (bt_root bt) ?d bt)"
    using held_phys [OF good r] n by (simp add: root_info_add_def)
  moreover have "root_at (bt_view (bt_poke (bt_root bt) ?d bt)) r (i + k)"
    using n(2) by (simp add: P(2) root_at_def btn_phys_is_root_def)
  ultimately show thesis using that [OF n(1)] P by blast
qed

text \<open>The count changes and the root's block is marked dirty.\<close>

lemma root_info_dirty_ok:
  assumes good: "bt_good {} bt" and r: "held bt (bt_root bt) r" and i: "root_at (bt_view bt) r i"
  obtains n bt' where "bt_view bt r = NodeBlk n" "root_info_add k bt = Done () bt'" "bt_good {} (bt_dirty (bt_root bt') bt')"
    "bt_view (bt_dirty (bt_root bt') bt') = (bt_view bt)(r := NodeBlk (n\<lparr>btnp_info := i + k\<rparr>))"
    "root_at (bt_view (bt_dirty (bt_root bt') bt')) r (i + k)"
    "bt_refs (bt_dirty (bt_root bt') bt') = bt_refs bt" "bt_frame bt (bt_dirty (bt_root bt') bt')"
proof -
  obtain n bt' where a: "bt_view bt r = NodeBlk n" "root_info_add k bt = Done () bt'" "bt_good {bt_root bt} bt'"
    "bt_view bt' = (bt_view bt)(r := NodeBlk (n\<lparr>btnp_info := i + k\<rparr>))" "root_at (bt_view bt') r (i + k)"
    "bt_refs bt' = bt_refs bt" "bt_frame bt bt'" "bt_blkno bt' = bt_blkno bt"
    by (rule root_info_add_ok [OF good r i])
  have root: "bt_root bt' = bt_root bt" by (rule bt_frameD(2) [OF a(7)])
  have "0 < bt_refs bt' (bt_root bt')" using r a(6) root by (simp add: held_def)
  note D = bt_dirty_ok [OF a(3) this]
  show thesis
    by (rule that [OF a(1,2)]) (use D a root bt_frame_trans [OF a(7) D(4)] in simp_all)
qed

section \<open>Replacing a child\<close>

fun kids_ord :: "(btr_phys option \<Rightarrow> btr_phys option \<Rightarrow> btt \<Rightarrow> bool) \<Rightarrow> btr_phys option \<Rightarrow> btr_phys option
    \<Rightarrow> (btr_phys \<times> btt) list \<Rightarrow> bool" where
  "kids_ord P lo hi [] \<longleftrightarrow> True"
| "kids_ord P lo hi (k # ks) \<longleftrightarrow> P lo (kid_hi hi ks) (snd k) \<and> kids_ord P (Some (fst (hd ks))) hi ks"

lemma kids_ord_append:
  "kids_ord P lo hi (A @ k # B) \<longleftrightarrow> kids_ord P lo (Some (fst k)) A \<and> kids_ord P (kid_lo lo A (fst k)) hi (k # B)"
proof (induction A arbitrary: lo)
  case (Cons a A)
  have "kid_hi hi (A @ k # B) = kid_hi (Some (fst k)) A" by (cases A) simp_all
  moreover have "kids_ord P (Some (fst (hd (A @ k # B)))) (Some (fst k)) A = kids_ord P (Some (fst (hd A))) (Some (fst k)) A"
    by (cases A) simp_all
  moreover have "kid_lo (Some (fst (hd (A @ k # B)))) A (fst k) = Some (fst k)" by (cases A) simp_all
  ultimately show ?case using Cons.IH [of "Some (fst (hd (A @ k # B)))"] by simp
qed simp

lemma kids_ord_iff:
  "kids_ord P lo hi kids \<longleftrightarrow> (\<forall>A s c B. kids = A @ (s, c) # B \<longrightarrow> P (kid_lo lo A s) (kid_hi hi B) c)"
proof
  assume *: "kids_ord P lo hi kids"
  show "\<forall>A s c B. kids = A @ (s, c) # B \<longrightarrow> P (kid_lo lo A s) (kid_hi hi B) c"
  proof (intro allI impI)
    fix A s c B assume "kids = A @ (s, c) # B"
    with * show "P (kid_lo lo A s) (kid_hi hi B) c" by (simp add: kids_ord_append)
  qed
next
  show "\<forall>A s c B. kids = A @ (s, c) # B \<longrightarrow> P (kid_lo lo A s) (kid_hi hi B) c \<Longrightarrow> kids_ord P lo hi kids"
  proof (induction kids arbitrary: lo)
    case (Cons k ks)
    have "P lo (kid_hi hi ks) (snd k)" using Cons.prems [rule_format, of "[]" "fst k" "snd k" ks] by simp
    moreover have "kids_ord P (Some (fst (hd ks))) hi ks"
    proof (rule Cons.IH, intro allI impI)
      fix A s c B assume ks: "ks = A @ (s, c) # B"
      have "P (kid_lo lo (k # A) s) (kid_hi hi B) c" using Cons.prems ks by (metis append_Cons)
      then show "P (kid_lo (Some (fst (hd ks))) A s) (kid_hi hi B) c" using ks by (cases A) simp_all
    qed
    ultimately show ?case by simp
  qed simp
qed

lemma tord_Index_iff:
  "tord cmp lo hi (Index p kids) \<longleftrightarrow> kids \<noteq> [] \<and> csorted cmp (map fst (tl kids))
     \<and> (\<forall>y\<in>set (map fst (tl kids)). lob cmp lo y \<and> hib cmp hi y) \<and> kids_ord (tord cmp) lo hi kids"
  unfolding tord_simps kids_ord_iff by auto

lemma kids_ord_weaken:
  assumes "kids_ord (tord cmp) lo hi ks" "\<And>k. lob cmp lo k \<Longrightarrow> lob cmp lo' k" "\<And>k. hib cmp hi k \<Longrightarrow> hib cmp hi' k"
  shows "kids_ord (tord cmp) lo' hi' ks"
  using assms
proof (induction ks arbitrary: lo lo')
  case (Cons k ks)
  have "tord cmp lo' (kid_hi hi' ks) (snd k)"
  proof (rule tord_weaken)
    show "tord cmp lo (kid_hi hi ks) (snd k)" using Cons.prems(1) by simp
    show "lob cmp lo' x" if "lob cmp lo x" for x using that by (rule Cons.prems(2))
    show "hib cmp (kid_hi hi' ks) x" if "hib cmp (kid_hi hi ks) x" for x
      using that Cons.prems(3) by (cases ks) simp_all
  qed
  moreover have "kids_ord (tord cmp) (Some (fst (hd ks))) hi' ks"
  proof (rule Cons.IH [of "Some (fst (hd ks))"])
    show "kids_ord (tord cmp) (Some (fst (hd ks))) hi ks" using Cons.prems(1) by simp
    show "hib cmp hi' x" if "hib cmp hi x" for x using that by (rule Cons.prems(3))
  qed
  ultimately show ?case by simp
qed simp

lemma key_cmpD: "key_cmp cmp \<Longrightarrow> btrp_key x = btrp_key x' \<Longrightarrow> cmp x y = cmp x' y"
  "key_cmp cmp \<Longrightarrow> btrp_key x = btrp_key x' \<Longrightarrow> cmp y x = cmp y x'"
  unfolding key_cmp_def by blast+

lemma kids_ord_key:
  assumes "kids_ord (tord cmp) lo (Some s) ks" "key_cmp cmp" "btrp_key s' = btrp_key s"
  shows "kids_ord (tord cmp) lo (Some s') ks"
  by (rule kids_ord_weaken [OF assms(1)]) (use key_cmpD(2) [OF assms(2,3)] in simp_all)


lemma tl_mid: "tl (A @ k # B) = (if A = [] then B else tl A @ k # B)"
  by (cases A) simp_all

lemma csorted_key:
  assumes "key_cmp cmp" "btrp_key s' = btrp_key s"
  shows "csorted cmp (xs @ s' # ys) = csorted cmp (xs @ s # ys)"
  using key_cmpD [OF assms] by (simp add: sorted_wrt_append)

text \<open>The same separator, another child.\<close>

lemma tord_kid:
  assumes t: "tord cmp lo hi (Index p (A @ (s, c) # B))" and k: "key_cmp cmp" "btrp_key s' = btrp_key s"
    and c': "tord cmp (kid_lo lo A s) (kid_hi hi B) c'"
  shows "tord cmp lo hi (Index p (A @ (s', c') # B))"
proof -
  have T: "csorted cmp (map fst (tl (A @ (s, c) # B)))" "\<forall>y\<in>set (map fst (tl (A @ (s, c) # B))). lob cmp lo y \<and> hib cmp hi y"
    "kids_ord (tord cmp) lo (Some s) A" "kids_ord (tord cmp) (Some (fst (hd B))) hi B"
    using t by (simp_all add: tord_Index_iff kids_ord_append)
  have sorted: "csorted cmp (map fst (tl (A @ (s', c') # B)))"
    using T(1) csorted_key [OF k, of "map fst (tl A)" "map fst B"] by (cases "A = []") (simp_all add: tl_mid)
  have bounds: "\<forall>y\<in>set (map fst (tl (A @ (s', c') # B))). lob cmp lo y \<and> hib cmp hi y"
  proof (cases "A = []")
    case False
    have "lob cmp lo s' = lob cmp lo s" "hib cmp hi s' = hib cmp hi s"
      using key_cmpD [OF k] by (simp_all add: lob_def hib_def split: option.split)
    with T(2) False show ?thesis by (simp add: tl_mid)
  qed (use T(2) in simp)
  have "kid_lo lo A s' = Some s'" "kid_lo lo A s = Some s" if "A \<noteq> []" using that by (simp_all add: kid_lo_def)
  moreover have "lob cmp (Some s) y \<Longrightarrow> lob cmp (Some s') y" for y using key_cmpD(1) [OF k] by simp
  ultimately have "tord cmp (kid_lo lo A s') (kid_hi hi B) c'"
    using c' tord_weaken [OF c', of "kid_lo lo A s'" "kid_hi hi B"] by (cases "A = []") simp_all
  then show ?thesis
    unfolding tord_Index_iff kids_ord_append using T(4) kids_ord_key [OF T(3) k] sorted bounds by simp
qed

lemma ins_by_mid: "\<forall>l\<in>set L. 0 < cmp x l \<Longrightarrow> R = [] \<or> cmp x (hd R) < 0 \<Longrightarrow> ins_by cmp x (L @ R) = L @ x # R"
  by (induction L) (cases R; auto)+

text \<open>One child becomes two, with a new separator between them.\<close>

lemma tord_two_kids:
  assumes t: "tord cmp lo hi (Index p (A @ (s, c) # B))" and c: "total_cmp cmp"
    and x: "\<And>l. kid_lo lo A s = Some l \<Longrightarrow> cmp l x < 0" "hib cmp (kid_hi hi B) x" "lob cmp lo x" "hib cmp hi x"
    and kids: "tord cmp (kid_lo lo A s) (Some x) c1" "tord cmp (Some x) (kid_hi hi B) c2"
  shows "map fst (tl (A @ (s, c1) # (x, c2) # B)) = ins_by cmp x (map fst (tl (A @ (s, c) # B)))"
    "\<forall>y\<in>set (map fst (tl (A @ (s, c) # B))). cmp x y \<noteq> 0" "tord cmp lo hi (Index p (A @ (s, c1) # (x, c2) # B))"
proof -
  define L where "L = map fst (tl (A @ [(s, c)]))"
  let ?R = "map fst B"
  have LR: "map fst (tl (A @ (s, c) # B)) = L @ ?R" by (cases A) (simp_all add: L_def)
  have T: "csorted cmp (L @ ?R)" "\<forall>y\<in>set (L @ ?R). lob cmp lo y \<and> hib cmp hi y"
    "kids_ord (tord cmp) lo (Some s) A" "kids_ord (tord cmp) (Some (fst (hd B))) hi B"
    using t by (simp_all add: tord_Index_iff kids_ord_append LR del: set_append)
  have left: "\<forall>l\<in>set L. 0 < cmp x l"
  proof (cases "A = []")
    case False
    then have L: "L = map fst (tl A) @ [s]" by (simp add: L_def)
    have sx: "0 < cmp x s" using x(1) [of s] False total_cmp_gt [OF c, of x s] by (simp add: kid_lo_def)
    have "csorted cmp (map fst (tl A) @ s # ?R)" using T(1) L by simp
    from csorted_all_less [OF c this] sx L show ?thesis by auto
  qed (simp add: L_def)
  have right: "\<forall>y\<in>set ?R. cmp x y < 0"
  proof (cases B)
    case (Cons b B')
    then have "cmp x (fst b) < 0" using x(2) by simp
    moreover have "csorted cmp (L @ fst b # map fst B')" using T(1) Cons by simp
    ultimately show ?thesis using csorted_all_greater [OF c, of L "fst b" "map fst B'" x] Cons by auto
  qed simp
  have "?R = [] \<or> cmp x (hd ?R) < 0" using right by (cases B) simp_all
  with left have ins: "ins_by cmp x (L @ ?R) = L @ x # ?R" by (rule ins_by_mid)
  have new: "map fst (tl (A @ (s, c1) # (x, c2) # B)) = L @ x # ?R" by (cases A) (simp_all add: L_def)
  show 1: "map fst (tl (A @ (s, c1) # (x, c2) # B)) = ins_by cmp x (map fst (tl (A @ (s, c) # B)))"
    unfolding LR ins new ..
  have "cmp x y \<noteq> 0" if "y \<in> set L \<union> set ?R" for y using bspec [OF left, of y] bspec [OF right, of y] that by (metis Un_iff less_irrefl)
  then have ne: "\<forall>y\<in>set (L @ ?R). cmp x y \<noteq> 0" by simp
  then show "\<forall>y\<in>set (map fst (tl (A @ (s, c) # B))). cmp x y \<noteq> 0" unfolding LR .
  have "csorted cmp (L @ x # ?R)" using csorted_ins_by [OF c T(1) ne] by (simp only: ins)
  moreover have "\<forall>y\<in>set (L @ x # ?R). lob cmp lo y \<and> hib cmp hi y" using T(2) x(3,4) by auto
  moreover have "kids_ord (tord cmp) lo hi (A @ (s, c1) # (x, c2) # B)"
    unfolding kids_ord_append using T(3,4) kids by simp
  ultimately show "tord cmp lo hi (Index p (A @ (s, c1) # (x, c2) # B))"
    unfolding tord_Index_iff new by blast
qed

section \<open>Pointers\<close>

lemma length_ptr_bytes [simp]: "length (ptr_bytes k n) = k"
  by (induction k arbitrary: n) auto

lemma bytes_ptr_bytes: "bytes_ptr (ptr_bytes k n) = n mod 256 ^ k"
proof (induction k arbitrary: n)
  case (Suc k)
  have "n mod 256 ^ Suc k = n mod 256 + 256 * (n div 256 mod 256 ^ k)" by (simp add: mod_mult2_eq)
  with Suc show ?case by (simp add: unat_of_nat take_bit_eq_mod)
qed simp

lemma index_record_simps [simp]:
  "n < 2 ^ 64 \<Longrightarrow> btr_phys_index_ptr (index_record r n) = n" "btrp_key (index_record r n) = btrp_key r"
  "length (btrp_val (index_record r n)) = 8" "index_record (index_record r m) n = index_record r n"
  by (simp_all add: btr_phys_index_ptr_def index_record_def bytes_ptr_bytes del: ptr_bytes.simps)

lemma index_record_small: "small_rec bsz r \<Longrightarrow> small_rec bsz (index_record r n)"
  by (simp add: small_rec_def rsz_def index_record_def del: ptr_bytes.simps)

lemma owned_less:
  assumes "space_ok smp V" "k \<in> owned smp V"
  shows "k < 2 ^ 32"
proof -
  note S = space_okD [OF assms(1)]
  have "k div sm_bpb smp < length (sm_maps smp)" using assms(2) by (simp add: owned_def allocated_def)
  then have "k < length (sm_maps smp) * sm_bpb smp" using S(2) by (simp add: div_less_iff_less_mult)
  with S(4) show ?thesis by (simp add: mult.commute)
qed

text \<open>What overwriting a child's pointer does to the node.\<close>

definition kid_sep :: "(btr_phys \<times> btt) list \<Rightarrow> btr_phys \<Rightarrow> nat \<Rightarrow> btr_phys" where
  "kid_sep A s q = (if A = [] then s else index_record s q)"

lemma kid_sep_key [simp]: "btrp_key (kid_sep A s q) = btrp_key s"
  by (simp add: kid_sep_def)

lemma btn_set_ptr_kid:
  assumes n: "node_wf bsz n" "\<not> btn_phys_is_leaf n" "btnp_records n = map fst (tl (A @ (s, c) # B))"
    "btnp_ptr0 n = tptr (snd (hd (A @ (s, c) # B)))"
    and s: "A \<noteq> [] \<Longrightarrow> length (btrp_val s) = 8" and q: "tptr c' = q"
  defines "n' \<equiv> btn_set_ptr (length A) q n"
  shows "node_wf bsz n'" "\<not> btn_phys_is_leaf n'" "btn_phys_is_root n' = btn_phys_is_root n" "btnp_info n' = btnp_info n"
    "btnp_records n' = map fst (tl (A @ (kid_sep A s q, c') # B))" "btnp_ptr0 n' = tptr (snd (hd (A @ (kid_sep A s q, c') # B)))"
proof -
  have "node_wf bsz n' \<and> \<not> btn_phys_is_leaf n' \<and> btn_phys_is_root n' = btn_phys_is_root n \<and> btnp_info n' = btnp_info n
    \<and> btnp_records n' = map fst (tl (A @ (kid_sep A s q, c') # B)) \<and> btnp_ptr0 n' = tptr (snd (hd (A @ (kid_sep A s q, c') # B)))"
  proof (cases A)
    case Nil
    then have "n' = n\<lparr>btnp_ptr0 := q\<rparr>" by (simp add: n'_def btn_set_ptr_def)
    with n Nil q show ?thesis by (simp add: node_wf_def)
  next
    case (Cons a A')
    have rs: "btnp_records n = map fst A' @ s # map fst B" using n(3) Cons by simp
    have v: "length (btrp_val s) = 8" using s Cons by simp
    have "s\<lparr>btrp_val := ptr_bytes 8 q\<rparr> = index_record s q" by (cases s) (simp add: index_record_def)
    then have n': "n' = n\<lparr>btnp_records := map fst A' @ index_record s q # map fst B\<rparr>"
      using rs v Cons by (simp add: n'_def btn_set_ptr_def Let_def nth_append list_update_append del: ptr_bytes.simps)
    have sz: "rsz (index_record s q) = rsz s" using v by (simp add: rsz_def)
    have "small_rec bsz s" using n(1) rs by (simp add: node_wf_def)
    from index_record_small [OF this] n(1,2) rs sz have "node_wf bsz n'" by (auto simp: node_wf_def n')
    with n Cons n' show ?thesis by (simp add: kid_sep_def)
  qed
  then show "node_wf bsz n'" "\<not> btn_phys_is_leaf n'" "btn_phys_is_root n' = btn_phys_is_root n" "btnp_info n' = btnp_info n"
    "btnp_records n' = map fst (tl (A @ (kid_sep A s q, c') # B))" "btnp_ptr0 n' = tptr (snd (hd (A @ (kid_sep A s q, c') # B)))"
    by simp_all
qed

section \<open>The blocks after an update\<close>

lemma trep_blocks: "trep bsz V r t \<Longrightarrow> q \<in> set (tblocks t) \<Longrightarrow> \<exists>n. V q = NodeBlk n \<and> (btn_phys_is_root n \<longleftrightarrow> q = r)"
proof (induction t)
  case (Index p kids)
  show ?case
  proof (cases "q = p")
    case False
    with Index.prems(2) obtain k where k: "k \<in> set kids" "q \<in> set (tblocks (snd k))" by auto
    have "snd k \<in> Basic_BNFs.snds k" by (cases k) simp
    with Index.IH [OF k(1) this] Index.prems(1) k show ?thesis by auto
  qed (use Index.prems in auto)
qed auto

lemma trep_rt:
  assumes "trep bsz V r t" "r \<notin> set (tblocks t)" "r' \<notin> set (tblocks t)"
  shows "trep bsz V r' t"
  using assms
proof (induction t)
  case (Index p kids)
  have "trep bsz V r' (snd k)" if k: "k \<in> set kids" for k
  proof (rule Index.IH [OF k])
    show "snd k \<in> Basic_BNFs.snds k" by (cases k) simp
  qed (use Index.prems k in auto)
  with Index.prems show ?case by auto
qed auto

lemma trep_no_zero: "trep bsz V r t \<Longrightarrow> 0 \<notin> set (tblocks t)"
proof (induction t)
  case (Index p kids)
  have "0 \<notin> set (tblocks (snd k))" if k: "k \<in> set kids" for k
  proof (rule Index.IH [OF k])
    show "snd k \<in> Basic_BNFs.snds k" by (cases k) simp
  qed (use Index.prems k in auto)
  with Index.prems show ?case by auto
qed auto

lemma trep_kids:
  assumes t: "trep bsz V r (Index p (A @ k # B))" and K: "K \<noteq> []" "\<forall>k\<in>set K. trep bsz V' r (snd k)"
    and n: "V' p = NodeBlk n'" "node_wf bsz n'" "\<not> btn_phys_is_leaf n'" "btn_phys_is_root n' \<longleftrightarrow> p = r"
      "btnp_records n' = map fst (tl (A @ K @ B))" "btnp_ptr0 n' = tptr (snd (hd (A @ K @ B)))"
    and s: "\<forall>k\<in>set (if A = [] then tl K else K). btr_phys_index_ptr (fst k) = tptr (snd k) \<and> length (btrp_val (fst k)) = 8"
    and same: "\<And>q. q \<in> set (concat (map (\<lambda>k. tblocks (snd k)) (A @ B))) \<Longrightarrow> no_info (V' q) = no_info (V q)"
  shows "trep bsz V' r (Index p (A @ K @ B))"
proof -
  have old: "\<forall>k\<in>set (A @ B). trep bsz V r (snd k)" using t by auto
  have others: "trep bsz V' r (snd k)" if "k \<in> set (A @ B)" for k
  proof (rule trep_cong)
    show "trep bsz V r (snd k)" using old that by blast
    show "no_info (V' q) = no_info (V q)" if "q \<in> set (tblocks (snd k))" for q
      using \<open>k \<in> set (A @ B)\<close> that by (intro same) auto
  qed
  have "btnp_records n' \<noteq> []" using n(2,3) by (simp add: node_wf_def)
  then have ne: "tl (A @ K @ B) \<noteq> []" unfolding n(5) by simp
  have tl: "set (tl (A @ K @ B)) \<subseteq> set (tl (A @ k # B)) \<union> set (if A = [] then tl K else K)"
    using K(1) by (cases A) auto
  have "\<forall>k\<in>set (tl (A @ K @ B)). btr_phys_index_ptr (fst k) = tptr (snd k) \<and> length (btrp_val (fst k)) = 8"
  proof
    fix j assume "j \<in> set (tl (A @ K @ B))"
    with tl consider "j \<in> set (tl (A @ k # B))" | "j \<in> set (if A = [] then tl K else K)" by blast
    then show "btr_phys_index_ptr (fst j) = tptr (snd j) \<and> length (btrp_val (fst j)) = 8"
      using t s by cases (auto simp del: set_append)
  qed
  moreover have "\<forall>k\<in>set (A @ K @ B). trep bsz V' r (snd k)" using others K(2) by auto
  moreover have "p \<noteq> 0" using t by simp
  ultimately show ?thesis using n ne by auto
qed

section \<open>One child changes\<close>

abbreviation kblocks :: "(btr_phys \<times> btt) list \<Rightarrow> nat list" where
  "kblocks ks \<equiv> concat (map (\<lambda>k. tblocks (snd k)) ks)"

abbreviation krecs :: "(btr_phys \<times> btt) list \<Rightarrow> btr_phys list" where
  "krecs ks \<equiv> concat (map (\<lambda>k. trecs (snd k)) ks)"

lemma tblocks_Index: "tblocks (Index p (A @ K @ B)) = (p # kblocks A) @ kblocks K @ kblocks B"
  by simp

lemma kid_step:
  assumes own: "set (tblocks (Index p (A @ (s, c) # B))) \<subseteq> owned smp V" and d: "distinct (tblocks (Index p (A @ (s, c) # B)))"
    and step: "blk_step smp (tblocks c) S' V V'"
  shows "blk_step smp (tblocks (Index p (A @ (s, c) # B))) ((p # kblocks A) @ S' @ kblocks B) V V'"
    "distinct S' \<Longrightarrow> distinct ((p # kblocks A) @ S' @ kblocks B)"
    "no_info (V' p) = no_info (V p)" "p \<in> owned smp V'" "p \<notin> set S'"
    "q \<in> set (kblocks (A @ B)) \<Longrightarrow> no_info (V' q) = no_info (V q)" "q \<in> set (kblocks (A @ B)) \<Longrightarrow> q \<in> owned smp V' \<and> q \<notin> set S'"
proof -
  have split: "tblocks (Index p (A @ (s, c) # B)) = (p # kblocks A) @ tblocks c @ kblocks B" by simp
  have X: "set (p # kblocks A) \<union> set (kblocks B) \<subseteq> owned smp V - set (tblocks c)"
    using own d unfolding split by auto
  show "blk_step smp (tblocks (Index p (A @ (s, c) # B))) ((p # kblocks A) @ S' @ kblocks B) V V'"
    unfolding split by (rule blk_step_frame [OF step X])
  show "distinct ((p # kblocks A) @ S' @ kblocks B)" if "distinct S'"
    by (rule blk_step_distinct [OF step d [unfolded split] _ that]) (use X in blast)
  have p: "p \<in> owned smp V" "p \<notin> set (tblocks c)" using X by auto
  show "no_info (V' p) = no_info (V p)" "p \<in> owned smp V'" "p \<notin> set S'" using blk_stepD(4) [OF step p] by blast+
  assume "q \<in> set (kblocks (A @ B))"
  then have "q \<in> owned smp V" "q \<notin> set (tblocks c)" using X by auto
  from blk_stepD(4) [OF step this] show "no_info (V' q) = no_info (V q)" "q \<in> owned smp V' \<and> q \<notin> set S'" by blast+
qed

lemma kid_seps:
  assumes "trep bsz V r (Index p (A @ (s, c) # B))" "A \<noteq> []"
  shows "btr_phys_index_ptr s = tptr c" "length (btrp_val s) = 8"
proof -
  have "(s, c) \<in> set (tl (A @ (s, c) # B))" using assms(2) by (simp add: tl_mid)
  moreover have "\<forall>k\<in>set (tl (A @ (s, c) # B)). btr_phys_index_ptr (fst k) = tptr (snd k) \<and> length (btrp_val (fst k)) = 8"
    using assms(1) by simp
  ultimately show "btr_phys_index_ptr s = tptr c" "length (btrp_val s) = 8" by auto
qed

lemma seps_kid: "map fst (tl (A @ (s, c') # B)) = map fst (tl (A @ (s, c) # B))" "tptr c' = tptr c \<Longrightarrow> tptr (snd (hd (A @ (s, c') # B))) = tptr (snd (hd (A @ (s, c) # B)))"
  by (cases A; simp)+

text \<open>The child keeps its block.\<close>

lemma trep_same_kid:
  assumes t: "trep bsz V r (Index p (A @ (s, c) # B))"
    and own: "set (tblocks (Index p (A @ (s, c) # B))) \<subseteq> owned smp V" and d: "distinct (tblocks (Index p (A @ (s, c) # B)))"
    and step: "blk_step smp (tblocks c) (tblocks c') V V'" and c': "trep bsz V' r c'" "tptr c' = tptr c"
  shows "trep bsz V' r (Index p (A @ (s, c') # B))"
proof -
  obtain n where n: "V p = NodeBlk n" "node_wf bsz n" "\<not> btn_phys_is_leaf n" "btn_phys_is_root n \<longleftrightarrow> p = r"
    "btnp_records n = map fst (tl (A @ (s, c) # B))" "btnp_ptr0 n = tptr (snd (hd (A @ (s, c) # B)))" using trep_indexE [OF t] .
  note K = kid_step [OF own d step]
  obtain i where i: "V' p = NodeBlk (n\<lparr>btnp_info := i\<rparr>)" using K(3) n(1) no_info_node by metis
  have "trep bsz V' r (Index p (A @ [(s, c')] @ B))"
  proof (rule trep_kids [OF t])
    show "V' p = NodeBlk (n\<lparr>btnp_info := i\<rparr>)" by (rule i)
    show "\<forall>k\<in>set (if A = [] then tl [(s, c')] else [(s, c')]). btr_phys_index_ptr (fst k) = tptr (snd k) \<and> length (btrp_val (fst k)) = 8"
      using kid_seps [OF t] c'(2) by simp
    show "no_info (V' q) = no_info (V q)" if "q \<in> set (kblocks (A @ B))" for q by (rule K(6) [OF that])
  qed (use n c' seps_kid(1) [of A s c' B c] seps_kid(2) [OF c'(2), of A s B] in simp_all)
  then show ?thesis by simp
qed

text \<open>The pointer to the child is overwritten.\<close>

lemma trep_set_kid:
  assumes t: "trep bsz V r (Index p (A @ (s, c) # B))"
    and own: "set (tblocks (Index p (A @ (s, c) # B))) \<subseteq> owned smp V" and d: "distinct (tblocks (Index p (A @ (s, c) # B)))"
    and step: "blk_step smp (tblocks c) (tblocks c') V V1" and c': "trep bsz V1 r c'" "distinct (tblocks c')" "tptr c' < 2 ^ 64"
    and n1: "V1 p = NodeBlk n1"
  defines "V' \<equiv> V1(p := NodeBlk (btn_set_ptr (length A) (tptr c') n1))" and "t' \<equiv> Index p (A @ (kid_sep A s (tptr c'), c') # B)"
  shows "trep bsz V' r t'" "blk_step smp (tblocks (Index p (A @ (s, c) # B))) (tblocks t') V V'" "distinct (tblocks t')"
    "root_at V' r i = root_at V1 r i"
proof -
  obtain n where n: "V p = NodeBlk n" "node_wf bsz n" "\<not> btn_phys_is_leaf n" "btn_phys_is_root n \<longleftrightarrow> p = r"
    "btnp_records n = map fst (tl (A @ (s, c) # B))" "btnp_ptr0 n = tptr (snd (hd (A @ (s, c) # B)))" using trep_indexE [OF t] .
  note K = kid_step [OF own d step]
  obtain j where j: "n1 = n\<lparr>btnp_info := j\<rparr>" using K(3) n(1) n1 no_info_node by (metis bt_block.inject(3))
  have n1': "node_wf bsz n1" "\<not> btn_phys_is_leaf n1" "btnp_records n1 = map fst (tl (A @ (s, c) # B))"
    "btnp_ptr0 n1 = tptr (snd (hd (A @ (s, c) # B)))" "btn_phys_is_root n1 \<longleftrightarrow> p = r" using n j by simp_all
  note P = btn_set_ptr_kid [OF n1'(1-4) kid_seps(2) [OF t], of c' "tptr c'", simplified]
  have notp: "q \<noteq> p" if "q \<in> set (kblocks (A @ B)) \<union> set (tblocks c')" for q
    using that d K(5) by auto
  have "trep bsz V' r (Index p (A @ [(kid_sep A s (tptr c'), c')] @ B))"
  proof (rule trep_kids [OF t])
    show "V' p = NodeBlk (btn_set_ptr (length A) (tptr c') n1)" by (simp add: V'_def)
    show "no_info (V' q) = no_info (V q)" if "q \<in> set (kblocks (A @ B))" for q
    proof -
      have "q \<noteq> p" using notp that by blast
      with K(6) [OF that] show ?thesis by (simp add: V'_def)
    qed
    show "\<forall>k\<in>set [(kid_sep A s (tptr c'), c')]. trep bsz V' r (snd k)"
    proof
      fix k assume "k \<in> set [(kid_sep A s (tptr c'), c')]"
      then have "snd k = c'" by simp
      moreover have "trep bsz V' r c'" by (rule trep_cong [OF c'(1)]) (use notp in \<open>auto simp: V'_def\<close>)
      ultimately show "trep bsz V' r (snd k)" by simp
    qed
    show "\<forall>k\<in>set (if A = [] then tl [(kid_sep A s (tptr c'), c')] else [(kid_sep A s (tptr c'), c')]).
        btr_phys_index_ptr (fst k) = tptr (snd k) \<and> length (btrp_val (fst k)) = 8"
      using c'(3) by (simp add: kid_sep_def)
  qed (use P n1'(5) in simp_all)
  then show "trep bsz V' r t'" by (simp add: t'_def)
  have blocks: "tblocks t' = (p # kblocks A) @ tblocks c' @ kblocks B" by (simp add: t'_def)
  show "distinct (tblocks t')" unfolding blocks by (rule K(2) [OF c'(2)])
  have "blk_step smp (tblocks t') (tblocks t') V1 V'"
    unfolding V'_def blocks by (rule blk_step_store [OF blk_stepD(1,3) [OF K(1)] K(4)]) simp
  then show "blk_step smp (tblocks (Index p (A @ (s, c) # B))) (tblocks t') V V'"
    using blk_step_trans [OF K(1) [folded blocks]] by blast
  show "root_at V' r i = root_at V1 r i"
    using P(3,4) n1 by (cases "p = r") (simp_all add: root_at_def V'_def)
qed

text \<open>The records of a tree are sorted.\<close>

lemma kids_sorted:
  assumes "kids_ord (\<lambda>lo hi c. csorted cmp (trecs c)) lo hi ks" "kids_ord (tord cmp) lo hi ks" "total_cmp cmp"
    "csorted cmp (map fst (tl ks))" "ks \<noteq> [] \<longrightarrow> (\<forall>y\<in>set (map fst (tl ks)). hib cmp hi y)"
  shows "csorted cmp (krecs ks) \<and> (\<forall>y\<in>set (krecs ks). hib cmp hi y)"
  using assms
proof (induction ks arbitrary: lo)
  case (Cons k ks)
  have IH: "csorted cmp (krecs ks) \<and> (\<forall>y\<in>set (krecs ks). hib cmp hi y)"
  proof (rule Cons.IH [of "Some (fst (hd ks))"])
    show "csorted cmp (map fst (tl ks))" using Cons.prems(4) by (cases ks) simp_all
    show "ks \<noteq> [] \<longrightarrow> (\<forall>y\<in>set (map fst (tl ks)). hib cmp hi y)" using Cons.prems(5) by (cases ks) simp_all
  qed (use Cons.prems in simp_all)
  have k: "tord cmp lo (kid_hi hi ks) (snd k)" "csorted cmp (trecs (snd k))" using Cons.prems(1,2) by simp_all
  note kb = tord_bounds [OF k(1) Cons.prems(3)]
  show ?case
  proof (cases ks)
    case Nil
    with k kb show ?thesis by simp
  next
    case (Cons k' ks')
    have lo': "lob cmp (Some (fst k')) y" if "y \<in> set (krecs ks)" for y
    proof -
      obtain A s c B where d: "ks = A @ (s, c) # B" "y \<in> set (trecs c)" using in_kids [OF \<open>y \<in> set (krecs ks)\<close>] by blast
      have "kids_ord (tord cmp) (Some (fst k')) hi ks" using Cons.prems(2) Cons by simp
      then have "tord cmp (kid_lo (Some (fst k')) A s) (kid_hi hi B) c" unfolding d(1) kids_ord_append by simp
      from tord_bounds [OF this Cons.prems(3) d(2)] have y: "lob cmp (kid_lo (Some (fst k')) A s) y" by blast
      show ?thesis
      proof (cases A)
        case (Cons a A')
        then have a: "a = k'" using d(1) \<open>ks = k' # ks'\<close> by simp
        have "csorted cmp (map fst ks)" using Cons.prems(4) by simp
        then have "cmp (fst k') s < 0" using Cons a d(1) by simp
        moreover have "cmp s y \<le> 0" using y Cons by simp
        ultimately show ?thesis using total_cmp_less_trans [OF \<open>total_cmp cmp\<close>, of "fst k'" s y] by simp
      qed (use y in simp)
    qed
    have less: "cmp z y < 0" if "z \<in> set (trecs (snd k))" "y \<in> set (krecs ks)" for z y
      using kb [OF that(1)] lo' [OF that(2)] Cons total_cmp_less_trans [OF Cons.prems(3), of z "fst k'" y] by simp
    have hik: "hib cmp hi z" if "z \<in> set (trecs (snd k))" for z
    proof -
      have "cmp z (fst k') \<le> 0" using kb [OF that] Cons by simp
      moreover have "hib cmp hi (fst k')" using Cons.prems(5) Cons by simp
      ultimately show ?thesis using hib_trans [OF Cons.prems(3)] by blast
    qed
    show ?thesis using IH k(2) less hik by (auto simp: sorted_wrt_append)
  qed
qed simp

lemma kids_ord_mono: "kids_ord P lo hi ks \<Longrightarrow> (\<And>k lo hi. k \<in> set ks \<Longrightarrow> P lo hi (snd k) \<Longrightarrow> Q lo hi (snd k)) \<Longrightarrow> kids_ord Q lo hi ks"
  by (induction ks arbitrary: lo) auto

lemma tord_csorted: "tord cmp lo hi t \<Longrightarrow> total_cmp cmp \<Longrightarrow> csorted cmp (trecs t)"
proof (induction t arbitrary: lo hi)
  case (Index p kids)
  have T: "csorted cmp (map fst (tl kids))" "\<forall>y\<in>set (map fst (tl kids)). hib cmp hi y" "kids_ord (tord cmp) lo hi kids"
    using Index.prems(1) by (simp_all add: tord_Index_iff)
  have "kids_ord (\<lambda>lo hi c. csorted cmp (trecs c)) lo hi kids"
  proof (rule kids_ord_mono [OF T(3)])
    fix k lo hi assume k: "k \<in> set kids" "tord cmp lo hi (snd k)"
    have "snd k \<in> Basic_BNFs.snds k" by (cases k) simp
    from Index.IH [OF k(1) this k(2) Index.prems(2)] show "csorted cmp (trecs (snd k))" .
  qed
  from kids_sorted [OF this T(3) Index.prems(2) T(1)] T(2) show ?case by simp
qed (simp_all add: tord_simps)

text \<open>Only the child a key is routed to can hold it.\<close>

lemma match_kids:
  assumes "tord cmp lo hi (Index p (A @ (s, c) # B))" "total_cmp cmp" "lob cmp (kid_lo lo A s) x" "hib cmp (kid_hi hi B) x"
  shows "\<forall>a\<in>set (krecs A). 0 < cmp x a" "\<forall>b\<in>set (krecs B). cmp x b < 0"
    "(\<exists>y\<in>set (trecs (Index p (A @ (s, c) # B))). cmp x y = 0) \<longleftrightarrow> (\<exists>y\<in>set (trecs c). cmp x y = 0)"
proof -
  note O = other_kids [OF assms]
  show 1: "\<forall>a\<in>set (krecs A). 0 < cmp x a" using O(1) by blast
  show 2: "\<forall>b\<in>set (krecs B). cmp x b < 0" using O(2) by blast
  have "cmp x y \<noteq> 0" if "y \<in> set (krecs A) \<union> set (krecs B)" for y
    using bspec [OF 1, of y] bspec [OF 2, of y] that by (metis Un_iff less_irrefl)
  then show "(\<exists>y\<in>set (trecs (Index p (A @ (s, c) # B))). cmp x y = 0) \<longleftrightarrow> (\<exists>y\<in>set (trecs c). cmp x y = 0)"
    unfolding trecs_Index set_append by blast
qed

lemma del_by_kids:
  assumes "\<forall>a\<in>set A. 0 < cmp x a" "\<exists>y\<in>set C. cmp x y = 0"
  shows "del_by cmp x (A @ C @ B) = A @ del_by cmp x C @ B"
proof -
  have "\<not> (\<exists>y\<in>set A. cmp x y = 0)" using assms(1) by (metis less_irrefl)
  with assms(2) show ?thesis by (simp add: del_by_append)
qed

lemma ins_by_kids:
  assumes "\<forall>a\<in>set A. 0 < cmp x a" "\<forall>b\<in>set B. cmp x b < 0"
  shows "ins_by cmp x (A @ C @ B) = A @ ins_by cmp x C @ B"
proof -
  have "ins_by cmp x (C @ B) = ins_by cmp x C @ B"
    using assms(2) by (induction C) (cases B; auto)+
  with assms(1) show ?thesis by (induction A) auto
qed

end
