(* ===== verification/BtreeRemove.thy ===== *)
theory BtreeRemove
  imports BtreeUpdate
begin

text \<open>
  Removal from a B-tree: the record with the key goes, an emptied leaf below the root gives its block
  back and its pointer becomes 0, and nothing else changes.
\<close>

section \<open>The state around a subtree\<close>

text \<open>\<open>r\<close>: the root's block; \<open>i\<close>: the node count in it.\<close>

definition tree_state :: "btree \<Rightarrow> sm_phys \<Rightarrow> nat \<Rightarrow> 32 word \<Rightarrow> btr_phys option \<Rightarrow> btr_phys option \<Rightarrow> btt \<Rightarrow> bool" where
  "tree_state bt smp r i lo hi t \<longleftrightarrow> space_ready {} bt smp \<and> key_cmp (bt_cmp bt) \<and> held bt (bt_root bt) r \<and> root_at (bt_view bt) r i
     \<and> r \<in> owned smp (bt_view bt) \<and> t \<noteq> Gone \<and> trep (smp_bsz smp) (bt_view bt) r t \<and> tord (bt_cmp bt) lo hi t
     \<and> distinct (tblocks t) \<and> set (tblocks t) \<subseteq> owned smp (bt_view bt) \<and> (r \<in> set (tblocks t) \<longrightarrow> r = tptr t)"

lemma tptr_in: "t \<noteq> Gone \<Longrightarrow> tptr t \<in> set (tblocks t)"
  by (cases t) auto

lemma tree_stateD:
  assumes "tree_state bt smp r i lo hi t"
  shows "space_ready {} bt smp" "key_cmp (bt_cmp bt)" "held bt (bt_root bt) r" "root_at (bt_view bt) r i"
    "r \<in> owned smp (bt_view bt)" "t \<noteq> Gone" "trep (smp_bsz smp) (bt_view bt) r t" "tord (bt_cmp bt) lo hi t"
    "distinct (tblocks t)" "set (tblocks t) \<subseteq> owned smp (bt_view bt)" "r \<in> set (tblocks t) \<Longrightarrow> r = tptr t"
    "total_cmp (bt_cmp bt)" "bt_good {} bt" "space_ok smp (bt_view bt)" "bsz_ok (smp_bsz smp)" "held bt (bt_sm bt) 0"
    "tptr t \<in> set (tblocks t)"
  using assms tptr_in [of t] by (auto simp: tree_state_def space_ready_def)

lemma space_ready_frame:
  assumes "space_ready U bt smp" "bt_good {} bt'" "space_ok smp (bt_view bt')" "bt_frame bt bt'"
  shows "space_ready {} bt' smp"
  using assms(1-3) bt_frameD [OF assms(4)] by (simp add: space_ready_def)

lemma tree_state_same:
  assumes t: "tree_state bt smp r i lo hi t" and bt': "bt_good {} bt'" "bt_view bt' = bt_view bt" "bt_frame bt bt'"
  shows "tree_state bt' smp r i lo hi t"
proof -
  note T = tree_stateD [OF t]
  have "space_ready {} bt' smp" using T(1,14) bt' by (intro space_ready_frame) simp_all
  moreover have "held bt' (bt_root bt') r" using T(3) bt_frameD(2,5) [OF bt'(3)] by simp
  ultimately show ?thesis unfolding tree_state_def bt'(2) bt_frameD(1) [OF bt'(3)] using T(2,4-11) by blast
qed

text \<open>Down to a child that is got from the cache.\<close>

lemma tree_state_kid:
  assumes t: "tree_state bt smp r i lo hi (Index p (A @ (s, c) # B))" and c: "c \<noteq> Gone"
    and bt': "bt_good {} bt'" "bt_view bt' = bt_view bt" "bt_frame bt bt'"
  shows "tree_state bt' smp r i (kid_lo lo A s) (kid_hi hi B) c"
proof -
  note T = tree_stateD [OF t]
  have "trep (smp_bsz smp) (bt_view bt) r c" using T(7) by auto
  moreover have "tord (bt_cmp bt) (kid_lo lo A s) (kid_hi hi B) c" by (rule tord_indexD(4) [OF T(8) refl])
  moreover have "r \<notin> set (tblocks c)" using T(9,11) by auto
  moreover have "distinct (tblocks c)" "set (tblocks c) \<subseteq> owned smp (bt_view bt)" using T(9,10) by auto
  ultimately have "tree_state bt smp r i (kid_lo lo A s) (kid_hi hi B) c"
    unfolding tree_state_def using T(1-5) c by blast
  then show ?thesis by (rule tree_state_same [OF _ bt'])
qed

section \<open>One node\<close>

definition drop_rec :: "(btr_phys \<Rightarrow> btr_phys \<Rightarrow> int) \<Rightarrow> btr_phys \<Rightarrow> btr_phys \<Rightarrow> btn_phys \<Rightarrow> btn_phys" where
  "drop_rec cmp x y n = n\<lparr>btnp_records := del_by cmp x (btnp_records n), btnp_freespace := btnp_freespace n + btr_phys_size y\<rparr>"

lemma drop_rec_wf:
  assumes bsz: "bsz_ok bsz" and n: "node_wf bsz n" "btn_phys_is_leaf n" and y: "btnp_records n = B @ y # A" "B @ A = del_by cmp x (btnp_records n)"
  shows "node_wf bsz (drop_rec cmp x y n)"
proof -
  have sz: "unat (btnp_freespace n) + rsz y \<le> unat (max_inline bsz)" using node_wf_bound(1) [OF n(1)] y(1) by simp
  have "small_rec bsz y" using node_wf_bound(2) [OF n(1)] y(1) by simp
  note yw = small_word [OF bsz this]
  have "unat (max_inline bsz) < 65536" using max_rec_bounds(2) [OF bsz] bsz by (simp add: bsz_ok_def)
  with sz yw have "unat (btnp_freespace n + btr_phys_size y) = unat (btnp_freespace n) + rsz y" by (simp add: unat_add16)
  moreover have "btnp_records (drop_rec cmp x y n) = B @ A" "btnp_freespace (drop_rec cmp x y n) = btnp_freespace n + btr_phys_size y"
    "btn_phys_is_leaf (drop_rec cmp x y n)" "btn_phys_is_root (drop_rec cmp x y n) = btn_phys_is_root n"
    using n(2) y(2) by (simp_all add: drop_rec_def)
  ultimately show ?thesis using n y(1) by (auto simp: node_wf_def)
qed

lemma btn_remove_ok:
  assumes good: "bt_good U bt" and b: "held bt b p" and n: "bt_view bt p = NodeBlk n" "node_wf bsz n" "btn_phys_is_leaf n"
    and bsz: "bsz_ok bsz" and c: "total_cmp (bt_cmp bt)" "csorted (bt_cmp bt) (btnp_records n)"
  obtains "\<forall>y\<in>set (btnp_records n). bt_cmp bt x y \<noteq> 0" "btn_remove b x bt = Fail ENOENT bt"
  | y where "\<exists>y\<in>set (btnp_records n). bt_cmp bt x y = 0" "node_wf bsz (drop_rec (bt_cmp bt) x y n)"
      "btn_remove b x bt = Done () (bt_store b (NodeBlk (drop_rec (bt_cmp bt) x y n)) bt)"
proof (cases "rec_remove (bt_cmp bt) x (btnp_records n)")
  case None
  with rec_remove_None [OF c, of x] have "\<forall>y\<in>set (btnp_records n). bt_cmp bt x y \<noteq> 0" by simp
  moreover have "btn_remove b x bt = Fail ENOENT bt" using None by (simp add: btn_remove_def with_node_held [OF good b n(1)])
  ultimately show thesis by (rule that(1))
next
  case (Some w)
  obtain B y A where w: "rec_remove (bt_cmp bt) x (btnp_records n) = Some (B, y, A)" using Some by (cases w) auto
  note R = rec_remove_Some [OF w]
  have wf: "node_wf bsz (drop_rec (bt_cmp bt) x y n)" using R by (intro drop_rec_wf [OF bsz n(2,3), of B y A]) simp_all
  have "\<exists>y\<in>set (btnp_records n). bt_cmp bt x y = 0" using R by (metis in_set_conv_decomp)
  moreover have "btn_remove b x bt = Done () (bt_store b (NodeBlk (drop_rec (bt_cmp bt) x y n)) bt)"
    using w R by (simp add: btn_remove_def with_node_held [OF good b n(1)] drop_rec_def)
  ultimately show thesis using wf that(2) by blast
qed

section \<open>Removal below a node\<close>

text \<open>No bitmap is full: every one has a free block.\<close>

definition no_full :: "sm_phys \<Rightarrow> (nat \<Rightarrow> bt_block) \<Rightarrow> bool" where
  "no_full smp V \<longleftrightarrow> (\<forall>j<length (sm_maps smp). \<exists>n. n div sm_bpb smp = j \<and> \<not> allocated smp V n)"

definition rem_done :: "sm_phys \<Rightarrow> nat \<Rightarrow> 32 word \<Rightarrow> btr_phys option \<Rightarrow> btr_phys option \<Rightarrow> btr_phys \<Rightarrow> btt \<Rightarrow> btree \<Rightarrow> btree \<Rightarrow> btt \<Rightarrow> bool" where
  "rem_done smp r i lo hi x t bt bt' t' \<longleftrightarrow> bt_good {} bt' \<and> bt_refs bt' = bt_refs bt \<and> bt_frame bt bt'
     \<and> trep (smp_bsz smp) (bt_view bt') r t' \<and> tord (bt_cmp bt) lo hi t' \<and> distinct (tblocks t') \<and> tptr t' = tptr t
     \<and> trecs t' = del_by (bt_cmp bt) x (trecs t) \<and> theight t' \<le> theight t \<and> set (tblocks t') \<subseteq> set (tblocks t)
     \<and> blk_step smp (tblocks t) (tblocks t') (bt_view bt) (bt_view bt')
     \<and> root_at (bt_view bt') r (i + of_nat (length (tblocks t')) - of_nat (length (tblocks t)))"

definition rem_post :: "sm_phys \<Rightarrow> nat \<Rightarrow> 32 word \<Rightarrow> btr_phys option \<Rightarrow> btr_phys option \<Rightarrow> btr_phys \<Rightarrow> btt \<Rightarrow> btree
    \<Rightarrow> (unit, btree) outcome \<Rightarrow> bool" where
  "rem_post smp r i lo hi x t bt res \<longleftrightarrow>
     (if \<exists>y\<in>set (trecs t). bt_cmp bt x y = 0
      then \<exists>bt' t'. res = Done () bt' \<and> rem_done smp r i lo hi x t bt bt' t'
      else \<exists>bt'. res = Fail ENOENT bt' \<and> bt_good {} bt' \<and> bt_view bt' = bt_view bt \<and> bt_refs bt' = bt_refs bt \<and> bt_frame bt bt')"

lemma bt_remove_leaf_ok:
  assumes t: "tree_state bt smp r i lo hi (Leaf p rs)" and b: "held bt b p"
  shows "rem_post smp r i lo hi x (Leaf p rs) bt (bt_remove_node (Suc d) b x bt)"
proof -
  note T = tree_stateD [OF t]
  obtain n where n: "bt_view bt p = NodeBlk n" "node_wf (smp_bsz smp) n" "btn_phys_is_leaf n" "btn_phys_is_root n \<longleftrightarrow> p = r"
    "btnp_records n = rs" using T(7) by auto
  have c: "csorted (bt_cmp bt) (btnp_records n)" "\<forall>y\<in>set rs. lob (bt_cmp bt) lo y \<and> hib (bt_cmp bt) hi y"
    using T(8) n(5) by (auto simp: tord_simps)
  have run: "bt_remove_node (Suc d) b x bt = btn_remove b x bt"
    using n(3) by (simp add: with_node_held [OF T(13) b n(1)])
  show ?thesis
  proof (rule btn_remove_ok [where x = x, OF T(13) b n(1-3) T(15,12) c(1)])
    assume "\<forall>y\<in>set (btnp_records n). bt_cmp bt x y \<noteq> 0" "btn_remove b x bt = Fail ENOENT bt"
    with n(5) T(13) run show ?thesis by (simp add: rem_post_def)
  next
    fix y
    let ?n = "drop_rec (bt_cmp bt) x y n"
    let ?t = "Leaf p (del_by (bt_cmp bt) x rs)"
    assume y: "\<exists>y\<in>set (btnp_records n). bt_cmp bt x y = 0" "node_wf (smp_bsz smp) ?n" "btn_remove b x bt = Done () (bt_store b (NodeBlk ?n) bt)"
    note st = bt_store_ok [OF T(13) b, of "NodeBlk ?n"]
    have flags: "btn_phys_is_leaf ?n" "btn_phys_is_root ?n = btn_phys_is_root n" "btnp_info ?n = btnp_info n"
      "btnp_records ?n = del_by (bt_cmp bt) x rs" using n(3,5) by (simp_all add: drop_rec_def)
    have "root_at ((bt_view bt)(p := NodeBlk ?n)) r i"
      using T(4) n(1) flags(2,3) by (cases "p = r") (simp_all add: root_at_def)
    moreover have "blk_step smp [p] [p] (bt_view bt) ((bt_view bt)(p := NodeBlk ?n))"
      using T(10) by (intro blk_step_store [OF T(14)]) simp_all
    moreover have "tord (bt_cmp bt) lo hi ?t"
      using csorted_del_by [OF c(1), of x] c(2) n(5) set_del_by_subset [of "bt_cmp bt" x rs] by (auto simp: tord_simps)
    moreover have "trep (smp_bsz smp) ((bt_view bt)(p := NodeBlk ?n)) r ?t" using T(7) y(2) flags n(4) by simp
    ultimately have "rem_done smp r i lo hi x (Leaf p rs) bt (bt_store b (NodeBlk ?n) bt) ?t"
      using st by (simp add: rem_done_def)
    with y run n(5) show ?thesis unfolding rem_post_def by (auto simp del: bt_remove_node.simps)
  qed
qed

lemma no_full_bits:
  assumes "no_full smp V" "space_ok smp V" "j < length (sm_maps smp)"
  shows "False \<in> set (blk_bits (V (sm_maps smp ! j)))"
proof -
  note S = space_okD [OF assms(2)]
  obtain n where n: "n div sm_bpb smp = j" "\<not> allocated smp V n" using assms(1,3) unfolding no_full_def by blast
  obtain bm where bm: "V (sm_maps smp ! j) = BmBlk bm" "length (bmp_bm bm) = sm_bpb smp"
    using S(7) [OF nth_mem [OF assms(3)]] by (auto simp: bm_ok_def split: bt_block.splits)
  have "n mod sm_bpb smp < length (bmp_bm bm)" using S(2) bm(2) by simp
  moreover have "\<not> bmp_bm bm ! (n mod sm_bpb smp)" using n assms(3) bm(1) by (simp add: allocated_def blk_bits_def)
  ultimately show ?thesis using bm(1) by (auto simp: blk_bits_def in_set_conv_nth)
qed

lemma no_full_shrink:
  assumes "no_full smp V" "blk_step smp S S' V V'" "set S' \<subseteq> set S"
  shows "no_full smp V'"
proof -
  have "allocated smp V k" if "allocated smp V' k" for k using assms(2,3) that by (auto simp: blk_step_def owned_def)
  with assms(1) show ?thesis unfolding no_full_def by blast
qed

lemma btn_free_ok:
  assumes ready: "space_ready {} bt smp" and room: "bt_room (Suc k) bt" and full: "no_full smp (bt_view bt)"
    and child: "held bt b q" "q \<in> owned smp (bt_view bt)"
    and r: "held bt (bt_root bt) r" "root_at (bt_view bt) r i" "r \<in> owned smp (bt_view bt)" "r \<noteq> q"
  obtains V1 n bt' where "btn_free b bt = Done () bt'" "bt_good {} bt'" "bit_step smp q False (bt_view bt) V1" "V1 r = NodeBlk n"
    "bt_view bt' = V1(r := NodeBlk (n\<lparr>btnp_info := i - 1\<rparr>))" "root_at (bt_view bt') r (i - 1)"
    "bt_refs bt' = bt_refs bt" "bt_frame bt bt'"
proof -
  note R = space_readyD [OF ready]
  have q: "allocated smp (bt_view bt) q" "data_block smp q" using child(2) by (simp_all add: owned_def)
  then have "q div sm_bpb smp < length (sm_maps smp)" by (simp add: allocated_def)
  note bits = no_full_bits [OF full R(2) this]
  obtain bt1 where f: "sm_bfree q bt = Done () bt1" "bt_good {} bt1" "bit_step smp q False (bt_view bt) (bt_view bt1)"
    "bt_refs bt1 = bt_refs bt" "bt_frame bt bt1"
    by (rule sm_bfree_ok [OF R(1) room R(2,4) q bits])
  have "bt_view bt1 r = bt_view bt r" using bit_stepD(2) [OF f(3)] r(3) by (simp add: owned_def)
  then have root1: "root_at (bt_view bt1) r i" using r(2) by (simp add: root_at_def)
  have held1: "held bt1 (bt_root bt1) r" using bt_frameD(2,5) [OF f(5)] r(1) by simp
  obtain n bt2 where i: "bt_view bt1 r = NodeBlk n" "root_info_add (-1) bt1 = Done () bt2" "bt_good {} (bt_dirty (bt_root bt2) bt2)"
    "bt_view (bt_dirty (bt_root bt2) bt2) = (bt_view bt1)(r := NodeBlk (n\<lparr>btnp_info := i + -1\<rparr>))"
    "root_at (bt_view (bt_dirty (bt_root bt2) bt2)) r (i + -1)"
    "bt_refs (bt_dirty (bt_root bt2) bt2) = bt_refs bt1" "bt_frame bt1 (bt_dirty (bt_root bt2) bt2)"
    by (rule root_info_dirty_ok [OF f(2) held1 root1, of "-1"])
  have "bt_blkno bt b = q" using child(1) by (simp add: held_def)
  then have "btn_free b bt = Done () (bt_dirty (bt_root bt2) bt2)" using f(1) i(2) by (simp add: btn_free_def)
  then show thesis
    by (rule that [OF _ i(3) f(3) i(1)]) (use i(4-6) f(4) bt_frame_trans [OF f(5) i(7)] in simp_all)
qed

text \<open>The child is an empty leaf: its block is freed and the pointer to it cleared.\<close>

lemma bt_remove_empty_ok:
  assumes ready: "space_ready {} bt smp" and room: "bt_room (Suc k) bt" and full: "no_full smp (bt_view bt)"
    and child: "held bt child q" "q \<in> owned smp (bt_view bt)" "bt_view bt q = NodeBlk cn" "btn_phys_is_leaf cn" "btnp_records cn = []"
    and r: "held bt (bt_root bt) r" "root_at (bt_view bt) r i" "r \<in> owned smp (bt_view bt)" "r \<noteq> q"
    and b: "held bt b p" "p \<in> owned smp (bt_view bt)" "p \<noteq> q" "bt_view bt p = NodeBlk n"
  obtains V1 n1 bt' where "bt_remove_empty b j child bt = Done () bt'" "bt_good {} bt'" "blk_step smp [q] [] (bt_view bt) V1"
    "V1 p = NodeBlk n1" "bt_view bt' = V1(p := NodeBlk (btn_set_ptr j 0 n1))" "root_at V1 r (i - 1)"
    "bt_refs bt' = bt_refs bt" "bt_frame bt bt'"
proof -
  note R = space_readyD [OF ready]
  obtain Va nr bt1 where f: "btn_free child bt = Done () bt1" "bt_good {} bt1" "bit_step smp q False (bt_view bt) Va" "Va r = NodeBlk nr"
    "bt_view bt1 = Va(r := NodeBlk (nr\<lparr>btnp_info := i - 1\<rparr>))" "root_at (bt_view bt1) r (i - 1)"
    "bt_refs bt1 = bt_refs bt" "bt_frame bt bt1"
    by (rule btn_free_ok [OF ready room full child(1,2) r])
  have Vap: "Va p = NodeBlk n" using bit_stepD(2) [OF f(3)] b(2,4) by (simp add: owned_def)
  obtain n1 where n1: "bt_view bt1 p = NodeBlk n1" using f(5) Vap by (cases "p = r") simp_all
  have step1: "blk_step smp [q] [] (bt_view bt) Va" by (rule blk_step_free [OF f(3)]) (use child(2) in simp_all)
  have ra: "r \<in> owned smp Va" using blk_stepD(4) [OF step1 r(3)] r(4) by simp
  have "blk_step smp [] [] Va (bt_view bt1)"
    unfolding f(5) using f(4) by (intro blk_step_store [OF blk_stepD(1) [OF step1] _ ra]) simp_all
  note step = blk_step_trans [OF step1 this]
  note held1 = bt_frameD(5) [OF f(8) b(1)]
  let ?d = "NodeBlk (btn_set_ptr j 0 n1)"
  note st = bt_store_ok [OF f(2) held1, of ?d]
  have "bt_remove_empty b j child bt = Done () (bt_store b ?d bt1)"
    using child(4,5) f(1)
    by (simp add: bt_remove_empty_def with_node_held [OF R(1) child(1,3)] btn_phys_is_empty_def with_node_held [OF f(2) held1 n1])
  then show thesis
    by (rule that [OF _ _ step n1]) (use st f(6,7) bt_frame_trans [OF f(8) st(4)] in simp_all)
qed

lemma theight_le:
  assumes "ks \<noteq> []" "\<forall>k\<in>set ks. theight (snd k) < h"
  shows "theight (Index p ks) \<le> h"
proof -
  have "0 < h" using assms by (cases ks) auto
  then obtain h' where h: "h = Suc h'" by (cases h) auto
  show ?thesis unfolding h by (rule theight_kids [OF assms(1)]) (use assms(2) h in auto)
qed

lemma theight_replace:
  assumes "theight c' \<le> theight c"
  shows "theight (Index p (A @ (s', c') # B)) \<le> theight (Index p (A @ (s, c) # B))"
proof -
  let ?t = "Index p (A @ (s, c) # B)"
  have old: "theight (snd k) < theight ?t" if "k \<in> set (A @ (s, c) # B)" for k by (rule theight_kid [OF that])
  have "theight c' < theight ?t" using assms old [of "(s, c)"] by simp
  moreover have "theight (snd k) < theight ?t" if "k \<in> set A \<union> set B" for k using old [of k] that by simp
  ultimately have "\<forall>k\<in>set (A @ (s', c') # B). theight (snd k) < theight ?t" by auto
  then show ?thesis by (intro theight_le) simp_all
qed

text \<open>Putting the changed child back below its node.\<close>

lemma rem_done_kid:
  assumes t: "tree_state bt smp r i lo hi (Index p (A @ (s, c) # B))"
    and x: "lob (bt_cmp bt) (kid_lo lo A s) x" "hib (bt_cmp bt) (kid_hi hi B) x" "\<exists>y\<in>set (trecs c). bt_cmp bt x y = 0"
    and bt': "bt_good {} bt'" "bt_refs bt' = bt_refs bt" "bt_frame bt bt'"
    and c': "trep (smp_bsz smp) (bt_view bt') r (Index p (A @ (s', c') # B))" "tord (bt_cmp bt) (kid_lo lo A s) (kid_hi hi B) c'"
      "btrp_key s' = btrp_key s" "trecs c' = del_by (bt_cmp bt) x (trecs c)" "theight c' \<le> theight c" "set (tblocks c') \<subseteq> set (tblocks c)"
    and step: "blk_step smp (tblocks (Index p (A @ (s, c) # B))) (tblocks (Index p (A @ (s', c') # B))) (bt_view bt) (bt_view bt')"
      "distinct (tblocks (Index p (A @ (s', c') # B)))"
    and root: "root_at (bt_view bt') r (i + of_nat (length (tblocks c')) - of_nat (length (tblocks c)))"
  shows "rem_post smp r i lo hi x (Index p (A @ (s, c) # B)) bt (Done () bt')"
proof -
  note T = tree_stateD [OF t]
  let ?t = "Index p (A @ (s, c) # B)" and ?t' = "Index p (A @ (s', c') # B)"
  note M = match_kids [OF T(8,12) x(1,2)]
  have "rem_done smp r i lo hi x ?t bt bt' ?t'"
    unfolding rem_done_def
  proof (intro conjI)
    show "tord (bt_cmp bt) lo hi ?t'" by (rule tord_kid [OF T(8,2) c'(3,2)])
    show "trecs ?t' = del_by (bt_cmp bt) x (trecs ?t)"
      unfolding trecs_Index c'(4) by (rule del_by_kids [where cmp = "bt_cmp bt" and x = x, OF M(1) x(3), symmetric])
    show "theight ?t' \<le> theight ?t" by (rule theight_replace [OF c'(5)])
    show "set (tblocks ?t') \<subseteq> set (tblocks ?t)" using c'(6) by auto
    have "i + of_nat (length (tblocks ?t')) - of_nat (length (tblocks ?t)) = i + of_nat (length (tblocks c')) - of_nat (length (tblocks c))"
      by simp
    with root show "root_at (bt_view bt') r (i + of_nat (length (tblocks ?t')) - of_nat (length (tblocks ?t)))" by (simp only:)
  qed (use bt' c'(1) step in simp_all)
  then show ?thesis using M(3) x(3) unfolding rem_post_def by auto
qed

lemma trep_node:
  assumes "trep bsz V r t" "t \<noteq> Gone"
  obtains n where "V (tptr t) = NodeBlk n" "btn_phys_is_leaf n \<longrightarrow> t = Leaf (tptr t) (btnp_records n)"
  using assms by (cases t) auto

text \<open>The removal below the child went well; what is left is to look after the child's block.\<close>

lemma bt_remove_kid_ok:
  assumes t: "tree_state bt smp r i lo hi (Index p (A @ (s, c) # B))" and full: "no_full smp (bt_view bt)"
    and x: "lob (bt_cmp bt) (kid_lo lo A s) x" "hib (bt_cmp bt) (kid_hi hi B) x" "\<exists>y\<in>set (trecs c). bt_cmp bt x y = 0"
    and c: "c \<noteq> Gone" and b: "held bt b p" and bt1: "bt_view bt1 = bt_view bt" "bt_refs bt1 = (bt_refs bt)(child := bt_refs bt child + 1)"
      "held bt1 child (tptr c)" "bt_frame bt bt1" "bt_room (Suc k) bt1"
    and d: "rem_done smp r i (kid_lo lo A s) (kid_hi hi B) x c bt1 bt2 c'"
  obtains bt3 where "(case bt_remove_empty b (length A) child bt2 of Abort \<Rightarrow> Abort | Fail e bt3 \<Rightarrow> release_fail e child bt3
      | Done _ bt3 \<Rightarrow> bt_release child bt3) = Done () bt3"
    "rem_post smp r i lo hi x (Index p (A @ (s, c) # B)) bt (Done () bt3)"
proof -
  note T = tree_stateD [OF t]
  have cmp1: "bt_cmp bt1 = bt_cmp bt" by (rule bt_frameD(1) [OF bt1(4)])
  have D: "bt_good {} bt2" "bt_refs bt2 = bt_refs bt1" "bt_frame bt1 bt2" "trep (smp_bsz smp) (bt_view bt2) r c'"
    "tord (bt_cmp bt) (kid_lo lo A s) (kid_hi hi B) c'" "distinct (tblocks c')" "tptr c' = tptr c"
    "trecs c' = del_by (bt_cmp bt) x (trecs c)" "theight c' \<le> theight c" "set (tblocks c') \<subseteq> set (tblocks c)"
    "blk_step smp (tblocks c) (tblocks c') (bt_view bt) (bt_view bt2)"
    "root_at (bt_view bt2) r (i + of_nat (length (tblocks c')) - of_nat (length (tblocks c)))"
    using d cmp1 bt1(1) by (simp_all add: rem_done_def)
  note K = kid_step [OF T(10,9) D(11)]
  have tc: "trep (smp_bsz smp) (bt_view bt) r c" using T(7) by auto
  then have q0: "tptr c \<noteq> 0" using c trep_tptr by blast
  have c'G: "c' \<noteq> Gone" using D(7) q0 by auto
  obtain cn where cn: "bt_view bt2 (tptr c') = NodeBlk cn" "btn_phys_is_leaf cn \<longrightarrow> c' = Leaf (tptr c') (btnp_records cn)"
    by (rule trep_node [OF D(4) c'G])
  note f2 = bt_frame_trans [OF bt1(4) D(3)]
  have child2: "held bt2 child (tptr c')" using bt_frameD(5) [OF D(3) bt1(3)] D(7) by simp
  have b2: "held bt2 b p" by (rule bt_frameD(5) [OF f2 b])
  have rc: "r \<notin> set (tblocks c)" using T(9,11) by auto
  show thesis
  proof (cases "btn_phys_is_leaf cn \<and> btnp_records cn = []")
    case False
    then have run: "bt_remove_empty b (length A) child bt2 = Done () bt2"
      by (auto simp: bt_remove_empty_def with_node_held [OF D(1) child2 cn(1)] btn_phys_is_empty_def)
    have refs2: "bt_refs bt2 = (bt_refs bt)(child := bt_refs bt child + 1)" using D(2) bt1(2) by simp
    obtain bt3 where rl: "bt_release child bt2 = Done () bt3" "bt_good {} bt3" "bt_view bt3 = bt_view bt2"
      "bt_refs bt3 = bt_refs bt" "bt_frame bt bt3"
      by (rule bt_release_got [OF D(1) f2 refs2]) simp
    show thesis
    proof (rule that [of bt3])
      show "rem_post smp r i lo hi x (Index p (A @ (s, c) # B)) bt (Done () bt3)"
      proof (rule rem_done_kid [OF t x rl(2,4,5) _ D(5) refl D(8-10)], unfold rl(3))
        show "trep (smp_bsz smp) (bt_view bt2) r (Index p (A @ (s, c') # B))"
          by (rule trep_same_kid [OF T(7,10,9) D(11,4,7)])
        show "blk_step smp (tblocks (Index p (A @ (s, c) # B))) (tblocks (Index p (A @ (s, c') # B))) (bt_view bt) (bt_view bt2)"
          using K(1) by simp
        show "distinct (tblocks (Index p (A @ (s, c') # B)))" using K(2) [OF D(6)] by simp
      qed (rule D(12))
    qed (simp add: run rl(1))
  next
    case True
    then have c': "c' = Leaf (tptr c) []" using cn(2) D(7) by simp
    let ?q = "tptr c"
    have own2: "?q \<in> owned smp (bt_view bt2)" using blk_stepD(3) [OF D(11)] c' by simp
    have r2: "r \<in> owned smp (bt_view bt2)" "r \<noteq> ?q" using blk_stepD(4) [OF D(11) T(5) rc] c' by simp_all
    have p2: "p \<noteq> ?q" using K(5) c' by simp
    have ready2: "space_ready {} bt2 smp" by (rule space_ready_frame [OF T(1) D(1) blk_stepD(1) [OF D(11)] f2])
    have room2: "bt_room (Suc k) bt2" using bt1(5) bt_room_refs [OF D(2) bt_frameD(4) [OF D(3)]] by simp
    have full2: "no_full smp (bt_view bt2)" by (rule no_full_shrink [OF full D(11,10)])
    have root2: "held bt2 (bt_root bt2) r" using bt_frameD(2,5) [OF f2] T(3) by simp
    obtain n where n: "bt_view bt p = NodeBlk n" using T(7) by auto
    obtain j where n2: "bt_view bt2 p = NodeBlk (n\<lparr>btnp_info := j\<rparr>)" using K(3) n no_info_node by metis
    have cn2: "bt_view bt2 ?q = NodeBlk cn" "held bt2 child ?q" using cn(1) child2 D(7) by simp_all
    let ?i = "i + of_nat (length (tblocks c')) - of_nat (length (tblocks c))"
    obtain V1 n1 bt3 where e: "bt_remove_empty b (length A) child bt2 = Done () bt3" "bt_good {} bt3" "blk_step smp [?q] [] (bt_view bt2) V1"
      "V1 p = NodeBlk n1" "bt_view bt3 = V1(p := NodeBlk (btn_set_ptr (length A) 0 n1))" "root_at V1 r (?i - 1)"
      "bt_refs bt3 = bt_refs bt2" "bt_frame bt2 bt3"
      by (rule bt_remove_empty_ok [where j = "length A", OF ready2 room2 full2 cn2(2) own2 cn2(1) _ _ root2 D(12) r2 b2 K(4) p2 n2])
        (use True in simp_all)
    have stepc: "blk_step smp (tblocks c) (tblocks Gone) (bt_view bt) V1"
      using blk_step_trans [OF D(11), of "[]" V1] e(3) c' by simp
    have "trep (smp_bsz smp) V1 r Gone" "distinct (tblocks Gone)" "tptr Gone < 2 ^ 64" by simp_all
    note W = trep_set_kid [OF T(7,10,9) stepc this e(4), unfolded tptr.simps(1), folded e(5)]
    note f3 = bt_frame_trans [OF f2 e(8)]
    have refs3: "bt_refs bt3 = (bt_refs bt)(child := bt_refs bt child + 1)" using e(7) D(2) bt1(2) by simp
    obtain bt4 where rl: "bt_release child bt3 = Done () bt4" "bt_good {} bt4" "bt_view bt4 = bt_view bt3"
      "bt_refs bt4 = bt_refs bt" "bt_frame bt bt4"
      by (rule bt_release_got [OF e(2) f3 refs3]) simp
    show thesis
    proof (rule that [of bt4])
      show "rem_post smp r i lo hi x (Index p (A @ (s, c) # B)) bt (Done () bt4)"
      proof (rule rem_done_kid [OF t x rl(2,4,5) W(1) [folded rl(3)] _ kid_sep_key _ _ _ W(2) [folded rl(3)] W(3)])
        show "trecs Gone = del_by (bt_cmp bt) x (trecs c)" using D(8) c' by simp
        show "root_at (bt_view bt4) r (i + of_nat (length (tblocks Gone)) - of_nat (length (tblocks c)))"
          using W(4) e(6) c' rl(3) by simp
      qed (simp_all add: tord_simps)
    qed (simp add: e(1) rl(1))
  qed
qed

lemma bt_remove_node_ok:
  assumes "tree_state bt smp r i lo hi t" "no_full smp (bt_view bt)" "bt_room (Suc (theight t)) bt" "held bt b (tptr t)"
    "lob (bt_cmp bt) lo x" "hib (bt_cmp bt) hi x" "theight t < depth"
  shows "rem_post smp r i lo hi x t bt (bt_remove_node depth b x bt)"
  using assms
proof (induction depth arbitrary: b bt t lo hi)
  case (Suc depth)
  note T = tree_stateD [OF Suc.prems(1)]
  show ?case
  proof (cases t)
    case Gone
    with T(6) show ?thesis by simp
  next
    case (Leaf p rs)
    with Suc.prems show ?thesis using bt_remove_leaf_ok [of bt smp r i lo hi p rs b x depth] by simp
  next
    case (Index p kids)
    obtain n where n: "bt_view bt p = NodeBlk n" "\<not> btn_phys_is_leaf n" using T(7) unfolding Index by (rule trep_indexE)
    have h: "held bt b p" using Suc.prems(4) Index by simp
    obtain A s c B where k: "kids = A @ (s, c) # B" "btn_route (bt_cmp bt) x n = (tptr c, length A)" "trep (smp_bsz smp) (bt_view bt) r c"
      "A \<noteq> [] \<longrightarrow> 0 \<le> bt_cmp bt x s" "\<forall>k B'. B = k # B' \<longrightarrow> bt_cmp bt x (fst k) < 0"
      by (rule trep_route [OF T(7) [unfolded Index] n(1)])
    have bounds: "lob (bt_cmp bt) (kid_lo lo A s) x" "hib (bt_cmp bt) (kid_hi hi B) x"
      by (rule route_bounds [OF T(12) k(4,5) Suc.prems(5,6)])+
    have t: "t = Index p (A @ (s, c) # B)" using Index k(1) by simp
    note M = match_kids [OF T(8) [unfolded t] T(12) bounds]
    show ?thesis
    proof (cases "c = Gone")
      case True
      then have "bt_remove_node (Suc depth) b x bt = Fail ENOENT bt"
        using k(2) n(2) by (simp add: with_node_held [OF T(13) h n(1)])
      moreover have "\<not> (\<exists>y\<in>set (trecs t). bt_cmp bt x y = 0)" using M(3) True t by simp
      ultimately show ?thesis using T(13) by (simp add: rem_post_def)
    next
      case False
      have hc: "theight c < theight t" using theight_kid [of "(s, c)" kids p] k(1) Index by simp
      obtain m where m: "bt_view bt (tptr c) = NodeBlk m" by (rule trep_node [OF k(3) False])
      obtain child bt1 where g: "btn_get (tptr c) None bt = Done child bt1" "bt_good {} bt1" "bt_view bt1 = bt_view bt"
        "bt_refs bt1 = (bt_refs bt)(child := bt_refs bt child + 1)" "held bt1 child (tptr c)" "bt_frame bt bt1"
        "bt_room (theight t) bt1"
        by (rule btn_get_ok [OF T(13) Suc.prems(3) m])
      have cmp1: "bt_cmp bt1 = bt_cmp bt" by (rule bt_frameD(1) [OF g(6)])
      have room1: "bt_room (Suc (theight c)) bt1" using g(7) hc by (auto intro: bt_room_mono)
      have IH: "rem_post smp r i (kid_lo lo A s) (kid_hi hi B) x c bt1 (bt_remove_node depth child x bt1)"
        by (rule Suc.IH [OF tree_state_kid [OF Suc.prems(1) [unfolded t] False g(2,3,6)]])
          (use g(3,5) room1 bounds cmp1 Suc.prems(2,7) hc in simp_all)
      have "tptr c \<noteq> 0" using trep_tptr [OF k(3)] False by simp
      then have run: "bt_remove_node (Suc depth) b x bt =
          (case andthen (bt_remove_node depth child x bt1) (\<lambda>_. bt_remove_empty b (length A) child) of
             Abort \<Rightarrow> Abort | Fail e bt2 \<Rightarrow> release_fail e child bt2 | Done _ bt2 \<Rightarrow> bt_release child bt2)"
        using k(2) n(2) g(1) by (simp add: with_node_held [OF T(13) h n(1)])
      show ?thesis
      proof (cases "\<exists>y\<in>set (trecs c). bt_cmp bt x y = 0")
        case False
        with IH cmp1 obtain bt2 where f: "bt_remove_node depth child x bt1 = Fail ENOENT bt2" "bt_good {} bt2"
          "bt_view bt2 = bt_view bt1" "bt_refs bt2 = bt_refs bt1" "bt_frame bt1 bt2"
          by (auto simp: rem_post_def)
        have refs2: "bt_refs bt2 = (bt_refs bt)(child := bt_refs bt child + 1)" using f(4) g(4) by simp
        obtain bt3 where rl: "bt_release child bt2 = Done () bt3" "bt_good {} bt3" "bt_view bt3 = bt_view bt2"
          "bt_refs bt3 = bt_refs bt" "bt_frame bt bt3"
          by (rule bt_release_got [OF f(2) bt_frame_trans [OF g(6) f(5)] refs2]) simp
        have "bt_remove_node (Suc depth) b x bt = Fail ENOENT bt3" using run f(1) rl(1) by (simp add: release_fail_def)
        then show ?thesis using M(3) False t rl f(3) g(3) by (simp add: rem_post_def del: bt_remove_node.simps)
      next
        case True
        with IH cmp1 obtain bt2 c' where f: "bt_remove_node depth child x bt1 = Done () bt2"
          "rem_done smp r i (kid_lo lo A s) (kid_hi hi B) x c bt1 bt2 c'"
          by (auto simp: rem_post_def)
        obtain bt3 where e: "(case bt_remove_empty b (length A) child bt2 of Abort \<Rightarrow> Abort | Fail e bt3 \<Rightarrow> release_fail e child bt3
            | Done _ bt3 \<Rightarrow> bt_release child bt3) = Done () bt3" "rem_post smp r i lo hi x (Index p (A @ (s, c) # B)) bt (Done () bt3)"
          by (rule bt_remove_kid_ok [OF Suc.prems(1) [unfolded t] Suc.prems(2) bounds True \<open>c \<noteq> Gone\<close> h g(3,4,5,6) room1 f(2)])
        have "bt_remove_node (Suc depth) b x bt = Done () bt3" unfolding run f(1) andthen_simps by (rule e(1))
        then show ?thesis using e(2) t by (simp del: bt_remove_node.simps)
      qed
    qed
  qed
qed simp

end
