(* ===== verification/BtreeInsert.thy ===== *)
theory BtreeInsert
  imports BtreeRemove
begin

text \<open>
  Insertion into a B-tree of small records: a full node is split in two and the separator between
  the halves goes into its parent. The tree gets the record at its place, or the call fails because
  the key is there already; the blocks taken are accounted for.
\<close>

section \<open>Inserting into a node\<close>

lemma btn_insert_ok:
  assumes ready: "space_ready U bt smp" and room: "bt_room (Suc k) bt" and free: "0 < free_blocks smp (bt_view bt)"
    and b: "held bt b p" "p \<in> owned smp (bt_view bt)" and n: "bt_view bt p = NodeBlk n" "node_wf (smp_bsz smp) n"
    and x: "small_rec (smp_bsz smp) x" and c: "csorted (bt_cmp bt) (btnp_records n)"
  obtains (Dup) bt' L where "\<exists>y\<in>set (btnp_records n). bt_cmp bt x y = 0" "btn_insert (Suc (Suc d)) b x bt = Fail EEXIST bt'"
      "bt_good U bt'" "length L \<le> 1" "\<And>S. set S \<subseteq> owned smp (bt_view bt) \<Longrightarrow> blk_step smp S (S @ L) (bt_view bt) (bt_view bt')"
      "\<And>k. k \<in> owned smp (bt_view bt) \<Longrightarrow> bt_view bt' k = bt_view bt k" "bt_refs bt' = bt_refs bt" "bt_frame bt bt'"
  | (Fit) bt' where "\<forall>y\<in>set (btnp_records n). bt_cmp bt x y \<noteq> 0" "btn_insert (Suc (Suc d)) b x bt = Done no_split bt'"
      "bt_good U bt'" "node_wf (smp_bsz smp) (add_rec (bt_cmp bt) x n)"
      "bt_view bt' = (bt_view bt)(p := NodeBlk (add_rec (bt_cmp bt) x n))" "bt_refs bt' = bt_refs bt" "bt_frame bt bt'"
  | (Split) bt' q n1 n2 where "\<forall>y\<in>set (btnp_records n). bt_cmp bt x y \<noteq> 0"
      "btn_insert (Suc (Suc d)) b x bt = Done (split_bsi n n2 q) bt'" "bt_good U bt'"
      "split_into (bt_cmp bt) (smp_bsz smp) x n n1 n2" "bt_view bt' p = NodeBlk n1" "bt_view bt' q = NodeBlk n2"
      "\<And>k. k \<in> owned smp (bt_view bt) \<Longrightarrow> k \<noteq> p \<Longrightarrow> bt_view bt' k = bt_view bt k"
      "\<And>S. p \<in> set S \<Longrightarrow> set S \<subseteq> owned smp (bt_view bt) \<Longrightarrow> blk_step smp S (S @ [q]) (bt_view bt) (bt_view bt')"
      "q \<notin> owned smp (bt_view bt)" "q \<noteq> 0" "q < 2 ^ 32" "bt_refs bt' = bt_refs bt" "bt_frame bt bt'"
proof -
  note R = space_readyD [OF ready]
  have p: "allocated smp (bt_view bt) p" "data_block smp p" using b(2) by (simp_all add: owned_def)
  have idx: "btn_phys_is_leaf n \<or> btnp_records n \<noteq> []" using n(2) by (simp add: node_wf_def)
  let ?dup = "\<exists>y\<in>set (btnp_records n). bt_cmp bt x y = 0"
  show thesis
  proof (cases "btr_phys_size x \<le> btnp_freespace n")
    case True
    note I = btn_insert_room [OF R(1) b(1) n(1) idx True R(6) c, of "Suc d"]
    show thesis
    proof (cases ?dup)
      case dup: True
      show thesis
        by (rule Dup [of bt "[]"]) (use I dup R(1) in \<open>simp_all add: blk_step_refl [OF R(2)]\<close>)
    next
      case nodup: False
      note st = bt_store_ok [OF R(1) b(1), of "NodeBlk (add_rec (bt_cmp bt) x n)"]
      have "bt_good U (bt_store b (NodeBlk (add_rec (bt_cmp bt) x n)) bt)"
        by (rule bt_good_weaken [OF st(1)]) (use R(1) st(3) in \<open>simp add: bt_good_def\<close>)
      with st add_rec_wf [OF R(3) n(2) x True] nodup I show thesis by (intro Fit) simp_all
    qed
  next
    case False
    then have big: "btnp_freespace n < btr_phys_size x" by simp
    have run: "btn_insert (Suc (Suc d)) b x bt = btn_insert_split (btn_insert (Suc d)) b x bt"
      using idx big by (auto simp: with_node_held [OF R(1) b(1) n(1)] simp del: btn_insert.simps(2)) (auto simp: with_node_held [OF R(1) b(1) n(1)])
    show thesis
    proof (cases ?dup)
      case dup: True
      obtain bt' q V d' where s: "btn_insert_split (btn_insert (Suc d)) b x bt = Fail EEXIST bt'" "bt_good U bt'"
        "bit_step smp q True (bt_view bt) V" "\<not> allocated smp (bt_view bt) q" "bt_view bt' = V(q := d')"
        "bt_refs bt' = bt_refs bt" "bt_frame bt bt'"
        by (rule btn_insert_split_dup [where ins = "btn_insert (Suc d)", OF ready room free b(1) p n(1) big c dup])
      have "allocated smp V q" using bit_stepD(3) [OF s(3), of q] by simp
      then have "data_block smp q" by (intro free_is_data [OF R(2) s(4)]) (simp add: allocated_def)
      note al = blk_step_alloc [OF s(3,4) this, of _ d', folded s(5)]
      show thesis
      proof (rule Dup [of bt' "[q]"])
        show "bt_view bt' k = bt_view bt k" if "k \<in> owned smp (bt_view bt)" for k
          using that s(4,5) bit_stepD(2) [OF s(3), of k] by (auto simp: owned_def)
      qed (use dup run s al in simp_all)
    next
      case nodup: False
      then have nd: "\<forall>y\<in>set (btnp_records n). bt_cmp bt x y \<noteq> 0" by blast
      obtain bt' q V n1 n2 where s: "btn_insert_split (btn_insert (Suc d)) b x bt = Done (split_bsi n n2 q) bt'" "bt_good U bt'"
        "bit_step smp q True (bt_view bt) V" "\<not> allocated smp (bt_view bt) q" "bt_view bt' = V(p := NodeBlk n1, q := NodeBlk n2)"
        "split_into (bt_cmp bt) (smp_bsz smp) x n n1 n2" "bt_refs bt' = bt_refs bt" "bt_frame bt bt'"
        by (rule btn_insert_split_ok [where d = d, OF ready room free b(1) p n big x c nd])
      have "allocated smp V q" using bit_stepD(3) [OF s(3), of q] by simp
      then have q: "data_block smp q" "q \<in> owned smp V"
        using free_is_data [OF R(2) s(4)] by (simp_all add: owned_def allocated_def)
      have pq: "p \<noteq> q" using p(1) s(4) by auto
      have view: "bt_view bt' = V(q := NodeBlk n2, p := NodeBlk n1)" using s(5) pq by (auto simp: fun_eq_iff)
      show thesis
      proof (rule Split [of n2 q bt' n1])
        show "bt_view bt' k = bt_view bt k" if "k \<in> owned smp (bt_view bt)" "k \<noteq> p" for k
          using that s(4,5) bit_stepD(2) [OF s(3), of k] by (auto simp: owned_def)
        show "blk_step smp S (S @ [q]) (bt_view bt) (bt_view bt')" if S: "p \<in> set S" "set S \<subseteq> owned smp (bt_view bt)" for S
        proof (rule blk_step_trans)
          show al: "blk_step smp S (S @ [q]) (bt_view bt) (V(q := NodeBlk n2))" by (rule blk_step_alloc [OF s(3,4) q(1) S(2)])
          show "blk_step smp (S @ [q]) (S @ [q]) (V(q := NodeBlk n2)) (bt_view bt')"
            unfolding view by (rule blk_step_store [OF blk_stepD(1,3) [OF al]]) (use blk_stepD(3) [OF al] S(1) in auto)
        qed
        show "q < 2 ^ 32" by (rule owned_less [OF bit_stepD(1) [OF s(3)] q(2)])
      qed (use run s pq q nd in \<open>simp_all add: owned_def data_block_def\<close>)
    qed
  qed
qed

section \<open>The result of an insertion below a node\<close>

text \<open>The node stays one, or becomes two with a separator between them.\<close>

datatype btup = Same btt | Up btt btr_phys btt

fun up_blocks :: "btup \<Rightarrow> nat list" where
  "up_blocks (Same t) = tblocks t"
| "up_blocks (Up t1 s t2) = tblocks t1 @ tblocks t2"

fun up_recs :: "btup \<Rightarrow> btr_phys list" where
  "up_recs (Same t) = trecs t"
| "up_recs (Up t1 s t2) = trecs t1 @ trecs t2"

fun up_height :: "btup \<Rightarrow> nat" where
  "up_height (Same t) = theight t"
| "up_height (Up t1 s t2) = max (theight t1) (theight t2)"

fun up_rep :: "(btr_phys \<Rightarrow> btr_phys \<Rightarrow> int) \<Rightarrow> 16 word \<Rightarrow> btr_phys option \<Rightarrow> btr_phys option \<Rightarrow> nat \<Rightarrow> (nat \<Rightarrow> bt_block) \<Rightarrow> nat
    \<Rightarrow> btn_split_info \<Rightarrow> btup \<Rightarrow> bool" where
  "up_rep cmp bsz lo hi r V p bsi (Same t) \<longleftrightarrow> bsi_split_index1 bsi = None \<and> tptr t = p \<and> trep bsz V r t \<and> tord cmp lo hi t"
| "up_rep cmp bsz lo hi r V p bsi (Up t1 s t2) \<longleftrightarrow> bsi_split_index1 bsi = Some s \<and> bsi_split_index2 bsi = None \<and> tptr t1 = p
     \<and> t2 \<noteq> Gone \<and> btr_phys_index_ptr s = tptr t2 \<and> length (btrp_val s) = 8 \<and> small_rec bsz s
     \<and> trep bsz V 0 t1 \<and> trep bsz V 0 t2 \<and> tord cmp lo (Some s) t1 \<and> tord cmp (Some s) hi t2
     \<and> (\<forall>l. lo = Some l \<longrightarrow> cmp l s < 0) \<and> hib cmp hi s"

text \<open>The node count: the new node is counted where its separator goes in.\<close>

fun up_root :: "(nat \<Rightarrow> bt_block) \<Rightarrow> nat \<Rightarrow> nat \<Rightarrow> btn_split_info \<Rightarrow> btup \<Rightarrow> 32 word \<Rightarrow> bool" where
  "up_root V r p bsi (Same t) j \<longleftrightarrow> root_at V r j"
| "up_root V r p bsi (Up t1 s t2) j \<longleftrightarrow> (if p = r then bsi_bip bsi = j - 1 else root_at V r (j - 1))"

definition ins_done :: "sm_phys \<Rightarrow> nat \<Rightarrow> 32 word \<Rightarrow> btr_phys option \<Rightarrow> btr_phys option \<Rightarrow> btr_phys \<Rightarrow> btt \<Rightarrow> btree
    \<Rightarrow> btn_split_info \<Rightarrow> btree \<Rightarrow> btup \<Rightarrow> bool" where
  "ins_done smp r i lo hi x t bt bsi bt' u \<longleftrightarrow> bt_good {} bt' \<and> bt_refs bt' = bt_refs bt \<and> bt_frame bt bt'
     \<and> up_rep (bt_cmp bt) (smp_bsz smp) lo hi r (bt_view bt') (tptr t) bsi u \<and> distinct (up_blocks u)
     \<and> up_recs u = ins_by (bt_cmp bt) x (trecs t) \<and> up_height u \<le> theight t
     \<and> length (up_blocks u) \<le> length (tblocks t) + (2 * theight t + 1)
     \<and> blk_step smp (tblocks t) (up_blocks u) (bt_view bt) (bt_view bt')
     \<and> up_root (bt_view bt') r (tptr t) bsi u (i + of_nat (length (up_blocks u)) - of_nat (length (tblocks t)))"

definition ins_post :: "sm_phys \<Rightarrow> nat \<Rightarrow> 32 word \<Rightarrow> btr_phys option \<Rightarrow> btr_phys option \<Rightarrow> btr_phys \<Rightarrow> btt \<Rightarrow> btree
    \<Rightarrow> (btn_split_info, btree) outcome \<Rightarrow> bool" where
  "ins_post smp r i lo hi x t bt res \<longleftrightarrow>
     (if \<exists>y\<in>set (trecs t). bt_cmp bt x y = 0
      then \<exists>bt' L. res = Fail EEXIST bt' \<and> bt_good {} bt' \<and> length L \<le> 1 \<and> bt_refs bt' = bt_refs bt \<and> bt_frame bt bt'
        \<and> blk_step smp (tblocks t) (tblocks t @ L) (bt_view bt) (bt_view bt')
        \<and> (\<forall>k\<in>owned smp (bt_view bt). bt_view bt' k = bt_view bt k)
      else \<exists>bsi bt' u. res = Done bsi bt' \<and> ins_done smp r i lo hi x t bt bsi bt' u)"

lemma split_sep:
  assumes c: "total_cmp cmp" "key_cmp cmp" and s: "csorted cmp (xs @ ys)" "xs \<noteq> []" "ys \<noteq> []" "btrp_key sep = btrp_key (hd ys)"
    and b: "\<forall>y\<in>set (xs @ ys). lob cmp lo y \<and> hib cmp hi y"
  shows "\<forall>y\<in>set xs. cmp y sep < 0" "\<forall>y\<in>set ys. cmp sep y \<le> 0" "hib cmp hi sep" "\<forall>l. lo = Some l \<longrightarrow> cmp l sep < 0"
proof -
  obtain y ys' where ys: "ys = y # ys'" using s(3) by (cases ys) auto
  have k: "cmp z sep = cmp z y" "cmp sep z = cmp y z" for z using key_cmpD [OF c(2) s(4)] ys by simp_all
  show 1: "\<forall>z\<in>set xs. cmp z sep < 0" unfolding k using s(1) ys by (simp add: sorted_wrt_append)
  show "\<forall>z\<in>set ys. cmp sep z \<le> 0" unfolding k using s(1) ys total_cmp_refl [OF c(1), of y] by (auto simp: sorted_wrt_append)
  show "hib cmp hi sep" using b ys by (cases hi) (simp_all add: k)
  obtain x where x: "x \<in> set xs" using s(2) by (cases xs) auto
  show "\<forall>l. lo = Some l \<longrightarrow> cmp l sep < 0"
  proof (intro allI impI)
    fix l assume "lo = Some l"
    with b x have "cmp l x \<le> 0" by simp
    from total_cmp_less_trans2 [OF c(1) this] 1 x show "cmp l sep < 0" by blast
  qed
qed

lemma split_intoD:
  assumes "split_into cmp bsz x n n1 n2"
  shows "node_wf bsz n1" "node_wf bsz n2" "\<not> btn_phys_is_root n1" "\<not> btn_phys_is_root n2" "btn_phys_is_leaf n1 = btn_phys_is_leaf n"
    "btn_phys_is_leaf n2 = btn_phys_is_leaf n" "btnp_ptr0 n1 = btnp_ptr0 n" "btnp_ptr0 n2 = 0" "btnp_records n1 \<noteq> []"
    "btnp_records n2 \<noteq> []" "btnp_records n1 @ btnp_records n2 = ins_by cmp x (btnp_records n)"
  using assms by (simp_all add: split_into_def)

text \<open>The separator is small, and it points to the new node.\<close>

lemma split_bsi_sep:
  assumes "split_into cmp bsz x n n1 n2" "q < 2 ^ 32"
  defines "sep \<equiv> index_record (hd (btnp_records n2)) q"
  shows "bsi_split_index1 (split_bsi n n2 q) = Some sep" "bsi_split_index2 (split_bsi n n2 q) = None"
    "btrp_key sep = btrp_key (hd (btnp_records n2))" "btr_phys_index_ptr sep = q" "length (btrp_val sep) = 8" "small_rec bsz sep"
    "bsi_bip (split_bsi n n2 q) = (if btn_phys_is_root n then btnp_info n else 0)"
proof -
  note S = split_intoD [OF assms(1)]
  have "small_rec bsz (hd (btnp_records n2))" using S(2,10) by (simp add: node_wf_def)
  then show "small_rec bsz sep" unfolding sep_def by (rule index_record_small)
qed (use assms(2) in \<open>simp_all add: split_bsi_def sep_def\<close>)

lemma bt_insert_leaf_ok:
  assumes t: "tree_state bt smp r i lo hi (Leaf p rs)" and b: "held bt b p" and room: "bt_room (Suc 0) bt"
    and free: "0 < free_blocks smp (bt_view bt)" and x: "small_rec (smp_bsz smp) x" "lob (bt_cmp bt) lo x" "hib (bt_cmp bt) hi x"
  shows "ins_post smp r i lo hi x (Leaf p rs) bt (bt_insert_node (Suc (Suc d)) b x bt)"
proof -
  note T = tree_stateD [OF t]
  obtain n where n: "bt_view bt p = NodeBlk n" "node_wf (smp_bsz smp) n" "btn_phys_is_leaf n" "btn_phys_is_root n \<longleftrightarrow> p = r"
    "btnp_records n = rs" using T(7) by auto
  have p: "p \<in> owned smp (bt_view bt)" "p \<noteq> 0" using T(7,10) by auto
  have c: "csorted (bt_cmp bt) (btnp_records n)" "\<forall>y\<in>set rs. lob (bt_cmp bt) lo y \<and> hib (bt_cmp bt) hi y"
    using T(8) n(5) by (auto simp: tord_simps)
  have sorted: "csorted (bt_cmp bt) (ins_by (bt_cmp bt) x rs)" if "\<forall>y\<in>set (btnp_records n). bt_cmp bt x y \<noteq> 0"
    using csorted_ins_by [OF T(12) c(1) that] n(5) by simp
  have bounds: "\<forall>y\<in>set (ins_by (bt_cmp bt) x rs). lob (bt_cmp bt) lo y \<and> hib (bt_cmp bt) hi y" using c(2) x(2,3) by simp
  have run: "bt_insert_node (Suc (Suc d)) b x bt = btn_insert (Suc (Suc d)) b x bt"
    by (simp only: bt_insert_node.simps with_node_held [OF T(13) b n(1)] n(3) if_True)
  show ?thesis
    unfolding run
  proof (rule btn_insert_ok [where d = d and x = x, OF T(1) room free b p(1) n(1,2) x(1) c(1)])
    fix bt' L
    assume d: "\<exists>y\<in>set (btnp_records n). bt_cmp bt x y = 0" "btn_insert (Suc (Suc d)) b x bt = Fail EEXIST bt'"
      "bt_good {} bt'" "length (L :: nat list) \<le> 1" "\<And>S. set S \<subseteq> owned smp (bt_view bt) \<Longrightarrow> blk_step smp S (S @ L) (bt_view bt) (bt_view bt')"
      "\<And>k. k \<in> owned smp (bt_view bt) \<Longrightarrow> bt_view bt' k = bt_view bt k" "bt_refs bt' = bt_refs bt" "bt_frame bt bt'"
    have "blk_step smp (tblocks (Leaf p rs)) (tblocks (Leaf p rs) @ L) (bt_view bt) (bt_view bt')" by (rule d(5) [OF T(10)])
    with d(1-4,6-8) n(5) show "ins_post smp r i lo hi x (Leaf p rs) bt (btn_insert (Suc (Suc d)) b x bt)"
      unfolding ins_post_def by (auto simp del: btn_insert.simps)
  next
    fix bt'
    let ?n = "add_rec (bt_cmp bt) x n"
    let ?t = "Leaf p (ins_by (bt_cmp bt) x rs)"
    assume d: "\<forall>y\<in>set (btnp_records n). bt_cmp bt x y \<noteq> 0" "btn_insert (Suc (Suc d)) b x bt = Done no_split bt'"
      "bt_good {} bt'" "node_wf (smp_bsz smp) ?n" "bt_view bt' = (bt_view bt)(p := NodeBlk ?n)" "bt_refs bt' = bt_refs bt" "bt_frame bt bt'"
    have "root_at (bt_view bt') r i" using T(4) n(1) d(5) by (cases "p = r") (simp_all add: root_at_def)
    moreover have "blk_step smp [p] [p] (bt_view bt) (bt_view bt')"
      unfolding d(5) using p by (intro blk_step_store [OF T(14)]) simp_all
    moreover have "tord (bt_cmp bt) lo hi ?t" using sorted [OF d(1)] bounds by (simp add: tord_simps)
    moreover have "trep (smp_bsz smp) (bt_view bt') r ?t" using n p d(4,5) by simp
    ultimately have "ins_done smp r i lo hi x (Leaf p rs) bt no_split bt' (Same ?t)"
      using d(3,6,7) by (simp add: ins_done_def no_split_def)
    with d(1,2) n(5) show "ins_post smp r i lo hi x (Leaf p rs) bt (btn_insert (Suc (Suc d)) b x bt)"
      unfolding ins_post_def by (auto simp del: btn_insert.simps)
  next
    fix bt' q n1 n2
    assume d: "\<forall>y\<in>set (btnp_records n). bt_cmp bt x y \<noteq> 0" "btn_insert (Suc (Suc d)) b x bt = Done (split_bsi n n2 q) bt'" "bt_good {} bt'"
      and into: "split_into (bt_cmp bt) (smp_bsz smp) x n n1 n2" and v: "bt_view bt' p = NodeBlk n1" "bt_view bt' q = NodeBlk n2"
      and same: "\<And>k. k \<in> owned smp (bt_view bt) \<Longrightarrow> k \<noteq> p \<Longrightarrow> bt_view bt' k = bt_view bt k"
      and step: "\<And>S. p \<in> set S \<Longrightarrow> set S \<subseteq> owned smp (bt_view bt) \<Longrightarrow> blk_step smp S (S @ [q]) (bt_view bt) (bt_view bt')"
      and q: "q \<notin> owned smp (bt_view bt)" "q \<noteq> 0" "q < 2 ^ 32" and fr: "bt_refs bt' = bt_refs bt" "bt_frame bt bt'"
    note S = split_intoD [OF into] and B = split_bsi_sep [OF into q(3)]
    let ?sep = "index_record (hd (btnp_records n2)) q"
    let ?u = "Up (Leaf p (btnp_records n1)) ?sep (Leaf q (btnp_records n2))"
    have all: "csorted (bt_cmp bt) (btnp_records n1 @ btnp_records n2)"
      "\<forall>y\<in>set (btnp_records n1 @ btnp_records n2). lob (bt_cmp bt) lo y \<and> hib (bt_cmp bt) hi y"
      unfolding S(11) using sorted [OF d(1)] bounds n(5) by simp_all
    note W = split_sep [OF T(12,2) all(1) S(9,10) B(3) all(2)]
    have ord: "tord (bt_cmp bt) lo (Some ?sep) (Leaf p (btnp_records n1))" "tord (bt_cmp bt) (Some ?sep) hi (Leaf q (btnp_records n2))"
      using all W(1,2) by (simp_all add: tord_simps sorted_wrt_append)
    have rep: "up_rep (bt_cmp bt) (smp_bsz smp) lo hi r (bt_view bt') p (split_bsi n n2 q) ?u"
      using B ord W(3,4) S(1-6) n(3) v p(2) q(2) by simp
    have pq: "p \<noteq> q" using p(1) q(1) by blast
    have root: "up_root (bt_view bt') r p (split_bsi n n2 q) ?u (1 + i)"
    proof (cases "p = r")
      case True
      then have "btn_phys_is_root n" "btnp_info n = i" using T(4) n(1) by (simp_all add: root_at_def)
      with True B(7) show ?thesis by simp
    next
      case False
      with same [OF T(5)] T(4) show ?thesis by (simp add: root_at_def)
    qed
    have "blk_step smp [p] [p, q] (bt_view bt) (bt_view bt')" using step [of "[p]"] p(1) by simp
    with rep root pq S(11) n(5) d(3) fr have "ins_done smp r i lo hi x (Leaf p rs) bt (split_bsi n n2 q) bt' ?u"
      by (simp add: ins_done_def del: up_rep.simps up_root.simps)
    with d(1,2) n(5) show "ins_post smp r i lo hi x (Leaf p rs) bt (btn_insert (Suc (Suc d)) b x bt)"
      unfolding ins_post_def by (auto simp del: btn_insert.simps)
  qed
qed

section \<open>The new child of an index node\<close>

lemma bt_insert_child_ok:
  assumes t: "tree_state bt smp r i lo hi (Index p (A @ (s, c) # B))" and b: "held bt b p" and room: "bt_room (Suc k) bt"
    and free: "0 < free_blocks smp (bt_view bt)" and n: "bt_view bt p = NodeBlk n"
    and route: "btn_route (bt_cmp bt) x n = (tptr c, length A)"
  obtains child bt1 s0 c0 where "bt_insert_child b x bt = Done child bt1" "bt_good {} bt1"
    "bt_refs bt1 = (bt_refs bt)(child := bt_refs bt child + 1)" "held bt1 child (tptr c0)" "bt_frame bt bt1" "bt_room k bt1"
    "tree_state bt1 smp r (i + of_nat (length (tblocks c0)) - of_nat (length (tblocks c))) lo hi (Index p (A @ (s0, c0) # B))"
    "c0 \<noteq> Gone" "trecs c0 = trecs c" "theight c0 = theight c" "btrp_key s0 = btrp_key s"
    "blk_step smp (tblocks (Index p (A @ (s, c) # B))) (tblocks (Index p (A @ (s0, c0) # B))) (bt_view bt) (bt_view bt1)"
    "c \<noteq> Gone \<longrightarrow> bt_view bt1 = bt_view bt \<and> s0 = s \<and> c0 = c"
    "length (tblocks c0) \<le> length (tblocks c) + (if c = Gone then 1 else 0)"
proof (cases "c = Gone")
  case False
  note T = tree_stateD [OF t]
  have tc: "trep (smp_bsz smp) (bt_view bt) r c" using T(7) by auto
  obtain m where m: "bt_view bt (tptr c) = NodeBlk m" by (rule trep_node [OF tc False])
  obtain child bt1 where g: "btn_get (tptr c) None bt = Done child bt1" "bt_good {} bt1" "bt_view bt1 = bt_view bt"
    "bt_refs bt1 = (bt_refs bt)(child := bt_refs bt child + 1)" "held bt1 child (tptr c)" "bt_frame bt bt1" "bt_room k bt1"
    by (rule btn_get_ok [OF T(13) room m])
  have "tptr c \<noteq> 0" using trep_tptr [OF tc] False by simp
  then have run: "bt_insert_child b x bt = Done child bt1"
    using route g(1) by (simp add: bt_insert_child_def with_node_held [OF T(13) b n])
  note state = tree_state_same [OF t g(2,3,6)]
  have step: "blk_step smp (tblocks (Index p (A @ (s, c) # B))) (tblocks (Index p (A @ (s, c) # B))) (bt_view bt) (bt_view bt1)"
    unfolding g(3) by (rule blk_step_refl [OF T(14,10)])
  have "i + of_nat (length (tblocks c)) - of_nat (length (tblocks c)) = i" by simp
  with state have state': "tree_state bt1 smp r (i + of_nat (length (tblocks c)) - of_nat (length (tblocks c))) lo hi (Index p (A @ (s, c) # B))"
    by (simp only:)
  show thesis
    by (rule that [OF run g(2,4,5,6,7) state' False refl refl refl step]) (simp_all add: g(3))
next
  case True
  note T = tree_stateD [OF t]
  obtain q child V bt1 where al: "btn_alloc BTN_PHYS_FLG_IS_LEAF bt = Done child bt1" "bt_good {} bt1" "bit_step smp q True (bt_view bt) V"
    "bt_view bt1 = V(q := NodeBlk (btn_init (smp_bsz smp) BTN_PHYS_FLG_IS_LEAF))" "data_block smp q" "\<not> allocated smp (bt_view bt) q"
    "bt_refs bt1 = (bt_refs bt)(child := bt_refs bt child + 1)" "held bt1 child q" "bt_frame bt bt1" "bt_room k bt1"
    by (rule btn_alloc_ok [OF T(13) room T(14,16) free, of BTN_PHYS_FLG_IS_LEAF]) simp_all
  let ?leaf = "btn_init (smp_bsz smp) BTN_PHYS_FLG_IS_LEAF" and ?c = "Leaf q []"
  have step1: "blk_step smp (tblocks c) (tblocks ?c) (bt_view bt) (bt_view bt1)"
    using blk_step_alloc [OF al(3,6,5), of "[]" "NodeBlk ?leaf"] al(4) True by simp
  have own1: "q \<in> owned smp (bt_view bt1)" using blk_stepD(3) [OF step1] by simp
  have q: "q < 2 ^ 32" "q \<noteq> 0" using owned_less [OF blk_stepD(1) [OF step1] own1] al(5) by (simp_all add: data_block_def)
  have rp: "p \<in> owned smp (bt_view bt)" "p \<noteq> q" "r \<noteq> q" using T(5,10) al(6) by (auto simp: owned_def)
  have wf: "node_wf (smp_bsz smp) ?leaf"
    by (simp add: node_wf_def btn_init_flags) (simp add: btn_init_def max_inline_def)
  have leaf: "trep (smp_bsz smp) (bt_view bt1) r ?c"
    using wf q(2) rp(3) al(4) by (simp add: btn_init_flags) (simp add: btn_init_def)
  have same: "bt_view bt1 k = bt_view bt k" if "k \<in> owned smp (bt_view bt)" for k
    using that al(4,6) bit_stepD(2) [OF al(3), of k] by (auto simp: owned_def)
  have n1: "bt_view bt1 p = NodeBlk n" using same [OF rp(1)] n by simp
  have root1: "root_at (bt_view bt1) r i" using same [OF T(5)] T(4) by (simp add: root_at_def)
  let ?d = "NodeBlk (btn_set_ptr (length A) q n)" and ?s = "kid_sep A s q"
  let ?t1 = "Index p (A @ (?s, ?c) # B)"
  have b1: "held bt1 b p" by (rule bt_frameD(5) [OF al(9) b])
  let ?bt2 = "bt_store b ?d bt1"
  note st = bt_store_ok [OF al(2) b1, of ?d]
  have good2: "bt_good {} ?bt2" using st(1) by simp
  have f2: "bt_frame bt ?bt2" by (rule bt_frame_trans [OF al(9) st(4)])
  have W: "trep (smp_bsz smp) (bt_view ?bt2) r ?t1" "blk_step smp (tblocks (Index p (A @ (s, c) # B))) (tblocks ?t1) (bt_view bt) (bt_view ?bt2)"
    "distinct (tblocks ?t1)" "root_at (bt_view ?bt2) r i = root_at (bt_view bt1) r i"
    using trep_set_kid [OF T(7,10,9) step1 leaf _ _ n1] q(1) unfolding st(2) by simp_all
  have r2: "held ?bt2 (bt_root ?bt2) r" using bt_frameD(2,5) [OF f2] T(3) by simp
  have root2: "root_at (bt_view ?bt2) r i" using W(4) root1 by blast
  obtain nr bt3 where i: "bt_view ?bt2 r = NodeBlk nr" "root_info_add 1 ?bt2 = Done () bt3" "bt_good {} (bt_dirty (bt_root bt3) bt3)"
    "bt_view (bt_dirty (bt_root bt3) bt3) = (bt_view ?bt2)(r := NodeBlk (nr\<lparr>btnp_info := i + 1\<rparr>))"
    "root_at (bt_view (bt_dirty (bt_root bt3) bt3)) r (i + 1)"
    "bt_refs (bt_dirty (bt_root bt3) bt3) = bt_refs ?bt2" "bt_frame ?bt2 (bt_dirty (bt_root bt3) bt3)"
    by (rule root_info_dirty_ok [OF good2 r2 root2, of 1])
  let ?bt4 = "bt_dirty (bt_root bt3) bt3"
  have blk: "bt_blkno bt1 child = q" using al(8) by (simp add: held_def)
  have run: "bt_insert_child b x bt = Done child ?bt4"
    using route True al(1) i(2) blk by (simp add: bt_insert_child_def with_node_held [OF T(13) b n] with_node_held [OF al(2) b1 n1])
  note f4 = bt_frame_trans [OF f2 i(7)]
  have own2: "set (tblocks ?t1) \<subseteq> owned smp (bt_view ?bt2)" by (rule blk_stepD(3) [OF W(2)])
  have rown: "r \<in> owned smp (bt_view ?bt2)"
  proof (cases "r \<in> set (tblocks (Index p (A @ (s, c) # B)))")
    case True
    then have "r = p" using T(11) by simp
    then show ?thesis using own2 by simp
  next
    case False
    from blk_stepD(4) [OF W(2) T(5) this] show ?thesis by blast
  qed
  have step4: "blk_step smp (tblocks ?t1) (tblocks ?t1) (bt_view ?bt2) (bt_view ?bt4)"
    unfolding i(4) by (rule blk_step_store [OF blk_stepD(1) [OF W(2)] own2 rown]) (simp add: i(1))
  have trep4: "trep (smp_bsz smp) (bt_view ?bt4) r ?t1"
    by (rule trep_cong [OF W(1)]) (simp add: i(4) i(1))
  have ord: "tord (bt_cmp bt) lo hi ?t1" by (rule tord_kid [OF T(8,2) kid_sep_key]) (simp add: tord_simps)
  have rd: "data_block smp r" using rown by (simp add: owned_def)
  have own4: "set (tblocks ?t1) \<subseteq> owned smp (bt_view ?bt4)" "r \<in> owned smp (bt_view ?bt4)"
    using own2 rown unfolding i(4) owned_upd [OF rd] .
  have "r \<in> set (tblocks ?t1) \<Longrightarrow> r = p" using T(11) rp(3) by auto
  then have state: "tree_state ?bt4 smp r (i + of_nat (length (tblocks ?c)) - of_nat (length (tblocks c))) lo hi ?t1"
    using space_ready_frame [OF T(1) i(3) blk_stepD(1) [OF step4] f4] T(2,3) bt_frameD [OF f4] i(5) own4 trep4 ord W(3) True
    by (simp add: tree_state_def del: tblocks.simps trep.simps) simp
  have child4: "held ?bt4 child (tptr ?c)" using bt_frameD(5) [OF bt_frame_trans [OF st(4) i(7)] al(8)] by simp
  have refs4: "bt_refs ?bt4 = (bt_refs bt)(child := bt_refs bt child + 1)" using i(6) st(3) al(7) by simp
  have room4: "bt_room k ?bt4"
    using al(10) bt_room_refs [of ?bt4 bt1] i(6) st(3) bt_frameD(4) [OF bt_frame_trans [OF st(4) i(7)]] by simp
  show thesis
    by (rule that [OF run i(3) refs4 child4 f4 room4 state _ _ _ kid_sep_key blk_step_trans [OF W(2) step4]]) (use True in simp_all)
qed

section \<open>The separator goes up\<close>

lemma tord_split_index:
  assumes t: "tord cmp lo hi (Index p (h # K1 @ K2))" and K: "K1 \<noteq> []" "K2 \<noteq> []" and c: "total_cmp cmp" "key_cmp cmp"
    and sep: "btrp_key sep = btrp_key (fst (hd K2))"
  shows "tord cmp lo (Some sep) (Index p (h # K1))" "tord cmp (Some sep) hi (Index q ((d, Gone) # K2))"
    "hib cmp hi sep" "\<forall>l. lo = Some l \<longrightarrow> cmp l sep < 0"
proof -
  obtain k K2' where K2: "K2 = k # K2'" using K(2) by (cases K2) auto
  have T: "csorted cmp (map fst K1 @ map fst K2)" "\<forall>y\<in>set (map fst K1 @ map fst K2). lob cmp lo y \<and> hib cmp hi y"
    "kids_ord (tord cmp) lo (Some (fst k)) (h # K1)" "kids_ord (tord cmp) (Some (fst k)) hi K2"
    using t kids_ord_append [of "tord cmp" lo hi "h # K1" k K2'] K2 by (simp_all add: tord_Index_iff del: set_map)
  have "map fst K1 \<noteq> []" "map fst K2 \<noteq> []" "btrp_key sep = btrp_key (hd (map fst K2))" using K sep K2 by simp_all
  note W = split_sep [OF c T(1) this T(2)]
  show "hib cmp hi sep" "\<forall>l. lo = Some l \<longrightarrow> cmp l sep < 0" by (rule W)+
  have s': "csorted cmp (map fst K1)" "csorted cmp (map fst K2)" using T(1) by (simp_all add: sorted_wrt_append)
  have "btrp_key sep = btrp_key (fst k)" using sep K2 by simp
  note o1 = kids_ord_key [OF T(3) c(2) this]
  have "\<forall>y\<in>set (map fst K1). lob cmp lo y \<and> hib cmp (Some sep) y" using T(2) W(1) by simp
  then show "tord cmp lo (Some sep) (Index p (h # K1))" using s'(1) o1 by (simp only: tord_Index_iff list.sel) simp
  have "\<forall>y\<in>set (map fst K2). lob cmp (Some sep) y \<and> hib cmp hi y" using T(2) W(2) by simp
  moreover have "kids_ord (tord cmp) (Some sep) hi ((d, Gone) # K2)" using T(4) K2 by (simp add: tord_simps)
  ultimately show "tord cmp (Some sep) hi (Index q ((d, Gone) # K2))" using s'(2) by (simp only: tord_Index_iff list.sel) simp
qed

text \<open>The two nodes of a split index node.\<close>

lemma split_index_rep:
  assumes into: "split_into cmp bsz sep n n1 n2" "\<not> btn_phys_is_leaf n" "btnp_ptr0 n = tptr (snd (hd K))"
    and K: "K \<noteq> []" "ins_by cmp sep (btnp_records n) = map fst (tl K)"
      "\<forall>k\<in>set (tl K). btr_phys_index_ptr (fst k) = tptr (snd k) \<and> length (btrp_val (fst k)) = 8" "\<forall>k\<in>set K. trep bsz V 0 (snd k)"
    and v: "V p = NodeBlk n1" "V q = NodeBlk n2" "p \<noteq> 0" "q \<noteq> 0"
  obtains h K1 K2 where "K = h # K1 @ K2" "K1 \<noteq> []" "K2 \<noteq> []" "hd (btnp_records n2) = fst (hd K2)"
    "trep bsz V 0 (Index p (h # K1))" "trep bsz V 0 (Index q ((d, Gone) # K2))"
proof -
  note S = split_intoD [OF into(1)]
  obtain h T where hT: "K = h # T" using K(1) by (cases K) auto
  let ?k = "length (btnp_records n1)"
  have rs: "btnp_records n1 @ btnp_records n2 = map fst T" using S(11) K(2) hT by simp
  then have r1: "btnp_records n1 = map fst (take ?k T)" and r2: "btnp_records n2 = map fst (drop ?k T)"
    by (metis append_eq_conv_conj take_map, metis append_eq_conv_conj drop_map)
  have ne: "take ?k T \<noteq> []" "drop ?k T \<noteq> []" using r1 r2 S(9,10) by (metis list.simps(8))+
  have sub: "set (take ?k T) \<subseteq> set (tl K)" "set (drop ?k T) \<subseteq> set (tl K)" using hT set_take_subset set_drop_subset by fastforce+
  show thesis
  proof (rule that [of h "take ?k T" "drop ?k T"])
    show "hd (btnp_records n2) = fst (hd (drop ?k T))" using arg_cong [OF r2, of hd] ne(2) by (simp add: hd_map)
    have "\<forall>k\<in>set (h # take ?k T). trep bsz V 0 (snd k)" "\<forall>k\<in>set (tl (h # take ?k T)). btr_phys_index_ptr (fst k) = tptr (snd k) \<and> length (btrp_val (fst k)) = 8"
      using K(3,4) sub(1) hT by auto
    then show "trep bsz V 0 (Index p (h # take ?k T))"
      unfolding trep.simps using v(1,3) ne(1) S(1,3,5,7) r1 into(2,3) hT by simp
    have "\<forall>k\<in>set ((d, Gone) # drop ?k T). trep bsz V 0 (snd k)" "\<forall>k\<in>set (tl ((d, Gone) # drop ?k T)). btr_phys_index_ptr (fst k) = tptr (snd k) \<and> length (btrp_val (fst k)) = 8"
      using K(3,4) sub(2) hT by auto
    then show "trep bsz V 0 (Index q ((d, Gone) # drop ?k T))"
      unfolding trep.simps using v(2,4) ne(2) S(2,4,6,8) r2 into(2) by simp
  qed (use hT ne in simp_all)
qed

lemma sep_bounds:
  assumes t: "tord cmp lo hi (Index p (A @ (s, c) # B))" and c: "total_cmp cmp"
    and x: "\<forall>l. kid_lo lo A s = Some l \<longrightarrow> cmp l x < 0" "hib cmp (kid_hi hi B) x"
  shows "lob cmp lo x" "hib cmp hi x"
proof -
  note T = tord_indexD [OF t]
  show "lob cmp lo x"
  proof (cases "A = []")
    case True
    with x(1) show ?thesis by (cases lo) auto
  next
    case False
    then have "(s, c) \<in> set (tl (A @ (s, c) # B))" by (simp add: tl_mid)
    then have s: "lob cmp lo s" using T(3) [of "(s, c)"] by simp
    have "cmp s x < 0" using x(1) False by (simp add: kid_lo_def)
    then have "cmp s x \<le> 0" by (rule less_imp_le)
    then show ?thesis by (rule lob_trans [OF c s])
  qed
  show "hib cmp hi x"
  proof (cases B)
    case (Cons b B')
    then have "b \<in> set (tl (A @ (s, c) # B))" by (cases A) simp_all
    then have b: "hib cmp hi (fst b)" using T(3) [of b] by simp
    have "cmp x (fst b) < 0" using x(2) Cons by simp
    then have "cmp x (fst b) \<le> 0" by (rule less_imp_le)
    then show ?thesis by (rule hib_trans [OF c b])
  qed (use x(2) in simp)
qed

text \<open>The children with the two new ones, as they are in the file before the separator goes in.\<close>

lemma two_kids_rep:
  assumes t: "tree_state bt smp r i lo hi (Index p (A @ (s, c) # B))" and c: "c \<noteq> Gone"
    and step: "blk_step smp (tblocks c) (tblocks c1 @ tblocks c2) (bt_view bt) V"
    and up: "up_rep (bt_cmp bt) (smp_bsz smp) (kid_lo lo A s) (kid_hi hi B) r V (tptr c) cbsi (Up c1 sep c2)"
  defines "K \<equiv> A @ (s, c1) # (sep, c2) # B"
  shows "\<forall>k\<in>set K. trep (smp_bsz smp) V 0 (snd k)" "r \<notin> set (kblocks K)" "p \<notin> set (kblocks K)" "0 \<notin> set (kblocks K)"
    "\<forall>k\<in>set (tl K). btr_phys_index_ptr (fst k) = tptr (snd k) \<and> length (btrp_val (fst k)) = 8" "set (kblocks K) \<subseteq> owned smp V"
    "tptr (snd (hd K)) = tptr (snd (hd (A @ (s, c) # B)))"
proof -
  note T = tree_stateD [OF t] and S = kid_step [OF tree_stateD(10,9) [OF t] step]
  have U: "tptr c1 = tptr c" "btr_phys_index_ptr sep = tptr c2" "length (btrp_val sep) = 8" "trep (smp_bsz smp) V 0 c1" "trep (smp_bsz smp) V 0 c2"
    using up by simp_all
  have old: "r \<notin> set (kblocks (A @ (s, c) # B))" "p \<notin> set (kblocks (A @ (s, c) # B))" using T(9,11) by auto
  have rc: "r \<notin> set (tblocks c1 @ tblocks c2)"
    using blk_stepD(4) [OF step T(5)] old(1) by auto
  have pc: "p \<notin> set (tblocks c1 @ tblocks c2)" by (rule S(5))
  show K0: "\<forall>k\<in>set K. trep (smp_bsz smp) V 0 (snd k)"
  proof
    fix k assume "k \<in> set K"
    then consider "k \<in> set (A @ B)" | "k = (s, c1)" | "k = (sep, c2)" by (auto simp: K_def)
    then show "trep (smp_bsz smp) V 0 (snd k)"
    proof cases
      case 1
      then have k: "trep (smp_bsz smp) (bt_view bt) r (snd k)" using T(7) by auto
      have "r \<notin> set (tblocks (snd k))" using old(1) 1 by auto
      then have "trep (smp_bsz smp) (bt_view bt) 0 (snd k)" by (rule trep_rt [OF k]) (rule trep_no_zero [OF k])
      then show ?thesis by (rule trep_cong) (use S(6) 1 in auto)
    qed (use U in simp_all)
  qed
  show "r \<notin> set (kblocks K)" "p \<notin> set (kblocks K)" using old rc pc by (auto simp: K_def)
  show "0 \<notin> set (kblocks K)" using K0 trep_no_zero by fastforce
  show "set (kblocks K) \<subseteq> owned smp V" using blk_stepD(3) [OF S(1)] by (auto simp: K_def)
  show "tptr (snd (hd K)) = tptr (snd (hd (A @ (s, c) # B)))" using U(1) by (cases A) (simp_all add: K_def)
  show "\<forall>k\<in>set (tl K). btr_phys_index_ptr (fst k) = tptr (snd k) \<and> length (btrp_val (fst k)) = 8"
  proof
    fix k assume "k \<in> set (tl K)"
    then consider "k \<in> set (tl (A @ (s, c) # B))" "k \<in> set (tl A) \<union> set B" | "k = (s, c1)" "A \<noteq> []" | "k = (sep, c2)"
      by (cases A) (auto simp: K_def)
    then show "btr_phys_index_ptr (fst k) = tptr (snd k) \<and> length (btrp_val (fst k)) = 8"
    proof cases
      case 1
      then show ?thesis using T(7) by simp
    next
      case 2
      then show ?thesis using kid_seps [OF T(7)] U(1) by simp
    qed (use U in simp)
  qed
qed

end
