(* ===== verification/BtreeGrow.thy ===== *)
theory BtreeGrow
  imports BtreeInsert
begin

text \<open>
  The recursion of the insertion: the separator of a split child goes into its parent, down to up,
  and the node count in the root's block follows.
\<close>

section \<open>The separator of a split child\<close>

lemma bt_insert_up_ok:
  assumes t: "tree_state bt smp r i lo hi (Index p (A @ (s, c) # B))" and c: "c \<noteq> Gone"
    and good: "bt_good {} bt2" and frame: "bt_frame bt bt2" and b: "held bt2 b p"
    and step: "blk_step smp (tblocks c) (tblocks c1 @ tblocks c2) (bt_view bt) (bt_view bt2)"
    and up: "up_rep (bt_cmp bt) (smp_bsz smp) (kid_lo lo A s) (kid_hi hi B) r (bt_view bt2) (tptr c) cbsi (Up c1 sep c2)"
    and d: "distinct (tblocks c1 @ tblocks c2)"
    and root: "root_at (bt_view bt2) r (i + of_nat (length (tblocks c1 @ tblocks c2)) - of_nat (length (tblocks c)) - 1)"
    and room: "bt_room (Suc k) bt2" and free: "0 < free_blocks smp (bt_view bt2)"
    and h: "theight c1 \<le> theight c" "theight c2 \<le> theight c"
  obtains bsi bt3 u where "bt_insert_up (btn_insert (Suc (Suc dep))) b cbsi bt2 = Done bsi bt3" "bt_good {} bt3"
    "bt_refs bt3 = bt_refs bt2" "bt_frame bt2 bt3" "up_rep (bt_cmp bt) (smp_bsz smp) lo hi r (bt_view bt3) p bsi u" "distinct (up_blocks u)"
    "up_recs u = krecs A @ (trecs c1 @ trecs c2) @ krecs B" "up_height u \<le> theight (Index p (A @ (s, c) # B))"
    "length (up_blocks u) + length (tblocks c) \<le> length (tblocks (Index p (A @ (s, c) # B))) + length (tblocks c1 @ tblocks c2) + 1"
    "blk_step smp (tblocks (Index p (A @ (s, c) # B))) (up_blocks u) (bt_view bt) (bt_view bt3)"
    "up_root (bt_view bt3) r p bsi u (i + of_nat (length (up_blocks u)) - of_nat (length (tblocks (Index p (A @ (s, c) # B)))))"
proof -
  let ?t = "Index p (A @ (s, c) # B)" and ?bsz = "smp_bsz smp" and ?cmp = "bt_cmp bt"
  define K where "K = A @ (s, c1) # (sep, c2) # B"
  note T = tree_stateD [OF t] and S = kid_step [OF tree_stateD(10,9) [OF t] step]
  note KK = two_kids_rep [OF t c step up, folded K_def]
  have U: "bsi_split_index1 cbsi = Some sep" "bsi_split_index2 cbsi = None" "small_rec ?bsz sep"
    "tord ?cmp (kid_lo lo A s) (Some sep) c1" "tord ?cmp (Some sep) (kid_hi hi B) c2"
    "\<forall>l. kid_lo lo A s = Some l \<longrightarrow> ?cmp l sep < 0" "hib ?cmp (kid_hi hi B) sep" using up by simp_all
  note SB = sep_bounds [OF T(8,12) U(6,7)]
  have strict: "?cmp l sep < 0" if "kid_lo lo A s = Some l" for l using U(6) that by blast
  note K2 = tord_two_kids [where cmp = ?cmp, OF T(8,12) strict U(7) SB U(4,5), folded K_def]
  \<comment> \<open>the blocks with the two new children\<close>
  define X where "X = (p # kblocks A) @ (tblocks c1 @ tblocks c2) @ kblocks B"
  have X: "blk_step smp (tblocks ?t) X (bt_view bt) (bt_view bt2)" "distinct X" using S(1) S(2) [OF d] by (simp_all add: X_def)
  have XK: "X = p # kblocks K" by (simp add: X_def K_def)
  have XK': "tblocks (Index p K) = X" using XK by simp
  let ?j = "i + of_nat (length (tblocks c1 @ tblocks c2)) - of_nat (length (tblocks c))"
  have len: "length X + length (tblocks c) = length (tblocks ?t) + length (tblocks c1 @ tblocks c2)" by (simp add: X_def)
  have j: "i + of_nat (length X) - of_nat (length (tblocks ?t)) = ?j" by (simp add: X_def)
  have cmp2: "bt_cmp bt2 = ?cmp" by (rule bt_frameD(1) [OF frame])
  \<comment> \<open>the node count goes up\<close>
  have root2: "held bt2 (bt_root bt2) r" using T(3) bt_frameD(2,5) [OF frame] by simp
  obtain nr bta where a: "bt_view bt2 r = NodeBlk nr" "root_info_add 1 bt2 = Done () bta" "bt_good (insert (bt_root bt2) {}) bta"
    "bt_view bta = (bt_view bt2)(r := NodeBlk (nr\<lparr>btnp_info := ?j - 1 + 1\<rparr>))" "root_at (bt_view bta) r (?j - 1 + 1)"
    "bt_refs bta = bt_refs bt2" "bt_frame bt2 bta" "bt_blkno bta = bt_blkno bt2"
    by (rule root_info_add_ok [OF good root2 root, of 1])
  have roota: "root_at (bt_view bta) r ?j" using a(5) by simp
  have r2: "r \<in> owned smp (bt_view bt2)"
  proof (cases "r = p")
    case False
    then have "r \<notin> set (tblocks c)" using T(11) by auto
    from blk_stepD(4) [OF step T(5) this] show ?thesis by blast
  qed (use S(4) in simp)
  then have rd: "data_block smp r" by (simp add: owned_def)
  have own: "owned smp (bt_view bta) = owned smp (bt_view bt2)" unfolding a(4) by (rule owned_upd [OF rd])
  have stepa: "blk_step smp X X (bt_view bt2) (bt_view bta)"
    unfolding a(4) by (rule blk_step_store [OF blk_stepD(1,3) [OF X(1)] r2]) (simp add: a(1))
  have same: "no_info (bt_view bta q) = no_info (bt_view bt2 q)" for q unfolding a(4) using a(1) by simp
  have "r \<in> owned smp (bt_view bta)" unfolding own by (rule r2)
  then have "allocated smp (bt_view bta) r" by (simp add: owned_def)
  then have ready: "space_ready {bt_root bt2} bta smp"
    using a(3,8) blk_stepD(1) [OF stepa] T(1) bt_frameD [OF bt_frame_trans [OF frame a(7)]] root2
    by (simp add: space_ready_def held_def)
  note ba = bt_frameD(5) [OF a(7) b]
  \<comment> \<open>the node itself\<close>
  obtain n where n: "bt_view bt p = NodeBlk n" "node_wf ?bsz n" "\<not> btn_phys_is_leaf n" "btn_phys_is_root n \<longleftrightarrow> p = r"
    "btnp_records n = map fst (tl (A @ (s, c) # B))" "btnp_ptr0 n = tptr (snd (hd (A @ (s, c) # B)))" using trep_indexE [OF T(7)] .
  have "no_info (bt_view bta p) = no_info (NodeBlk n)" using same [of p] S(3) n(1) by simp
  then obtain i' where n': "bt_view bta p = NodeBlk (n\<lparr>btnp_info := i'\<rparr>)" by (rule no_info_node)
  let ?n = "n\<lparr>btnp_info := i'\<rparr>"
  have nf: "node_wf ?bsz ?n" "\<not> btn_phys_is_leaf ?n" "btn_phys_is_root ?n \<longleftrightarrow> p = r" "btnp_records ?n = map fst (tl (A @ (s, c) # B))"
    "btnp_ptr0 ?n = tptr (snd (hd K))" using n KK(7) by simp_all
  have info: "p = r \<Longrightarrow> i' = ?j" using roota n' by (simp add: root_at_def)
  have cmpa: "bt_cmp bta = ?cmp" using bt_frameD(1) [OF a(7)] cmp2 by simp
  have csort: "csorted (bt_cmp bta) (btnp_records ?n)" unfolding cmpa nf(4) by (rule tord_indexD(2) [OF T(8)])
  have rooma: "bt_room (Suc k) bta" using room bt_room_refs [OF a(6) bt_frameD(4) [OF a(7)]] by simp
  have freea: "0 < free_blocks smp (bt_view bta)" using free unfolding a(4) data_block_upd(2) [OF rd] .
  have pa: "p \<in> owned smp (bt_view bta)" using own S(4) by simp
  have p0: "p \<noteq> 0" using T(7) by simp
  have hK: "\<forall>k\<in>set K. theight (snd k) < theight ?t"
  proof -
    have old: "theight (snd k) < theight ?t" if "k \<in> set (A @ (s, c) # B)" for k by (rule theight_kid [OF that])
    have "theight c1 < theight ?t" "theight c2 < theight ?t" using old [of "(s, c)"] h by simp_all
    moreover have "theight (snd k) < theight ?t" if "k \<in> set A \<union> set B" for k using old [of k] that by simp
    ultimately show ?thesis by (auto simp: K_def)
  qed
  have recs: "krecs K = krecs A @ (trecs c1 @ trecs c2) @ krecs B" by (simp add: K_def)
  have Kne: "K \<noteq> []" by (simp add: K_def)
  \<comment> \<open>the children stay as they are in whatever comes next\<close>
  have kids: "\<forall>k\<in>set K. trep ?bsz V 0 (snd k)" if "\<And>q. q \<in> set (kblocks K) \<Longrightarrow> V q = bt_view bta q" for V
  proof
    fix k assume k: "k \<in> set K"
    show "trep ?bsz V 0 (snd k)"
    proof (rule trep_cong [of ?bsz "bt_view bt2"])
      show "trep ?bsz (bt_view bt2) 0 (snd k)" using KK(1) k by blast
      show "no_info (V q) = no_info (bt_view bt2 q)" if "q \<in> set (tblocks (snd k))" for q
      proof -
        have "q \<in> set (kblocks K)" using k that by auto
        then have "V q = bt_view bta q" by (rule \<open>\<And>q. q \<in> set (kblocks K) \<Longrightarrow> V q = bt_view bta q\<close>)
        with same [of q] show ?thesis by simp
      qed
    qed
  qed
  have end_ok: "bt_good {} (bt_dirty (bt_root bt3) bt3)" "bt_view (bt_dirty (bt_root bt3) bt3) = bt_view bt3"
    "bt_refs (bt_dirty (bt_root bt3) bt3) = bt_refs bt2" "bt_frame bt2 (bt_dirty (bt_root bt3) bt3)"
    if bt3: "bt_good {bt_root bt2} bt3" "bt_refs bt3 = bt_refs bta" "bt_frame bta bt3" for bt3
  proof -
    have r: "bt_root bt3 = bt_root bt2" using bt_frameD(2) [OF bt_frame_trans [OF a(7) bt3(3)]] .
    have "0 < bt_refs bt3 (bt_root bt3)" using r bt3(1) by (simp add: bt_good_def)
    note D = bt_dirty_ok [OF bt3(1) this]
    show "bt_good {} (bt_dirty (bt_root bt3) bt3)" "bt_view (bt_dirty (bt_root bt3) bt3) = bt_view bt3"
      "bt_refs (bt_dirty (bt_root bt3) bt3) = bt_refs bt2" "bt_frame bt2 (bt_dirty (bt_root bt3) bt3)"
      using D r bt3(2) a(6) bt_frame_trans [OF bt_frame_trans [OF a(7) bt3(3)] D(4)] by simp_all
  qed
  have run: "bt_insert_up (btn_insert (Suc (Suc dep))) b cbsi bt2 = Done bsi (bt_dirty (bt_root bt3) bt3)"
    if "btn_insert (Suc (Suc dep)) b sep bta = Done bsi bt3" for bsi bt3
    by (simp only: bt_insert_up_def U(1,2) option.case a(2) andthen_simps that outcome.case) simp
  show thesis
  proof (rule btn_insert_ok [where d = dep and x = sep, OF ready rooma freea ba pa n' nf(1) U(3) csort])
    assume "\<exists>y\<in>set (btnp_records ?n). bt_cmp bta sep y = 0"
    with K2(2) have False unfolding cmpa nf(4) by blast
    then show thesis ..
  next
    fix bt3
    let ?n2 = "add_rec (bt_cmp bta) sep ?n" and ?bt3 = "bt_dirty (bt_root bt3) bt3" and ?u = "Same (Index p K)"
    assume d3: "btn_insert (Suc (Suc dep)) b sep bta = Done no_split bt3" "bt_good {bt_root bt2} bt3" "node_wf ?bsz ?n2"
      "bt_view bt3 = (bt_view bta)(p := NodeBlk ?n2)" "bt_refs bt3 = bt_refs bta" "bt_frame bta bt3"
    note E = end_ok [OF d3(2,5,6)]
    have view: "bt_view ?bt3 = (bt_view bta)(p := NodeBlk ?n2)" using E(2) d3(4) by simp
    have k0: "\<forall>k\<in>set K. trep ?bsz (bt_view ?bt3) 0 (snd k)" by (rule kids) (use KK(3) view in auto)
    have kids3: "\<forall>k\<in>set K. trep ?bsz (bt_view ?bt3) r (snd k)"
    proof
      fix k assume k: "k \<in> set K"
      from bspec [OF k0 this] show "trep ?bsz (bt_view ?bt3) r (snd k)" by (rule trep_rt) (use KK(2,4) k in auto)
    qed
    have recs2: "btnp_records ?n2 = map fst (tl K)" using K2(1) nf(4) cmpa by simp
    have "tl K \<noteq> []" by (cases A) (simp_all add: K_def)
    then have rep: "trep ?bsz (bt_view ?bt3) r (Index p K)"
      unfolding trep.simps using p0 kids3 KK(5) d3(3) nf recs2 by (simp add: view)
    have "root_at (bt_view ?bt3) r ?j"
      using roota info n' nf(3) unfolding view by (cases "p = r") (simp_all add: root_at_def)
    then have root3: "up_root (bt_view ?bt3) r p no_split ?u (i + of_nat (length (up_blocks ?u)) - of_nat (length (tblocks ?t)))"
      by (simp only: up_root.simps up_blocks.simps XK' j)
    have step3: "blk_step smp X X (bt_view bta) (bt_view ?bt3)"
      unfolding view by (rule blk_step_store [OF blk_stepD(1,3) [OF stepa] pa]) (simp add: X_def)
    show thesis
    proof (rule that [OF run [OF d3(1)] E(1,3,4), of ?u])
      show "up_rep ?cmp ?bsz lo hi r (bt_view ?bt3) p no_split ?u" using rep K2(3) by (simp add: no_split_def del: trep.simps)
      show "distinct (up_blocks ?u)" using X(2) XK by simp
      show "up_recs ?u = krecs A @ (trecs c1 @ trecs c2) @ krecs B" using recs by simp
      show "up_height ?u \<le> theight ?t" using theight_le [OF Kne hK] by simp
      show "length (up_blocks ?u) + length (tblocks c) \<le> length (tblocks ?t) + length (tblocks c1 @ tblocks c2) + 1" using len XK by simp
      show "blk_step smp (tblocks ?t) (up_blocks ?u) (bt_view bt) (bt_view ?bt3)"
        using blk_step_trans [OF X(1) blk_step_trans [OF stepa step3]] XK by simp
    qed (rule root3)
  next
    fix bt3 q n1 n2
    let ?bt3 = "bt_dirty (bt_root bt3) bt3" and ?bsi = "split_bsi ?n n2 q"
    assume d3: "btn_insert (Suc (Suc dep)) b sep bta = Done ?bsi bt3" "bt_good {bt_root bt2} bt3"
      and into: "split_into (bt_cmp bta) ?bsz sep ?n n1 n2" and v: "bt_view bt3 p = NodeBlk n1" "bt_view bt3 q = NodeBlk n2"
      and others: "\<And>k. k \<in> owned smp (bt_view bta) \<Longrightarrow> k \<noteq> p \<Longrightarrow> bt_view bt3 k = bt_view bta k"
      and al: "\<And>S. p \<in> set S \<Longrightarrow> set S \<subseteq> owned smp (bt_view bta) \<Longrightarrow> blk_step smp S (S @ [q]) (bt_view bta) (bt_view bt3)"
      and q: "q \<notin> owned smp (bt_view bta)" "q \<noteq> 0" "q < 2 ^ 32" and fr: "bt_refs bt3 = bt_refs bta" "bt_frame bta bt3"
    note E = end_ok [OF d3(2) fr] and BS = split_bsi_sep [OF into q(3)]
    let ?sep = "index_record (hd (btnp_records n2)) q"
    have KX: "set (kblocks K) \<subseteq> owned smp (bt_view bta)" using KK(6) own by simp
    have kids3: "\<forall>k\<in>set K. trep ?bsz (bt_view ?bt3) 0 (snd k)"
      unfolding E(2) by (rule kids) (use others KX KK(3) in blast)
    have ins: "ins_by (bt_cmp bta) sep (btnp_records ?n) = map fst (tl K)" using K2(1) nf(4) cmpa by simp
    obtain h0 K1' K2' where sp: "K = h0 # K1' @ K2'" "K1' \<noteq> []" "K2' \<noteq> []" "hd (btnp_records n2) = fst (hd K2')"
      "trep ?bsz (bt_view ?bt3) 0 (Index p (h0 # K1'))" "trep ?bsz (bt_view ?bt3) 0 (Index q ((s, Gone) # K2'))"
      by (rule split_index_rep [where d = s, OF into nf(2,5) Kne ins KK(5) kids3 _ _ p0 q(2)]) (use v E(2) in simp_all)
    let ?u = "Up (Index p (h0 # K1')) ?sep (Index q ((s, Gone) # K2'))"
    have key: "btrp_key ?sep = btrp_key (fst (hd K2'))" using sp(4) by simp
    note O = tord_split_index [OF K2(3) [unfolded sp(1)] sp(2,3) T(12,2) key]
    have pq: "p \<noteq> q" using pa q(1) by blast
    have blocks: "set (up_blocks ?u) = set (X @ [q])" "length (up_blocks ?u) = length (X @ [q])"
      using XK sp(1) by auto
    have qX: "q \<notin> set X" using KX pa q(1) XK by auto
    have dist: "distinct (up_blocks ?u)"
      using X(2) qX blocks by (metis card_distinct distinct.simps(1) distinct_append distinct_card distinct_singleton disjoint_insert(1) inf_bot_right list.set(1) list.set(2))
    have step3: "blk_step smp X (up_blocks ?u) (bt_view bta) (bt_view ?bt3)"
      using al [of X] blk_stepD(3) [OF stepa] E(2) blk_step_perm [of smp X "X @ [q]" _ _ X "up_blocks ?u"] blocks by (simp add: X_def)
    have root3: "up_root (bt_view ?bt3) r p ?bsi ?u (?j + 1)"
    proof (cases "p = r")
      case True
      with BS(7) info nf(3) show ?thesis by simp
    next
      case False
      have "bt_view bt3 r = bt_view bta r" using others [of r] r2 own False by simp
      with False roota E(2) show ?thesis by (simp add: root_at_def)
    qed
    have count: "i + of_nat (length (up_blocks ?u)) - of_nat (length (tblocks ?t)) = ?j + 1"
      unfolding blocks(2) using j by (simp add: algebra_simps)
    show thesis
    proof (rule that [OF run [OF d3(1)] E(1,3,4), of ?u])
      show "up_rep ?cmp ?bsz lo hi r (bt_view ?bt3) p ?bsi ?u"
        using BS(1,2,4-6) O sp(5,6) by (simp del: trep.simps)
      show "up_recs ?u = krecs A @ (trecs c1 @ trecs c2) @ krecs B" using recs sp(1) by simp
      have "\<forall>k\<in>set (h0 # K1'). theight (snd k) < theight ?t" "\<forall>k\<in>set ((s, Gone) # K2'). theight (snd k) < theight ?t"
        using hK sp(1) by auto
      then show "up_height ?u \<le> theight ?t"
        using theight_le [of "h0 # K1'" "theight ?t" p] theight_le [of "(s, Gone) # K2'" "theight ?t" q] by (simp del: theight.simps)
      show "length (up_blocks ?u) + length (tblocks c) \<le> length (tblocks ?t) + length (tblocks c1 @ tblocks c2) + 1"
        unfolding blocks(2) using len by simp
      show "blk_step smp (tblocks ?t) (up_blocks ?u) (bt_view bt) (bt_view ?bt3)"
        using blk_step_trans [OF X(1) blk_step_trans [OF stepa step3]] .
      show "up_root (bt_view ?bt3) r p ?bsi ?u (i + of_nat (length (up_blocks ?u)) - of_nat (length (tblocks ?t)))"
        unfolding count by (rule root3)
    qed (rule dist)
  qed
qed

section \<open>Insertion below a node\<close>

lemma ins_by_Index:
  assumes "tord cmp lo hi (Index p (A @ (s, c) # B))" "total_cmp cmp" "lob cmp (kid_lo lo A s) x" "hib cmp (kid_hi hi B) x"
  shows "ins_by cmp x (trecs (Index p (A @ (s, c) # B))) = krecs A @ ins_by cmp x (trecs c) @ krecs B"
proof -
  note M = match_kids [OF assms]
  show ?thesis unfolding trecs_Index by (rule ins_by_kids [where cmp = cmp and x = x, OF M(1,2)])
qed

text \<open>The child took the record without a split.\<close>

lemma same_kid_done:
  assumes t: "tree_state bt smp r i lo hi (Index p (A @ (s, c) # B))"
    and d: "ins_done smp r i (kid_lo lo A s) (kid_hi hi B) x c bt bsi bt2 (Same c')"
  shows "up_rep (bt_cmp bt) (smp_bsz smp) lo hi r (bt_view bt2) p no_split (Same (Index p (A @ (s, c') # B)))"
    "distinct (tblocks (Index p (A @ (s, c') # B)))"
    "blk_step smp (tblocks (Index p (A @ (s, c) # B))) (tblocks (Index p (A @ (s, c') # B))) (bt_view bt) (bt_view bt2)"
    "bsi_split_index1 bsi = None" "trecs c' = ins_by (bt_cmp bt) x (trecs c)" "theight c' \<le> theight c"
    "length (tblocks c') \<le> length (tblocks c) + (2 * theight c + 1)"
    "root_at (bt_view bt2) r (i + of_nat (length (tblocks c')) - of_nat (length (tblocks c)))"
proof -
  note T = tree_stateD [OF t]
  have D: "blk_step smp (tblocks c) (tblocks c') (bt_view bt) (bt_view bt2)" "trep (smp_bsz smp) (bt_view bt2) r c'" "tptr c' = tptr c"
    "tord (bt_cmp bt) (kid_lo lo A s) (kid_hi hi B) c'" "distinct (tblocks c')"
    using d by (simp_all add: ins_done_def)
  show "bsi_split_index1 bsi = None" "trecs c' = ins_by (bt_cmp bt) x (trecs c)" "theight c' \<le> theight c"
    "length (tblocks c') \<le> length (tblocks c) + (2 * theight c + 1)"
    "root_at (bt_view bt2) r (i + of_nat (length (tblocks c')) - of_nat (length (tblocks c)))"
    using d by (simp_all add: ins_done_def)
  note K = kid_step [OF T(10,9) D(1)]
  show "blk_step smp (tblocks (Index p (A @ (s, c) # B))) (tblocks (Index p (A @ (s, c') # B))) (bt_view bt) (bt_view bt2)" using K(1) by simp
  show "distinct (tblocks (Index p (A @ (s, c') # B)))" using K(2) [OF D(5)] by simp
  have "tord (bt_cmp bt) lo hi (Index p (A @ (s, c') # B))" by (rule tord_kid [OF T(8,2) refl D(4)])
  moreover have "trep (smp_bsz smp) (bt_view bt2) r (Index p (A @ (s, c') # B))" by (rule trep_same_kid [OF T(7,10,9) D(1-3)])
  ultimately show "up_rep (bt_cmp bt) (smp_bsz smp) lo hi r (bt_view bt2) p no_split (Same (Index p (A @ (s, c') # B)))"
    by (simp add: no_split_def del: trep.simps)
qed

lemma bt_insert_index_ok:
  assumes t: "tree_state bt smp r i lo hi (Index p (A @ (s, c) # B))" and b: "held bt b p"
    and room: "bt_room (Suc (theight (Index p (A @ (s, c) # B)))) bt" and free: "2 * theight (Index p (A @ (s, c) # B)) + 2 \<le> free_blocks smp (bt_view bt)"
    and n: "bt_view bt p = NodeBlk n" "btn_route (bt_cmp bt) x n = (tptr c, length A)"
    and x: "lob (bt_cmp bt) (kid_lo lo A s) x" "hib (bt_cmp bt) (kid_hi hi B) x"
    and IH: "\<And>bt1 b1 i1 lo1 hi1 c1. tree_state bt1 smp r i1 lo1 hi1 c1 \<Longrightarrow> bt_room (Suc (theight c1)) bt1 \<Longrightarrow>
      2 * theight c1 + 2 \<le> free_blocks smp (bt_view bt1) \<Longrightarrow> held bt1 b1 (tptr c1) \<Longrightarrow> lob (bt_cmp bt1) lo1 x \<Longrightarrow> hib (bt_cmp bt1) hi1 x \<Longrightarrow>
      theight c1 < theight (Index p (A @ (s, c) # B)) \<Longrightarrow> ins_post smp r i1 lo1 hi1 x c1 bt1 (bt_insert_node (Suc dep) b1 x bt1)"
  shows "ins_post smp r i lo hi x (Index p (A @ (s, c) # B)) bt (bt_insert_node (Suc (Suc dep)) b x bt)"
proof -
  let ?t = "Index p (A @ (s, c) # B)"
  note T = tree_stateD [OF t]
  have hc: "theight c < theight ?t" using theight_kid [of "(s, c)" "A @ (s, c) # B" p] by simp
  have "0 < free_blocks smp (bt_view bt)" using free by simp
  then obtain child bt1 s0 c0 where ch: "bt_insert_child b x bt = Done child bt1" "bt_good {} bt1"
    "bt_refs bt1 = (bt_refs bt)(child := bt_refs bt child + 1)" "held bt1 child (tptr c0)" "bt_frame bt bt1" "bt_room (theight ?t) bt1"
    "tree_state bt1 smp r (i + of_nat (length (tblocks c0)) - of_nat (length (tblocks c))) lo hi (Index p (A @ (s0, c0) # B))"
    "c0 \<noteq> Gone" "trecs c0 = trecs c" "theight c0 = theight c" "btrp_key s0 = btrp_key s"
    "blk_step smp (tblocks ?t) (tblocks (Index p (A @ (s0, c0) # B))) (bt_view bt) (bt_view bt1)"
    "c \<noteq> Gone \<longrightarrow> bt_view bt1 = bt_view bt \<and> s0 = s \<and> c0 = c"
    "length (tblocks c0) \<le> length (tblocks c) + (if c = Gone then 1 else 0)"
    by (rule bt_insert_child_ok [OF t b room _ n])
  let ?new = "Index p (A @ (s0, c0) # B)" and ?cnt = "i + of_nat (length (tblocks c0)) - of_nat (length (tblocks c))"
  have cmp1: "bt_cmp bt1 = bt_cmp bt" by (rule bt_frameD(1) [OF ch(5)])
  have x0: "lob (bt_cmp bt1) (kid_lo lo A s0) x" "hib (bt_cmp bt1) (kid_hi hi B) x"
    using x key_cmpD(1) [OF T(2) ch(11), of x] cmp1 by (cases "A = []"; simp add: kid_lo_def)+
  have len: "length (tblocks ?new) + length (tblocks c) = length (tblocks ?t) + length (tblocks c0)" by simp
  have free1: "free_blocks smp (bt_view bt1) + length (tblocks c0) = free_blocks smp (bt_view bt) + length (tblocks c)"
    using blk_stepD(5) [OF ch(12)] len by simp
  have gone: "c = Gone \<Longrightarrow> theight c0 = 0" using ch(10) by simp
  have free1': "2 * theight c0 + 3 \<le> free_blocks smp (bt_view bt1)"
    using free free1 ch(14) hc ch(10) gone by (cases "c = Gone") simp_all
  have room1: "bt_room (Suc (theight c0)) bt1" using ch(6,10) hc by (auto intro: bt_room_mono)
  have I: "ins_post smp r ?cnt (kid_lo lo A s0) (kid_hi hi B) x c0 bt1 (bt_insert_node (Suc dep) child x bt1)"
    by (rule IH [OF tree_state_kid [OF ch(7,8,2) refl bt_frame_refl] room1 _ ch(4) x0]) (use free1' ch(10) hc in simp_all)
  note M = match_kids [OF T(8,12) x]
  have run: "bt_insert_node (Suc (Suc dep)) b x bt = (case bt_insert_node (Suc dep) child x bt1 of
      Abort \<Rightarrow> Abort | Fail e bt2 \<Rightarrow> release_fail e child bt2
    | Done cbsi bt2 \<Rightarrow> andthen (bt_insert_up (btn_insert (Suc (Suc dep))) b cbsi bt2) (\<lambda>bsi bt3.
        andthen (bt_release child bt3) (\<lambda>_ bt4. Done bsi bt4)))"
  proof -
    obtain n' where "bt_view bt p = NodeBlk n'" "\<not> btn_phys_is_leaf n'" using T(7) by (rule trep_indexE)
    then show ?thesis by (simp only: bt_insert_node.simps(2) [of "Suc dep"] with_node_held [OF T(13) b] if_False ch(1) andthen_simps)
  qed
  show ?thesis
  proof (cases "\<exists>y\<in>set (trecs c). bt_cmp bt x y = 0")
    case True
    then have "c \<noteq> Gone" by auto
    with ch(13) have c0: "bt_view bt1 = bt_view bt" "s0 = s" "c0 = c" by auto
    from I True cmp1 c0 obtain bt2 L where f: "bt_insert_node (Suc dep) child x bt1 = Fail EEXIST bt2" "bt_good {} bt2" "length L \<le> 1"
      "bt_refs bt2 = bt_refs bt1" "bt_frame bt1 bt2" "blk_step smp (tblocks c) (tblocks c @ L) (bt_view bt) (bt_view bt2)"
      "\<forall>k\<in>owned smp (bt_view bt). bt_view bt2 k = bt_view bt k"
      unfolding ins_post_def by auto
    have refs2: "bt_refs bt2 = (bt_refs bt)(child := bt_refs bt child + 1)" using f(4) ch(3) by simp
    obtain bt3 where rl: "bt_release child bt2 = Done () bt3" "bt_good {} bt3" "bt_view bt3 = bt_view bt2"
      "bt_refs bt3 = bt_refs bt" "bt_frame bt bt3"
      by (rule bt_release_got [OF f(2) bt_frame_trans [OF ch(5) f(5)] refs2]) simp
    note K = kid_step [OF T(10,9) f(6)]
    have "blk_step smp (tblocks ?t) (tblocks ?t @ L) (bt_view bt) (bt_view bt3)"
      unfolding rl(3) by (rule blk_step_perm [OF K(1) refl refl]) auto
    moreover have "bt_insert_node (Suc (Suc dep)) b x bt = Fail EEXIST bt3" using run f(1) rl(1) by (simp add: release_fail_def)
    ultimately show ?thesis unfolding ins_post_def using M(3) True rl f(3,7) by (auto simp del: bt_insert_node.simps)
  next
    case False
    then have new: "\<not> (\<exists>y\<in>set (trecs ?t). bt_cmp bt x y = 0)" using M(3) by simp
    from I False cmp1 ch(9) obtain cbsi bt2 u where f: "bt_insert_node (Suc dep) child x bt1 = Done cbsi bt2"
      "ins_done smp r ?cnt (kid_lo lo A s0) (kid_hi hi B) x c0 bt1 cbsi bt2 u"
      unfolding ins_post_def by auto
    have D: "bt_good {} bt2" "bt_refs bt2 = bt_refs bt1" "bt_frame bt1 bt2" using f(2) by (simp_all add: ins_done_def)
    have recs: "up_recs w = ins_by (bt_cmp bt) x (trecs ?t)" if "up_recs w = krecs A @ ins_by (bt_cmp bt) x (trecs c) @ krecs B" for w
      using that ins_by_Index [OF T(8,12) x] by simp
    have b2: "held bt2 b p" by (rule bt_frameD(5) [OF bt_frame_trans [OF ch(5) D(3)] b])
    have rest: "ins_post smp r i lo hi x ?t bt (bt_insert_node (Suc (Suc dep)) b x bt)"
      if up: "bt_insert_up (btn_insert (Suc (Suc dep))) b cbsi bt2 = Done bsi bt3" "bt_good {} bt3" "bt_refs bt3 = bt_refs bt2" "bt_frame bt2 bt3"
        and w: "up_rep (bt_cmp bt1) (smp_bsz smp) lo hi r (bt_view bt3) p bsi w" "distinct (up_blocks w)"
        "up_recs w = krecs A @ ins_by (bt_cmp bt) x (trecs c) @ krecs B" "up_height w \<le> theight ?new"
        "length (up_blocks w) \<le> length (tblocks ?new) + (2 * theight c0 + 2)"
        "blk_step smp (tblocks ?new) (up_blocks w) (bt_view bt1) (bt_view bt3)"
        "up_root (bt_view bt3) r p bsi w (?cnt + of_nat (length (up_blocks w)) - of_nat (length (tblocks ?new)))" for bsi bt3 w
    proof -
      have refs3: "bt_refs bt3 = (bt_refs bt)(child := bt_refs bt child + 1)" using up(3) D(2) ch(3) by simp
      obtain bt4 where rl: "bt_release child bt3 = Done () bt4" "bt_good {} bt4" "bt_view bt4 = bt_view bt3"
        "bt_refs bt4 = bt_refs bt" "bt_frame bt bt4"
        by (rule bt_release_got [OF up(2) bt_frame_trans [OF bt_frame_trans [OF ch(5) D(3)] up(4)] refs3]) simp
      have "theight ?new \<le> theight ?t" by (rule theight_replace) (simp add: ch(10))
      with w(4) have h: "up_height w \<le> theight ?t" by (rule order_trans)
      have l: "length (up_blocks w) \<le> length (tblocks ?t) + (2 * theight ?t + 1)"
        using w(5) len ch(10,14) hc gone by (cases "c = Gone") simp_all
      have j: "?cnt + of_nat (length (up_blocks w)) - of_nat (length (tblocks ?new)) = i + of_nat (length (up_blocks w)) - of_nat (length (tblocks ?t))"
        by simp
      have "ins_done smp r i lo hi x ?t bt bsi bt4 w"
        unfolding ins_done_def rl(3) tptr.simps
        using rl(2,4,5) w(1,2) cmp1 recs [OF w(3)] h l blk_step_trans [OF ch(12) w(6)] w(7) [unfolded j] by simp
      moreover have "bt_insert_node (Suc (Suc dep)) b x bt = Done bsi bt4" using run f(1) up(1) rl(1) by simp
      ultimately show ?thesis using new unfolding ins_post_def by (auto simp del: bt_insert_node.simps)
    qed
    show ?thesis
    proof (cases u)
      case (Same c')
      note SK = same_kid_done [OF ch(7) f(2) [unfolded Same]]
      have up: "bt_insert_up (btn_insert (Suc (Suc dep))) b cbsi bt2 = Done no_split bt2" using SK(4) by (simp add: bt_insert_up_def)
      show ?thesis
      proof (rule rest [OF up D(1) refl bt_frame_refl SK(1)], unfold up_blocks.simps up_recs.simps up_height.simps up_root.simps)
        have "?cnt + of_nat (length (tblocks (Index p (A @ (s0, c') # B)))) - of_nat (length (tblocks ?new))
            = ?cnt + of_nat (length (tblocks c')) - of_nat (length (tblocks c0))" by simp
        with SK(8) show "root_at (bt_view bt2) r (?cnt + of_nat (length (tblocks (Index p (A @ (s0, c') # B)))) - of_nat (length (tblocks ?new)))"
          by (simp only:)
        show "trecs (Index p (A @ (s0, c') # B)) = krecs A @ ins_by (bt_cmp bt) x (trecs c) @ krecs B"
          using SK(5) cmp1 ch(9) by simp
        show "length (tblocks (Index p (A @ (s0, c') # B))) \<le> length (tblocks ?new) + (2 * theight c0 + 2)" using SK(7) by simp
      qed (rule SK(2), rule theight_replace [OF SK(6)], rule SK(3))
    next
      case (Up c1 sep c2)
      have E: "up_rep (bt_cmp bt1) (smp_bsz smp) (kid_lo lo A s0) (kid_hi hi B) r (bt_view bt2) (tptr c0) cbsi (Up c1 sep c2)"
        "distinct (tblocks c1 @ tblocks c2)" "trecs c1 @ trecs c2 = ins_by (bt_cmp bt) x (trecs c)" "theight c1 \<le> theight c0" "theight c2 \<le> theight c0"
        "blk_step smp (tblocks c0) (tblocks c1 @ tblocks c2) (bt_view bt1) (bt_view bt2)"
        "length (tblocks c1 @ tblocks c2) \<le> length (tblocks c0) + (2 * theight c0 + 1)"
        "up_root (bt_view bt2) r (tptr c0) cbsi u (?cnt + of_nat (length (tblocks c1 @ tblocks c2)) - of_nat (length (tblocks c0)))"
        using f(2) Up ch(9) cmp1 by (simp_all add: ins_done_def del: up_rep.simps)
      note T0 = tree_stateD [OF ch(7)]
      have "tptr c0 \<noteq> r"
      proof
        assume "tptr c0 = r"
        then have "r \<in> set (tblocks c0)" using tptr_in [OF ch(8)] by simp
        with T0(9,11) show False by auto
      qed
      with E(8) Up have root: "root_at (bt_view bt2) r (?cnt + of_nat (length (tblocks c1 @ tblocks c2)) - of_nat (length (tblocks c0)) - 1)" by simp
      have "bt_room (Suc 0) bt1" using ch(6) hc by (auto intro: bt_room_mono)
      then have room2: "bt_room (Suc 0) bt2" using bt_room_refs [OF D(2) bt_frameD(4) [OF D(3)]] by simp
      have free2: "0 < free_blocks smp (bt_view bt2)" using blk_stepD(5) [OF E(6)] E(7) free1' by linarith
      obtain bsi bt3 w where up: "bt_insert_up (btn_insert (Suc (Suc dep))) b cbsi bt2 = Done bsi bt3" "bt_good {} bt3"
        "bt_refs bt3 = bt_refs bt2" "bt_frame bt2 bt3" "up_rep (bt_cmp bt1) (smp_bsz smp) lo hi r (bt_view bt3) p bsi w" "distinct (up_blocks w)"
        "up_recs w = krecs A @ (trecs c1 @ trecs c2) @ krecs B" "up_height w \<le> theight ?new"
        "length (up_blocks w) + length (tblocks c0) \<le> length (tblocks ?new) + length (tblocks c1 @ tblocks c2) + 1"
        "blk_step smp (tblocks ?new) (up_blocks w) (bt_view bt1) (bt_view bt3)"
        "up_root (bt_view bt3) r p bsi w (?cnt + of_nat (length (up_blocks w)) - of_nat (length (tblocks ?new)))"
        by (rule bt_insert_up_ok [where dep = dep, OF ch(7,8) D(1,3) b2 E(6,1,2) root room2 free2 E(4,5)])
      show ?thesis
        by (rule rest [OF up(1-6) up(7) [unfolded E(3)] up(8) _ up(10,11)]) (use up(9) E(7) in linarith)
    qed
  qed
qed

lemma bt_insert_node_ok:
  assumes "tree_state bt smp r i lo hi t" "bt_room (Suc (theight t)) bt" "2 * theight t + 2 \<le> free_blocks smp (bt_view bt)"
    "held bt b (tptr t)" "lob (bt_cmp bt) lo x" "hib (bt_cmp bt) hi x" "theight t + 2 \<le> depth" "small_rec (smp_bsz smp) x"
  shows "ins_post smp r i lo hi x t bt (bt_insert_node depth b x bt)"
  using assms(1-7)
proof (induction depth arbitrary: b bt t i lo hi)
  case (Suc depth)
  note T = tree_stateD [OF Suc.prems(1)]
  obtain dep where depth: "depth = Suc dep" using Suc.prems(7) by (cases depth) auto
  show ?case
  proof (cases t)
    case Gone
    with T(6) show ?thesis by simp
  next
    case (Leaf p rs)
    have "bt_room (Suc 0) bt" "0 < free_blocks smp (bt_view bt)" "held bt b p" using Suc.prems(2-4) Leaf by simp_all
    with Suc.prems(1,5,6) Leaf depth show ?thesis
      using bt_insert_leaf_ok [where d = dep, OF Suc.prems(1) [unfolded Leaf] _ _ _ assms(8)] by simp
  next
    case (Index p kids)
    obtain n where n: "bt_view bt p = NodeBlk n" using T(7) unfolding Index by (rule trep_indexE)
    obtain A s c B where k: "kids = A @ (s, c) # B" "btn_route (bt_cmp bt) x n = (tptr c, length A)"
      "A \<noteq> [] \<longrightarrow> 0 \<le> bt_cmp bt x s" "\<forall>k B'. B = k # B' \<longrightarrow> bt_cmp bt x (fst k) < 0"
      by (rule trep_route [OF T(7) [unfolded Index] n])
    have bounds: "lob (bt_cmp bt) (kid_lo lo A s) x" "hib (bt_cmp bt) (kid_hi hi B) x"
      by (rule route_bounds [OF T(12) k(3,4) Suc.prems(5,6)])+
    have t: "t = Index p (A @ (s, c) # B)" using Index k(1) by simp
    have h: "held bt b p" using Suc.prems(4) Index by simp
    show ?thesis
      unfolding t depth
    proof (rule bt_insert_index_ok [OF Suc.prems(1) [unfolded t] h Suc.prems(2,3) [unfolded t] n k(2) bounds])
      fix bt1 b1 i1 lo1 hi1 c1
      assume c1: "tree_state bt1 smp r i1 lo1 hi1 c1" "bt_room (Suc (theight c1)) bt1" "2 * theight c1 + 2 \<le> free_blocks smp (bt_view bt1)"
        "held bt1 b1 (tptr c1)" "lob (bt_cmp bt1) lo1 x" "hib (bt_cmp bt1) hi1 x" "theight c1 < theight (Index p (A @ (s, c) # B))"
      have "theight c1 + 2 \<le> depth" using c1(7) Suc.prems(7) unfolding t by linarith
      then show "ins_post smp r i1 lo1 hi1 x c1 bt1 (bt_insert_node (Suc dep) b1 x bt1)"
        using Suc.IH [OF c1(1-6)] depth by simp
    qed
  qed
qed simp

end
