(* ===== verification/BtreeFile.thy ===== *)
theory BtreeFile
  imports BtreeOps Fifo
begin

text \<open>
  The B-tree file of \<^verbatim>\<open>btrees/btree.c\<close>: laying it out, opening and closing it, checking the cached
  blocks, and reading and checking the file without the cache. The results of \<^verbatim>\<open>creat\<close>, \<^verbatim>\<open>open\<close>,
  \<^verbatim>\<open>posix_fallocate\<close> and \<^verbatim>\<open>close\<close> are parameters: \<open>None\<close> for success, or the error code.
\<close>

section \<open>Creating a file\<close>

type_synonym bt_env = "(bt_block, unit) bc_env"

definition BT_PHYS_BLKSZ :: "16 word" where
  "BT_PHYS_BLKSZ = 1024"

definition BT_PHYS_BT_OFFSET :: nat where
  "BT_PHYS_BT_OFFSET = 1"

definition BT_START_SIZE :: nat where
  "BT_START_SIZE = 64 * 1024 * 1024"

definition file_write :: "nat \<Rightarrow> bt_block \<Rightarrow> (bt_env, unit) prog" where
  "file_write n d env = (let (ok, env1) = env_pwrite n d env in if ok then Done () env1 else Fail EIO env1)"

definition file_read :: "nat \<Rightarrow> (bt_env, bt_block) prog" where
  "file_read n env = (let (ok, d, env1) = env_pread n env in if ok then Done d env1 else Fail EIO env1)"

definition env_alloc :: "(bt_env, unit) prog" where
  "env_alloc env =
     (let (ok, m) = malloc (env_mem env) in
      if ok then Done () (env\<lparr>env_mem := m\<rparr>) else Fail ENOMEM (env\<lparr>env_mem := m\<rparr>))"

definition env_sync :: "(bt_env, unit) prog" where
  "env_sync env = (case env_fsync env of (None, env1) \<Rightarrow> Done () env1 | (Some e, env1) \<Rightarrow> Fail e env1)"

fun file_write_all :: "(nat \<times> bt_block) list \<Rightarrow> (bt_env, unit) prog" where
  "file_write_all [] env = Done () env"
| "file_write_all ((n, d) # ws) env = andthen (file_write n d env) (\<lambda>_. file_write_all ws)"

text \<open>The blocks in the order they are written; the buffer of the last bitmap has extra bits set.\<close>

definition new_sm :: sm_phys where
  "new_sm =
     (let nblocks = BT_START_SIZE div unat BT_PHYS_BLKSZ; nbm = num_bm_blks nblocks (blks_per_bm BT_PHYS_BLKSZ) in
      \<lparr>smp_bsz = BT_PHYS_BLKSZ, smp_nblocks = nblocks, smp_rblkno = BT_PHYS_BT_OFFSET,
       smp_map = map (\<lambda>i. BT_PHYS_BT_OFFSET + 1 + i) [0..<nbm]\<rparr>)"

definition new_bitmap :: "nat \<Rightarrow> nat \<Rightarrow> bm_phys" where
  "new_bitmap used extra =
     (let bpb = blks_per_bm BT_PHYS_BLKSZ in
      \<lparr>bmp_nfree = word_of_nat bpb - word_of_nat used - word_of_nat extra,
       bmp_bm = replicate used True @ replicate (bpb - used - extra) False @ replicate extra True\<rparr>)"

definition new_root :: btn_phys where
  "new_root =
     \<lparr>btnp_flags = BTN_PHYS_FLG_IS_ROOT OR BTN_PHYS_FLG_IS_LEAF, btnp_freespace = BT_PHYS_BLKSZ - 10 - 4,
      btnp_ptr0 = 0, btnp_records = [], btnp_info = 1\<rparr>"

definition new_file :: "(nat \<times> bt_block) list" where
  "new_file =
     (let bpb = blks_per_bm BT_PHYS_BLKSZ; nbm = num_bm_blks (smp_nblocks new_sm) bpb;
          nextra = nbm * bpb - smp_nblocks new_sm; b = BT_PHYS_BT_OFFSET + 1 in
      (BT_PHYS_SM_OFFSET, SmBlk new_sm) # (b, BmBlk (new_bitmap (nbm + 2) 0))
      # map (\<lambda>i. (b + i, BmBlk (new_bitmap 0 0))) [1..<nbm - 1]
      @ [(b + 1 + (nbm - 2), BmBlk (new_bitmap 0 nextra)), (BT_PHYS_BT_OFFSET, NodeBlk new_root)])"

text \<open>The blocks of a new file are zero, which is also how an empty space manager reads.\<close>

definition zero_block :: bt_block where
  "zero_block = SmBlk \<lparr>smp_bsz = 0, smp_nblocks = 0, smp_rblkno = 0, smp_map = []\<rparr>"

definition bt_create :: "errno option \<Rightarrow> errno option \<Rightarrow> errno option \<Rightarrow> (bt_env, unit) prog" where
  "bt_create created reserved closed env =
     (case created of
        Some e \<Rightarrow> Fail e env
      | None \<Rightarrow>
          let env1 = env\<lparr>env_disk := \<lambda>n. zero_block\<rparr>;
              bpb = blks_per_bm BT_PHYS_BLKSZ; nbm = num_bm_blks (smp_nblocks new_sm) bpb;
              maxbm = (unat BT_PHYS_BLKSZ - 22) div 8 - 1 in
          (case reserved of
             Some e \<Rightarrow> Fail e env1
           | None \<Rightarrow>
               andthen (env_alloc env1) (\<lambda>_ env2.
                 if nbm > maxbm then Fail E2BIG env2
                 else andthen (file_write_all (take 1 new_file) env2) (\<lambda>_ env3.
                   if \<not> nbm + 2 \<le> bpb then Abort
                   else andthen (file_write_all (drop 1 new_file) env3) (\<lambda>_ env4.
                     andthen (env_sync env4) (\<lambda>_ env5.
                       case closed of Some e \<Rightarrow> Fail e env5 | None \<Rightarrow> Done () env5))))))"

section \<open>Opening and closing\<close>

text \<open>
  The error path of \<^verbatim>\<open>bt_open\<close> with a cache: give back the space manager, destroy the cache.
\<close>

definition bt_open_fail :: "errno \<Rightarrow> nat option \<Rightarrow> btree \<Rightarrow> ('r, bt_env) outcome" where
  "bt_open_fail e sm bt =
     (case (case sm of None \<Rightarrow> Done () bt | Some b \<Rightarrow> bt_release b bt) of
        Done _ bt1 \<Rightarrow>
          (case bc_destroy (fst (bt_bc bt1)) () of None \<Rightarrow> Abort | Some w \<Rightarrow> Fail e (snd (bt_bc bt1)))
      | _ \<Rightarrow> Abort)"

text \<open>
  \<open>opened\<close>, \<open>opened2\<close>: the two calls of \<^verbatim>\<open>open\<close>, the second in \<^verbatim>\<open>bc_create\<close>; \<open>mem\<close>: what the memory
  for the blocks holds. When \<^verbatim>\<open>close\<close> fails, the buffer is freed a second time. A
  descriptor 0, which the code takes for an error, is not among the results of \<^verbatim>\<open>open\<close>. Sizes are read from
  block 0 before its type is checked; a block of another type there is left out (\<open>Abort\<close>).
\<close>

definition bt_open :: "(nat \<Rightarrow> (bt_block, bt_obj, unit) block) \<Rightarrow> errno option \<Rightarrow> bool \<Rightarrow> errno option
    \<Rightarrow> (btr_phys \<Rightarrow> btr_phys \<Rightarrow> int) \<Rightarrow> bt_env \<Rightarrow> (btree, bt_env) outcome" where
  "bt_open mem opened opened2 closed cmp env =
     andthen (env_alloc env) (\<lambda>_ env1.
       case opened of
         Some e \<Rightarrow> Fail e env1
       | None \<Rightarrow>
           andthen (file_read BT_PHYS_SM_OFFSET env1) (\<lambda>d env2.
             case d of
               SmBlk smp \<Rightarrow>
                 andthen (env_alloc env2) (\<lambda>_ env3.
                 andthen (env_alloc env3) (\<lambda>_ env4.
                   case bc_create mem opened2 (ucast (smp_bsz smp))
                          (word_of_nat (smp_nblocks smp * unat (smp_bsz smp) div 8)) (env_mem env4) of
                     Done (Some bc) m \<Rightarrow>
                       (case env_alloc (env4\<lparr>env_mem := m\<rparr>) of
                          Abort \<Rightarrow> Abort
                        | Fail e env5 \<Rightarrow> bt_open_fail e None \<lparr>bt_cmp = cmp, bt_bc = (bc, env5), bt_root = 0, bt_sm = 0\<rparr>
                        | Done _ env5 \<Rightarrow>
                            (case sm_get \<lparr>bt_cmp = cmp, bt_bc = (bc, env5), bt_root = 0, bt_sm = 0\<rparr> of
                               Abort \<Rightarrow> Abort
                             | Fail e bt1 \<Rightarrow> bt_open_fail e None bt1
                             | Done sm bt1 \<Rightarrow>
                                 (case btn_get (smp_rblkno smp) None (bt1\<lparr>bt_sm := sm\<rparr>) of
                                    Abort \<Rightarrow> Abort
                                  | Fail e bt2 \<Rightarrow> bt_open_fail e (Some sm) bt2
                                  | Done root bt2 \<Rightarrow>
                                      if closed \<noteq> None then Abort
                                      else Done (bt2\<lparr>bt_root := root\<rparr>) (snd (bt_bc bt2)))))
                   | Done None m \<Rightarrow> Fail ENOMEM (env4\<lparr>env_mem := m\<rparr>)
                   | Fail e m \<Rightarrow> Fail e (env4\<lparr>env_mem := m\<rparr>)
                   | Abort \<Rightarrow> Abort))
             | _ \<Rightarrow> Abort))"

definition bt_sync :: "(btree, unit) prog" where
  "bt_sync = bt_cache_op bc_flush"

definition bt_close :: "btree \<Rightarrow> (unit, btree) outcome" where
  "bt_close bt =
     andthen (bt_cache_op bc_flush bt) (\<lambda>_ bt1.
     andthen (bt_release (bt_root bt1) bt1) (\<lambda>_ bt2.
     andthen (bt_release (bt_sm bt2) bt2) (\<lambda>_ bt3.
       case bc_destroy (fst (bt_bc bt3)) () of None \<Rightarrow> Abort | Some w \<Rightarrow> Done () bt3)))"

section \<open>Checking the cached blocks\<close>

text \<open>The records lie in the record area, from byte \<open>off\<close> to byte \<open>end\<close>.\<close>

fun recs_within :: "nat \<Rightarrow> nat \<Rightarrow> btr_phys list \<Rightarrow> bool" where
  "recs_within off limit [] \<longleftrightarrow> True"
| "recs_within off limit (r # rs) \<longleftrightarrow> off < limit \<and> recs_within (off + unat (btr_phys_size r)) limit rs"

definition node_capacity :: "16 word \<Rightarrow> btn_phys \<Rightarrow> 16 word" where
  "node_capacity bsz n = (if btn_phys_is_root n then bsz - 10 - 4 else bsz - 10)"

definition node_freespace :: "16 word \<Rightarrow> btn_phys \<Rightarrow> 16 word" where
  "node_freespace bsz n =
     (if btn_phys_is_leaf n then node_capacity bsz n else node_capacity bsz n - 8) - recs_size (btnp_records n)"

definition BTN_PHYS_ALLOWABLE_FLAGS :: "16 word" where
  "BTN_PHYS_ALLOWABLE_FLAGS = BTN_PHYS_FLG_IS_ROOT OR BTN_PHYS_FLG_IS_LEAF"

definition bm_bco_check :: "16 word \<Rightarrow> bt_block \<Rightarrow> bool" where
  "bm_bco_check bsz d \<longleftrightarrow>
     (case d of
        BmBlk bm \<Rightarrow> unat (bmp_nfree bm) < blks_per_bm bsz
          \<and> bmp_nfree bm = word_of_nat (length (filter Not (take (blks_per_bm bsz) (bmp_bm bm))))
      | _ \<Rightarrow> False)"

definition sm_bco_check :: "nat \<Rightarrow> bt_block \<Rightarrow> bool" where
  "sm_bco_check rblkno d \<longleftrightarrow> (case d of SmBlk smp \<Rightarrow> smp_rblkno smp = rblkno | _ \<Rightarrow> False)"

text \<open>
  The first assertion of \<^verbatim>\<open>btn_bco_check\<close> assigns the type it means to compare and never fails; what the
  others read of a block of another kind is not modelled, the check fails there.
\<close>

definition btn_bco_check :: "16 word \<Rightarrow> bt_block \<Rightarrow> bool" where
  "btn_bco_check bsz d \<longleftrightarrow>
     (case d of
        NodeBlk n \<Rightarrow> btnp_flags n AND NOT BTN_PHYS_ALLOWABLE_FLAGS = 0
          \<and> (btn_phys_is_leaf n \<or> length (btnp_records n) > 0)
          \<and> btnp_freespace n \<le> node_capacity bsz n
          \<and> recs_within (if btn_phys_is_leaf n then 10 else 18)
              (if btn_phys_is_root n then unat bsz - 4 else unat bsz) (btnp_records n)
          \<and> btnp_freespace n = node_freespace bsz n
      | _ \<Rightarrow> False)"

definition bt_bco_check :: "btree \<Rightarrow> nat \<Rightarrow> bool" where
  "bt_bco_check bt b \<longleftrightarrow>
     (case bt_phys bt (bt_sm bt) of
        SmBlk smp \<Rightarrow>
          (case bl_bco (bc_blocks (fst (bt_bc bt)) b) of
             Some BmObj \<Rightarrow> bm_bco_check (smp_bsz smp) (bt_phys bt b)
           | Some SmObj \<Rightarrow> sm_bco_check (bt_blkno bt (bt_root bt)) (bt_phys bt b)
           | Some BtnObj \<Rightarrow> btn_bco_check (smp_bsz smp) (bt_phys bt b)
           | None \<Rightarrow> False)
      | _ \<Rightarrow> False)"

definition bt_check :: "btree \<Rightarrow> bool" where
  "bt_check bt \<longleftrightarrow> bc_check (fst (bt_bc bt)) \<and> list_all (bt_bco_check bt) (bc_cached (fst (bt_bc bt)))"

section \<open>Reading the file node by node\<close>

text \<open>
  The queue of block numbers, the number of entries of the array \<^verbatim>\<open>blknos\<close> used so far, the file,
  and the contexts of the two callbacks. The array has as many entries as the root's node count
  says; writing past it stops the program.
\<close>

record ('c, 'e) disk_iter =
  di_fifo :: "(nat, unit) fifo"
  di_ind :: nat
  di_env :: bt_env
  di_node_ctx :: 'c
  di_record_ctx :: 'e

definition di_enq :: "nat \<Rightarrow> nat \<Rightarrow> (('c, 'e) disk_iter, unit) prog" where
  "di_enq nnodes p s =
     (if \<not> di_ind s < nnodes then Abort
      else case fi_enq p (di_fifo s, env_mem (di_env s), ()) of
        Abort \<Rightarrow> Abort
      | Fail e (fi, m, _) \<Rightarrow> Fail e (s\<lparr>di_fifo := fi, di_env := (di_env s)\<lparr>env_mem := m\<rparr>, di_ind := di_ind s + 1\<rparr>)
      | Done _ (fi, m, _) \<Rightarrow>
          Done () (s\<lparr>di_fifo := fi, di_env := (di_env s)\<lparr>env_mem := m\<rparr>, di_ind := di_ind s + 1\<rparr>))"

fun di_enq_all :: "nat \<Rightarrow> nat list \<Rightarrow> (('c, 'e) disk_iter, unit) prog" where
  "di_enq_all nnodes [] s = Done () s"
| "di_enq_all nnodes (p # ps) s =
     (if p = 0 then di_enq_all nnodes ps s else andthen (di_enq nnodes p s) (\<lambda>_. di_enq_all nnodes ps))"

definition btn_children :: "btn_phys \<Rightarrow> nat list" where
  "btn_children n = btn_phys_first_index_record_ptr n # map btr_phys_index_ptr (btnp_records n)"

definition di_read :: "nat \<Rightarrow> (('c, 'e) disk_iter, btn_phys) prog" where
  "di_read blkno s =
     (case file_read blkno (di_env s) of
        Abort \<Rightarrow> Abort
      | Fail e env \<Rightarrow> Fail e (s\<lparr>di_env := env\<rparr>)
      | Done d env \<Rightarrow>
          (case d of NodeBlk n \<Rightarrow> Done n (s\<lparr>di_env := env\<rparr>) | _ \<Rightarrow> Fail EILSEQ (s\<lparr>di_env := env\<rparr>)))"

text \<open>One node: \<open>Done True\<close> when a callback asks to stop. A callback that is NULL is \<open>None\<close>.\<close>

definition di_node :: "nat \<Rightarrow> (btn_phys, 'c) callback option \<Rightarrow> (btr_phys, 'e) callback option \<Rightarrow> nat
    \<Rightarrow> (('c, 'e) disk_iter, bool) prog" where
  "di_node nnodes node_callback record_callback blkno s =
     andthen (di_read blkno s) (\<lambda>n s1.
     andthen (case node_callback of
         None \<Rightarrow> Done False s1
       | Some f \<Rightarrow>
           (case f n (di_node_ctx s1) of
              Abort \<Rightarrow> Abort
            | Fail e c \<Rightarrow> Fail e (s1\<lparr>di_node_ctx := c\<rparr>)
            | Done stop c \<Rightarrow> Done stop (s1\<lparr>di_node_ctx := c\<rparr>))) (\<lambda>stop s2.
       if stop then Done True s2
       else if btn_phys_is_leaf n then
         (case record_callback of
            None \<Rightarrow> Done False s2
          | Some f \<Rightarrow>
              (case iterate_list f (btnp_records n) (di_record_ctx s2) of
                 Abort \<Rightarrow> Abort
               | Fail e c \<Rightarrow> Fail e (s2\<lparr>di_record_ctx := c\<rparr>)
               | Done stop c \<Rightarrow> Done stop (s2\<lparr>di_record_ctx := c\<rparr>)))
       else andthen (di_enq_all nnodes (btn_children n) s2) (\<lambda>_ s3. Done False s3)))"

partial_function (option) di_loop :: "nat \<Rightarrow> (btn_phys, 'c) callback option \<Rightarrow> (btr_phys, 'e) callback option
    \<Rightarrow> ('c, 'e) disk_iter \<Rightarrow> (unit, ('c, 'e) disk_iter) outcome option" where
  "di_loop nnodes node_callback record_callback s =
     (if fi_empty (di_fifo s) then Some (Done () s)
      else case fi_deq (di_fifo s, env_mem (di_env s), ()) of
        Abort \<Rightarrow> Some Abort
      | Fail e (fi, m, _) \<Rightarrow> Some (Fail e (s\<lparr>di_fifo := fi, di_env := (di_env s)\<lparr>env_mem := m\<rparr>\<rparr>))
      | Done blkno (fi, m, _) \<Rightarrow>
          (case di_node nnodes node_callback record_callback blkno
                  (s\<lparr>di_fifo := fi, di_env := (di_env s)\<lparr>env_mem := m\<rparr>\<rparr>) of
             Abort \<Rightarrow> Some Abort
           | Fail e s1 \<Rightarrow> Some (Fail e s1)
           | Done stop s1 \<Rightarrow>
               if stop then Some (Done () s1) else di_loop nnodes node_callback record_callback s1))"

declare di_loop.simps [code]

definition di_result :: "(unit, ('c, 'e) disk_iter) outcome \<Rightarrow> (unit, bt_env \<times> 'c \<times> 'e) outcome" where
  "di_result r =
     (case r of
        Abort \<Rightarrow> Abort
      | Fail e s \<Rightarrow> Fail e (di_env s, di_node_ctx s, di_record_ctx s)
      | Done _ s \<Rightarrow> Done () (di_env s, di_node_ctx s, di_record_ctx s))"

text \<open>\<^verbatim>\<open>_bt_iterate_disk\<close>: the root's node count sizes the array of block numbers.\<close>

definition bt_iterate_nodes :: "nat \<Rightarrow> (btn_phys, 'c) callback option \<Rightarrow> (btr_phys, 'e) callback option
    \<Rightarrow> bt_env \<times> 'c \<times> 'e \<Rightarrow> (unit, bt_env \<times> 'c \<times> 'e) outcome option" where
  "bt_iterate_nodes rblkno node_callback record_callback st =
     (let (env, c, r) = st in
      case file_read rblkno env of
        Abort \<Rightarrow> Some Abort
      | Fail e env1 \<Rightarrow> Some (Fail e (env1, c, r))
      | Done d env1 \<Rightarrow>
          (case d of
             NodeBlk n \<Rightarrow>
               (case fi_create None (env_mem env1) of
                  (None, m1) \<Rightarrow> Some (Fail ENOMEM (env1\<lparr>env_mem := m1\<rparr>, c, r))
                | (Some fi, m1) \<Rightarrow>
                    (case env_alloc (env1\<lparr>env_mem := m1\<rparr>) of
                       Abort \<Rightarrow> Some Abort
                     | Fail e env2 \<Rightarrow> Some (Fail e (env2, c, r))
                     | Done _ env2 \<Rightarrow>
                         (case di_enq (unat (btnp_info n)) rblkno \<lparr>di_fifo = fi, di_ind = 0, di_env = env2,
                                 di_node_ctx = c, di_record_ctx = r\<rparr> of
                            Abort \<Rightarrow> Some Abort
                          | Fail e s \<Rightarrow> Some (di_result (Fail e s))
                          | Done _ s \<Rightarrow>
                              map_option di_result (di_loop (unat (btnp_info n)) node_callback record_callback s))))
           | _ \<Rightarrow> Some (Fail EILSEQ (env1, c, r))))"

text \<open>A block of another kind, or of another block size, is refused with \<^verbatim>\<open>EILSEQ\<close>.\<close>

definition sm_phys_check_disk :: "bt_block \<Rightarrow> errno option" where
  "sm_phys_check_disk d = (case d of SmBlk smp \<Rightarrow> if smp_bsz smp \<noteq> BT_PHYS_BLKSZ then Some EILSEQ else None | _ \<Rightarrow> Some EILSEQ)"

definition bt_iterate_disk :: "errno option \<Rightarrow> (btn_phys, 'c) callback option \<Rightarrow> (btr_phys, 'e) callback option
    \<Rightarrow> bt_env \<times> 'c \<times> 'e \<Rightarrow> (unit, bt_env \<times> 'c \<times> 'e) outcome option" where
  "bt_iterate_disk opened node_callback record_callback st =
     (let (env, c, r) = st in
      case opened of
        Some e \<Rightarrow> Some (Fail e st)
      | None \<Rightarrow>
          (case andthen (env_alloc env) (\<lambda>_. file_read BT_PHYS_SM_OFFSET) of
             Abort \<Rightarrow> Some Abort
           | Fail e env1 \<Rightarrow> Some (Fail e (env1, c, r))
           | Done d env1 \<Rightarrow>
               (case d of
                  SmBlk smp \<Rightarrow>
                    if smp_bsz smp \<noteq> BT_PHYS_BLKSZ then Some (Fail EILSEQ (env1, c, r))
                    else bt_iterate_nodes (smp_rblkno smp) node_callback record_callback (env1, c, r)
                | _ \<Rightarrow> Some (Fail EILSEQ (env1, c, r)))))"

definition bt_iterate :: "(btn_phys, 'c) callback option \<Rightarrow> (btr_phys, 'e) callback option \<Rightarrow> (btree \<times> 'c \<times> 'e, unit) prog" where
  "bt_iterate node_callback record_callback st = Abort"

section \<open>Checking the file\<close>

definition bm_phys_check_disk :: "bt_block \<Rightarrow> errno option" where
  "bm_phys_check_disk d = (case d of BmBlk bm \<Rightarrow> None | _ \<Rightarrow> Some EILSEQ)"

text \<open>Set a bit of the checker's own bitmap; past its end the heap is overwritten.\<close>

definition bt_cd_bm_set :: "bool list \<Rightarrow> nat \<Rightarrow> bool list option" where
  "bt_cd_bm_set bm blkno = (if blkno < length bm then Some (bm[blkno := True]) else None)"

fun cd_set_all :: "bool list \<Rightarrow> nat list \<Rightarrow> bool list option" where
  "cd_set_all bm [] = Some bm"
| "cd_set_all bm (p # ps) =
     (if p = 0 then cd_set_all bm ps
      else case bt_cd_bm_set bm p of None \<Rightarrow> None | Some bm1 \<Rightarrow> cd_set_all bm1 ps)"

text \<open>The checker's bitmap and the number of nodes seen.\<close>

definition bt_check_disk_node_cb :: "16 word \<Rightarrow> (btn_phys, bool list \<times> 32 word) callback" where
  "bt_check_disk_node_cb bsz n ctx =
     (let (bm, nnodes) = ctx in
      if btnp_flags n AND NOT BTN_PHYS_ALLOWABLE_FLAGS \<noteq> 0 then Fail EILSEQ ctx
      else if \<not> btn_phys_is_leaf n \<and> length (btnp_records n) = 0 then Fail EILSEQ ctx
      else if btnp_freespace n > node_capacity bsz n then Fail EILSEQ ctx
      else if btnp_freespace n \<noteq> node_freespace bsz n then Fail EILSEQ ctx
      else if btn_phys_is_leaf n then Done False (bm, nnodes + 1)
      else case cd_set_all bm (btn_children n) of
        None \<Rightarrow> Abort
      | Some bm1 \<Rightarrow> Done False (bm1, nnodes + 1))"

text \<open>The first pass over the bitmap blocks, and the second, which compares byte by byte.\<close>

fun cd_bitmaps :: "nat list \<Rightarrow> bool list \<Rightarrow> (bt_env, bool list) prog" where
  "cd_bitmaps [] bm env = Done bm env"
| "cd_bitmaps (p # ps) bm env =
     andthen (file_read p env) (\<lambda>d env1.
       case bm_phys_check_disk d of
         Some e \<Rightarrow> Fail e env1
       | None \<Rightarrow> (case bt_cd_bm_set bm p of None \<Rightarrow> Abort | Some bm1 \<Rightarrow> cd_bitmaps ps bm1 env1))"

fun cd_compare :: "nat \<Rightarrow> nat list \<Rightarrow> bool list \<Rightarrow> (bt_env, unit) prog" where
  "cd_compare bits [] bm env = Done () env"
| "cd_compare bits (p # ps) bm env =
     andthen (file_read p env) (\<lambda>d env1.
       case d of
         BmBlk m \<Rightarrow>
           if take (min bits (length bm)) (bmp_bm m) = take bits bm
           then cd_compare bits ps (drop bits bm) env1 else Fail EILSEQ env1
       | _ \<Rightarrow> Abort)"

definition cd_root_count :: "nat \<Rightarrow> 32 word \<Rightarrow> (bt_env, unit) prog" where
  "cd_root_count rblkno nnodes env =
     andthen (file_read rblkno env) (\<lambda>d env1.
       case d of
         NodeBlk n \<Rightarrow> if btnp_info n = nnodes then Done () env1 else Fail EILSEQ env1
       | _ \<Rightarrow> Abort)"

text \<open>The part after the space manager was read. \<open>bsz\<close> bytes of a bitmap block hold its bits.\<close>

definition cd_blocks :: "sm_phys \<Rightarrow> bt_env \<Rightarrow> (unit, bt_env) outcome option" where
  "cd_blocks smp env =
     (let bpb = blks_per_bm (smp_bsz smp); nbm = num_bm_blks (smp_nblocks smp) bpb;
          bits = unat (smp_bsz smp) * 8; own = round_up_div (smp_nblocks smp) bits mod 2 ^ 16;
          nextra = own * bits - smp_nblocks smp;
          bm0 = replicate (own * bits - nextra) False @ replicate nextra True in
      if \<not> nbm \<le> length (smp_map smp) then Some Abort
      else case andthen (env_alloc env) (\<lambda>_ env1.
          case bt_cd_bm_set bm0 BT_PHYS_SM_OFFSET of
            None \<Rightarrow> Abort
          | Some bm1 \<Rightarrow> andthen (cd_bitmaps (take nbm (smp_map smp)) bm1 env1) (\<lambda>bm2 env2.
              case bt_cd_bm_set bm2 (smp_rblkno smp) of None \<Rightarrow> Abort | Some bm3 \<Rightarrow> Done bm3 env2)) of
        Abort \<Rightarrow> Some Abort
      | Fail e env2 \<Rightarrow> Some (Fail e env2)
      | Done bm3 env2 \<Rightarrow>
          map_option (\<lambda>res.
            case res of
              Abort \<Rightarrow> Abort
            | Fail e (env3, _, _) \<Rightarrow> Fail e env3
            | Done _ (env3, (bm4, nnodes), _) \<Rightarrow>
                andthen (cd_root_count (smp_rblkno smp) nnodes env3) (\<lambda>_.
                  cd_compare bpb (take nbm (smp_map smp)) bm4))
            (bt_iterate_nodes (smp_rblkno smp) (Some (bt_check_disk_node_cb (smp_bsz smp)))
               (None :: (btr_phys, unit) callback option) (env2, (bm3, 0), ())))"

definition bt_check_disk :: "errno option \<Rightarrow> errno option \<Rightarrow> bt_env \<Rightarrow> (unit, bt_env) outcome option" where
  "bt_check_disk opened closed env =
     (case opened of
        Some e \<Rightarrow> Some (Fail e env)
      | None \<Rightarrow>
          (case andthen (env_alloc env) (\<lambda>_ env1. andthen (env_alloc env1) (\<lambda>_. file_read BT_PHYS_SM_OFFSET)) of
             Abort \<Rightarrow> Some Abort
           | Fail e env1 \<Rightarrow> Some (Fail e env1)
           | Done d env1 \<Rightarrow>
               (case sm_phys_check_disk d of
                  Some e \<Rightarrow> Some (Fail e env1)
                | None \<Rightarrow>
                    (case d of
                       SmBlk smp \<Rightarrow>
                         map_option (\<lambda>res. andthen res (\<lambda>_ env2. case closed of Some e \<Rightarrow> Fail e env2 | None \<Rightarrow> Done () env2))
                           (cd_blocks smp env1)
                     | _ \<Rightarrow> Some Abort))))"

end
