(* ===== verification/BtreeFileSpec.thy ===== *)
theory BtreeFileSpec
  imports BtreeFile
begin

text \<open>
  The file that \<^verbatim>\<open>bt_create\<close> (\<^verbatim>\<open>btrees/btree.c\<close>) lays out passes the checks of \<^verbatim>\<open>bt_check_disk\<close>.
\<close>

section \<open>The blocks of a new file\<close>

lemma new_sizes [simp]:
  "blks_per_bm BT_PHYS_BLKSZ = 8128" "unat BT_PHYS_BLKSZ = 1024" "BT_START_SIZE = 67108864"
  "num_bm_blks 65536 8128 = 9" "BT_PHYS_BT_OFFSET = 1" "BT_PHYS_SM_OFFSET = 0"
  by (simp_all add: blks_per_bm_def BT_PHYS_BLKSZ_def BT_START_SIZE_def num_bm_blks_def round_up_div_def
      BT_PHYS_BT_OFFSET_def BT_PHYS_SM_OFFSET_def)

lemma new_sm_eq:
  "new_sm = \<lparr>smp_bsz = BT_PHYS_BLKSZ, smp_nblocks = 65536, smp_rblkno = 1, smp_map = [2, 3, 4, 5, 6, 7, 8, 9, 10]\<rparr>"
  by (simp add: new_sm_def upt_rec)

lemma new_file_eq:
  "new_file = (0, SmBlk new_sm) # (2, BmBlk (new_bitmap 11 0)) # map (\<lambda>n. (n, BmBlk (new_bitmap 0 0))) [3, 4, 5, 6, 7, 8, 9]
     @ [(10, BmBlk (new_bitmap 0 7616)), (1, NodeBlk new_root)]"
  by (simp add: new_file_def new_sm_eq upt_rec)

lemma filter_replicate_False: "filter Not (replicate n False) = replicate n False"
  by (induction n) auto

lemma list_set_upt:
  assumes "length bm = n" "\<forall>i<n. bm ! i \<longleftrightarrow> i < k" "k \<le> n"
  shows "bm = replicate k True @ replicate (n - k) False"
  using assms by (intro nth_equalityI) (auto simp: nth_append)

section \<open>Calls that succeed\<close>

definition env_calm :: "bt_env \<Rightarrow> bool" where
  "env_calm env \<longleftrightarrow> env_io env = [] \<and> never_fails (env_mem env)"

lemma file_read_calm:
  assumes "env_calm env"
  shows "file_read n env = Done (env_disk env n) env"
proof -
  have "env\<lparr>env_io := []\<rparr> = env" using assms by (simp add: env_calm_def)
  with assms show ?thesis by (simp add: file_read_def env_pread_def env_calm_def)
qed

lemma env_alloc_calm:
  assumes "env_calm env"
  obtains env' where "env_alloc env = Done () env'" "env_calm env'" "env_disk env' = env_disk env"
proof -
  obtain m where m: "malloc (env_mem env) = (True, m)" "never_fails m"
    using malloc_ok assms unfolding env_calm_def by blast
  show thesis
    using m assms by (intro that [of "env\<lparr>env_mem := m\<rparr>"]) (simp_all add: env_alloc_def env_calm_def)
qed

lemma file_write_Done: "file_write n d env = Done u env' \<Longrightarrow> env_disk env' = (env_disk env)(n := d)"
  by (auto simp: file_write_def env_pwrite_def Let_def split: prod.splits io.splits if_splits)

lemma file_write_all_Done:
  "file_write_all ws env = Done u env' \<Longrightarrow> env_disk env' = fold (\<lambda>(n, d) f. f(n := d)) ws (env_disk env)"
proof (induction ws arbitrary: env)
  case (Cons w ws)
  obtain n d where w: "w = (n, d)" by (cases w)
  from Cons.prems w obtain v env1 where 1: "file_write n d env = Done v env1" "file_write_all ws env1 = Done u env'"
    by (auto simp: andthen_Done)
  from Cons.IH [OF 1(2)] file_write_Done [OF 1(1)] w show ?case by simp
qed simp

lemma file_write_all_append:
  "file_write_all (ws @ vs) env = andthen (file_write_all ws env) (\<lambda>_. file_write_all vs)"
proof (induction ws arbitrary: env)
  case (Cons w ws)
  then show ?case by (cases w) (simp add: andthen_def split: outcome.split)
qed simp

lemma env_alloc_disk: "env_alloc env = Done u env' \<Longrightarrow> env_disk env' = env_disk env"
  by (auto simp: env_alloc_def Let_def split: prod.splits if_splits)

lemma env_sync_disk: "env_sync env = Done u env' \<Longrightarrow> env_disk env' = env_disk env"
  by (auto simp: env_sync_def env_fsync_def split: prod.splits io.splits option.splits)

section \<open>Creating\<close>

definition created_disk :: "(nat \<Rightarrow> bt_block) \<Rightarrow> bool" where
  "created_disk f \<longleftrightarrow> f 0 = SmBlk new_sm \<and> f 1 = NodeBlk new_root \<and> f 2 = BmBlk (new_bitmap 11 0)
     \<and> (\<forall>n\<in>{3, 4, 5, 6, 7, 8, 9}. f n = BmBlk (new_bitmap 0 0)) \<and> f 10 = BmBlk (new_bitmap 0 7616)"

lemma created_disk_new_file: "created_disk (fold (\<lambda>(n, d) f. f(n := d)) new_file f)"
  unfolding created_disk_def new_file_eq by simp

lemma bt_create_disk:
  assumes "bt_create created reserved closed env = Done u env'"
  shows "created_disk (env_disk env')"
proof -
  from assms obtain v1 v2 v3 v4 env1 env2 env3 env4 where
    "file_write_all (take 1 new_file) env1 = Done v2 env2" "file_write_all (drop 1 new_file) env2 = Done v3 env3"
    and s: "env_sync env3 = Done v4 env4" "env' = env4"
    by (auto simp: bt_create_def andthen_Done Let_def split: option.splits if_splits)
  then have "file_write_all (take 1 new_file @ drop 1 new_file) env1 = Done v3 env3"
    by (simp only: file_write_all_append andthen_simps)
  then have "file_write_all new_file env1 = Done v3 env3" by (simp only: append_take_drop_id)
  from file_write_all_Done [OF this] env_sync_disk [OF s(1)] s(2) show ?thesis
    by (simp add: created_disk_new_file)
qed

section \<open>Checking\<close>

lemma cd_bitmaps_calm:
  assumes "env_calm env" "\<forall>p\<in>set ps. p < length bm \<and> (\<exists>m. env_disk env p = BmBlk m)"
  shows "cd_bitmaps ps bm env = Done (fold (\<lambda>p bm. bm[p := True]) ps bm) env"
  using assms(2)
proof (induction ps arbitrary: bm)
  case (Cons p ps)
  then obtain m where "env_disk env p = BmBlk m" "p < length bm" by auto
  with Cons show ?case
    by (simp add: file_read_calm [OF assms(1)] bm_phys_check_disk_def bt_cd_bm_set_def)
qed simp

lemma replicate_split: "k \<le> n \<Longrightarrow> replicate n x = replicate k x @ replicate (n - k) x"
  by (simp flip: replicate_add)

lemma cd_compare_Cons:
  assumes "env_calm env" "env_disk env p = BmBlk m" "take (min bits (length bm)) (bmp_bm m) = take bits bm"
  shows "cd_compare bits (p # ps) bm env = cd_compare bits ps (drop bits bm) env"
  using assms by (simp add: file_read_calm [OF assms(1)])

lemma new_bitmap_bm:
  "bmp_bm (new_bitmap 11 0) = replicate 11 True @ replicate 8117 False"
  "bmp_bm (new_bitmap 0 0) = replicate 8128 False"
  "bmp_bm (new_bitmap 0 7616) = replicate 512 False @ replicate 7616 True"
  by (simp_all add: new_bitmap_def Let_def)

lemma cd_compare_zero:
  assumes "env_calm env" "\<forall>p\<in>set ps. env_disk env p = BmBlk (new_bitmap 0 0)" "k \<ge> 8128 * length ps"
  shows "cd_compare 8128 (ps @ qs) (replicate k False) env = cd_compare 8128 qs (replicate (k - 8128 * length ps) False) env"
  using assms(2,3)
proof (induction ps arbitrary: k)
  case (Cons p ps)
  have "cd_compare 8128 (p # ps @ qs) (replicate k False) env = cd_compare 8128 (ps @ qs) (drop 8128 (replicate k False)) env"
    using Cons.prems by (intro cd_compare_Cons [OF assms(1), where m = "new_bitmap 0 0"]) (simp_all add: new_bitmap_bm min_def)
  also have "\<dots> = cd_compare 8128 (ps @ qs) (replicate (k - 8128) False) env" by simp
  also have "\<dots> = cd_compare 8128 qs (replicate (k - 8128 - 8128 * length ps) False) env"
    using Cons.prems by (intro Cons.IH) simp_all
  finally show ?case by simp
qed simp

lemma cd_compare_created:
  assumes "env_calm env" "created_disk (env_disk env)"
  shows "cd_compare 8128 [2, 3, 4, 5, 6, 7, 8, 9, 10] (replicate 11 True @ replicate 65525 False) env = Done () env"
proof -
  note D = assms(2) [unfolded created_disk_def]
  have "cd_compare 8128 (2 # [3, 4, 5, 6, 7, 8, 9] @ [10]) (replicate 11 True @ replicate 65525 False) env
      = cd_compare 8128 ([3, 4, 5, 6, 7, 8, 9] @ [10]) (drop 8128 (replicate 11 True @ replicate 65525 False)) env"
    using D by (intro cd_compare_Cons [OF assms(1), where m = "new_bitmap 11 0"]) (simp_all add: new_bitmap_bm min_def)
  also have "\<dots> = cd_compare 8128 ([3, 4, 5, 6, 7, 8, 9] @ [10]) (replicate 57408 False) env" by simp
  also have "\<dots> = cd_compare 8128 [10] (replicate (57408 - 8128 * length [3, 4, 5, 6, 7, 8, 9 :: nat]) False) env"
    using D by (intro cd_compare_zero [OF assms(1)]) simp_all
  also have "\<dots> = cd_compare 8128 [10] (replicate 512 False) env" by simp
  also have "\<dots> = cd_compare 8128 [] (drop 8128 (replicate 512 False)) env"
    using D by (intro cd_compare_Cons [OF assms(1), where m = "new_bitmap 0 7616"]) (simp_all add: new_bitmap_bm min_def)
  finally show ?thesis by simp
qed

lemma di_node_leaf:
  assumes "env_calm (di_env s)" "env_disk (di_env s) b = NodeBlk n" "btn_phys_is_leaf n"
    "f n (di_node_ctx s) = Done False c"
  shows "di_node k (Some f) None b s = Done False (s\<lparr>di_node_ctx := c\<rparr>)"
  using assms by (simp add: di_node_def di_read_def file_read_calm)

lemma di_loop_leaf:
  assumes inv: "fi_inv (di_fifo s)" and l: "fi_list (di_fifo s) = [b]" and calm: "env_calm (di_env s)"
    and n: "env_disk (di_env s) b = NodeBlk n" "btn_phys_is_leaf n" "f n (di_node_ctx s) = Done False c"
  obtains fi where "di_loop k (Some f) None s = Some (Done () (s\<lparr>di_fifo := fi, di_node_ctx := c\<rparr>))"
proof -
  have 1: "\<not> fi_empty (di_fifo s)" using l by (auto simp: fi_empty_def simp flip: fi_list_Nil)
  obtain fi where fi: "fi_deq (di_fifo s, env_mem (di_env s), ()) = Done b (fi, env_mem (di_env s), ())"
    "fi_list fi = []"
    using fi_deq_Cons [OF inv l] by blast
  have 2: "fi_empty fi" using fi(2) by (simp add: fi_empty_def flip: fi_list_Nil)
  let ?s = "s\<lparr>di_fifo := fi\<rparr>"
  have "s\<lparr>di_fifo := fi, di_env := (di_env s)\<lparr>env_mem := env_mem (di_env s)\<rparr>\<rparr> = ?s" by simp
  moreover have "di_node k (Some f) None b ?s = Done False (?s\<lparr>di_node_ctx := c\<rparr>)"
    using calm n by (intro di_node_leaf) simp_all
  moreover have "di_loop k (Some f) None (?s\<lparr>di_node_ctx := c\<rparr>) = Some (Done () (?s\<lparr>di_node_ctx := c\<rparr>))"
    using 2 by (subst di_loop.simps) simp
  ultimately have "di_loop k (Some f) None s = Some (Done () (?s\<lparr>di_node_ctx := c\<rparr>))"
    using 1 fi(1) by (subst di_loop.simps) simp
  then show thesis by (intro that [of fi]) simp
qed

lemma iterate_leaf_root:
  assumes calm: "env_calm env" and n: "env_disk env b = NodeBlk n" "btn_phys_is_leaf n" "btnp_info n \<noteq> 0"
    and f: "f n c = Done False c'"
  obtains env' where "bt_iterate_nodes b (Some f) None (env, c, r) = Some (Done () (env', c', r))"
    "env_calm env'" "env_disk env' = env_disk env"
proof -
  from calm have io: "env_io env = []" and m: "never_fails (env_mem env)" by (simp_all add: env_calm_def)
  obtain fi :: "(nat, unit) fifo" and m1 where fi: "fi_create None (env_mem env) = (Some fi, m1)" "fi_inv fi" "fi_list fi = []" "never_fails m1"
    using fi_create_ok [OF m, of None] by blast
  obtain env2 where e2: "env_alloc (env\<lparr>env_mem := m1\<rparr>) = Done () env2" "env_calm env2" "env_disk env2 = env_disk env"
  proof -
    have "env_calm (env\<lparr>env_mem := m1\<rparr>)" using io fi(4) by (simp add: env_calm_def)
    then show thesis by (rule env_alloc_calm) (auto intro!: that)
  qed
  obtain fi2 m2 where e: "fi_enq b (fi, env_mem env2, ()) = Done () (fi2, m2, ())" "fi_inv fi2" "fi_list fi2 = [b]"
    "never_fails m2"
    using fi_enq_ok [OF fi(2), of "env_mem env2" b "()"] e2(2) fi(3) by (auto simp: env_calm_def)
  let ?k = "unat (btnp_info n)"
  let ?s = "\<lparr>di_fifo = fi2, di_ind = 1, di_env = env2\<lparr>env_mem := m2\<rparr>, di_node_ctx = c, di_record_ctx = r\<rparr>"
  have k: "0 < ?k" using n(3) by (simp add: unat_gt_0)
  have enq: "di_enq ?k b \<lparr>di_fifo = fi, di_ind = 0, di_env = env2, di_node_ctx = c, di_record_ctx = r\<rparr> = Done () ?s"
    using k e(1) by (simp add: di_enq_def)
  have c2: "env_calm (env2\<lparr>env_mem := m2\<rparr>)" using e2(2) e(4) by (simp add: env_calm_def)
  obtain fi3 where l: "di_loop ?k (Some f) None ?s = Some (Done () (?s\<lparr>di_fifo := fi3, di_node_ctx := c'\<rparr>))"
  proof (rule di_loop_leaf [of ?s b n f c' ?k])
    show "fi_inv (di_fifo ?s)" "fi_list (di_fifo ?s) = [b]" using e by simp_all
    show "env_calm (di_env ?s)" using c2 by simp
    show "env_disk (di_env ?s) b = NodeBlk n" using e2(3) n(1) by simp
  qed (use n f in \<open>simp_all\<close>)
  have "bt_iterate_nodes b (Some f) None (env, c, r) = Some (Done () (env2\<lparr>env_mem := m2\<rparr>, c', r))"
    using file_read_calm [OF calm, of b] n(1) fi(1) e2(1) enq l
    by (simp add: bt_iterate_nodes_def di_result_def)
  then show thesis using c2 e2(3) by (intro that [of "env2\<lparr>env_mem := m2\<rparr>"]) simp_all
qed

text \<open>The checker's own bitmap after the first pass.\<close>

lemma fold_marks:
  "length (fold (\<lambda>p bm. bm[p := True]) ps bm) = length bm"
  "i < length bm \<Longrightarrow> fold (\<lambda>p bm. bm[p := True]) ps bm ! i \<longleftrightarrow> bm ! i \<or> i \<in> set ps"
proof (induction ps arbitrary: bm)
  case (Cons p ps)
  {
    case 2
    have "bm[p := True] ! i \<longleftrightarrow> p = i \<or> bm ! i" using 2 by (cases "p = i") simp_all
    with Cons(2) [of "bm[p := True]"] 2 show ?case by auto
  }
qed simp_all

lemma own_bitmap:
  "(fold (\<lambda>p bm. bm[p := True]) [2, 3, 4, 5, 6, 7, 8, 9, 10] ((replicate 65536 False)[0 := True]))[1 := True]
     = replicate 11 True @ replicate 65525 False"
proof -
  let ?ps = "[2, 3, 4, 5, 6, 7, 8, 9, 10 :: nat]"
  let ?l = "(fold (\<lambda>p bm. bm[p := True]) ?ps ((replicate 65536 False)[0 := True]))[1 := True]"
  have set: "set ?ps = {2..<11}" by auto
  have "?l = replicate 11 True @ replicate (65536 - 11) False"
  proof (rule list_set_upt)
    show "length ?l = 65536" by (simp only: fold_marks length_list_update length_replicate)
    show "\<forall>i<65536. ?l ! i = (i < 11)"
    proof (intro allI impI)
      fix i :: nat assume i: "i < 65536"
      have "?l ! i \<longleftrightarrow> i = 1 \<or> fold (\<lambda>p bm. bm[p := True]) ?ps ((replicate 65536 False)[0 := True]) ! i"
        using i by (simp only: nth_list_update fold_marks length_list_update length_replicate) simp
      also have "\<dots> \<longleftrightarrow> i = 1 \<or> ((replicate 65536 False)[0 := True]) ! i \<or> i \<in> {2..<11}"
        using i by (subst fold_marks(2)) (simp_all only: set length_list_update length_replicate)
      also have "\<dots> \<longleftrightarrow> i < 11" using i by (auto simp: nth_list_update)
      finally show "?l ! i = (i < 11)" .
    qed
  qed simp
  then show ?thesis by simp
qed

lemma new_root_checks:
  "bt_check_disk_node_cb BT_PHYS_BLKSZ new_root (bm, 0) = Done False (bm, 1)" "btn_phys_is_leaf new_root"
  "btnp_info new_root = 1"
  by (simp_all add: bt_check_disk_node_cb_def new_root_def btn_phys_is_leaf_def btn_phys_is_root_def
      BTN_PHYS_ALLOWABLE_FLAGS_def BTN_PHYS_FLG_IS_ROOT_def BTN_PHYS_FLG_IS_LEAF_def node_capacity_def
      node_freespace_def recs_size_def BT_PHYS_BLKSZ_def)

lemma cd_blocks_created:
  assumes "env_calm env" "created_disk (env_disk env)"
  obtains env' where "cd_blocks new_sm env = Some (Done () env')"
proof -
  let ?ps = "[2, 3, 4, 5, 6, 7, 8, 9, 10 :: nat]"
  note D = assms(2) [unfolded created_disk_def]
  obtain env1 where 1: "env_alloc env = Done () env1" "env_calm env1" "env_disk env1 = env_disk env"
    by (rule env_alloc_calm [OF assms(1)])
  have marks: "cd_bitmaps ?ps ((replicate 65536 False)[0 := True]) env1
      = Done (fold (\<lambda>p bm. bm[p := True]) ?ps ((replicate 65536 False)[0 := True])) env1"
    using D 1(3) by (intro cd_bitmaps_calm [OF 1(2)]) simp
  let ?bm = "replicate 11 True @ replicate 65525 False"
  obtain env2 where 2: "bt_iterate_nodes 1 (Some (bt_check_disk_node_cb BT_PHYS_BLKSZ))
      (None :: (btr_phys, unit) callback option) (env1, (?bm, 0), ())
      = Some (Done () (env2, (?bm, 1), ()))" "env_calm env2" "env_disk env2 = env_disk env1"
  proof (rule iterate_leaf_root [OF 1(2), where n = new_root and f = "bt_check_disk_node_cb BT_PHYS_BLKSZ" and c = "(?bm, 0)"
      and c' = "(?bm, 1)" and r = "()" and b = 1])
    show "env_disk env1 1 = NodeBlk new_root" using D 1(3) by simp
    show "btnp_info new_root \<noteq> 0" using new_root_checks(3) by simp
  qed (use new_root_checks in \<open>auto intro!: that\<close>)
  have 3: "cd_root_count 1 1 env2 = Done () env2"
    using D 1(3) 2(3) by (simp add: cd_root_count_def file_read_calm [OF 2(2)] new_root_checks)
  have "created_disk (env_disk env2)" using assms(2) 1(3) 2(3) by simp
  from cd_compare_created [OF 2(2) this] have 4: "cd_compare 8128 ?ps ?bm env2 = Done () env2" .
  have "cd_blocks new_sm env = Some (Done () env2)"
  proof -
    have own: "round_up_div 65536 8192 = 8" by (simp add: round_up_div_def)
    have "bt_cd_bm_set (fold (\<lambda>p bm. bm[p := True]) ?ps ((replicate 65536 False)[0 := True])) 1 = Some ?bm"
      using own_bitmap by (simp only: bt_cd_bm_set_def) simp
    moreover have "bt_cd_bm_set (replicate 65536 False) 0 = Some ((replicate 65536 False)[0 := True])"
      by (simp add: bt_cd_bm_set_def)
    ultimately have mark: "andthen (env_alloc env) (\<lambda>_ env1.
          case bt_cd_bm_set (replicate 65536 False) 0 of
            None \<Rightarrow> Abort
          | Some bm1 \<Rightarrow> andthen (cd_bitmaps ?ps bm1 env1) (\<lambda>bm2 env2.
              case bt_cd_bm_set bm2 1 of None \<Rightarrow> Abort | Some bm3 \<Rightarrow> Done bm3 env2)) = Done ?bm env1"
      using 1(1) marks by simp
    have "length (smp_map new_sm) = 9" "take 9 (smp_map new_sm) = ?ps" "smp_bsz new_sm = BT_PHYS_BLKSZ"
      "smp_nblocks new_sm = 65536" "smp_rblkno new_sm = 1" by (simp_all add: new_sm_eq)
    note S = this
    show ?thesis
      unfolding cd_blocks_def Let_def S new_sizes
      using mark 2(1) 3 4 own by simp
  qed
  then show thesis by (rule that)
qed

definition rw_ok :: "bt_env" where
  "rw_ok = \<lparr>env_disk = (\<lambda>n. OtherBlk 0), env_io = [], env_mem = [], env_world = ()\<rparr>"

text \<open>
  C37: A file that bt_create made, however its writes went, is a consistent B-tree file: with reads that
  succeed and enough memory, bt_check_disk accepts it.
\<close>
theorem bt_create_check_disk:
  assumes "bt_create None None None env = Done () env'" "env_io env' = []" "never_fails (env_mem env')"
  shows "\<exists>env''. bt_check_disk None None env' = Some (Done () env'')"
proof -
  have c: "env_calm env'" using assms by (simp add: env_calm_def)
  have d: "created_disk (env_disk env')" using bt_create_disk [OF assms(1)] .
  obtain env1 where 1: "env_alloc env' = Done () env1" "env_calm env1" "env_disk env1 = env_disk env'"
    by (rule env_alloc_calm [OF c])
  obtain env2 where 2: "env_alloc env1 = Done () env2" "env_calm env2" "env_disk env2 = env_disk env1"
    by (rule env_alloc_calm [OF 1(2)])
  have "created_disk (env_disk env2)" using d 1(3) 2(3) by simp
  with 2(2) obtain env3 where 3: "cd_blocks new_sm env2 = Some (Done () env3)" by (rule cd_blocks_created)
  have "env_disk env2 0 = SmBlk new_sm" using d 1(3) 2(3) by (simp add: created_disk_def)
  then have "file_read BT_PHYS_SM_OFFSET env2 = Done (SmBlk new_sm) env2" by (simp add: file_read_calm [OF 2(2)])
  with 1(1) 2(1) 3 show ?thesis by (simp add: bt_check_disk_def sm_phys_check_disk_def new_sm_eq)
qed

theorem bt_create_check_disk_witness:
  "\<exists>env'. bt_create None None None rw_ok = Done () env' \<and> (\<exists>env''. bt_check_disk None None env' = Some (Done () env''))"
proof -
  have "\<exists>env'. bt_create None None None rw_ok = Done () env' \<and> env_io env' = [] \<and> never_fails (env_mem env')"
    unfolding bt_create_def new_file_eq
    by (simp add: rw_ok_def env_alloc_def file_write_def env_pwrite_def env_sync_def env_fsync_def new_sm_eq)
  then show ?thesis using bt_create_check_disk [of rw_ok] by blast
qed

end
