(* ===== verification/BtreeSpec.thy ===== *)
theory BtreeSpec
  imports BtreeGrow BtreeFileSpec
begin

text \<open>
  What the B-tree promises to its callers: an open tree holds a sorted list of records, and insertion,
  lookup and removal are those of the list.
\<close>

section \<open>An open tree\<close>

text \<open>Only the space manager and the root are held; the count in the root's block is that of the nodes.\<close>

definition btree_inv :: "btt \<Rightarrow> btree \<Rightarrow> bool" where
  "btree_inv t bt \<longleftrightarrow> (\<exists>smp. tree_state bt smp (tptr t) (of_nat (length (tblocks t))) None None t \<and> smp_rblkno smp = tptr t
     \<and> bt_refs bt = (\<lambda>b. if b = bt_root bt \<or> b = bt_sm bt then 1 else 0))"

definition bt_bsz :: "btree \<Rightarrow> 16 word" where
  "bt_bsz bt = (case bt_view bt 0 of SmBlk smp \<Rightarrow> smp_bsz smp | _ \<Rightarrow> 0)"

definition bt_free :: "btree \<Rightarrow> nat" where
  "bt_free bt = (case bt_view bt 0 of SmBlk smp \<Rightarrow> free_blocks smp (bt_view bt) | _ \<Rightarrow> 0)"

text \<open>With more free blocks than this no bitmap can be full.\<close>

definition bt_reserve :: "btree \<Rightarrow> nat" where
  "bt_reserve bt = (case bt_view bt 0 of SmBlk smp \<Rightarrow> (length (sm_maps smp) - 1) * sm_bpb smp | _ \<Rightarrow> 0)"

text \<open>
  The same of a tree that may hold more of the cache than that: a failed lookup leaves the child it
  looked in held.
\<close>

definition btree_open :: "btt \<Rightarrow> btree \<Rightarrow> bool" where
  "btree_open t bt \<longleftrightarrow> (\<exists>smp. tree_state bt smp (tptr t) (of_nat (length (tblocks t))) None None t \<and> smp_rblkno smp = tptr t)"

definition bt_only :: "btree \<Rightarrow> bool" where
  "bt_only bt \<longleftrightarrow> bt_refs bt = (\<lambda>b. if b = bt_root bt \<or> b = bt_sm bt then 1 else 0)"

lemma btree_inv_iff: "btree_inv t bt \<longleftrightarrow> btree_open t bt \<and> bt_only bt"
  by (auto simp: btree_inv_def btree_open_def bt_only_def)

lemma btree_openE:
  assumes "btree_open t bt"
  obtains smp where "tree_state bt smp (tptr t) (of_nat (length (tblocks t))) None None t" "smp_rblkno smp = tptr t"
    "bt_view bt 0 = SmBlk smp" "bt_bsz bt = smp_bsz smp" "bt_free bt = free_blocks smp (bt_view bt)"
proof -
  obtain smp where s: "tree_state bt smp (tptr t) (of_nat (length (tblocks t))) None None t" "smp_rblkno smp = tptr t"
    using assms unfolding btree_open_def by blast
  have "bt_view bt 0 = SmBlk smp" using space_okD(1) [OF tree_stateD(14) [OF s(1)]] .
  with s show thesis by (intro that [of smp]) (simp_all add: bt_bsz_def bt_free_def)
qed

lemma btree_openD:
  assumes "btree_open t bt"
  shows "total_cmp (bt_cmp bt)" "csorted (bt_cmp bt) (trecs t)" "t \<noteq> Gone" "distinct (tblocks t)"
proof -
  obtain smp where s: "tree_state bt smp (tptr t) (of_nat (length (tblocks t))) None None t" by (rule btree_openE [OF assms])
  note T = tree_stateD [OF s]
  show "total_cmp (bt_cmp bt)" "t \<noteq> Gone" "distinct (tblocks t)" by (rule T)+
  show "csorted (bt_cmp bt) (trecs t)" by (rule tord_csorted [OF T(8,12)])
qed

lemma btree_invE:
  assumes "btree_inv t bt"
  obtains smp where "tree_state bt smp (tptr t) (of_nat (length (tblocks t))) None None t" "smp_rblkno smp = tptr t"
    "bt_refs bt = (\<lambda>b. if b = bt_root bt \<or> b = bt_sm bt then 1 else 0)" "bt_view bt 0 = SmBlk smp"
    "bt_bsz bt = smp_bsz smp" "bt_free bt = free_blocks smp (bt_view bt)"
proof -
  obtain smp where s: "tree_state bt smp (tptr t) (of_nat (length (tblocks t))) None None t" "smp_rblkno smp = tptr t"
    "bt_refs bt = (\<lambda>b. if b = bt_root bt \<or> b = bt_sm bt then 1 else 0)" using assms unfolding btree_inv_def by blast
  have "bt_view bt 0 = SmBlk smp" using space_okD(1) [OF tree_stateD(14) [OF s(1)]] .
  with s show thesis by (intro that [of smp]) (simp_all add: bt_bsz_def bt_free_def)
qed

lemma btree_invD:
  assumes "btree_inv t bt"
  shows "total_cmp (bt_cmp bt)" "csorted (bt_cmp bt) (trecs t)" "t \<noteq> Gone" "distinct (tblocks t)"
    "bt_info bt = Some (of_nat (length (tblocks t)))"
proof -
  obtain smp where s: "tree_state bt smp (tptr t) (of_nat (length (tblocks t))) None None t" by (rule btree_invE [OF assms])
  note T = tree_stateD [OF s]
  show "total_cmp (bt_cmp bt)" "t \<noteq> Gone" "distinct (tblocks t)" by (rule T)+
  show "bt_info bt = Some (of_nat (length (tblocks t)))"
    using T(4) held_phys [OF T(13,3)] by (auto simp: bt_info_def btn_root_info_def root_at_def)
  show "csorted (bt_cmp bt) (trecs t)" by (rule tord_csorted [OF T(8,12)])
qed

lemma open_room:
  assumes "bt_refs bt = (\<lambda>b. if b = bt_root bt \<or> b = bt_sm bt then 1 else 0)" "k + 2 \<le> bt_cap bt"
  shows "bt_room k bt"
proof -
  have "{b. 0 < bt_refs bt b} = {bt_root bt, bt_sm bt}" unfolding assms(1) by auto
  then have "card {b. 0 < bt_refs bt b} \<le> 2" by (simp add: card_insert_if)
  with assms(2) show ?thesis by (simp add: bt_room_def)
qed

section \<open>A new root\<close>

lemma owned_bound:
  assumes "space_ok smp V" "distinct bs" "set bs \<subseteq> owned smp V"
  shows "length bs < 2 ^ 32"
proof -
  have "set bs \<subseteq> {1..<2 ^ 32}"
  proof
    fix k assume "k \<in> set bs"
    then have k: "k \<in> owned smp V" using assms(3) by blast
    then have "k \<noteq> 0" by (simp add: owned_def data_block_def)
    then have "1 \<le> k" by linarith
    then show "k \<in> {1..<2 ^ 32}" unfolding atLeastLessThan_iff using owned_less [OF assms(1) k] by (rule conjI)
  qed
  then have "card (set bs) \<le> card {1::nat..<2 ^ 32}" by (rule card_mono [rotated]) simp
  then show ?thesis using distinct_card [OF assms(2)] by simp
qed

lemma bt_root_upd [simp]:
  "bt_view (bt\<lparr>bt_root := b\<rparr>) = bt_view bt" "bt_refs (bt\<lparr>bt_root := b\<rparr>) = bt_refs bt" "bt_good U (bt\<lparr>bt_root := b\<rparr>) = bt_good U bt"
  "bt_blkno (bt\<lparr>bt_root := b\<rparr>) = bt_blkno bt" "bt_cap (bt\<lparr>bt_root := b\<rparr>) = bt_cap bt" "held (bt\<lparr>bt_root := b\<rparr>) c n = held bt c n"
  by (simp_all add: bt_view_def bt_refs_def bt_good_def bt_blkno_def bt_cap_def held_def fun_eq_iff)

lemma count_word:
  assumes "2 \<le> n" "n < 2 ^ 32"
  shows "(of_nat n - 1 :: 32 word) \<noteq> 0"
proof
  assume "of_nat n - 1 = (0 :: 32 word)"
  then have "of_nat n = (1 :: 32 word)" by simp
  then have "unat (of_nat n :: 32 word) = 1" by simp
  with assms show False by (simp add: unat_of_nat take_bit_eq_mod)
qed

lemma btn_first_index_ok:
  assumes good: "bt_good U bt" and b: "held bt b q" and n: "bt_view bt q = NodeBlk ((btn_init bsz BTN_PHYS_FLG_IS_ROOT)\<lparr>btnp_info := i\<rparr>)"
    and bsz: "bsz_ok bsz" and x: "small_rec bsz x"
  obtains n' where "btn_insert_first_index_record b ptr x bt = Done () (bt_store b (NodeBlk n') bt)" "node_wf bsz n'"
    "btn_phys_is_root n'" "\<not> btn_phys_is_leaf n'" "btnp_records n' = [x]" "btnp_ptr0 n' = ptr" "btnp_info n' = i"
proof -
  let ?n = "(btn_init bsz BTN_PHYS_FLG_IS_ROOT)\<lparr>btnp_info := i\<rparr>"
  let ?n' = "?n\<lparr>btnp_ptr0 := ptr, btnp_records := [x], btnp_freespace := btnp_freespace ?n - (btr_phys_size x + 8)\<rparr>"
  note B = max_rec_bounds [OF bsz] and sz = small_word [OF bsz x]
  have le: "rsz x \<le> max_rec bsz" using x by (simp add: small_rec_def)
  have b16: "unat (max_inline bsz) < 65536" using B(2) bsz by (simp add: bsz_ok_def)
  have free: "btnp_freespace ?n = max_inline bsz - 4" by (simp add: btn_init_def max_inline_def)
  have f: "unat (max_inline bsz - 4) = unat (max_inline bsz) - 4" using B(1) by (simp add: unat_sub16)
  have s8: "unat (btr_phys_size x + 8) = rsz x + 8" using sz le B(1) b16 by (simp add: unat_add16)
  have fits: "btr_phys_size x + 8 \<le> max_inline bsz - 4" using s8 f le B(1) by (simp add: word_le_nat_alt)
  have flags: "btn_phys_is_root ?n'" "\<not> btn_phys_is_leaf ?n'" by (simp_all add: btn_init_flags)
  have "unat (max_inline bsz - 4 - (btr_phys_size x + 8)) = unat (max_inline bsz) - 4 - (rsz x + 8)"
    using unat_sub16 [of "btr_phys_size x + 8" "max_inline bsz - 4"] fits s8 f by (simp add: word_le_nat_alt)
  then have wf: "node_wf bsz ?n'" using flags free x le B(1) by (simp add: node_wf_def)
  have "btn_insert_first_index_record b ptr x bt = Done () (bt_store b (NodeBlk ?n') bt)"
    using fits free by (simp add: btn_insert_first_index_record_def with_node_held [OF good b n] Let_def btn_init_flags)
      (simp add: btn_init_def)
  then show thesis using wf flags by (rule that) simp_all
qed

lemma bt_new_root_ok:
  assumes t: "tree_state bt smp (tptr t) (of_nat (length (tblocks t))) None None t" "smp_rblkno smp = tptr t"
      "bt_room 1 bt"
    and d: "ins_done smp (tptr t) (of_nat (length (tblocks t))) None None x t bt bsi bt1 (Up t1 sep t2)"
    and free: "0 < free_blocks smp (bt_view bt1)"
  obtains bt' t' where "bt_new_root depth bsi bt1 = Done no_split bt'" "btree_open t' bt'" "bt_only bt \<longrightarrow> bt_only bt'" "trecs t' = ins_by (bt_cmp bt) x (trecs t)"
    "theight t' \<le> Suc (theight t)" "bt_free bt' + length (tblocks t') = free_blocks smp (bt_view bt) + length (tblocks t)"
    "bt_cmp bt' = bt_cmp bt" "bt_cap bt' = bt_cap bt" "bt_bsz bt' = bt_bsz bt" "bt_reserve bt' = bt_reserve bt"
    "length (tblocks t') \<le> length (tblocks t) + (2 * theight t + 2)"
proof -
  note T = tree_stateD [OF t(1)]
  let ?r = "tptr t" and ?bsz = "smp_bsz smp" and ?S = "tblocks t1 @ tblocks t2"
  have D: "bt_good {} bt1" "bt_refs bt1 = bt_refs bt" "bt_frame bt bt1" "bsi_split_index1 bsi = Some sep" "bsi_split_index2 bsi = None"
    "tptr t1 = ?r" "t2 \<noteq> Gone" "btr_phys_index_ptr sep = tptr t2" "length (btrp_val sep) = 8" "small_rec ?bsz sep"
    "trep ?bsz (bt_view bt1) 0 t1" "trep ?bsz (bt_view bt1) 0 t2" "tord (bt_cmp bt) None (Some sep) t1" "tord (bt_cmp bt) (Some sep) None t2"
    "distinct ?S" "trecs t1 @ trecs t2 = ins_by (bt_cmp bt) x (trecs t)" "theight t1 \<le> theight t" "theight t2 \<le> theight t"
    "blk_step smp (tblocks t) ?S (bt_view bt) (bt_view bt1)" "bsi_bip bsi = of_nat (length ?S) - 1"
    using d by (simp_all add: ins_done_def)
  note F = bt_frameD [OF D(3)]
  have r0: "?r \<noteq> 0" using T(5) by (simp add: owned_def data_block_def)
  have t1G: "t1 \<noteq> Gone" using D(6) r0 by auto
  have ne: "bt_root bt \<noteq> bt_sm bt" using T(3,16) r0 by (auto simp: held_def)
  obtain bt2 where rl: "bt_release (bt_root bt1) bt1 = Done () bt2" "bt_good {} bt2" "bt_view bt2 = bt_view bt1"
    "bt_refs bt2 = (bt_refs bt1)(bt_root bt1 := bt_refs bt1 (bt_root bt1) - 1)" "bt_blkno bt2 = bt_blkno bt1" "bt_cmp bt2 = bt_cmp bt1"
    "bt_root bt2 = bt_root bt1" "bt_sm bt2 = bt_sm bt1" "bt_cap bt2 = bt_cap bt1"
    by (rule bt_release_ok [OF D(1), of "bt_root bt1"]) (use D(2) T(3) F(2) in \<open>auto simp: held_def\<close>)
  have refs2: "bt_refs bt2 = (bt_refs bt)(bt_root bt := bt_refs bt (bt_root bt) - 1)"
    unfolding rl(4) D(2) F(2) ..
  have sm2: "held bt2 (bt_sm bt2) 0"
    using refs2 rl(5,8) F(3) F(5) [OF T(16)] ne D(2) by (simp add: held_def)
  have space1: "space_ok smp (bt_view bt2)" "0 < free_blocks smp (bt_view bt2)" using blk_stepD(1) [OF D(19)] free rl(3) by simp_all
  have smp2: "bt_phys bt2 (bt_sm bt2) = SmBlk smp" using held_phys [OF rl(2) sm2] space_okD(1) [OF space1(1)] by simp
  have "{b. 0 < bt_refs bt2 b} \<subseteq> {b. 0 < bt_refs bt b}" unfolding refs2 by auto
  then have "card {b. 0 < bt_refs bt2 b} \<le> card {b. 0 < bt_refs bt b}" by (rule card_mono [OF finite_held])
  then have room2: "bt_room (Suc 0) bt2" using t(3) rl(9) F(4) by (simp add: bt_room_def)
  let ?init = "btn_init ?bsz BTN_PHYS_FLG_IS_ROOT"
  obtain q rb V bt3 where al: "btn_alloc BTN_PHYS_FLG_IS_ROOT bt2 = Done rb bt3" "bt_good {} bt3" "bit_step smp q True (bt_view bt2) V"
    "bt_view bt3 = V(q := NodeBlk ?init)" "data_block smp q" "\<not> allocated smp (bt_view bt2) q"
    "bt_refs bt3 = (bt_refs bt2)(rb := bt_refs bt2 rb + 1)" "held bt3 rb q" "bt_frame bt2 bt3" "bt_room 0 bt3"
    by (rule btn_alloc_ok [OF rl(2) room2 space1(1) sm2 space1(2), of BTN_PHYS_FLG_IS_ROOT]) simp_all
  have q0: "q \<noteq> 0" using al(5) by (simp add: data_block_def)
  note F3 = bt_frameD [OF al(9)]
  have sm3: "held bt3 (bt_sm bt3) 0" using F3(3,5) sm2 by simp
  have rbsm: "rb \<noteq> bt_sm bt3" using al(8) sm3 q0 by (auto simp: held_def)
  let ?smp = "smp\<lparr>smp_rblkno := q\<rparr>" and ?bt3 = "bt3\<lparr>bt_root := rb\<rparr>"
  let ?bt4 = "bt_store (bt_sm bt3) (SmBlk ?smp) ?bt3"
  have g3: "bt_good {} ?bt3" "held ?bt3 (bt_sm bt3) 0" using al(2) sm3 by simp_all
  note st4 = bt_store_ok [OF g3, of "SmBlk ?smp"]
  have good4: "bt_good {} ?bt4" using st4(1) by simp
  have rb4: "held ?bt4 rb q" using bt_frameD(5) [OF st4(4)] al(8) by simp
  have v4: "bt_view ?bt4 q = NodeBlk ?init" using st4(2) al(4) q0 by simp
  have phys4: "bt_phys ?bt4 rb = NodeBlk ?init" using held_phys [OF good4 rb4] v4 by simp
  let ?ni = "?init\<lparr>btnp_info := bsi_bip bsi + 2\<rparr>"
  let ?bt5 = "bt_poke rb (NodeBlk ?ni) ?bt4"
  note pk = bt_poke_ok [OF good4 rb4, of "NodeBlk ?ni"]
  have rb5: "held ?bt5 rb q" by (rule bt_frameD(5) [OF pk(4) rb4])
  have v5: "bt_view ?bt5 q = NodeBlk ?ni" using pk(2) by simp
  obtain n6 where f6: "btn_insert_first_index_record rb ?r sep ?bt5 = Done () (bt_store rb (NodeBlk n6) ?bt5)" "node_wf ?bsz n6"
    "btn_phys_is_root n6" "\<not> btn_phys_is_leaf n6" "btnp_records n6 = [sep]" "btnp_ptr0 n6 = ?r" "btnp_info n6 = bsi_bip bsi + 2"
    by (rule btn_first_index_ok [OF pk(1) rb5 v5 T(15) D(10)])
  let ?bt6 = "bt_store rb (NodeBlk n6) ?bt5"
  note st6 = bt_store_ok [OF pk(1) rb5, of "NodeBlk n6"]
  have good6: "bt_good {} ?bt6" using st6(1) by simp
  note f = bt_frame_trans [OF st4(4) bt_frame_trans [OF pk(4) st6(4)]]
  note F6 = bt_frameD [OF f]
  \<comment> \<open>the blocks of the new tree\<close>
  let ?W = "V(q := NodeBlk n6)" and ?t' = "Index q [(sep, t1), (sep, t2)]"
  have al': "bit_step smp q True (bt_view bt1) V" "\<not> allocated smp (bt_view bt1) q" using al(3,6) rl(3) by simp_all
  have step: "blk_step smp ?S (?S @ [q]) (bt_view bt1) ?W" by (rule blk_step_alloc [OF al' al(5) blk_stepD(3) [OF D(19)]])
  have view6: "bt_view ?bt6 = ?W(0 := SmBlk ?smp)"
    unfolding st6(2) pk(2) st4(2) using al(4) q0 by (auto simp: fun_eq_iff)
  note W = space_ok_rblkno(1) [OF blk_stepD(1) [OF step], where r = q] space_ok_rblkno(2,3) [OF blk_stepD(1) [OF step], where d = ?smp]
  have space6: "space_ok ?smp (bt_view ?bt6)" unfolding view6 by (rule W(1))
  have own6: "owned ?smp (bt_view ?bt6) = owned smp ?W" unfolding view6 owned_def using W(2) by simp
  have free6: "free_blocks ?smp (bt_view ?bt6) = free_blocks smp ?W" unfolding view6 using W(3) by simp
  have qS: "q \<notin> set ?S" using blk_stepD(3) [OF D(19)] al'(2) by (auto simp: owned_def)
  have len: "2 \<le> length ?S" "length ?S < 2 ^ 32"
  proof -
    have "tblocks t1 \<noteq> []" "tblocks t2 \<noteq> []" using tptr_in [OF t1G] tptr_in [OF D(7)] by auto
    then show "2 \<le> length ?S" by (cases "tblocks t1"; cases "tblocks t2") auto
    show "length ?S < 2 ^ 32" by (rule owned_bound [OF blk_stepD(1) [OF D(19)] D(15) blk_stepD(3) [OF D(19)]])
  qed
  have bip: "bsi_bip bsi \<noteq> 0" unfolding D(20) by (rule count_word [OF len])
  have kid: "trep ?bsz (bt_view ?bt6) q u" if u: "trep ?bsz (bt_view bt1) 0 u" "set (tblocks u) \<subseteq> set ?S" for u
  proof (rule trep_rt)
    show "trep ?bsz (bt_view ?bt6) 0 u"
    proof (rule trep_cong [OF u(1)])
      fix k assume k: "k \<in> set (tblocks u)"
      have "k \<noteq> 0" using trep_no_zero [OF u(1)] k by (metis)
      moreover have "k \<noteq> q" using k u(2) qS by blast
      moreover have "V k = bt_view bt1 k"
        using bit_stepD(2) [OF al'(1), of k] blk_stepD(3) [OF D(19)] k u(2) by (auto simp: owned_def)
      ultimately show "no_info (bt_view ?bt6 k) = no_info (bt_view bt1 k)" unfolding view6 by simp
    qed
  qed (use u(2) qS trep_no_zero [OF u(1)] in auto)
  have rep: "trep ?bsz (bt_view ?bt6) q ?t'"
    using f6 q0 kid [OF D(11)] kid [OF D(12)] D(6,8,9) by (simp add: view6)
  have ord: "tord (bt_cmp bt) None None ?t'" using D(13,14) by (simp add: tord_Index_iff)
  have root: "root_at (bt_view ?bt6) q (of_nat (length (tblocks ?t')))"
    using f6(3,7) q0 D(20) unfolding view6 by (simp add: root_at_def)
  have dist: "distinct (tblocks ?t')" using D(15) qS by simp
  have cmp6: "bt_cmp ?bt6 = bt_cmp bt" using F6(1) F3(1) rl(6) F(1) by simp
  have cap6: "bt_cap ?bt6 = bt_cap bt" using F6(4) F3(4) rl(9) F(4) by simp
  have root6: "bt_root ?bt6 = rb" "bt_sm ?bt6 = bt_sm bt3" using F6(2,3) by simp_all
  have refs6: "bt_only bt \<longrightarrow> bt_only ?bt6"
    unfolding bt_only_def root6 st6(3) pk(3) st4(3) using al(7) refs2 rbsm F3(3) rl(8) F(3) ne by auto
  have held6: "held ?bt6 (bt_root ?bt6) q" "held ?bt6 (bt_sm ?bt6) 0"
    unfolding root6 using F6(5) al(8) sm3 by simp_all
  have "tblocks ?t' = q # ?S" by simp
  then have own': "set (tblocks ?t') \<subseteq> owned ?smp (bt_view ?bt6)" "q \<in> owned ?smp (bt_view ?bt6)"
    unfolding own6 using blk_stepD(3) [OF step] by auto
  have ready: "space_ready {} ?bt6 ?smp"
    using good6 space6 held6(2) T(15,12) cmp6 by (simp add: space_ready_def)
  have state: "tree_state ?bt6 ?smp q (of_nat (length (tblocks ?t'))) None None ?t'"
    unfolding tree_state_def cmp6 using ready T(2) held6(1) root own' rep ord dist by simp
  have inv: "btree_open ?t' ?bt6"
    unfolding btree_open_def using state by (intro exI [of _ ?smp]) simp
  have fr: "bt_free ?bt6 = free_blocks smp ?W" "bt_bsz ?bt6 = ?bsz" using free6 by (simp_all add: bt_free_def bt_bsz_def view6)
  have bsz: "bt_bsz bt = ?bsz" using space_okD(1) [OF T(14)] by (simp add: bt_bsz_def)
  have run: "bt_new_root depth bsi bt1 = Done no_split ?bt6"
  proof -
    have blk: "bt_blkno bt3 rb = q" using al(8) by (simp add: held_def)
    show ?thesis
      by (simp only: bt_new_root_def rl(1) andthen_simps smp2 bt_block.case al(1) outcome.case Let_def blk phys4 D(4,5) t(2) f6(1)
          prod.case option.case bip if_False)
  qed
  show thesis
  proof (rule that [OF run inv refs6 _ _ _ cmp6 cap6])
    show "trecs ?t' = ins_by (bt_cmp bt) x (trecs t)" using D(16) by simp
    show "theight ?t' \<le> Suc (theight t)" using D(17,18) by simp
    show "bt_free ?bt6 + length (tblocks ?t') = free_blocks smp (bt_view bt) + length (tblocks t)"
      using blk_stepD(5) [OF step] blk_stepD(5) [OF D(19)] fr(1) by simp
    show "bt_bsz ?bt6 = bt_bsz bt" using fr(2) bsz by simp
    show "bt_reserve ?bt6 = bt_reserve bt" using space_okD(1) [OF T(14)] by (simp add: bt_reserve_def view6)
    have "length ?S \<le> length (tblocks t) + (2 * theight t + 1)" using d by (simp add: ins_done_def)
    then show "length (tblocks ?t') \<le> length (tblocks t) + (2 * theight t + 2)" by simp
  qed
qed

end
