(* ===== verification/BtreeDict.thy ===== *)
theory BtreeDict
  imports BtreeSpec
begin

text \<open>
  Insertion, lookup and removal at the entry points of the B-tree, as operations on the sorted list
  of its records.
\<close>

section \<open>Insertion\<close>

lemma bt_not_too_big:
  assumes "bt_good {} bt" "held bt (bt_sm bt) 0" "bt_view bt 0 = SmBlk smp" "bsz_ok (smp_bsz smp)" "small_rec (smp_bsz smp) x"
  shows "\<not> bt_too_big bt x"
proof -
  note B = max_rec_bounds [OF assms(4)] and x = small_word [OF assms(4,5)]
  let ?W = "max_inline (smp_bsz smp)"
  have le: "rsz x \<le> max_rec (smp_bsz smp)" "12 + length (btrp_key x) \<le> max_rec (smp_bsz smp)" using assms(5) by (simp_all add: small_rec_def)
  have W: "bt_max_inline_record_size bt = ?W" using held_phys [OF assms(1,2)] assms(3) by (simp add: bt_max_inline_record_size_def)
  have b16: "unat ?W < 65536" using B(2) assms(4) by (simp add: bsz_ok_def)
  have "unat (word_of_nat (length (btrp_key x)) :: 16 word) = length (btrp_key x)"
    using le(2) B(1) b16 by (simp add: unat_of_nat take_bit_eq_mod)
  then have "unat (4 + word_of_nat (length (btrp_key x)) :: 16 word) = 4 + length (btrp_key x)"
    using le(2) B(1) b16 by (simp add: unat_add16)
  moreover have "unat (8 :: 16 word) = 8" by simp
  ultimately have i: "unat (btr_phys_index_size x) = 12 + length (btrp_key x)"
    using le(2) B(1) b16 unat_add16 [of "4 + word_of_nat (length (btrp_key x))" 8] unfolding btr_phys_index_size_def by linarith
  have u: "unat (ucast w :: 64 word) = unat w" for w :: "16 word"
  proof -
    have "unat w < 65536" using unsigned_less [of w] by simp
    then show ?thesis by (simp add: unsigned_ucast_eq take_bit_nat_eq_self)
  qed
  have "unat (ucast ?W - 4 - 8 :: 64 word) = unat ?W - 12"
    using B(1) u [of ?W] by (simp add: unat_sub_if_size word_size)
  then have "\<not> (ucast (btr_phys_index_size x) :: 64 word) > ucast ?W - 4 - 8"
    using i le(2) B(1) by (simp add: word_less_nat_alt u)
  moreover have "\<not> btr_phys_size x > ?W" using x le(1) B(1) by (simp add: word_less_nat_alt)
  ultimately show ?thesis unfolding bt_too_big_def W by blast
qed

lemma same_blocks_open:
  assumes t: "btree_open t bt" and bt': "bt_good {} bt'" "bt_frame bt bt'" "bt_refs bt' = bt_refs bt" "bt_view bt' 0 = bt_view bt 0"
    and step: "blk_step smp (tblocks t) (tblocks t @ L) (bt_view bt) (bt_view bt')" "bt_view bt 0 = SmBlk smp"
    and same: "\<forall>k\<in>owned smp (bt_view bt). bt_view bt' k = bt_view bt k"
  shows "btree_open t bt'" "bt_only bt \<longrightarrow> bt_only bt'" "bt_free bt' + length L = bt_free bt"
proof -
  obtain smp' where s: "tree_state bt smp' (tptr t) (of_nat (length (tblocks t))) None None t" "smp_rblkno smp' = tptr t"
    "bt_view bt 0 = SmBlk smp'" by (rule btree_openE [OF t])
  have "smp' = smp" using s(3) step(2) by simp
  note s = s(1,2) [unfolded this]
  note T = tree_stateD [OF s(1)] and F = bt_frameD [OF bt'(2)]
  have own: "k \<in> owned smp (bt_view bt')" if "k \<in> owned smp (bt_view bt)" for k
    using blk_stepD(3,4) [OF step(1)] that by (cases "k \<in> set (tblocks t)") auto
  have "trep (smp_bsz smp) (bt_view bt') (tptr t) t" by (rule trep_cong [OF T(7)]) (use same T(10) in auto)
  moreover have "root_at (bt_view bt') (tptr t) (of_nat (length (tblocks t)))" using T(4,5) same by (simp add: root_at_def)
  moreover have "space_ready {} bt' smp" by (rule space_ready_frame [OF T(1) bt'(1) blk_stepD(1) [OF step(1)] bt'(2)])
  moreover have "held bt' (bt_root bt') (tptr t)" using T(3) F(2,5) by simp
  ultimately have "tree_state bt' smp (tptr t) (of_nat (length (tblocks t))) None None t"
    unfolding tree_state_def F(1) using T(2,5,6,8-11) own by blast
  then show "btree_open t bt'" unfolding btree_open_def using s(2) by blast
  show "bt_only bt \<longrightarrow> bt_only bt'" by (simp add: bt_only_def bt'(3) F(2,3))
  show "bt_free bt' + length L = bt_free bt" using blk_stepD(5) [OF step(1)] step(2) bt'(4) by (simp add: bt_free_def)
qed

lemma bt_insert_open:
  assumes t: "btree_open t bt" and x: "small_rec (bt_bsz bt) x" and room: "bt_room (Suc (theight t)) bt"
    and free: "2 * theight t + 2 \<le> bt_free bt" and depth: "theight t + 2 \<le> depth"
  obtains bt' where "\<exists>y\<in>set (trecs t). bt_cmp bt x y = 0" "bt_insert depth x bt = Fail EEXIST bt'" "btree_open t bt'" "bt_only bt \<longrightarrow> bt_only bt'"
      "bt_free bt \<le> bt_free bt' + 1" "bt_cmp bt' = bt_cmp bt" "bt_cap bt' = bt_cap bt" "bt_bsz bt' = bt_bsz bt" "bt_reserve bt' = bt_reserve bt"
  | bt' t' where "\<forall>y\<in>set (trecs t). bt_cmp bt x y \<noteq> 0" "bt_insert depth x bt = Done () bt'" "btree_open t' bt'" "bt_only bt \<longrightarrow> bt_only bt'"
      "trecs t' = ins_by (bt_cmp bt) x (trecs t)" "theight t' \<le> Suc (theight t)"
      "bt_free bt' + length (tblocks t') = bt_free bt + length (tblocks t)" "bt_cmp bt' = bt_cmp bt" "bt_cap bt' = bt_cap bt" "bt_bsz bt' = bt_bsz bt"
      "bt_reserve bt' = bt_reserve bt" "bt_free bt \<le> bt_free bt' + (2 * theight t + 2)"
proof -
  obtain smp where s: "tree_state bt smp (tptr t) (of_nat (length (tblocks t))) None None t" "smp_rblkno smp = tptr t"
    "bt_view bt 0 = SmBlk smp" "bt_bsz bt = smp_bsz smp" "bt_free bt = free_blocks smp (bt_view bt)" by (rule btree_openE [OF t])
  note T = tree_stateD [OF s(1)]
  have x': "small_rec (smp_bsz smp) x" using x s(4) by simp
  have P: "ins_post smp (tptr t) (of_nat (length (tblocks t))) None None x t bt (bt_insert_node depth (bt_root bt) x bt)"
    by (rule bt_insert_node_ok [OF s(1) room free [unfolded s(5)] T(3) _ _ depth x']) simp_all
  note big = bt_not_too_big [OF T(13,16) s(3) T(15) x']
  show thesis
  proof (cases "\<exists>y\<in>set (trecs t). bt_cmp bt x y = 0")
    case True
    with P obtain bt' L where f: "bt_insert_node depth (bt_root bt) x bt = Fail EEXIST bt'" "bt_good {} bt'" "length L \<le> 1"
      "bt_refs bt' = bt_refs bt" "bt_frame bt bt'" "blk_step smp (tblocks t) (tblocks t @ L) (bt_view bt) (bt_view bt')"
      "\<forall>k\<in>owned smp (bt_view bt). bt_view bt' k = bt_view bt k" unfolding ins_post_def by auto
    have "bt_view bt' 0 = bt_view bt 0" using space_okD(1) [OF blk_stepD(1) [OF f(6)]] s(3) by simp
    note I = same_blocks_open [OF t f(2,5,4) this f(6) s(3) f(7)]
    have "bt_insert depth x bt = Fail EEXIST bt'" using big f(1) by (simp add: bt_insert_def)
    then show thesis by (rule that(1) [OF True _ I(1,2) _ bt_frameD(1,4) [OF f(5)]])
      (use I(3) f(3) \<open>bt_view bt' 0 = bt_view bt 0\<close> in \<open>simp_all add: bt_bsz_def bt_reserve_def\<close>)
  next
    case False
    then have new: "\<forall>y\<in>set (trecs t). bt_cmp bt x y \<noteq> 0" by blast
    from P False obtain bsi bt1 u where f: "bt_insert_node depth (bt_root bt) x bt = Done bsi bt1"
      and d: "ins_done smp (tptr t) (of_nat (length (tblocks t))) None None x t bt bsi bt1 u" unfolding ins_post_def by auto
    have D: "bt_good {} bt1" "bt_refs bt1 = bt_refs bt" "bt_frame bt bt1" "up_recs u = ins_by (bt_cmp bt) x (trecs t)" "up_height u \<le> theight t"
      "blk_step smp (tblocks t) (up_blocks u) (bt_view bt) (bt_view bt1)" "length (up_blocks u) \<le> length (tblocks t) + (2 * theight t + 1)"
      "distinct (up_blocks u)"
      using d by (simp_all add: ins_done_def)
    note F = bt_frameD [OF D(3)]
    show thesis
    proof (cases u)
      case (Same t')
      have E: "bsi_split_index1 bsi = None" "tptr t' = tptr t" "trep (smp_bsz smp) (bt_view bt1) (tptr t) t'" "tord (bt_cmp bt) None None t'"
        "root_at (bt_view bt1) (tptr t) (of_nat (length (tblocks t')))"
        using d Same by (simp_all add: ins_done_def)
      have t'G: "t' \<noteq> Gone" using E(2) T(5) by (auto simp: owned_def data_block_def)
      have view: "bt_view bt1 0 = SmBlk smp" using space_okD(1) [OF blk_stepD(1) [OF D(6)]] .
      have own: "set (tblocks t') \<subseteq> owned smp (bt_view bt1)" using blk_stepD(3) [OF D(6)] Same by simp
      have "space_ready {} bt1 smp" by (rule space_ready_frame [OF T(1) D(1) blk_stepD(1) [OF D(6)] D(3)])
      moreover have "held bt1 (bt_root bt1) (tptr t')" using T(3) F(2,5) E(2) by simp
      ultimately have "tree_state bt1 smp (tptr t') (of_nat (length (tblocks t'))) None None t'"
        unfolding tree_state_def F(1) using T(2) E t'G own tptr_in [OF t'G] D(8) Same by auto
      then have inv: "btree_open t' bt1" unfolding btree_open_def using s(2) E(2) by metis
      have only: "bt_only bt \<longrightarrow> bt_only bt1" by (simp add: bt_only_def D(2) F(2,3))
      have "bt_insert depth x bt = Done () bt1" using big f E(1) by (simp add: bt_insert_def bsi_did_split_def)
      then show thesis
        by (rule that(2) [OF new _ inv only])
          (use D(4,5,7) Same blk_stepD(5) [OF D(6)] s(3-5) view F in \<open>simp_all add: bt_free_def bt_bsz_def bt_reserve_def\<close>)
    next
      case (Up t1 sep t2)
      have did: "bsi_did_split bsi" using d Up by (simp add: ins_done_def bsi_did_split_def)
      have "0 < free_blocks smp (bt_view bt1)" using blk_stepD(5) [OF D(6)] D(7) free s(5) by linarith
      moreover have "bt_room 1 bt" by (rule bt_room_mono [OF room]) simp
      ultimately obtain bt' t' where n: "bt_new_root depth bsi bt1 = Done no_split bt'" "btree_open t' bt'" "bt_only bt \<longrightarrow> bt_only bt'" "trecs t' = ins_by (bt_cmp bt) x (trecs t)"
        "theight t' \<le> Suc (theight t)" "bt_free bt' + length (tblocks t') = free_blocks smp (bt_view bt) + length (tblocks t)"
        "bt_cmp bt' = bt_cmp bt" "bt_cap bt' = bt_cap bt" "bt_bsz bt' = bt_bsz bt" "bt_reserve bt' = bt_reserve bt"
        "length (tblocks t') \<le> length (tblocks t) + (2 * theight t + 2)"
        using bt_new_root_ok [OF s(1,2) _ d [unfolded Up], of depth] by blast
      have "bt_insert depth x bt = Done () bt'"
        using big f did n(1) by (simp add: bt_insert_def) (simp add: bsi_did_split_def no_split_def)
      then show thesis by (rule that(2) [OF new _ n(2-5) _ n(7-10)]) (use n(6,11) s(5) in simp_all)
    qed
  qed
qed

text \<open>The same of a tree that holds nothing of the cache but its root and space manager.\<close>

lemma bt_insert_result:
  assumes t: "btree_inv t bt" and x: "small_rec (bt_bsz bt) x" and room: "theight t + 3 \<le> bt_cap bt"
    and free: "2 * theight t + 2 \<le> bt_free bt" and depth: "theight t + 2 \<le> depth"
  obtains bt' where "\<exists>y\<in>set (trecs t). bt_cmp bt x y = 0" "bt_insert depth x bt = Fail EEXIST bt'" "btree_inv t bt'"
      "bt_free bt \<le> bt_free bt' + 1"
  | bt' t' where "\<forall>y\<in>set (trecs t). bt_cmp bt x y \<noteq> 0" "bt_insert depth x bt = Done () bt'" "btree_inv t' bt'"
      "trecs t' = ins_by (bt_cmp bt) x (trecs t)" "theight t' \<le> Suc (theight t)"
      "bt_free bt' + length (tblocks t') = bt_free bt + length (tblocks t)"
proof -
  have o: "btree_open t bt" "bt_only bt" using t by (simp_all add: btree_inv_iff)
  have "bt_room (Suc (theight t)) bt" by (rule open_room [OF o(2) [unfolded bt_only_def]]) (use room in simp)
  from bt_insert_open [OF o(1) x this free depth] show thesis
    by (rule; use o(2) that in \<open>simp add: btree_inv_iff\<close>)
qed

section \<open>Lookup and removal\<close>

text \<open>Nothing but the cache changed.\<close>

lemma btree_open_same:
  assumes "btree_open t bt" "bt_good {} bt'" "bt_view bt' = bt_view bt" "bt_frame bt bt'"
  shows "btree_open t bt'" "bt_free bt' = bt_free bt"
proof -
  obtain smp where s: "tree_state bt smp (tptr t) (of_nat (length (tblocks t))) None None t" "smp_rblkno smp = tptr t"
    by (rule btree_openE [OF assms(1)])
  show "btree_open t bt'"
    unfolding btree_open_def using tree_state_same [OF s(1) assms(2,3,4)] s(2) by blast
  show "bt_free bt' = bt_free bt" by (simp only: bt_free_def assms(3))
qed

lemma bt_only_frame: "bt_refs bt' = bt_refs bt \<Longrightarrow> bt_frame bt bt' \<Longrightarrow> bt_only bt' \<longleftrightarrow> bt_only bt"
  by (simp add: bt_only_def bt_frameD(2,3))

lemma btree_inv_same:
  assumes "btree_inv t bt" "bt_good {} bt'" "bt_view bt' = bt_view bt" "bt_refs bt' = bt_refs bt" "bt_frame bt bt'"
  shows "btree_inv t bt'" "bt_free bt' = bt_free bt"
  using assms btree_open_same [OF _ assms(2,3,5)] bt_only_frame [OF assms(4,5)] by (auto simp: btree_inv_iff)

lemma bt_find_open:
  assumes t: "btree_open t bt" and room: "bt_room (theight t) bt" and depth: "theight t < depth"
  shows "find_post {} t x bt (bt_find depth x bt)"
proof -
  obtain smp where s: "tree_state bt smp (tptr t) (of_nat (length (tblocks t))) None None t" by (rule btree_openE [OF t])
  note T = tree_stateD [OF s(1)]
  show ?thesis unfolding bt_find_def by (rule bt_find_node_ok [OF T(13) room T(3,6,7,8,12) _ _ depth]) simp_all
qed

lemma bt_find_result:
  assumes t: "btree_inv t bt" and room: "theight t + 2 \<le> bt_cap bt" and depth: "theight t < depth"
  shows "find_post {} t x bt (bt_find depth x bt)"
proof -
  have o: "btree_open t bt" "bt_only bt" using t by (simp_all add: btree_inv_iff)
  show ?thesis by (rule bt_find_open [OF o(1) open_room [OF o(2) [unfolded bt_only_def] room] depth])
qed

lemma bt_remove_open:
  assumes t: "btree_open t bt" and room: "bt_room (Suc (theight t)) bt" and depth: "theight t < depth"
    and smp: "bt_view bt 0 = SmBlk smp" and full: "no_full smp (bt_view bt)"
  obtains bt' where "\<forall>y\<in>set (trecs t). bt_cmp bt x y \<noteq> 0" "bt_remove depth x bt = Fail ENOENT bt'" "btree_open t bt'" "bt_only bt \<longrightarrow> bt_only bt'"
      "bt_view bt' = bt_view bt" "bt_cmp bt' = bt_cmp bt" "bt_cap bt' = bt_cap bt"
  | bt' t' where "\<exists>y\<in>set (trecs t). bt_cmp bt x y = 0" "bt_remove depth x bt = Done () bt'" "btree_open t' bt'" "bt_only bt \<longrightarrow> bt_only bt'"
      "trecs t' = del_by (bt_cmp bt) x (trecs t)" "theight t' \<le> theight t"
      "bt_free bt' + length (tblocks t') = bt_free bt + length (tblocks t)" "bt_cmp bt' = bt_cmp bt" "bt_cap bt' = bt_cap bt" "bt_bsz bt' = bt_bsz bt"
      "bt_reserve bt' = bt_reserve bt" "bt_free bt \<le> bt_free bt'"
proof -
  obtain smp' where s: "tree_state bt smp' (tptr t) (of_nat (length (tblocks t))) None None t" "smp_rblkno smp' = tptr t"
    "bt_view bt 0 = SmBlk smp'" by (rule btree_openE [OF t])
  have "smp' = smp" using s(3) smp by simp
  note s = s(1,2) [unfolded this]
  note T = tree_stateD [OF s(1)]
  have P: "rem_post smp (tptr t) (of_nat (length (tblocks t))) None None x t bt (bt_remove depth x bt)"
    unfolding bt_remove_def by (rule bt_remove_node_ok [OF s(1) full room T(3) _ _ depth]) simp_all
  show thesis
  proof (cases "\<exists>y\<in>set (trecs t). bt_cmp bt x y = 0")
    case False
    with P obtain bt' where f: "bt_remove depth x bt = Fail ENOENT bt'" "bt_good {} bt'" "bt_view bt' = bt_view bt" "bt_refs bt' = bt_refs bt"
      "bt_frame bt bt'" unfolding rem_post_def by auto
    have "\<forall>y\<in>set (trecs t). bt_cmp bt x y \<noteq> 0" using False by blast
    then show thesis by (rule that(1) [OF _ f(1) btree_open_same(1) [OF t f(2,3,5)] _ f(3) bt_frameD(1,4) [OF f(5)]])
        (simp add: bt_only_frame [OF f(4,5)])
  next
    case True
    with P obtain bt' t' where f: "bt_remove depth x bt = Done () bt'"
      and d: "rem_done smp (tptr t) (of_nat (length (tblocks t))) None None x t bt bt' t'" unfolding rem_post_def by auto
    have D: "bt_good {} bt'" "bt_refs bt' = bt_refs bt" "bt_frame bt bt'" "trep (smp_bsz smp) (bt_view bt') (tptr t) t'"
      "tord (bt_cmp bt) None None t'" "distinct (tblocks t')" "tptr t' = tptr t" "trecs t' = del_by (bt_cmp bt) x (trecs t)" "theight t' \<le> theight t"
      "blk_step smp (tblocks t) (tblocks t') (bt_view bt) (bt_view bt')" "root_at (bt_view bt') (tptr t) (of_nat (length (tblocks t')))"
      "set (tblocks t') \<subseteq> set (tblocks t)"
      using d by (simp_all add: rem_done_def)
    note F = bt_frameD [OF D(3)]
    have t'G: "t' \<noteq> Gone" using D(7) T(5) by (auto simp: owned_def data_block_def)
    have view: "bt_view bt' 0 = SmBlk smp" using space_okD(1) [OF blk_stepD(1) [OF D(10)]] .
    have "space_ready {} bt' smp" by (rule space_ready_frame [OF T(1) D(1) blk_stepD(1) [OF D(10)] D(3)])
    moreover have "held bt' (bt_root bt') (tptr t')" using T(3) F(2,5) D(7) by simp
    ultimately have "tree_state bt' smp (tptr t') (of_nat (length (tblocks t'))) None None t'"
      unfolding tree_state_def F(1) using T(2) D t'G blk_stepD(3) [OF D(10)] tptr_in [OF t'G] by auto
    then have inv: "btree_open t' bt'" unfolding btree_open_def using s(2) D(7) by metis
    have only: "bt_only bt \<longrightarrow> bt_only bt'" by (simp add: bt_only_frame [OF D(2,3)])
    have "length (tblocks t') \<le> length (tblocks t)"
      using card_mono [OF finite_set D(12)] distinct_card [OF D(6)] distinct_card [OF T(9)] by simp
    note len = this
    show thesis
      by (rule that(2) [OF True f inv only D(8,9)]) (use len blk_stepD(5) [OF D(10)] smp view F in \<open>simp_all add: bt_free_def bt_bsz_def bt_reserve_def\<close>)
  qed
qed

lemma bt_remove_result:
  assumes t: "btree_inv t bt" and room: "theight t + 3 \<le> bt_cap bt" and depth: "theight t < depth"
    and smp: "bt_view bt 0 = SmBlk smp" and full: "no_full smp (bt_view bt)"
  obtains bt' where "\<forall>y\<in>set (trecs t). bt_cmp bt x y \<noteq> 0" "bt_remove depth x bt = Fail ENOENT bt'" "btree_inv t bt'"
      "bt_view bt' = bt_view bt"
  | bt' t' where "\<exists>y\<in>set (trecs t). bt_cmp bt x y = 0" "bt_remove depth x bt = Done () bt'" "btree_inv t' bt'"
      "trecs t' = del_by (bt_cmp bt) x (trecs t)" "theight t' \<le> theight t"
      "bt_free bt' + length (tblocks t') = bt_free bt + length (tblocks t)"
proof -
  have o: "btree_open t bt" "bt_only bt" using t by (simp_all add: btree_inv_iff)
  have "bt_room (Suc (theight t)) bt" by (rule open_room [OF o(2) [unfolded bt_only_def]]) (use room in simp)
  from bt_remove_open [OF o(1) this depth smp full, of x] show thesis
    by (rule; use o(2) that in \<open>simp add: btree_inv_iff\<close>)
qed

end
