(* ===== verification/BtreeLife.thy ===== *)
theory BtreeLife
  imports BtreeDict
begin

text \<open>
  The life of a B-tree: what closing leaves in the file, what opening finds there, and a tree that a
  failed lookup leaves open for good.
\<close>

section \<open>Flushing\<close>

lemma bc_write_out_frame:
  assumes "bc_write_out b st = Done () st'"
  shows "bc_refs (fst st') = bc_refs (fst st)" "bl_blkno (bc_blocks (fst st') x) = bl_blkno (bc_blocks (fst st) x)"
    "bc_maxsz (fst st') = bc_maxsz (fst st)" "bc_blksz (fst st') = bc_blksz (fst st)" "calm (snd st) \<Longrightarrow> calm (snd st')"
proof -
  obtain bc env where st: "st = (bc, env)" by (cases st)
  obtain ok env1 where w: "env_pwrite (bl_blkno (bc_blocks bc b)) (bl_phys (bc_blocks bc b)) env = (ok, env1)" by fastforce
  let ?bc = "bc_stat (\<lambda>s. s\<lparr>bcs_writes := bcs_writes s + 1\<rparr>) (bc_upd b (\<lambda>x. x\<lparr>bl_dirty := False\<rparr>) bc)\<lparr>bc_dl := remove1 b (bc_dl bc)\<rparr>"
  have st': "st' = (?bc, env1)" using assms w by (auto simp: bc_write_out_def st split: if_splits)
  show "bc_refs (fst st') = bc_refs (fst st)" by (auto simp: st st' bc_refs_def fun_eq_iff)
  show "bl_blkno (bc_blocks (fst st') x) = bl_blkno (bc_blocks (fst st) x)" "bc_maxsz (fst st') = bc_maxsz (fst st)"
    "bc_blksz (fst st') = bc_blksz (fst st)" by (simp_all add: st st')
  show "calm (snd st) \<Longrightarrow> calm (snd st')" using w by (auto simp: st st' calm_def env_pwrite_def)
qed

lemma bc_flush_loop_frame:
  assumes "bc_flush_loop bs st = Done () st'"
  shows "bc_refs (fst st') = bc_refs (fst st) \<and> (\<forall>x. bl_blkno (bc_blocks (fst st') x) = bl_blkno (bc_blocks (fst st) x))
    \<and> bc_maxsz (fst st') = bc_maxsz (fst st) \<and> bc_blksz (fst st') = bc_blksz (fst st) \<and> (calm (snd st) \<longrightarrow> calm (snd st'))"
  using assms
proof (induction bs arbitrary: st)
  case (Cons b bs)
  then obtain st1 where w: "bc_write_out b st = Done () st1" "bc_flush_loop bs st1 = Done () st'"
    by (auto split: if_splits outcome.splits)
  from Cons.IH [OF w(2)] bc_write_out_frame [OF w(1)] show ?case by simp
qed simp

lemma bc_flush_loop_calm: "calm (snd st) \<Longrightarrow> bc_flush_loop bs st \<noteq> Fail e st'"
proof (induction bs arbitrary: st)
  case (Cons b bs)
  obtain bc env where st: "st = (bc, env)" by (cases st)
  have "calm env" using Cons.prems by (simp add: st)
  from calm_write_out [OF this] obtain bc1 env1 where w: "bc_write_out b (bc, env) = Done () (bc1, env1)" "calm env1" by blast
  with Cons.IH [of "(bc1, env1)"] show ?case by (simp add: st)
qed simp

lemma bt_flush_ok:
  assumes good: "bt_good {} bt"
  obtains bt' where "bt_cache_op bc_flush bt = Done () bt'" "bt_good {} bt'" "bt_view bt' = bt_view bt" "bt_refs bt' = bt_refs bt"
    "bt_frame bt bt'" "env_disk (snd (bt_bc bt')) = bt_view bt"
proof -
  obtain bc env where st: "bt_bc bt = (bc, env)" by (cases "bt_bc bt")
  note G = bt_goodD [OF good st]
  have ok: "bc_ok (bc, env)" using G(1-3) by (simp add: bc_ok_def)
  have calm: "calm (snd (bc, env))" using G(4) by simp
  obtain st' where f: "bc_ok st'" "st_view st' = st_view (bc, env)" "bc_flush_loop (bc_dl bc) (bc, env) = Done () st'" "bc_dl (fst st') = []"
    using bc_flush_loop_correct [OF ok, of "bc_dl bc"] bc_flush_loop_calm [OF calm, of "bc_dl bc"] by auto
  obtain bc1 env1 where st': "st' = (bc1, env1)" by (cases st')
  have F: "bc_refs bc1 = bc_refs bc" "bl_blkno (bc_blocks bc1 x) = bl_blkno (bc_blocks bc x)" "bc_maxsz bc1 = bc_maxsz bc"
    "bc_blksz bc1 = bc_blksz bc" "calm env1" for x
    using bc_flush_loop_frame [OF f(3)] calm unfolding st' by simp_all
  obtain env2 where s: "env_fsync env1 = (None, env2)" "calm env2" "env_disk env2 = env_disk env1"
    using F(5) by (simp add: env_fsync_def calm_def)
  let ?bc = "bc_stat (\<lambda>s. s\<lparr>bcs_flushes := bcs_flushes s + 1\<rparr>) bc1" and ?bt = "bt\<lparr>bt_bc := (bc_stat (\<lambda>s. s\<lparr>bcs_flushes := bcs_flushes s + 1\<rparr>) bc1, env2)\<rparr>"
  have flush: "bc_flush (bc, env) = Done () (?bc, env2)" using f(3) s(1) by (simp add: bc_flush_def st')
  have ok': "bc_ok (?bc, env2)" using bc_flush_correct [OF ok] flush by auto
  have v: "st_view (?bc, env2) = st_view (bc, env)" using bc_flush_correct [OF ok] flush by auto
  have "bc_dl (fst (?bc, env2)) = []" using f(4) st' by simp
  note disk = bc_no_dirty [OF ok' this]
  have refs: "bt_refs ?bt = bt_refs bt" using F(1) by (simp add: bt_refs_def st bc_refs_def fun_eq_iff bc_ids_def)
  show thesis
  proof (rule that [of ?bt])
    show "bt_cache_op bc_flush bt = Done () ?bt" using flush by (simp add: bt_cache_op_def st)
    show "bt_good {} ?bt" using ok' s(2) by (simp add: bt_good_def bc_ok_def)
    show view: "bt_view ?bt = bt_view bt" using v by (simp add: bt_view_def st)
    show "bt_frame bt ?bt" using refs F(2-4) by (simp add: bt_frame_def bt_blkno_def bt_cap_def st)
    show "env_disk (snd (bt_bc ?bt)) = bt_view bt" using disk v by (simp add: bt_view_def st)
  qed (rule refs)
qed

section \<open>Closing\<close>

lemma bc_destroy_loop_iff: "(\<exists>w'. bc_destroy_loop xs w = Some w') \<longleftrightarrow> (\<forall>x\<in>set xs. bl_refcnt x = 0)"
  by (induction xs arbitrary: w) auto

lemma bc_destroy_iff:
  assumes "bc_lists_ok bc"
  shows "(\<exists>w'. bc_destroy bc w = Some w') \<longleftrightarrow> (\<forall>b. bc_refs bc b = 0)"
proof -
  have "bc_cached bc = concat (bc_ht bc)" using bc_lists_okD(2) [OF assms] by (simp add: bc_cached_def)
  then show ?thesis by (auto simp: bc_destroy_def bc_destroy_loop_iff bc_refs_def bc_ids_def)
qed

text \<open>A tree can be closed when nothing but its root and its space manager is held, once each.\<close>

lemma bt_close_result:
  assumes good: "bt_good {} bt" and held: "0 < bt_refs bt (bt_root bt)" "0 < bt_refs bt (bt_sm bt)" "bt_root bt \<noteq> bt_sm bt"
  obtains bt' where "bt_close bt = (if \<forall>b. bt_refs bt b = (if b = bt_root bt \<or> b = bt_sm bt then 1 else 0) then Done () bt' else Abort)"
    "calm (snd (bt_bc bt'))" "env_disk (snd (bt_bc bt')) = bt_view bt"
proof -
  obtain bt1 where f: "bt_cache_op bc_flush bt = Done () bt1" "bt_good {} bt1" "bt_view bt1 = bt_view bt" "bt_refs bt1 = bt_refs bt"
    "bt_frame bt bt1" "env_disk (snd (bt_bc bt1)) = bt_view bt" by (rule bt_flush_ok [OF good])
  note F = bt_frameD [OF f(5)]
  obtain bt2 where r: "bt_release (bt_root bt1) bt1 = Done () bt2" "bt_good {} bt2" "bt_view bt2 = bt_view bt1"
    "bt_refs bt2 = (bt_refs bt1)(bt_root bt1 := bt_refs bt1 (bt_root bt1) - 1)" "bt_sm bt2 = bt_sm bt1"
    by (rule bt_release_ok [OF f(2), of "bt_root bt1"]) (use held f(4) F(2) in auto)
  have sm2: "0 < bt_refs bt2 (bt_sm bt2)" using r(4,5) held(2,3) F(2,3) f(4) by simp
  obtain bt3 where s: "bt_release (bt_sm bt2) bt2 = Done () bt3" "bt_good {} bt3" "bt_view bt3 = bt_view bt2"
    "bt_refs bt3 = (bt_refs bt2)(bt_sm bt2 := bt_refs bt2 (bt_sm bt2) - 1)"
    by (rule bt_release_ok [OF r(2) sm2]) auto
  have disk: "env_disk (snd (bt_bc bt3)) = env_disk (snd (bt_bc bt1))"
    using r(1) s(1) by (auto simp: bt_release_def bt_cache_op_def bc_release_def Let_def split: prod.splits if_splits)
  have refs3: "(\<forall>b. bt_refs bt3 b = 0) \<longleftrightarrow> (\<forall>b. bt_refs bt b = (if b = bt_root bt \<or> b = bt_sm bt then 1 else 0))"
    unfolding s(4) r(4,5) f(4) F(2,3) using held by (auto simp: fun_upd_def)
  obtain bc env where st: "bt_bc bt3 = (bc, env)" by (cases "bt_bc bt3")
  note G = bt_goodD [OF s(2) st]
  have d: "(\<exists>w'. bc_destroy bc () = Some w') \<longleftrightarrow> (\<forall>b. bt_refs bt3 b = 0)"
    using bc_destroy_iff [OF G(1)] by (simp add: bt_refs_def st)
  have "bt_close bt = (case bc_destroy (fst (bt_bc bt3)) () of None \<Rightarrow> Abort | Some w \<Rightarrow> Done () bt3)"
    using f(1) r(1) s(1) by (simp add: bt_close_def)
  with d refs3 have "bt_close bt = (if \<forall>b. bt_refs bt b = (if b = bt_root bt \<or> b = bt_sm bt then 1 else 0) then Done () bt3 else Abort)"
    by (cases "bc_destroy bc ()") (simp_all add: st)
  then show thesis by (rule that) (use G(4) st disk f(6) in simp_all)
qed

section \<open>Opening\<close>

text \<open>The tree in a file, and a cache that is large enough to open it and small enough to count in 32 bits.\<close>

definition disk_tree :: "(btr_phys \<Rightarrow> btr_phys \<Rightarrow> int) \<Rightarrow> sm_phys \<Rightarrow> (nat \<Rightarrow> bt_block) \<Rightarrow> btt \<Rightarrow> bool" where
  "disk_tree cmp smp V t \<longleftrightarrow> space_ok smp V \<and> bsz_ok (smp_bsz smp) \<and> total_cmp cmp \<and> key_cmp cmp \<and> smp_rblkno smp = tptr t
     \<and> t \<noteq> Gone \<and> trep (smp_bsz smp) V (tptr t) t \<and> tord cmp None None t \<and> distinct (tblocks t) \<and> set (tblocks t) \<subseteq> owned smp V
     \<and> root_at V (tptr t) (of_nat (length (tblocks t)))"

definition cache_sizes_ok :: "sm_phys \<Rightarrow> bool" where
  "cache_sizes_ok smp \<longleftrightarrow> 24 \<le> smp_nblocks smp \<and> smp_nblocks smp * unat (smp_bsz smp) div 8 + unat (smp_bsz smp) < 2 ^ 32"

lemma btree_inv_disk: "btree_inv t bt \<Longrightarrow> \<exists>smp. bt_view bt 0 = SmBlk smp \<and> disk_tree (bt_cmp bt) smp (bt_view bt) t"
  by (erule btree_invE) (auto simp: disk_tree_def dest: tree_stateD)

lemma bt_sm_upd [simp]:
  "bt_view (bt\<lparr>bt_sm := b\<rparr>) = bt_view bt" "bt_refs (bt\<lparr>bt_sm := b\<rparr>) = bt_refs bt" "bt_good U (bt\<lparr>bt_sm := b\<rparr>) = bt_good U bt"
  "bt_blkno (bt\<lparr>bt_sm := b\<rparr>) = bt_blkno bt" "bt_cap (bt\<lparr>bt_sm := b\<rparr>) = bt_cap bt" "held (bt\<lparr>bt_sm := b\<rparr>) c n = held bt c n"
  "bt_room k (bt\<lparr>bt_sm := b\<rparr>) = bt_room k bt"
  by (simp_all add: bt_view_def bt_refs_def bt_good_def bt_blkno_def bt_cap_def held_def bt_room_def fun_eq_iff)

lemma cache_sizes:
  assumes "bsz_ok bsz" "cache_sizes_ok smp" "bsz = smp_bsz smp"
  defines "maxsz \<equiv> word_of_nat (smp_nblocks smp * unat bsz div 8) :: 32 word"
  shows "unat (ucast bsz :: 32 word) = unat bsz" "(ucast bsz :: 32 word) \<noteq> 0" "unat maxsz = smp_nblocks smp * unat bsz div 8"
    "unat maxsz + unat bsz < 2 ^ 32" "0 < unat ((maxsz div ucast bsz) * 2)" "unat maxsz div unat bsz = smp_nblocks smp div 8"
proof -
  have b: "82 \<le> unat bsz" "unat bsz \<le> 32768" using assms(1) by (simp_all add: bsz_ok_def)
  have n: "24 \<le> smp_nblocks smp" "smp_nblocks smp * unat bsz div 8 + unat bsz < 2 ^ 32" using assms(2,3) by (simp_all add: cache_sizes_ok_def)
  have "unat bsz < 65536" using b by simp
  then show u: "unat (ucast bsz :: 32 word) = unat bsz" by (simp add: unsigned_ucast_eq take_bit_nat_eq_self)
  then show "(ucast bsz :: 32 word) \<noteq> 0" using b by (auto simp flip: unat_eq_zero)
  show m: "unat maxsz = smp_nblocks smp * unat bsz div 8" using n(2) by (simp add: maxsz_def unat_of_nat take_bit_eq_mod)
  then show "unat maxsz + unat bsz < 2 ^ 32" using n(2) by simp
  have "smp_nblocks smp * unat bsz div 8 div unat bsz = smp_nblocks smp div 8"
    using b by (metis div_mult2_eq mult.commute nonzero_mult_div_cancel_right not_numeral_le_zero)
  then show d: "unat maxsz div unat bsz = smp_nblocks smp div 8" using m by simp
  have "unat (maxsz div ucast bsz) = smp_nblocks smp div 8" using d u by (simp add: unat_div)
  moreover have "smp_nblocks smp div 8 * 2 < 2 ^ 32"
  proof -
    have "smp_nblocks smp div 8 * unat bsz \<le> unat maxsz" using d by (metis div_times_less_eq_dividend)
    moreover have "smp_nblocks smp div 8 * 2 \<le> smp_nblocks smp div 8 * unat bsz" using b by simp
    moreover have "unat maxsz < 2 ^ 32" using m n(2) by simp
    ultimately show ?thesis by linarith
  qed
  ultimately have "unat (maxsz div ucast bsz * 2) = smp_nblocks smp div 8 * 2" by (simp add: unat_word_ariths)
  then show "0 < unat ((maxsz div ucast bsz) * 2)" using n(1) by simp
qed

lemma calm_env: "calm env \<Longrightarrow> env_calm env" "env_calm env \<Longrightarrow> calm env"
  by (simp_all add: calm_def env_calm_def)

lemma sm_get_ok:
  assumes good: "bt_good U bt" and room: "bt_room (Suc k) bt" and sm: "bt_view bt 0 = SmBlk smp"
  obtains b bt' where "sm_get bt = Done b bt'" "bt_good U bt'" "bt_view bt' = bt_view bt"
    "bt_refs bt' = (bt_refs bt)(b := bt_refs bt b + 1)" "held bt' b 0" "bt_frame bt bt'" "bt_room k bt'"
proof -
  obtain b bco bt' where g: "bt_cache_op (bc_get 0 sm_bco_ops) bt = Done (b, bco) bt'" "bt_good U bt'"
    "bt_view bt' = bt_view bt" "bt_refs bt' = (bt_refs bt)(b := bt_refs bt b + 1)" "held bt' b 0"
    "bt_frame bt bt'" "bt_room k bt'"
    by (rule bt_get_ok [OF good room, of sm_bco_ops 0]) simp_all
  have "bt_phys bt' b = SmBlk smp" using held_phys [OF g(2,5)] g(3) sm by simp
  with g show thesis by (intro that [of b bt']) (simp_all add: sm_get_def)
qed

text \<open>The cache over the file, before anything is read through it.\<close>

lemma bc_create_calm:
  assumes "never_fails m" "blksz \<noteq> 0" "0 < unat ((maxsz div blksz) * 2)" "unat maxsz + unat blksz < 2 ^ 32"
  obtains bc m' where "bc_create mem True blksz maxsz m = Done (Some bc) m'" "never_fails m'" "bc_maxsz bc = maxsz" "bc_blksz bc = blksz"
    "0 < bc_nbuckets bc" "bc_ids bc = {}"
proof -
  obtain m1 where 1: "malloc m = (True, m1)" "never_fails m1" using malloc_ok [OF assms(1)] by blast
  obtain m2 where 2: "malloc m1 = (True, m2)" "never_fails m2" using malloc_ok [OF 1(2)] by blast
  obtain m3 where 3: "malloc m2 = (True, m3)" "never_fails m3" using malloc_ok [OF 2(2)] by blast
  show thesis
    by (rule that [where m' = m3]) (use 1 2 3 assms(2,3) in \<open>auto simp: bc_create_def Let_def bc_nbuckets_def bc_ids_def\<close>)
qed

lemma bt_open_ok:
  assumes disk: "disk_tree cmp smp (env_disk env) t" and sizes: "cache_sizes_ok smp" and calm: "calm env"
  obtains bt env' where "bt_open mem None True None cmp env = Done bt env'" "btree_inv t bt" "bt_view bt = env_disk env" "bt_cmp bt = cmp"
    "bt_cap bt = smp_nblocks smp div 8"
proof -
  have D: "space_ok smp (env_disk env)" "bsz_ok (smp_bsz smp)" "total_cmp cmp" "key_cmp cmp" "smp_rblkno smp = tptr t" "t \<noteq> Gone"
    "trep (smp_bsz smp) (env_disk env) (tptr t) t" "tord cmp None None t" "distinct (tblocks t)" "set (tblocks t) \<subseteq> owned smp (env_disk env)"
    "root_at (env_disk env) (tptr t) (of_nat (length (tblocks t)))"
    using disk by (simp_all add: disk_tree_def)
  note Z = cache_sizes [OF D(2) sizes refl]
  let ?bsz = "ucast (smp_bsz smp) :: 32 word" and ?maxsz = "word_of_nat (smp_nblocks smp * unat (smp_bsz smp) div 8) :: 32 word"
  obtain env1 where e1: "env_alloc env = Done () env1" "env_calm env1" "env_disk env1 = env_disk env" by (rule env_alloc_calm [OF calm_env(1) [OF calm]])
  have rd: "file_read BT_PHYS_SM_OFFSET env1 = Done (SmBlk smp) env1"
    using file_read_calm [OF e1(2), of 0] e1(3) space_okD(1) [OF D(1)] by (simp add: BT_PHYS_SM_OFFSET_def)
  obtain env3 where e3: "env_alloc env1 = Done () env3" "env_calm env3" "env_disk env3 = env_disk env1" by (rule env_alloc_calm [OF e1(2)])
  obtain env4 where e4: "env_alloc env3 = Done () env4" "env_calm env4" "env_disk env4 = env_disk env3" by (rule env_alloc_calm [OF e3(2)])
  have nf: "never_fails (env_mem env4)" using e4(2) by (simp add: env_calm_def)
  have sum: "unat ?maxsz + unat ?bsz < 2 ^ 32" using Z(1,4) by simp
  obtain bc m where c: "bc_create mem True ?bsz ?maxsz (env_mem env4) = Done (Some bc) m" "never_fails m" "bc_maxsz bc = ?maxsz" "bc_blksz bc = ?bsz"
    "0 < bc_nbuckets bc" "bc_ids bc = {}" by (rule bc_create_calm [OF nf Z(2,5) sum])
  have "env_calm (env4\<lparr>env_mem := m\<rparr>)" using e4(2) c(2) by (simp add: env_calm_def)
  then obtain env5 where e5: "env_alloc (env4\<lparr>env_mem := m\<rparr>) = Done () env5" "env_calm env5" "env_disk env5 = env_disk env"
    by (rule env_alloc_calm) (use e4(3) e3(3) e1(3) in simp)
  let ?bt = "\<lparr>bt_cmp = cmp, bt_bc = (bc, env5), bt_root = 0, bt_sm = 0\<rparr>"
  note C = bc_create_ok [OF c(1,5) sum, of env5]
  have good: "bt_good {} ?bt" using C(1) calm_env(2) [OF e5(2)] by (simp add: bt_good_def bc_ok_def)
  have view: "bt_view ?bt = env_disk env" using C(2) e5(3) by (simp add: bt_view_def)
  have refs: "bt_refs ?bt = (\<lambda>b. 0)" using c(6) by (simp add: bt_refs_def bc_refs_def fun_eq_iff)
  have cap: "bt_cap ?bt = smp_nblocks smp div 8" using c(3,4) Z(1,6) by (simp add: bt_cap_def)
  moreover have "3 \<le> smp_nblocks smp div 8" using sizes div_le_mono [of 24 "smp_nblocks smp" 8] by (simp add: cache_sizes_ok_def)
  ultimately have room: "bt_room (Suc 1) ?bt" using refs by (simp add: bt_room_def)
  have sm: "bt_view ?bt 0 = SmBlk smp" using view space_okD(1) [OF D(1)] by simp
  obtain s bt1 where g1: "sm_get ?bt = Done s bt1" "bt_good {} bt1" "bt_view bt1 = bt_view ?bt" "bt_refs bt1 = (bt_refs ?bt)(s := bt_refs ?bt s + 1)"
    "held bt1 s 0" "bt_frame ?bt bt1" "bt_room 1 bt1" by (rule sm_get_ok [OF good room sm])
  note F1 = bt_frameD [OF g1(6)]
  obtain n where n: "env_disk env (tptr t) = NodeBlk n" by (rule trep_node [OF D(7,6)])
  have good1: "bt_good {} (bt1\<lparr>bt_sm := s\<rparr>)" "bt_room (Suc 0) (bt1\<lparr>bt_sm := s\<rparr>)" "bt_view (bt1\<lparr>bt_sm := s\<rparr>) (tptr t) = NodeBlk n"
    using g1(2,3,7) view n by simp_all
  obtain b bt2 where g2: "btn_get (tptr t) None (bt1\<lparr>bt_sm := s\<rparr>) = Done b bt2" "bt_good {} bt2" "bt_view bt2 = bt_view (bt1\<lparr>bt_sm := s\<rparr>)"
    "bt_refs bt2 = (bt_refs (bt1\<lparr>bt_sm := s\<rparr>))(b := bt_refs (bt1\<lparr>bt_sm := s\<rparr>) b + 1)" "held bt2 b (tptr t)" "bt_frame (bt1\<lparr>bt_sm := s\<rparr>) bt2"
    by (rule btn_get_ok [OF good1])
  note F2 = bt_frameD [OF g2(6)]
  let ?bt2 = "bt2\<lparr>bt_root := b\<rparr>"
  have r0: "tptr t \<noteq> 0" using D(7) trep_tptr D(6) by blast
  have sm2: "held bt2 s 0" "bt_sm bt2 = s" using F2(3,5) g1(5) by simp_all
  have bs: "b \<noteq> s" using g2(5) sm2(1) r0 by (auto simp: held_def)
  have v2: "bt_view ?bt2 = env_disk env" using g2(3) g1(3) view by simp
  have cmp2: "bt_cmp ?bt2 = cmp" using F2(1) F1(1) by simp
  have "tptr t \<in> owned smp (env_disk env)" using D(10) tptr_in [OF D(6)] by blast
  then have "tree_state ?bt2 smp (tptr t) (of_nat (length (tblocks t))) None None t"
    unfolding tree_state_def space_ready_def v2 cmp2 using g2(2,5) D sm2 by simp
  moreover have "bt_refs ?bt2 = (\<lambda>x. if x = bt_root ?bt2 \<or> x = bt_sm ?bt2 then 1 else 0)"
    using g2(4) g1(4) refs sm2(2) bs by auto
  ultimately have inv: "btree_inv t ?bt2" unfolding btree_inv_def using D(5) by blast
  have "bt_open mem None True None cmp env = Done ?bt2 (snd (bt_bc bt2))"
    using e1(1) rd e3(1) e4(1) c(1) e5(1) g1(1) g2(1) D(5) by (simp add: bt_open_def)
  then show thesis by (rule that [OF _ inv v2 cmp2]) (use F2(4) F1(4) cap in simp)
qed

end
