(* ===== verification/BtreeRun.thy ===== *)
theory BtreeRun
  imports BtreeLife DictSpec
begin

text \<open>
  Sequences of calls on an open B-tree: what a call needs of the cache and of the file in the state it
  is made in, the B-tree as a dictionary of limited means, and a number of calls that a file has the
  means for in any case.
\<close>

section \<open>The height of a tree in its blocks\<close>

fun view_height :: "nat \<Rightarrow> (nat \<Rightarrow> bt_block) \<Rightarrow> nat \<Rightarrow> nat" where
  "view_height 0 V p = 0"
| "view_height (Suc d) V p =
     (case V p of
        NodeBlk n \<Rightarrow> if p = 0 \<or> btn_phys_is_leaf n then 0 else Suc (Max (set (map (view_height d V) (btn_children n))))
      | _ \<Rightarrow> 0)"

text \<open>The node count in the root's block bounds the height.\<close>

definition bt_height :: "btree \<Rightarrow> nat" where
  "bt_height bt = view_height (case bt_info bt of Some i \<Rightarrow> Suc (unat i) | None \<Rightarrow> 0) (bt_view bt) (bt_blkno bt (bt_root bt))"

lemma trep_children:
  assumes "trep bsz V r (Index p kids)" "V p = NodeBlk n"
  shows "btn_children n = map (\<lambda>k. tptr (snd k)) kids"
proof -
  obtain k ks where kids: "kids = k # ks" using assms(1) by (cases kids) auto
  have "btnp_records n = map fst ks" "btnp_ptr0 n = tptr (snd k)" "\<forall>k\<in>set ks. btr_phys_index_ptr (fst k) = tptr (snd k)"
    using assms by (simp_all add: kids)
  then show ?thesis by (simp add: btn_children_def btn_phys_first_index_record_ptr_def kids)
qed

lemma view_height_trep:
  "trep bsz V r t \<Longrightarrow> V 0 = SmBlk smp \<Longrightarrow> theight t < d \<Longrightarrow> view_height d V (tptr t) = theight t"
proof (induction d arbitrary: t)
  case (Suc d)
  show ?case
  proof (cases t)
    case (Index p kids)
    obtain n where n: "V p = NodeBlk n" "\<not> btn_phys_is_leaf n" using Suc.prems(1) Index by (metis trep_indexE)
    have p: "p \<noteq> 0" using Suc.prems(1) Index by simp
    have kid: "view_height d V (tptr (snd k)) = theight (snd k)" if k: "k \<in> set kids" for k
      by (rule Suc.IH) (use Suc.prems Index k theight_kid [OF k, of p] in auto)
    have "map (view_height d V) (btn_children n) = map (\<lambda>k. theight (snd k)) kids"
      using trep_children [OF Suc.prems(1) [unfolded Index] n(1)] kid by simp
    with Index n p show ?thesis by simp
  qed (use Suc.prems in auto)
qed simp

lemma theight_blocks: "trep bsz V r t \<Longrightarrow> t \<noteq> Gone \<Longrightarrow> theight t \<le> length (tblocks t)"
proof (induction t)
  case (Index p kids)
  show ?case
  proof (cases "kids = []")
    case True
    with Index.prems(1) show ?thesis by simp
  next
    case False
    have kid: "theight (snd k) \<le> length (concat (map (\<lambda>k. tblocks (snd k)) kids))" if k: "k \<in> set kids" for k
    proof (cases "snd k = Gone")
      case False
      have "snd k \<in> Basic_BNFs.snds k" by (cases k) simp
      then have "theight (snd k) \<le> length (tblocks (snd k))" using Index.IH [OF k _ _ False] Index.prems(1) k by auto
      also have "\<dots> \<le> length (concat (map (\<lambda>k. tblocks (snd k)) kids))"
        using k by (auto simp: length_concat intro!: member_le_sum_list)
      finally show ?thesis by simp
    qed simp
    have "theight (Index p kids) \<le> Suc (length (concat (map (\<lambda>k. tblocks (snd k)) kids)))"
      by (rule theight_kids [OF False]) (use kid in blast)
    then show ?thesis by simp
  qed
qed simp_all

lemma bt_height_open:
  assumes "btree_open t bt"
  shows "bt_height bt = theight t"
proof -
  obtain smp where s: "tree_state bt smp (tptr t) (of_nat (length (tblocks t))) None None t" "bt_view bt 0 = SmBlk smp"
    by (rule btree_openE [OF assms])
  note T = tree_stateD [OF s(1)]
  have info: "bt_info bt = Some (of_nat (length (tblocks t)))"
    using T(4) held_phys [OF T(13,3)] by (auto simp: bt_info_def btn_root_info_def root_at_def)
  have "length (tblocks t) < 2 ^ 32" by (rule owned_bound [OF T(14,9,10)])
  then have "unat (of_nat (length (tblocks t)) :: 32 word) = length (tblocks t)" by (simp add: unat_of_nat take_bit_eq_mod)
  moreover have "bt_blkno bt (bt_root bt) = tptr t" using T(3) by (simp add: held_def)
  ultimately show ?thesis
    using view_height_trep [OF T(7) s(2) le_imp_less_Suc [OF theight_blocks [OF T(7,6)]]] by (simp add: bt_height_def info)
qed

section \<open>Bitmaps with a free block\<close>

lemma sum_list_le: "\<forall>x\<in>set xs. x \<le> (b::nat) \<Longrightarrow> sum_list xs \<le> length xs * b"
  by (induction xs) auto

lemma sum_list_full:
  assumes "j < length xs" "xs ! j = 0" "\<forall>x\<in>set xs. x \<le> (b::nat)"
  shows "sum_list xs \<le> (length xs - 1) * b"
proof -
  have "xs = take j xs @ 0 # drop (Suc j) xs" using assms(1,2) id_take_nth_drop by fastforce
  then have "sum_list xs = sum_list (take j xs @ drop (Suc j) xs)" by (metis sum_list.append sum_list.Cons add_0)
  also have "\<dots> \<le> length (take j xs @ drop (Suc j) xs) * b"
    by (rule sum_list_le) (use assms(3) in \<open>auto dest: in_set_takeD in_set_dropD\<close>)
  also have "length (take j xs @ drop (Suc j) xs) = length xs - 1" using assms(1) by simp
  finally show ?thesis .
qed

lemma no_full_free:
  assumes space: "space_ok smp V" and free: "(length (sm_maps smp) - 1) * sm_bpb smp < free_blocks smp V"
  shows "no_full smp V"
  unfolding no_full_def
proof (intro allI impI)
  fix j assume j: "j < length (sm_maps smp)"
  note S = space_okD [OF space]
  let ?f = "\<lambda>m. nfree_bits (blk_bits (V m))"
  have le: "length (blk_bits (V m)) = sm_bpb smp" if "m \<in> set (sm_maps smp)" for m
    using S(7) [OF that] by (auto simp: bm_ok_def blk_bits_def split: bt_block.splits)
  have "?f m \<le> sm_bpb smp" if "m \<in> set (sm_maps smp)" for m
    unfolding le [OF that, symmetric] nfree_bits_def by (rule length_filter_le)
  moreover have "free_blocks smp V = sum_list (map ?f (sm_maps smp))" by (simp add: free_blocks_def)
  ultimately have "map ?f (sm_maps smp) ! j \<noteq> 0"
    using sum_list_full [of j "map ?f (sm_maps smp)" "sm_bpb smp"] j free by auto
  then have "filter Not (blk_bits (V (sm_maps smp ! j))) \<noteq> []" using j by (auto simp: nfree_bits_def)
  then obtain i where i: "i < sm_bpb smp" "\<not> blk_bits (V (sm_maps smp ! j)) ! i"
    using le [OF nth_mem [OF j]] by (auto simp: filter_empty_conv in_set_conv_nth)
  have "(j * sm_bpb smp + i) div sm_bpb smp = j" "(j * sm_bpb smp + i) mod sm_bpb smp = i" using i(1) by simp_all
  then show "\<exists>n. n div sm_bpb smp = j \<and> \<not> allocated smp V n"
    using i(2) by (intro exI [of _ "j * sm_bpb smp + i"]) (simp add: allocated_def)
qed

text \<open>No bitmap is full.\<close>

definition bt_no_full :: "btree \<Rightarrow> bool" where
  "bt_no_full bt \<longleftrightarrow> (case bt_view bt 0 of SmBlk smp \<Rightarrow> \<forall>m\<in>set (sm_maps smp). False \<in> set (blk_bits (bt_view bt m)) | _ \<Rightarrow> False)"

lemma no_full_iff:
  assumes "space_ok smp V"
  shows "no_full smp V \<longleftrightarrow> (\<forall>m\<in>set (sm_maps smp). False \<in> set (blk_bits (V m)))"
proof
  assume "no_full smp V"
  then show "\<forall>m\<in>set (sm_maps smp). False \<in> set (blk_bits (V m))"
    using no_full_bits [OF _ assms] by (metis in_set_conv_nth)
next
  assume bits: "\<forall>m\<in>set (sm_maps smp). False \<in> set (blk_bits (V m))"
  note S = space_okD [OF assms]
  show "no_full smp V"
    unfolding no_full_def
  proof (intro allI impI)
    fix j assume j: "j < length (sm_maps smp)"
    have len: "length (blk_bits (V (sm_maps smp ! j))) = sm_bpb smp"
      using S(7) [OF nth_mem [OF j]] by (auto simp: bm_ok_def blk_bits_def split: bt_block.splits)
    obtain i where i: "i < sm_bpb smp" "\<not> blk_bits (V (sm_maps smp ! j)) ! i"
    proof -
      have "False \<in> set (blk_bits (V (sm_maps smp ! j)))" using bits nth_mem [OF j] by blast
      then show thesis using len that by (auto simp: in_set_conv_nth)
    qed
    have "(j * sm_bpb smp + i) div sm_bpb smp = j" "(j * sm_bpb smp + i) mod sm_bpb smp = i" using i(1) by simp_all
    then show "\<exists>n. n div sm_bpb smp = j \<and> \<not> allocated smp V n"
      using i(2) by (intro exI [of _ "j * sm_bpb smp + i"]) (simp add: allocated_def)
  qed
qed

lemma bt_no_fullD:
  assumes "btree_open t bt" "bt_no_full bt"
  obtains smp where "bt_view bt 0 = SmBlk smp" "no_full smp (bt_view bt)"
proof -
  obtain smp where s: "tree_state bt smp (tptr t) (of_nat (length (tblocks t))) None None t" "bt_view bt 0 = SmBlk smp"
    by (rule btree_openE [OF assms(1)])
  with assms(2) have "no_full smp (bt_view bt)" by (simp add: bt_no_full_def no_full_iff [OF tree_stateD(14) [OF s(1)]])
  with s(2) show thesis by (rule that)
qed

lemma bt_no_fullI:
  assumes "btree_open t bt" "bt_reserve bt < bt_free bt"
  shows "bt_no_full bt"
proof -
  obtain smp where s: "tree_state bt smp (tptr t) (of_nat (length (tblocks t))) None None t" "bt_view bt 0 = SmBlk smp"
    "bt_free bt = free_blocks smp (bt_view bt)" by (rule btree_openE [OF assms(1)])
  note space = tree_stateD(14) [OF s(1)]
  have "no_full smp (bt_view bt)"
    by (rule no_full_free [OF space]) (use assms(2) s(2,3) in \<open>simp add: bt_reserve_def\<close>)
  with s(2) show ?thesis by (simp add: bt_no_full_def no_full_iff [OF space])
qed

section \<open>A call with the means it needs\<close>

text \<open>
  The stack is deep enough, the cache has room for one more path and one more block, an insertion has a
  small record and two free blocks per level and two more, and for a removal no bitmap is full.
\<close>

definition bt_able :: "nat \<Rightarrow> btr_phys dict_op \<Rightarrow> btree \<Rightarrow> bool" where
  "bt_able depth op bt \<longleftrightarrow> bt_height bt + 2 \<le> depth \<and> bt_room (bt_height bt + 1) bt
     \<and> (case op of
          Insert x \<Rightarrow> small_rec (bt_bsz bt) x \<and> 2 * bt_height bt + 2 \<le> bt_free bt
        | Remove x \<Rightarrow> bt_no_full bt
        | Find x \<Rightarrow> True)"

definition bt_holds :: "(btr_phys \<Rightarrow> btr_phys \<Rightarrow> int) \<Rightarrow> btree \<Rightarrow> btr_phys set \<Rightarrow> bool" where
  "bt_holds cmp bt X \<longleftrightarrow> (\<exists>t. btree_open t bt \<and> set (trecs t) = X \<and> bt_cmp bt = cmp)"

lemma bt_holdsE:
  assumes "bt_holds cmp bt X"
  obtains t where "btree_open t bt" "set (trecs t) = X" "bt_cmp bt = cmp" "bt_height bt = theight t"
  using assms bt_height_open unfolding bt_holds_def by blast

lemma bt_ableD:
  assumes "bt_able depth op bt" "bt_height bt = theight t"
  shows "theight t + 2 \<le> depth" "theight t < depth" "bt_room (Suc (theight t)) bt" "bt_room (theight t) bt"
  using assms bt_room_mono [of "Suc (theight t)" bt "theight t"] by (simp_all add: bt_able_def)

lemma btree_open_unique:
  assumes "btree_open t bt" "y \<in> set (trecs t)" "z \<in> set (trecs t)" "bt_cmp bt x y = 0" "bt_cmp bt x z = 0"
  shows "y = z"
proof -
  note I = btree_openD [OF assms(1)]
  have eq: "equiv_cmp (bt_cmp bt)" by (rule total_cmp_equiv [OF I(1)])
  have "bt_cmp bt y z = 0" using equiv_cmp_cong [OF eq assms(4)] assms(5) by simp
  then show ?thesis by (rule distinct_by_inj [OF eq csorted_distinct_by [OF I(2)] assms(2,3)])
qed

lemma bt_del_set:
  assumes t: "btree_open t bt" and y: "y \<in> set (trecs t)" "bt_cmp bt x y = 0"
  shows "set (del_by (bt_cmp bt) x (trecs t)) = set (trecs t) - {y}"
proof -
  note I = btree_openD [OF t]
  have "set (trecs t) - {z. bt_cmp bt x z = 0} = set (trecs t) - {y}" using y btree_open_unique [OF t _ y(1) _ y(2)] by blast
  then show ?thesis by (simp only: set_del_by [OF total_cmp_equiv [OF I(1)] csorted_distinct_by [OF I(2)]])
qed

lemma bt_find_hit:
  assumes t: "btree_open t bt" "bt_room (theight t) bt" "theight t < depth" and y: "y \<in> set (trecs t)" "bt_cmp bt x y = 0"
  obtains bt' where "bt_find depth x bt = Done y bt'" "btree_open t bt'" "bt_only bt \<longrightarrow> bt_only bt'" "bt_view bt' = bt_view bt"
    "bt_cmp bt' = bt_cmp bt" "bt_cap bt' = bt_cap bt"
proof -
  obtain z where z: "List.find (\<lambda>r. bt_cmp bt x r = 0) (trecs t) = Some z"
    using y by (cases "List.find (\<lambda>r. bt_cmp bt x r = 0) (trecs t)") (auto simp: find_None_iff)
  then have "z \<in> set (trecs t)" "bt_cmp bt x z = 0" by (auto simp: find_Some_iff)
  then have "z = y" using btree_open_unique [OF t(1)] y by blast
  with z bt_find_open [OF t, of x] obtain bt' where f: "bt_find depth x bt = Done y bt'" "bt_good {} bt'" "bt_view bt' = bt_view bt"
    "bt_refs bt' = bt_refs bt" "bt_frame bt bt'" unfolding find_post_def by auto
  show thesis
    by (rule that [OF f(1) btree_open_same(1) [OF t(1) f(2,3,5)] _ f(3) bt_frameD(1,4) [OF f(5)]])
      (simp add: bt_only_frame [OF f(4,5)])
qed

lemma bt_find_ready:
  assumes t: "btree_inv t bt" "theight t + 2 \<le> bt_cap bt" "theight t < depth" and y: "y \<in> set (trecs t)" "bt_cmp bt x y = 0"
  obtains bt' where "bt_find depth x bt = Done y bt'" "btree_inv t bt'" "bt_view bt' = bt_view bt"
proof -
  have o: "btree_open t bt" "bt_only bt" using t(1) by (simp_all add: btree_inv_iff)
  obtain bt' where "bt_find depth x bt = Done y bt'" "btree_open t bt'" "bt_only bt \<longrightarrow> bt_only bt'" "bt_view bt' = bt_view bt"
    by (rule bt_find_hit [where x = x, OF o(1) open_room [OF o(2) [unfolded bt_only_def] t(2)] t(3) y])
  with o(2) show thesis by (intro that [of bt']) (simp_all add: btree_inv_iff)
qed

lemma bt_find_miss:
  assumes t: "btree_open t bt" "bt_room (theight t) bt" "theight t < depth" and y: "\<forall>y\<in>set (trecs t). bt_cmp bt x y \<noteq> 0"
  obtains bt' where "bt_find depth x bt = Fail ENOENT bt'" "btree_open t bt'" "bt_view bt' = bt_view bt" "bt_cmp bt' = bt_cmp bt"
proof -
  have "List.find (\<lambda>r. bt_cmp bt x r = 0) (trecs t) = None" using y by (simp add: find_None_iff)
  with bt_find_open [OF t, of x] obtain bt' where f: "bt_find depth x bt = Fail ENOENT bt'" "bt_good {} bt'" "bt_view bt' = bt_view bt"
    "bt_frame bt bt'" unfolding find_post_def by auto
  show thesis by (rule that [OF f(1) btree_open_same(1) [OF t(1) f(2,3,4)] f(3) bt_frameD(1) [OF f(4)]])
qed

section \<open>The B-tree as a dictionary\<close>

interpretation btd: guarded_dict "bt_holds cmp" bt_only "bt_able depth" "\<lambda>x y. cmp x y = 0" "bt_insert depth" "bt_remove depth" "bt_find depth"
proof (unfold_locales, goal_cases)
  case (1 s X y z x)
  then show ?case using btree_open_unique by (auto simp: bt_holds_def)
next
  case (2 s X x)
  then obtain t where "btree_open t s" "bt_cmp s = cmp" unfolding bt_holds_def by blast
  then show ?case using total_cmp_refl [OF btree_openD(1)] by blast
next
  case (3 s X x)
  obtain t where t: "btree_open t s" "set (trecs t) = X" "bt_cmp s = cmp" "bt_height s = theight t" by (rule bt_holdsE [OF 3(1)])
  note a = bt_ableD [OF 3(2) t(4)]
  have x: "small_rec (bt_bsz s) x" "2 * theight t + 2 \<le> bt_free s" using 3(2) t(4) by (simp_all add: bt_able_def)
  show ?case
  proof (rule bt_insert_open [OF t(1) x(1) a(3) x(2) a(1)])
    assume "\<exists>y\<in>set (trecs t). bt_cmp s x y = 0" then show ?case using 3(3) t(2,3) by auto
  next
    fix s' t'
    assume "bt_insert depth x s = Done () s'" "btree_open t' s'" "bt_only s \<longrightarrow> bt_only s'" "trecs t' = ins_by (bt_cmp s) x (trecs t)" "bt_cmp s' = bt_cmp s"
    with t(2,3) show ?case by (auto simp: bt_holds_def)
  qed
next
  case (4 s X x y)
  obtain t where t: "btree_open t s" "set (trecs t) = X" "bt_cmp s = cmp" "bt_height s = theight t" by (rule bt_holdsE [OF 4(1)])
  note a = bt_ableD [OF 4(2) t(4)]
  have x: "small_rec (bt_bsz s) x" "2 * theight t + 2 \<le> bt_free s" using 4(2) t(4) by (simp_all add: bt_able_def)
  show ?case
  proof (rule bt_insert_open [OF t(1) x(1) a(3) x(2) a(1)])
    fix s' assume "bt_insert depth x s = Fail EEXIST s'" "btree_open t s'" "bt_only s \<longrightarrow> bt_only s'" "bt_cmp s' = bt_cmp s"
    with t(2,3) show ?case by (auto simp: bt_holds_def)
  next
    assume "\<forall>y\<in>set (trecs t). bt_cmp s x y \<noteq> 0" then show ?case using 4(3,4) t(2,3) by auto
  qed
next
  case (5 s X x y)
  obtain t where t: "btree_open t s" "set (trecs t) = X" "bt_cmp s = cmp" "bt_height s = theight t" by (rule bt_holdsE [OF 5(1)])
  note a = bt_ableD [OF 5(2) t(4)]
  have nf: "bt_no_full s" using 5(2) by (simp add: bt_able_def)
  obtain smp where smp: "bt_view s 0 = SmBlk smp" "no_full smp (bt_view s)" by (rule bt_no_fullD [OF t(1) nf])
  show ?case
  proof (rule bt_remove_open [where x = x, OF t(1) a(3,2) smp])
    assume "\<forall>y\<in>set (trecs t). bt_cmp s x y \<noteq> 0" then show ?case using 5(3,4) t(2,3) by auto
  next
    fix s' t'
    assume r: "bt_remove depth x s = Done () s'" "btree_open t' s'" "trecs t' = del_by (bt_cmp s) x (trecs t)" "bt_cmp s' = bt_cmp s"
      "bt_only s \<longrightarrow> bt_only s'"
    have "set (trecs t') = X - {y}"
      unfolding r(3) t(2) [symmetric] by (rule bt_del_set [OF t(1)]) (use 5(3,4) t(2,3) in simp_all)
    with r t(3) show ?case by (auto simp: bt_holds_def)
  qed
next
  case (6 s X x)
  obtain t where t: "btree_open t s" "set (trecs t) = X" "bt_cmp s = cmp" "bt_height s = theight t" by (rule bt_holdsE [OF 6(1)])
  note a = bt_ableD [OF 6(2) t(4)]
  have nf: "bt_no_full s" using 6(2) by (simp add: bt_able_def)
  obtain smp where smp: "bt_view s 0 = SmBlk smp" "no_full smp (bt_view s)" by (rule bt_no_fullD [OF t(1) nf])
  show ?case
  proof (rule bt_remove_open [where x = x, OF t(1) a(3,2) smp])
    fix s' assume "bt_remove depth x s = Fail ENOENT s'" "btree_open t s'" "bt_only s \<longrightarrow> bt_only s'" "bt_cmp s' = bt_cmp s"
    with t(2,3) show ?case by (auto simp: bt_holds_def)
  next
    assume "\<exists>y\<in>set (trecs t). bt_cmp s x y = 0" then show ?case using 6(3) t(2,3) by auto
  qed
next
  case (7 s X x y)
  obtain t where t: "btree_open t s" "set (trecs t) = X" "bt_cmp s = cmp" "bt_height s = theight t" by (rule bt_holdsE [OF 7(1)])
  note a = bt_ableD [OF 7(2) t(4)]
  have y: "y \<in> set (trecs t)" "bt_cmp s x y = 0" using 7(3,4) t(2,3) by simp_all
  obtain s' where "bt_find depth x s = Done y s'" "btree_open t s'" "bt_only s \<longrightarrow> bt_only s'" "bt_cmp s' = bt_cmp s"
    by (rule bt_find_hit [where x = x, OF t(1) a(4,2) y])
  with t(2,3) show ?case by (auto simp: bt_holds_def)
next
  case (8 s X x)
  obtain t where t: "btree_open t s" "set (trecs t) = X" "bt_cmp s = cmp" "bt_height s = theight t" by (rule bt_holdsE [OF 8(1)])
  note a = bt_ableD [OF 8(2) t(4)]
  have y: "\<forall>y\<in>set (trecs t). bt_cmp s x y \<noteq> 0" using 8(3) t(2,3) by simp
  obtain s' where "bt_find depth x s = Fail ENOENT s'" "btree_open t s'" "bt_cmp s' = bt_cmp s"
    by (rule bt_find_miss [where x = x, OF t(1) a(4,2) y])
  with t(2,3) show ?case by (auto simp: bt_holds_def)
qed

section \<open>Enough means for a number of calls\<close>

text \<open>
  \<open>n\<close> calls have what they need when the file has more free blocks than \<open>n\<close> insertions can use and than
  all bitmaps but one have, the cache has room for a path that is \<open>n\<close> levels longer, insertions have small
  records, and no lookup but the last call can fail and leave a child held.
\<close>

fun calls_fit :: "('a \<Rightarrow> 'a \<Rightarrow> bool) \<Rightarrow> ('a \<Rightarrow> bool) \<Rightarrow> 'a dict_op list \<Rightarrow> 'a list \<Rightarrow> bool" where
  "calls_fit same ok [] xs \<longleftrightarrow> True"
| "calls_fit same ok (op # ops) xs \<longleftrightarrow>
     (case op of Insert x \<Rightarrow> ok x | Remove x \<Rightarrow> True | Find x \<Rightarrow> ops = [] \<or> List.find (same x) xs \<noteq> None)
     \<and> calls_fit same ok ops (snd (spec_exec same op xs))"

definition bt_budget :: "nat \<Rightarrow> nat \<Rightarrow> nat \<Rightarrow> btree \<Rightarrow> bool" where
  "bt_budget depth n h bt \<longleftrightarrow> h + n + 2 \<le> bt_cap bt \<and> h + n + 1 \<le> depth
     \<and> bt_reserve bt + n * (2 * (h + n) + 2) < bt_free bt"

lemma bt_budget_Suc:
  assumes "bt_budget depth (Suc n) h bt"
  shows "h + 3 \<le> bt_cap bt" "h + 2 \<le> depth" "2 * h + 2 \<le> bt_free bt" "bt_reserve bt < bt_free bt"
proof -
  have "2 * h + 2 \<le> Suc n * (2 * (h + Suc n) + 2)" by simp
  with assms show "2 * h + 2 \<le> bt_free bt" unfolding bt_budget_def by linarith
qed (use assms in \<open>simp_all add: bt_budget_def\<close>)

lemma bt_budget_step:
  assumes b: "bt_budget depth (Suc n) h bt"
    and bt': "bt_cap bt' = bt_cap bt" "bt_reserve bt' = bt_reserve bt" "h' \<le> Suc h" "bt_free bt \<le> bt_free bt' + (2 * h + 2)"
  shows "bt_budget depth n h' bt'"
proof -
  have "n * (2 * (h' + n) + 2) \<le> n * (2 * (h + Suc n) + 2)" using bt'(3) by (intro mult_left_mono) simp_all
  moreover have "Suc n * (2 * (h + Suc n) + 2) = n * (2 * (h + Suc n) + 2) + (2 * (h + Suc n) + 2)" by simp
  moreover have "2 * h + 2 \<le> 2 * (h + Suc n) + 2" by simp
  ultimately have "bt_reserve bt + n * (2 * (h' + n) + 2) < bt_free bt'" using bt'(4) b unfolding bt_budget_def by linarith
  then show ?thesis using bt' b by (simp add: bt_budget_def)
qed

lemma bt_view_only:
  assumes "bt_view bt' = bt_view bt"
  shows "bt_reserve bt' = bt_reserve bt" "bt_bsz bt' = bt_bsz bt" "bt_free bt' = bt_free bt"
  by (simp_all only: bt_reserve_def bt_bsz_def bt_free_def assms)

text \<open>The state after a call: the means that are left, and what the specification holds.\<close>

definition bt_left :: "(btr_phys \<Rightarrow> btr_phys \<Rightarrow> int) \<Rightarrow> 16 word \<Rightarrow> nat \<Rightarrow> nat \<Rightarrow> btree \<Rightarrow> btr_phys list \<Rightarrow> bool" where
  "bt_left cmp bsz depth n bt xs \<longleftrightarrow> (\<exists>t. btree_inv t bt \<and> set (trecs t) = set xs \<and> bt_cmp bt = cmp \<and> bt_bsz bt = bsz
     \<and> bt_budget depth n (theight t) bt)"

lemma bt_left_able:
  assumes "bt_left cmp bsz depth (Suc n) bt xs" "\<forall>x. op = Insert x \<longrightarrow> small_rec bsz x"
  shows "bt_able depth op bt" "bt_holds cmp bt (set xs)"
proof -
  obtain t where t: "btree_open t bt" "bt_only bt" "set (trecs t) = set xs" "bt_cmp bt = cmp" "bt_bsz bt = bsz"
    "bt_budget depth (Suc n) (theight t) bt"
    using assms(1) unfolding bt_left_def btree_inv_iff by blast
  note B = bt_budget_Suc [OF t(6)]
  have room: "bt_room (theight t + 1) bt" by (rule open_room [OF t(2) [unfolded bt_only_def]]) (use B(1) in simp)
  show "bt_able depth op bt"
    using B(2,3) room bt_no_fullI [OF t(1) B(4)] assms(2) t(5)
    by (cases op) (simp_all add: bt_able_def bt_height_open [OF t(1)])
  show "bt_holds cmp bt (set xs)" unfolding bt_holds_def using t(1,3,4) by blast
qed

lemma bt_left_step:
  assumes l: "bt_left cmp bsz depth (Suc n) bt xs" and x: "\<forall>x. op = Insert x \<longrightarrow> small_rec bsz x"
    and hit: "\<forall>x. op = Find x \<longrightarrow> (\<exists>y\<in>set xs. cmp x y = 0)"
    and e: "dict_exec (bt_insert depth) (bt_remove depth) (bt_find depth) op bt = Some (r, bt')"
  shows "\<exists>ys. set ys = set (snd (spec_exec (\<lambda>x y. cmp x y = 0) op xs)) \<and> bt_left cmp bsz depth n bt' ys"
proof -
  obtain t where t: "btree_open t bt" "bt_only bt" "set (trecs t) = set xs" "bt_cmp bt = cmp" "bt_bsz bt = bsz"
    "bt_budget depth (Suc n) (theight t) bt"
    using l unfolding bt_left_def btree_inv_iff by blast
  note B = bt_budget_Suc [OF t(6)]
  have d: "theight t < depth" using B(2) by linarith
  have room: "bt_room (Suc (theight t)) bt" by (rule open_room [OF t(2) [unfolded bt_only_def]]) (use B(1) in simp)
  obtain s' where s': "dict_exec (bt_insert depth) (bt_remove depth) (bt_find depth) op bt = Some (fst (spec_exec (\<lambda>x y. cmp x y = 0) op xs), s')"
    "bt_holds cmp s' (set (snd (spec_exec (\<lambda>x y. cmp x y = 0) op xs)))"
    using btd.exec_refines [OF bt_left_able(2) [OF l x] bt_left_able(1) [OF l x]] by blast
  have s'e: "s' = bt'" using s'(1) e by simp
  have ex: "\<exists>t'. btree_open t' bt' \<and> bt_only bt' \<and> bt_bsz bt' = bsz \<and> bt_cmp bt' = cmp \<and> bt_budget depth n (theight t') bt'
      \<and> set (trecs t') = set (snd (spec_exec (\<lambda>x y. cmp x y = 0) op xs))"
  proof (cases op)
    case (Insert x)
    have sx: "small_rec (bt_bsz bt) x" using x Insert t(5) by simp
    have e': "reply_of (\<lambda>_. Replied) (bt_insert depth x bt) = Some (r, bt')" using e Insert by simp
    show ?thesis
    proof (rule bt_insert_open [OF t(1) sx room B(3,2)])
      fix s
      assume q: "\<exists>y\<in>set (trecs t). bt_cmp bt x y = 0" "bt_insert depth x bt = Fail EEXIST s" "btree_open t s" "bt_only bt \<longrightarrow> bt_only s"
        "bt_free bt \<le> bt_free s + 1" "bt_cmp s = bt_cmp bt" "bt_cap s = bt_cap bt" "bt_bsz s = bt_bsz bt" "bt_reserve s = bt_reserve bt"
      have "s = bt'" using e' q(2) by simp
      moreover have "bt_budget depth n (theight t) s" by (rule bt_budget_step [OF t(6) q(7,9)]) (use q(5) in simp_all)
      ultimately show ?thesis using q t Insert by (intro exI [of _ t]) auto
    next
      fix s t'
      assume q: "\<forall>y\<in>set (trecs t). bt_cmp bt x y \<noteq> 0" "bt_insert depth x bt = Done () s" "btree_open t' s" "bt_only bt \<longrightarrow> bt_only s"
        "trecs t' = ins_by (bt_cmp bt) x (trecs t)" "theight t' \<le> Suc (theight t)"
        "bt_cmp s = bt_cmp bt" "bt_cap s = bt_cap bt" "bt_bsz s = bt_bsz bt" "bt_reserve s = bt_reserve bt"
        "bt_free bt \<le> bt_free s + (2 * theight t + 2)"
      have "s = bt'" using e' q(2) by simp
      moreover have "bt_budget depth n (theight t') s" by (rule bt_budget_step [OF t(6) q(8,10,6,11)])
      moreover have "\<not> (\<exists>y\<in>set xs. cmp x y = 0)" using q(1) t(3,4) by auto
      ultimately show ?thesis using q t Insert by (intro exI [of _ t']) simp
    qed
  next
    case (Remove x)
    have e': "reply_of (\<lambda>_. Replied) (bt_remove depth x bt) = Some (r, bt')" using e Remove by simp
    obtain smp where smp: "bt_view bt 0 = SmBlk smp" "no_full smp (bt_view bt)"
      by (rule bt_no_fullD [OF t(1) bt_no_fullI [OF t(1) B(4)]])
    have hold: "bt_holds cmp bt' (set (snd (spec_exec (\<lambda>x y. cmp x y = 0) op xs)))" using s'(2) s'e by simp
    show ?thesis
    proof (rule bt_remove_open [where x = x, OF t(1) room d smp])
      fix s
      assume q: "\<forall>y\<in>set (trecs t). bt_cmp bt x y \<noteq> 0" "bt_remove depth x bt = Fail ENOENT s" "btree_open t s" "bt_only bt \<longrightarrow> bt_only s"
        "bt_view s = bt_view bt" "bt_cmp s = bt_cmp bt" "bt_cap s = bt_cap bt"
      have "s = bt'" using e' q(2) by simp
      moreover have "bt_budget depth n (theight t) s"
        by (rule bt_budget_step [OF t(6) q(7) bt_view_only(1) [OF q(5)]]) (simp_all add: bt_view_only(3) [OF q(5)])
      moreover have "\<not> (\<exists>y\<in>set xs. cmp x y = 0)" using q(1) t(3,4) by auto
      ultimately show ?thesis using q t Remove bt_view_only(2) [OF q(5)] by (intro exI [of _ t]) simp
    next
      fix s t'
      assume q: "\<exists>y\<in>set (trecs t). bt_cmp bt x y = 0" "bt_remove depth x bt = Done () s" "btree_open t' s" "bt_only bt \<longrightarrow> bt_only s"
        "trecs t' = del_by (bt_cmp bt) x (trecs t)" "theight t' \<le> theight t"
        "bt_cmp s = bt_cmp bt" "bt_cap s = bt_cap bt" "bt_bsz s = bt_bsz bt" "bt_reserve s = bt_reserve bt" "bt_free bt \<le> bt_free s"
      have s: "s = bt'" using e' q(2) by simp
      have bud: "bt_budget depth n (theight t') s" by (rule bt_budget_step [OF t(6) q(8,10)]) (use q(6,11) in simp_all)
      obtain y where y: "y \<in> set (trecs t)" "bt_cmp bt x y = 0" using q(1) by blast
      have "set (trecs t') = set xs - {y}" unfolding q(5) bt_del_set [OF t(1) y] t(3) ..
      also have "\<dots> = {z \<in> set xs. cmp x z \<noteq> 0}"
      proof -
        have "z = y" if "z \<in> set xs" "cmp x z = 0" for z
          using btree_open_unique [OF t(1) _ y(1) _ y(2), of z] that unfolding t(3,4) .
        then show ?thesis using y unfolding t(3,4) by blast
      qed
      also have "\<dots> = set (snd (spec_exec (\<lambda>x y. cmp x y = 0) op xs))"
      proof -
        have "\<exists>y\<in>set xs. cmp x y = 0" using y unfolding t(3,4) by blast
        then show ?thesis unfolding Remove by simp
      qed
      finally have "set (trecs t') = set (snd (spec_exec (\<lambda>x y. cmp x y = 0) op xs))" .
      with q t s bud show ?thesis by (intro exI [of _ t']) simp
    qed
  next
    case (Find x)
    have e': "reply_of Found (bt_find depth x bt) = Some (r, bt')" using e Find by simp
    obtain y where y: "y \<in> set (trecs t)" "bt_cmp bt x y = 0" using hit Find t(3,4) by blast
    obtain s where q: "bt_find depth x bt = Done y s" "btree_open t s" "bt_only bt \<longrightarrow> bt_only s" "bt_view s = bt_view bt"
      "bt_cmp s = bt_cmp bt" "bt_cap s = bt_cap bt"
      by (rule bt_find_hit [where x = x, OF t(1) bt_room_mono [OF room] d y]) simp
    have "s = bt'" using e' q(1) by simp
    moreover have "bt_budget depth n (theight t) s"
      by (rule bt_budget_step [OF t(6) q(6) bt_view_only(1) [OF q(4)]]) (simp_all add: bt_view_only(3) [OF q(4)])
    moreover have "snd (spec_exec (\<lambda>x y. cmp x y = 0) op xs) = xs" unfolding Find by (simp split: option.splits)
    moreover have "bt_bsz s = bsz" "bt_cmp s = cmp" "bt_only s"
      using bt_view_only(2) [OF q(4)] q(3,5) t(2,4,5) by simp_all
    ultimately show ?thesis using q(2) t(3) by (intro exI [of _ t]) simp
  qed
  then obtain t' where t': "btree_open t' bt'" "bt_only bt'" "bt_bsz bt' = bsz" "bt_cmp bt' = cmp" "bt_budget depth n (theight t') bt'"
    "set (trecs t') = set (snd (spec_exec (\<lambda>x y. cmp x y = 0) op xs))" by blast
  then have "bt_left cmp bsz depth n bt' (trecs t')" unfolding bt_left_def btree_inv_iff by blast
  with t'(6) show ?thesis by blast
qed

lemma bt_left_cong: "set xs = set ys \<Longrightarrow> bt_left cmp bsz depth n bt xs = bt_left cmp bsz depth n bt ys"
  by (simp add: bt_left_def)

lemma bt_left_means:
  "bt_left cmp bsz depth (length ops) bt xs \<Longrightarrow> calls_fit (\<lambda>x y. cmp x y = 0) (small_rec bsz) ops xs \<Longrightarrow>
    means (bt_able depth) (dict_exec (bt_insert depth) (bt_remove depth) (bt_find depth)) ops bt"
proof (induction ops arbitrary: bt xs)
  case (Cons op ops)
  let ?same = "\<lambda>x y. cmp x y = 0" and ?exec = "dict_exec (bt_insert depth) (bt_remove depth) (bt_find depth)"
  have l: "bt_left cmp bsz depth (Suc (length ops)) bt xs" using Cons.prems(1) by simp
  have x: "\<forall>x. op = Insert x \<longrightarrow> small_rec bsz x" using Cons.prems(2) by auto
  have fit: "calls_fit ?same (small_rec bsz) ops (snd (spec_exec ?same op xs))" using Cons.prems(2) by simp
  have "means (bt_able depth) ?exec ops bt'" if e: "?exec op bt = Some (r, bt')" for r bt'
  proof (cases "ops = []")
    case False
    then have hit: "\<forall>x. op = Find x \<longrightarrow> (\<exists>y\<in>set xs. cmp x y = 0)"
      using Cons.prems(2) by (auto simp: find_None_iff)
    from bt_left_step [OF l x hit e] obtain ys where ys: "set ys = set (snd (spec_exec ?same op xs))"
      "bt_left cmp bsz depth (length ops) bt' ys" by blast
    show ?thesis by (rule Cons.IH [OF _ fit]) (use ys bt_left_cong in blast)
  qed simp
  with bt_left_able(1) [OF l x] show ?case by (auto split: option.splits)
qed simp

end
