(* ===== verification/BtreeProps.thy ===== *)
theory BtreeProps
  imports BtreeRun
begin

text \<open>
  The properties of the B-tree: a new file opens to an empty tree, the operations are those of a
  sorted list, closing and opening again keeps the tree, and what goes wrong.
\<close>

section \<open>A new file\<close>

lemma new_sm_maps: "sm_bpb new_sm = 8128" "sm_maps new_sm = [2, 3, 4, 5, 6, 7, 8, 9, 10]" "smp_nblocks new_sm = 65536"
  "smp_bsz new_sm = BT_PHYS_BLKSZ" "smp_rblkno new_sm = 1"
  by (simp_all add: sm_bpb_def sm_maps_def new_sm_eq)

lemma new_bitmap_ok: "bm_ok 8128 (BmBlk (new_bitmap 11 0))" "bm_ok 8128 (BmBlk (new_bitmap 0 0))" "bm_ok 8128 (BmBlk (new_bitmap 0 7616))"
  by (simp_all add: bm_ok_def new_bitmap_bm nfree_bits_def filter_replicate_False) (simp_all add: new_bitmap_def Let_def)

lemma created_bits:
  assumes "created_disk V"
  shows "n < 11 \<Longrightarrow> allocated new_sm V n" "65536 \<le> n \<Longrightarrow> n < 73152 \<Longrightarrow> allocated new_sm V n" "11 \<le> n \<Longrightarrow> n < 65536 \<Longrightarrow> \<not> allocated new_sm V n"
proof -
  note D = assms [unfolded created_disk_def]
  let ?maps = "[2, 3, 4, 5, 6, 7, 8, 9, 10] :: nat list"
  have a: "allocated new_sm V n \<longleftrightarrow> n div 8128 < 9 \<and> blk_bits (V (?maps ! (n div 8128))) ! (n mod 8128)"
  proof -
    have "length ?maps = 9" by simp
    then show ?thesis unfolding allocated_def new_sm_maps by (simp only:)
  qed
  show "n < 11 \<Longrightarrow> allocated new_sm V n" using D by (simp add: a blk_bits_def new_bitmap_bm nth_append)
  show "allocated new_sm V n" if "65536 \<le> n" "n < 73152"
  proof -
    have d: "n div 8128 = 8" using that by simp
    then have m: "n mod 8128 = n - 65024" using div_mult_mod_eq [of n 8128] by simp
    show ?thesis unfolding a d m using D that by (simp add: blk_bits_def new_bitmap_bm nth_append)
  qed
  show "\<not> allocated new_sm V n" if n: "11 \<le> n" "n < 65536"
  proof -
    have lt: "n mod 8128 < 8128" by simp
    have "n div 8128 \<le> 8" using n by simp
    then consider "n div 8128 = 0" | "n div 8128 \<in> {1..7}" | "n div 8128 = 8" by force
    then show ?thesis
    proof cases
      case 1
      then have "n < 8128" by (simp add: div_eq_0_iff)
      with n D show ?thesis by (simp add: a blk_bits_def new_bitmap_bm nth_append)
    next
      case 2
      then have "?maps ! (n div 8128) \<in> {3, 4, 5, 6, 7, 8, 9}"
      proof -
        have seven: "k = 1 \<or> k = 2 \<or> k = 3 \<or> k = 4 \<or> k = 5 \<or> k = 6 \<or> k = 7" if "1 \<le> k" "k \<le> 7" for k :: nat
          using that by arith
        have "?maps ! k \<in> {3, 4, 5, 6, 7, 8, 9}" if "1 \<le> k" "k \<le> 7" for k
          using seven [OF that] by (elim disjE) simp_all
        then show ?thesis using 2 unfolding atLeastAtMost_iff by blast
      qed
      with D have "V (?maps ! (n div 8128)) = BmBlk (new_bitmap 0 0)" by blast
      then show ?thesis unfolding a using lt by (simp add: blk_bits_def new_bitmap_bm)
    next
      case 3
      then have "n mod 8128 = n - 65024" using div_mult_mod_eq [of n 8128] by simp
      with n have "n mod 8128 < 512" by simp
      with 3 D show ?thesis by (simp add: a blk_bits_def new_bitmap_bm nth_append)
    qed
  qed
qed

lemma created_space:
  assumes "created_disk V"
  shows "space_ok new_sm V" "no_full new_sm V" "free_blocks new_sm V = 65525"
proof -
  note D = assms [unfolded created_disk_def] and B = created_bits [OF assms]
  have maps: "\<forall>m\<in>set [2, 3, 4, 5, 6, 7, 8, 9, 10 :: nat]. bm_ok 8128 (V m) \<and> allocated new_sm V m"
    using D B(1) new_bitmap_ok by auto
  show "space_ok new_sm V"
    unfolding space_ok_def new_sm_maps using D B(1,2) maps by simp
  show "no_full new_sm V"
    unfolding no_full_def new_sm_maps
  proof (intro allI impI)
    fix j assume "j < length [2, 3, 4, 5, 6, 7, 8, 9, 10 :: nat]"
    then have j: "j < 9" by simp
    show "\<exists>n. n div 8128 = j \<and> \<not> allocated new_sm V n"
    proof (intro exI conjI)
      show "(8128 * j + 11) div 8128 = j" by simp
      show "\<not> allocated new_sm V (8128 * j + 11)" using j by (intro B(3)) simp_all
    qed
  qed
  show "free_blocks new_sm V = 65525"
    using D by (simp add: free_blocks_def new_sm_maps blk_bits_def nfree_bits_def new_bitmap_bm filter_replicate_False)
qed

lemma created_tree:
  assumes V: "created_disk V" and c: "total_cmp cmp" "key_cmp cmp"
  shows "disk_tree cmp new_sm V (Leaf 1 [])" "cache_sizes_ok new_sm"
proof -
  note D = V [unfolded created_disk_def]
  have "bsz_ok BT_PHYS_BLKSZ" by (simp add: bsz_ok_def)
  moreover have wf: "node_wf BT_PHYS_BLKSZ new_root" "btn_phys_is_leaf new_root" "btn_phys_is_root new_root" "btnp_records new_root = []" "btnp_info new_root = 1"
    by (simp_all add: node_wf_def new_root_def btn_phys_is_leaf_def btn_phys_is_root_def BTN_PHYS_FLG_IS_ROOT_def BTN_PHYS_FLG_IS_LEAF_def
        max_inline_def BT_PHYS_BLKSZ_def)
  moreover have "1 \<in> owned new_sm V" using created_bits(1) [OF V, of 1] by (simp add: owned_def data_block_def new_sm_maps)
  ultimately show "disk_tree cmp new_sm V (Leaf 1 [])"
    unfolding disk_tree_def new_sm_maps using created_space(1) [OF V] c D by (simp add: tord_simps root_at_def)
  show "cache_sizes_ok new_sm" by (simp add: cache_sizes_ok_def new_sm_maps)
qed

lemma bt_close_inv:
  assumes "btree_inv t bt"
  obtains bt' where "bt_close bt = Done () bt'" "calm (snd (bt_bc bt'))" "env_disk (snd (bt_bc bt')) = bt_view bt"
proof -
  obtain smp where s: "tree_state bt smp (tptr t) (of_nat (length (tblocks t))) None None t"
    "bt_refs bt = (\<lambda>b. if b = bt_root bt \<or> b = bt_sm bt then 1 else 0)" by (rule btree_invE [OF assms])
  note T = tree_stateD [OF s(1)]
  have "bt_root bt \<noteq> bt_sm bt" using T(3,5,16) by (auto simp: held_def owned_def data_block_def)
  then obtain bt' where "bt_close bt = (if \<forall>b. bt_refs bt b = (if b = bt_root bt \<or> b = bt_sm bt then 1 else 0) then Done () bt' else Abort)"
    "calm (snd (bt_bc bt'))" "env_disk (snd (bt_bc bt')) = bt_view bt"
    by (rule bt_close_result [OF T(13), rotated 2]) (simp_all add: s(2))
  with s(2) show thesis by (intro that [of bt']) simp_all
qed

section \<open>An example: a file of 64 blocks with three nodes\<close>

definition bytes_order :: "btr_phys \<Rightarrow> btr_phys \<Rightarrow> int" where
  "bytes_order x y = int (bytes_ptr (btrp_key x)) - int (bytes_ptr (btrp_key y))"

definition demo_rec :: "8 word \<Rightarrow> btr_phys" where
  "demo_rec k = \<lparr>btrp_key = [k], btrp_val = [0]\<rparr>"

definition demo_sm :: sm_phys where
  "demo_sm = \<lparr>smp_bsz = 1024, smp_nblocks = 64, smp_rblkno = 2, smp_map = [1]\<rparr>"

definition demo_bm :: bm_phys where
  "demo_bm = \<lparr>bmp_nfree = 59, bmp_bm = replicate 5 True @ replicate 59 False @ replicate 8064 True\<rparr>"

definition demo_leaf :: "btr_phys list \<Rightarrow> btn_phys" where
  "demo_leaf rs = \<lparr>btnp_flags = BTN_PHYS_FLG_IS_LEAF, btnp_freespace = 1014 - recs_size rs, btnp_ptr0 = 0, btnp_records = rs, btnp_info = 0\<rparr>"

definition demo_root :: btn_phys where
  "demo_root = \<lparr>btnp_flags = BTN_PHYS_FLG_IS_ROOT, btnp_freespace = 989, btnp_ptr0 = 3,
     btnp_records = [index_record (demo_rec 5) 4], btnp_info = 3\<rparr>"

definition demo_disk :: "nat \<Rightarrow> bt_block" where
  "demo_disk = (\<lambda>n. OtherBlk 0)(0 := SmBlk demo_sm, 1 := BmBlk demo_bm, 2 := NodeBlk demo_root,
     3 := NodeBlk (demo_leaf [demo_rec 1, demo_rec 3]), 4 := NodeBlk (demo_leaf [demo_rec 5, demo_rec 7]))"

definition demo_tree :: btt where
  "demo_tree = Index 2 [(demo_rec 5, Leaf 3 [demo_rec 1, demo_rec 3]), (index_record (demo_rec 5) 4, Leaf 4 [demo_rec 5, demo_rec 7])]"

definition demo_env :: bt_env where
  "demo_env = \<lparr>env_disk = demo_disk, env_io = [], env_mem = [], env_world = ()\<rparr>"

definition blank_mem :: "nat \<Rightarrow> (bt_block, bt_obj, unit) block" where
  "blank_mem b = \<lparr>bl_blkno = 0, bl_refcnt = 0, bl_dirty = False, bl_bco = None, bl_bco_ops = btn_bco_ops, bl_phys = OtherBlk 0\<rparr>"

lemma bytes_order_cmp: "total_cmp bytes_order" "key_cmp bytes_order"
  unfolding total_cmp_def key_cmp_def bytes_order_def by auto

lemma demo_recs: "map demo_rec [1, 3] @ map demo_rec [5, 7] = trecs demo_tree"
  by (simp add: demo_tree_def)

lemma demo_sm_maps: "sm_bpb demo_sm = 8128" "sm_maps demo_sm = [1]" "smp_nblocks demo_sm = 64" "smp_bsz demo_sm = 1024" "smp_rblkno demo_sm = 2"
  by (simp_all add: sm_bpb_def sm_maps_def demo_sm_def blks_per_bm_def num_bm_blks_def round_up_div_def)

lemma demo_alloc: "allocated demo_sm demo_disk n \<longleftrightarrow> n < 5 \<or> 64 \<le> n \<and> n < 8128"
proof (cases "n < 8128")
  case True
  then show ?thesis
    by (auto simp: allocated_def demo_sm_maps demo_disk_def blk_bits_def demo_bm_def nth_append)
next
  case False
  then have "\<not> n div 8128 < 1" by simp
  with False show ?thesis by (simp add: allocated_def demo_sm_maps)
qed

lemma demo_space: "space_ok demo_sm demo_disk" "no_full demo_sm demo_disk" "free_blocks demo_sm demo_disk = 59"
proof -
  have "bm_ok 8128 (BmBlk demo_bm)" by (simp add: bm_ok_def demo_bm_def nfree_bits_def filter_replicate_False)
  then show "space_ok demo_sm demo_disk"
    by (simp add: space_ok_def demo_sm_maps demo_alloc) (simp add: demo_disk_def num_bm_blks_def round_up_div_def)
  have "(5::nat) div 8128 = 0" by simp
  then show "no_full demo_sm demo_disk" unfolding no_full_def demo_sm_maps demo_alloc by (auto intro!: exI [of _ 5])
  show "free_blocks demo_sm demo_disk = 59"
    by (simp add: free_blocks_def demo_sm_maps demo_disk_def blk_bits_def nfree_bits_def demo_bm_def filter_replicate_False)
qed

lemma demo_nodes:
  "node_wf 1024 (demo_leaf [demo_rec a, demo_rec b])" "btn_phys_is_leaf (demo_leaf rs)" "\<not> btn_phys_is_root (demo_leaf rs)"
  "btnp_records (demo_leaf rs) = rs" "node_wf 1024 demo_root" "\<not> btn_phys_is_leaf demo_root" "btn_phys_is_root demo_root"
  "btnp_info demo_root = 3" "btnp_ptr0 demo_root = 3" "btnp_records demo_root = [index_record (demo_rec 5) 4]"
  by (simp_all add: node_wf_def demo_leaf_def demo_root_def btn_phys_is_leaf_def btn_phys_is_root_def BTN_PHYS_FLG_IS_ROOT_def
      BTN_PHYS_FLG_IS_LEAF_def max_inline_def recs_size_def btr_phys_size_def demo_rec_def rsz_def small_rec_def max_rec_def index_record_def)

lemma demo_disk_tree: "disk_tree bytes_order demo_sm demo_disk demo_tree" "cache_sizes_ok demo_sm"
proof -
  have own: "{2, 3, 4} \<subseteq> owned demo_sm demo_disk" by (simp add: owned_def data_block_def demo_sm_maps demo_alloc)
  have V: "demo_disk 2 = NodeBlk demo_root" "demo_disk 3 = NodeBlk (demo_leaf [demo_rec 1, demo_rec 3])"
    "demo_disk 4 = NodeBlk (demo_leaf [demo_rec 5, demo_rec 7])" by (simp_all add: demo_disk_def)
  have "trep 1024 demo_disk 2 demo_tree"
    unfolding demo_tree_def using V demo_nodes by simp
  moreover have "tord bytes_order None None demo_tree"
    by (simp add: demo_tree_def tord_Index_iff tord_simps bytes_order_def demo_rec_def)
  moreover have "root_at demo_disk 2 3" using V(1) demo_nodes(7,8) by (simp add: root_at_def)
  moreover have "distinct (tblocks demo_tree)" "set (tblocks demo_tree) = {2, 3, 4}" "tptr demo_tree = 2" "demo_tree \<noteq> Gone" "length (tblocks demo_tree) = 3"
    by (simp_all add: demo_tree_def)
  moreover have "bsz_ok 1024" by (simp add: bsz_ok_def)
  ultimately show "disk_tree bytes_order demo_sm demo_disk demo_tree"
    using own bytes_order_cmp demo_space(1) by (simp add: disk_tree_def demo_sm_maps)
  show "cache_sizes_ok demo_sm" by (simp add: cache_sizes_ok_def demo_sm_maps)
qed

lemma demo_open:
  obtains bt env' where "bt_open blank_mem None True None bytes_order demo_env = Done bt env'" "btree_inv demo_tree bt" "bt_cmp bt = bytes_order"
    "bt_cap bt = 8" "bt_free bt = 59" "bt_bsz bt = 1024" "bt_view bt 0 = SmBlk demo_sm" "no_full demo_sm (bt_view bt)"
proof -
  have calm: "calm demo_env" by (simp add: calm_def demo_env_def)
  have d: "disk_tree bytes_order demo_sm (env_disk demo_env) demo_tree" using demo_disk_tree(1) by (simp add: demo_env_def)
  obtain bt env' where o: "bt_open blank_mem None True None bytes_order demo_env = Done bt env'" "btree_inv demo_tree bt"
    "bt_view bt = env_disk demo_env" "bt_cmp bt = bytes_order" "bt_cap bt = smp_nblocks demo_sm div 8"
    by (rule bt_open_ok [OF d demo_disk_tree(2) calm])
  have v: "bt_view bt = demo_disk" using o(3) by (simp add: demo_env_def)
  have "demo_disk 0 = SmBlk demo_sm" by (simp add: demo_disk_def)
  with o v show thesis
    by (intro that [OF o(1,2,4)]) (simp_all add: bt_free_def bt_bsz_def demo_sm_maps demo_space)
qed

lemma demo_tree_facts [simp]:
  "theight demo_tree = 1" "trecs demo_tree = map demo_rec [1, 3, 5, 7]" "length (tblocks demo_tree) = 3"
  "demo_tree = Index p kids \<longleftrightarrow> p = 2 \<and> kids = [(demo_rec 5, Leaf 3 [demo_rec 1, demo_rec 3]), (index_record (demo_rec 5) 4, Leaf 4 [demo_rec 5, demo_rec 7])]"
  by (auto simp: demo_tree_def)

lemma demo_rec_small [simp]: "small_rec 1024 (demo_rec k)"
  by (simp add: small_rec_def demo_rec_def max_rec_def rsz_def)

lemma demo_rec_order [simp]: "bytes_order (demo_rec a) (demo_rec b) = int (unat a) - int (unat b)"
  by (simp add: bytes_order_def demo_rec_def)

section \<open>Sequences of calls\<close>

text \<open>
  C4: A sequence of \<^verbatim>\<open>bt_insert\<close>, \<^verbatim>\<open>bt_remove\<close> and \<^verbatim>\<open>bt_find\<close> calls on an open B-tree, each made in a state
  that has the means for it, returns what the dictionary specification returns, through splits, new
  roots, freed and re-used leaves, and leaves an open tree with the records of the specification in
  order; no call aborts. The means (\<open>bt_able\<close>), in the state the call is made in: the stack is two deeper
  than the tree is high, the cache has room for one more path and a block; an insertion has a small record
  (about a quarter of a block) and two free blocks per level and two more; and for a removal no bitmap is
  full, as its code asserts. There is no bound on the number of calls. When every lookup found something,
  the tree also holds no more of the cache than before; a lookup that failed may leave a child held.
\<close>

theorem bt_refines_dictionary:
  assumes "btree_open t bt" "means (bt_able depth) (dict_exec (bt_insert depth) (bt_remove depth) (bt_find depth)) ops bt"
  shows "\<exists>bt' t'. dict_run (bt_insert depth) (bt_remove depth) (bt_find depth) ops bt
        = Some (fst (spec_run (\<lambda>x y. bt_cmp bt x y = 0) ops (trecs t)), bt')
      \<and> btree_open t' bt' \<and> csorted (bt_cmp bt) (trecs t')
      \<and> set (trecs t') = set (snd (spec_run (\<lambda>x y. bt_cmp bt x y = 0) ops (trecs t)))
      \<and> (btree_inv t bt \<and> finds_hit (\<lambda>x y. bt_cmp bt x y = 0) ops (trecs t) \<longrightarrow> btree_inv t' bt')"
proof -
  have "bt_holds (bt_cmp bt) bt (set (trecs t))" unfolding bt_holds_def using assms(1) by blast
  from btd.run_refines [OF this assms(2)] obtain bt' where
    r: "dict_run (bt_insert depth) (bt_remove depth) (bt_find depth) ops bt
      = Some (fst (spec_run (\<lambda>x y. bt_cmp bt x y = 0) ops (trecs t)), bt')"
      "bt_only bt \<and> finds_hit (\<lambda>x y. bt_cmp bt x y = 0) ops (trecs t) \<longrightarrow> bt_only bt'"
    and h: "bt_holds (bt_cmp bt) bt' (set (snd (spec_run (\<lambda>x y. bt_cmp bt x y = 0) ops (trecs t))))" by blast
  obtain t' where t': "btree_open t' bt'" "set (trecs t') = set (snd (spec_run (\<lambda>x y. bt_cmp bt x y = 0) ops (trecs t)))"
    "bt_cmp bt' = bt_cmp bt" by (rule bt_holdsE [OF h])
  with r btree_openD(2) [OF t'(1)] show ?thesis unfolding btree_inv_iff by auto
qed

theorem bt_refines_dictionary_witness:
  "\<exists>bt env bt' t'. bt_open blank_mem None True None bytes_order demo_env = Done bt env \<and> btree_inv demo_tree bt
    \<and> dict_run (bt_insert 9) (bt_remove 9) (bt_find 9) [Insert (demo_rec 4), Remove (demo_rec 7), Insert (demo_rec 3), Find (demo_rec 7)] bt
      = Some ([Replied, Replied, Refused EEXIST, Refused ENOENT], bt')
    \<and> btree_open t' bt' \<and> set (trecs t') = demo_rec ` {1, 3, 4, 5}"
proof -
  let ?ops = "[Insert (demo_rec 4), Remove (demo_rec 7), Insert (demo_rec 3), Find (demo_rec 7)]"
  obtain bt env where o: "bt_open blank_mem None True None bytes_order demo_env = Done bt env" "btree_inv demo_tree bt" "bt_cmp bt = bytes_order"
    "bt_cap bt = 8" "bt_free bt = 59" "bt_bsz bt = 1024" "bt_view bt 0 = SmBlk demo_sm" by (rule demo_open)
  have "bt_reserve bt = 0" using o(7) by (simp add: bt_reserve_def demo_sm_maps)
  then have "bt_budget 9 (length ?ops) (theight demo_tree) bt" using o(4,5) by (simp add: bt_budget_def)
  then have l: "bt_left bytes_order 1024 9 (length ?ops) bt (trecs demo_tree)"
    unfolding bt_left_def using o(2,3,6) by (intro exI [of _ demo_tree]) simp
  have fit: "calls_fit (\<lambda>x y. bytes_order x y = 0) (small_rec 1024) ?ops (trecs demo_tree)" by simp
  have spec: "spec_run (\<lambda>x y. bt_cmp bt x y = 0) ?ops (trecs demo_tree)
    = ([Replied, Replied, Refused EEXIST, Refused ENOENT], [demo_rec 4, demo_rec 1, demo_rec 3, demo_rec 5])"
    unfolding o(3) by simp
  have op: "btree_open demo_tree bt" using o(2) by (simp add: btree_inv_iff)
  from bt_refines_dictionary [OF op bt_left_means [OF l fit]] o(1,2) show ?thesis
    unfolding spec by (auto simp: insert_commute)
qed

section \<open>The operations\<close>

text \<open>
  C9: \<^verbatim>\<open>bt_insert\<close> puts a small record at its place in the order, however many nodes split, and the
  tree grows by at most one level; all blocks that leave the free ones are blocks of the new tree. A
  record that compares equal to one of the tree is refused with \<^verbatim>\<open>EEXIST\<close>, the tree stays as it was, and
  at most one block is lost. No assertion fails.
\<close>

theorem bt_insert_correct:
  assumes "btree_inv t bt" "small_rec (bt_bsz bt) x" "theight t + 3 \<le> bt_cap bt" "2 * theight t + 2 \<le> bt_free bt" "theight t + 2 \<le> depth"
  shows "if \<exists>y\<in>set (trecs t). bt_cmp bt x y = 0
    then \<exists>bt'. bt_insert depth x bt = Fail EEXIST bt' \<and> btree_inv t bt' \<and> bt_free bt \<le> bt_free bt' + 1
    else \<exists>bt' t'. bt_insert depth x bt = Done () bt' \<and> btree_inv t' bt' \<and> trecs t' = ins_by (bt_cmp bt) x (trecs t)
      \<and> theight t' \<le> Suc (theight t) \<and> bt_free bt' + length (tblocks t') = bt_free bt + length (tblocks t)"
  by (rule bt_insert_result [OF assms]) auto

theorem bt_insert_correct_witness:
  "\<exists>bt env bt' t'. bt_open blank_mem None True None bytes_order demo_env = Done bt env
    \<and> bt_insert 4 (demo_rec 4) bt = Done () bt' \<and> btree_inv t' bt' \<and> trecs t' = map demo_rec [1, 3, 4, 5, 7]"
proof -
  obtain bt env where o: "bt_open blank_mem None True None bytes_order demo_env = Done bt env" "btree_inv demo_tree bt" "bt_cmp bt = bytes_order"
    "bt_cap bt = 8" "bt_free bt = 59" "bt_bsz bt = 1024" by (rule demo_open)
  have "small_rec (bt_bsz bt) (demo_rec 4)" "theight demo_tree + 3 \<le> bt_cap bt" "2 * theight demo_tree + 2 \<le> bt_free bt"
    "theight demo_tree + 2 \<le> 4" using o(4-6) by simp_all
  from bt_insert_correct [OF o(2) this] o(1,3) show ?thesis by auto
qed

text \<open>
  C10: \<^verbatim>\<open>bt_remove\<close> takes exactly the equal record out of the tree; a leaf that gets empty below the root
  is freed, and every block that leaves the tree is free again. Without an equal record it returns
  \<^verbatim>\<open>ENOENT\<close> and neither the tree nor the file changes. No bitmap may be full, or freeing a block could
  fail an assertion.
\<close>

theorem bt_remove_correct:
  assumes "btree_inv t bt" "theight t + 3 \<le> bt_cap bt" "theight t < depth" "bt_view bt 0 = SmBlk smp" "no_full smp (bt_view bt)"
  shows "if \<exists>y\<in>set (trecs t). bt_cmp bt x y = 0
    then \<exists>bt' t'. bt_remove depth x bt = Done () bt' \<and> btree_inv t' bt' \<and> trecs t' = del_by (bt_cmp bt) x (trecs t)
      \<and> theight t' \<le> theight t \<and> bt_free bt' + length (tblocks t') = bt_free bt + length (tblocks t)
    else \<exists>bt'. bt_remove depth x bt = Fail ENOENT bt' \<and> btree_inv t bt' \<and> bt_view bt' = bt_view bt"
  by (rule bt_remove_result [OF assms, of x]) auto

theorem bt_remove_correct_witness:
  "\<exists>bt env bt' t'. bt_open blank_mem None True None bytes_order demo_env = Done bt env
    \<and> bt_remove 3 (demo_rec 5) bt = Done () bt' \<and> btree_inv t' bt' \<and> trecs t' = map demo_rec [1, 3, 7]"
proof -
  obtain bt env where o: "bt_open blank_mem None True None bytes_order demo_env = Done bt env" "btree_inv demo_tree bt" "bt_cmp bt = bytes_order"
    "bt_cap bt = 8" "bt_view bt 0 = SmBlk demo_sm" "no_full demo_sm (bt_view bt)" by (rule demo_open)
  have "theight demo_tree + 3 \<le> bt_cap bt" "theight demo_tree < 3" using o(4) by simp_all
  from bt_remove_correct [OF o(2) this o(5,6), of "demo_rec 5"] o(1,3) show ?thesis by auto
qed

text \<open>
  C12: \<^verbatim>\<open>bt_find\<close> returns the record that compares equal, if there is one, and leaves the tree, its file and
  what is held of the cache as they were; otherwise it returns \<^verbatim>\<open>ENOENT\<close> and changes nothing of the file.
\<close>

theorem bt_find_correct:
  assumes "btree_inv t bt" "theight t + 2 \<le> bt_cap bt" "theight t < depth"
  shows "case List.find (\<lambda>y. bt_cmp bt x y = 0) (trecs t) of
      Some y \<Rightarrow> \<exists>bt'. bt_find depth x bt = Done y bt' \<and> btree_inv t bt' \<and> bt_view bt' = bt_view bt
    | None \<Rightarrow> \<exists>bt'. bt_find depth x bt = Fail ENOENT bt' \<and> bt_view bt' = bt_view bt"
proof (cases "List.find (\<lambda>y. bt_cmp bt x y = 0) (trecs t)")
  case None
  then show ?thesis using bt_find_result [OF assms, of x] by (auto simp: find_post_def)
next
  case (Some y)
  then have "y \<in> set (trecs t)" "bt_cmp bt x y = 0" by (auto simp: find_Some_iff)
  then obtain bt' where "bt_find depth x bt = Done y bt'" "btree_inv t bt'" "bt_view bt' = bt_view bt"
    by (rule bt_find_ready [OF assms])
  with Some show ?thesis by simp
qed

theorem bt_find_correct_witness:
  "\<exists>bt env bt'. bt_open blank_mem None True None bytes_order demo_env = Done bt env
    \<and> bt_find 2 (demo_rec 7) bt = Done (demo_rec 7) bt' \<and> btree_inv demo_tree bt'"
proof -
  obtain bt env where o: "bt_open blank_mem None True None bytes_order demo_env = Done bt env" "btree_inv demo_tree bt" "bt_cmp bt = bytes_order"
    "bt_cap bt = 8" by (rule demo_open)
  have "theight demo_tree + 2 \<le> bt_cap bt" "theight demo_tree < 2" using o(4) by simp_all
  from bt_find_correct [OF o(2) this, of "demo_rec 7"] o(1,3) show ?thesis by auto
qed

text \<open>
  C14: A lookup that fails in a tree of more than one level, none of whose root's children is freed,
  never gives back the child it looked in: the tree and the file are as before, but \<^verbatim>\<open>bt_close\<close> stops the
  program, for \<^verbatim>\<open>bc_destroy\<close> asserts that no block is held.
\<close>

theorem bt_find_miss_close_aborts:
  assumes "btree_inv t bt" "theight t + 2 \<le> bt_cap bt" "theight t < depth"
    "t = Index p kids" "\<forall>k\<in>set kids. snd k \<noteq> Gone" "\<forall>y\<in>set (trecs t). bt_cmp bt x y \<noteq> 0"
  shows "\<exists>bt'. bt_find depth x bt = Fail ENOENT bt' \<and> bt_view bt' = bt_view bt \<and> bt_close bt' = Abort"
proof -
  obtain smp where s: "tree_state bt smp (tptr t) (of_nat (length (tblocks t))) None None t"
    "bt_refs bt = (\<lambda>b. if b = bt_root bt \<or> b = bt_sm bt then 1 else 0)" by (rule btree_invE [OF assms(1)])
  note T = tree_stateD [OF s(1)]
  have ne: "bt_root bt \<noteq> bt_sm bt" using T(3,5,16) by (auto simp: held_def owned_def data_block_def)
  have "List.find (\<lambda>y. bt_cmp bt x y = 0) (trecs t) = None" using assms(6) by (simp add: find_None_iff)
  with bt_find_result [OF assms(1-3), of x] assms(4,5) obtain bt' where f: "bt_find depth x bt = Fail ENOENT bt'" "bt_good {} bt'"
    "bt_view bt' = bt_view bt" "bt_frame bt bt'" "\<forall>b. bt_refs bt b \<le> bt_refs bt' b" "\<exists>b. bt_refs bt b < bt_refs bt' b"
    by (auto simp: find_post_def)
  note F = bt_frameD [OF f(4)]
  have "bt_refs bt (bt_root bt) = 1" "bt_refs bt (bt_sm bt) = 1" using s(2) by simp_all
  then have refs: "0 < bt_refs bt' (bt_root bt')" "0 < bt_refs bt' (bt_sm bt')" "bt_root bt' \<noteq> bt_sm bt'"
    using f(5) ne unfolding F(2,3) by (metis less_numeral_extra(1) order_less_le_trans)+
  have "bt_close bt' = Abort"
  proof (rule bt_close_result [OF f(2) refs])
    fix bt2 assume "bt_close bt' = (if \<forall>b. bt_refs bt' b = (if b = bt_root bt' \<or> b = bt_sm bt' then 1 else 0) then Done () bt2 else Abort)"
    moreover have "\<not> (\<forall>b. bt_refs bt' b = (if b = bt_root bt' \<or> b = bt_sm bt' then 1 else 0))"
    proof
      assume a: "\<forall>b. bt_refs bt' b = (if b = bt_root bt' \<or> b = bt_sm bt' then 1 else 0)"
      obtain b where "bt_refs bt b < bt_refs bt' b" using f(6) by blast
      then show False unfolding a [rule_format] s(2) F(2,3) by simp
    qed
    ultimately show ?thesis by simp
  qed
  with f(1,3) show ?thesis by blast
qed

theorem bt_find_miss_close_aborts_witness:
  "\<exists>bt env bt'. bt_open blank_mem None True None bytes_order demo_env = Done bt env
    \<and> bt_find 2 (demo_rec 4) bt = Fail ENOENT bt' \<and> bt_close bt' = Abort"
proof -
  obtain bt env where o: "bt_open blank_mem None True None bytes_order demo_env = Done bt env" "btree_inv demo_tree bt" "bt_cmp bt = bytes_order"
    "bt_cap bt = 8" by (rule demo_open)
  have "theight demo_tree + 2 \<le> bt_cap bt" "theight demo_tree < 2" "\<forall>y\<in>set (trecs demo_tree). bt_cmp bt (demo_rec 4) y \<noteq> 0"
    using o(3,4) by simp_all
  from bt_find_miss_close_aborts [OF o(2) this(1,2) demo_tree_def _ this(3)] o(1) show ?thesis by auto
qed

section \<open>Opening and closing\<close>

text \<open>
  C13: A file that \<^verbatim>\<open>bt_create\<close> made opens to the empty tree: one root leaf in block 1, 65525 free blocks and
  a cache of 8192 blocks, with memory and reads that do not fail.
\<close>

theorem bt_create_open:
  assumes "bt_create created reserved closed env = Done u env'" "env_io env' = []" "never_fails (env_mem env')" "total_cmp cmp" "key_cmp cmp"
  shows "\<exists>bt env''. bt_open mem None True None cmp env' = Done bt env'' \<and> btree_inv (Leaf 1 []) bt
    \<and> bt_view bt = env_disk env' \<and> bt_free bt = 65525 \<and> bt_cap bt = 8192"
proof -
  have V: "created_disk (env_disk env')" by (rule bt_create_disk [OF assms(1)])
  have calm: "calm env'" using assms(2,3) by (simp add: calm_def)
  note C = created_tree [OF V assms(4,5)]
  obtain bt env'' where o: "bt_open mem None True None cmp env' = Done bt env''" "btree_inv (Leaf 1 []) bt"
    "bt_view bt = env_disk env'" "bt_cap bt = smp_nblocks new_sm div 8"
    by (rule bt_open_ok [OF C calm])
  moreover have "bt_free bt = 65525"
    using V created_space(3) [OF V] unfolding bt_free_def o(3) by (simp add: created_disk_def)
  ultimately show ?thesis by (intro exI [of _ bt] exI [of _ env'']) (simp add: new_sm_maps)
qed

theorem bt_create_open_witness:
  "\<exists>env' bt env''. bt_create None None None rw_ok = Done () env' \<and> bt_open blank_mem None True None bytes_order env' = Done bt env''
    \<and> btree_inv (Leaf 1 []) bt \<and> bt_free bt = 65525"
proof -
  have "\<exists>env'. bt_create None None None rw_ok = Done () env' \<and> env_io env' = [] \<and> never_fails (env_mem env')"
    unfolding bt_create_def new_file_eq
    by (simp add: rw_ok_def env_alloc_def file_write_def env_pwrite_def env_sync_def env_fsync_def new_sm_eq)
  then obtain env' where c: "bt_create None None None rw_ok = Done () env'" "env_io env' = []" "never_fails (env_mem env')" by blast
  from bt_create_open [OF c bytes_order_cmp, of blank_mem] c(1) show ?thesis by blast
qed

text \<open>
  C11: With an environment that does not fail, \<^verbatim>\<open>bt_close\<close> on an open tree succeeds and leaves in the file what
  the tree shows through its cache; \<^verbatim>\<open>bt_open\<close> then succeeds and finds the same tree there.
\<close>

theorem bt_close_reopen:
  assumes "btree_inv t bt" "bt_view bt 0 = SmBlk smp" "cache_sizes_ok smp"
  shows "\<exists>bt' bt'' env. bt_close bt = Done () bt' \<and> env_disk (snd (bt_bc bt')) = bt_view bt
    \<and> bt_open mem None True None (bt_cmp bt) (snd (bt_bc bt')) = Done bt'' env \<and> btree_inv t bt'' \<and> bt_view bt'' = bt_view bt"
proof -
  obtain bt' where c: "bt_close bt = Done () bt'" "calm (snd (bt_bc bt'))" "env_disk (snd (bt_bc bt')) = bt_view bt"
    by (rule bt_close_inv [OF assms(1)])
  have d: "disk_tree (bt_cmp bt) smp (env_disk (snd (bt_bc bt'))) t" using btree_inv_disk [OF assms(1)] assms(2) c(3) by auto
  obtain bt'' env where "bt_open mem None True None (bt_cmp bt) (snd (bt_bc bt')) = Done bt'' env" "btree_inv t bt''"
    "bt_view bt'' = env_disk (snd (bt_bc bt'))" by (rule bt_open_ok [OF d assms(3) c(2)])
  with c show ?thesis by auto
qed

theorem bt_close_reopen_witness:
  "\<exists>bt env bt' bt'' env'. bt_open blank_mem None True None bytes_order demo_env = Done bt env \<and> bt_close bt = Done () bt'
    \<and> bt_open blank_mem None True None bytes_order (snd (bt_bc bt')) = Done bt'' env' \<and> btree_inv demo_tree bt''"
proof -
  obtain bt env where o: "bt_open blank_mem None True None bytes_order demo_env = Done bt env" "btree_inv demo_tree bt" "bt_cmp bt = bytes_order"
    "bt_view bt 0 = SmBlk demo_sm" by (rule demo_open)
  from bt_close_reopen [OF o(2,4) demo_disk_tree(2), of blank_mem] o(1,3) show ?thesis by auto
qed

end
