(* ===== verification/Spec2Isabelle.thy ===== *)
theory Spec2Isabelle
  imports LinkedList AvlDict Fifo HeapQueue HashSpec BinaryTree UdSpec UdShortest UdwSpec BcacheSpec BtreeProps
begin

text \<open>
  A verification development for the C library \<^verbatim>\<open>data_structs\<close>: linked lists, AVL trees, fifos,
  heaps, hash tables, binary trees, graphs, a cache of disk blocks and a B-tree in a file over it.

  How the program is modelled. Every function of a component is one definition with the
  name of the C function. Its state is a record with the fields of the C struct. A call returns
  an \<open>outcome\<close> (\<open>CPrelude\<close>): \<open>Done\<close> with the result and the state left behind, \<open>Fail\<close> with the error
  code and the state left behind, or \<open>Abort\<close> for a failed assertion and for a dereference of NULL or
  of a wild pointer. Calls of \<^verbatim>\<open>malloc\<close> read their result off a list in the state (\<open>allocator\<close>), so
  that every out-of-memory path is a branch of the model; client callbacks are functions that may
  fail, stop the iteration or abort. Recursion over data is a \<open>fun\<close>; a loop without a bound is a
  \<open>partial_function\<close> or \<open>while_option\<close>, and that it ends is proved.

  The theories:
  \<^item> \<open>CPrelude\<close>: outcomes, the allocator, callbacks, comparison functions, sorted lists.
  \<^item> \<open>DictSpec\<close>: the dictionary contract (locale \<open>dict\<close>), its sequential specification, and the
    contract of a dictionary whose calls need means of the state they are made in (\<open>guarded_dict\<close>);
    \<open>QueueSpec\<close>: the queue and the priority-queue contracts.
  \<^item> \<open>LinkedList\<close> (\<^verbatim>\<open>linked_lists/linked_list.c\<close>), an interpretation of \<open>dict\<close>.
  \<^item> \<open>AvlTree\<close>, \<open>AvlCorrect\<close>, \<open>AvlDict\<close> (\<^verbatim>\<open>avl_trees/avl_tree.c\<close>): the code, the proofs about
    rotations, insertion and removal, the interpretation of \<open>dict\<close>.
  \<^item> \<open>Fifo\<close> (\<^verbatim>\<open>queues/fifos/fifo.c\<close>) and \<open>HeapQueue\<close> (\<^verbatim>\<open>queues/heaps/heap.c\<close>), interpretations of
    \<open>fifo_queue\<close> and \<open>prio_queue\<close>.
  \<^item> \<open>HashTable\<close>, \<open>HashCorrect\<close>, \<open>HashSpec\<close> (\<^verbatim>\<open>hash_tables/hash_table.c\<close>), over the linked lists.
    \<^verbatim>\<open>ht_resize\<close> does not clear the table it allocates: \<open>HashCorrect\<close> interprets \<open>dict\<close> for memory that
    reads as NULL, and \<open>HashSpec\<close> compares every call with that, for whatever the memory holds.
  \<^item> \<open>BinaryTree\<close> (\<^verbatim>\<open>binary_trees/binary_tree.c\<close>).
  \<^item> \<open>UdGraph\<close>, \<open>UdPaths\<close>, \<open>UdCorrect\<close>, \<open>UdSpec\<close>, \<open>UdShortest\<close> (\<^verbatim>\<open>graphs/ud_graph/ud_graph.c\<close>), over
    AVL trees, fifos and linked lists; \<open>Hops\<close> holds the distances the shortest-path proof needs.
  \<^item> \<open>UdwGraph\<close>, \<open>UdwCorrect\<close>, \<open>UdwShortest\<close>, \<open>UdwSpec\<close> (\<^verbatim>\<open>graphs/udw_graph/udw_graph.c\<close>), over AVL
    trees, the heap and linked lists: building and checking a graph, and the search of whole paths by
    their 64-bit length.
  \<^item> \<open>Bcache\<close>, \<open>BcacheCorrect\<close>, \<open>BcacheSpec\<close> (\<^verbatim>\<open>bcache/bcache.c\<close>), over the hash table. The backing
    file is a function from block numbers to blocks, so block number times block size is taken not
    to overflow 64 bits; whether a read or a write succeeds is read off a list. An operation runs
    under the cache's lock, so it is one step.
  \<^item> The B-tree (\<^verbatim>\<open>btrees/btree.c\<close>), over the block cache and the fifo. The code: \<open>BtreePhys\<close> (the blocks
    of the file), \<open>Btree\<close> (bitmaps, the space manager, nodes and records), \<open>BtreeOps\<close> (insertion with
    splits, lookup, removal), \<open>BtreeFile\<close> (creating, opening, closing, checking, reading a file node by
    node). The proofs, from the cache upwards: \<open>BtreeCache\<close> (what the cache shows, what is held),
    \<open>BtreeSpace\<close> (allocated and free blocks), \<open>BtreeNode\<close> (one node, its space, its splits), \<open>BtreeTree\<close>
    (the tree in the blocks, its order, lookup), \<open>BtreeUpdate\<close> (changing one child), \<open>BtreeRemove\<close>,
    \<open>BtreeInsert\<close>, \<open>BtreeGrow\<close> (splits on the way up), \<open>BtreeSpec\<close> (the invariant \<open>btree_inv\<close> of an open
    tree, a new root), \<open>BtreeDict\<close> (the operations as those of a sorted list), \<open>BtreeLife\<close> (opening and
    closing), \<open>BtreeRun\<close> (what a call needs, the interpretation of \<open>guarded_dict\<close>), \<open>BtreeFileSpec\<close> (new files) and
    \<open>BtreeProps\<close> (the properties).

  How the B-tree is modelled. A block is one of the four kinds of the C structs; reading a block as
  another kind than it is stops the program (\<open>Abort\<close>). The bytes of a node's record area are the list of
  its records, whose 16-bit sizes and the free space of the node are computed as in the code; a record is
  its key bytes and value bytes, and an index record ends with the eight bytes of a block number. The
  order of the records is the client's comparison.

  What the proofs about the B-tree assume: reads, writes and allocations do not fail; the cache has room
  for the path that is held; the file has free blocks for an insertion (two per level, and two more), each
  of them in the state the call is made in, so that a sequence of calls has no bound of its own; the block
  size is between 82 and 32768; records are at most about a quarter of a block (\<open>small_rec\<close>), so that
  a node never splits into three, which the code does not support; the comparison is a total preorder that
  reads only the keys. That a bitmap is not full when a block is freed is a hypothesis of the removal (the
  code asserts it the wrong way round). Lookups that fail leave a child held in the cache: sequences of
  calls may contain them (\<open>btree_open\<close>), but the tree cannot be closed afterwards, which is a theorem too.

  Bounds and fuel. Depth-first search gets a stack depth; one more than the number of nodes is
  enough. The breadth-first loops are partial functions that are proved to return. The recursion down a
  B-tree gets a stack depth too; two more than the height of the tree is enough.

  Where the model is wider than the machine. \<^verbatim>\<open>int\<close> indices and counters (of fifos, heaps and reference
  counts) and block numbers are natural numbers, which differ only from \<open>2 ^ 31\<close> elements or references on;
  8, 16, 32 and 64-bit fields whose width matters are words. The nodes passed to a graph are nodes of that
  graph, so that the assertions on \<^verbatim>\<open>n_graph\<close> in its comparisons hold and are left out. Checks of the kinds
  of a B-tree's cached blocks are called by \<open>bt_check\<close> and not from the operations of a block.

  Not modelled: the dump functions, which only print, \<^verbatim>\<open>bt_destroy\<close>, which only removes the file, and the
  test programs with their record types.
\<close>

end
